(* ===== verification/CaskPrelude.thy ===== *)
theory CaskPrelude
  imports Main "HOL-Library.Word" "HOL-Library.Multiset"
begin

text \<open>
  Shared vocabulary of the development: addresses, the faults a C program can run into, the
  result type of operations that may fault, the fact collections the component proofs use, and
  generic list lemmas.

  Pointers are natural numbers, \<open>NULL\<close> is \<open>0\<close>.  An operation that can hit a \<open>PANIC\<close> / \<open>exit\<close>,
  dereference \<open>NULL\<close> or touch memory outside an allocated block returns \<open>Inl\<close> of the fault; a
  proof that an operation is safe is a proof that it returns \<open>Inr\<close>.
\<close>

type_synonym addr = nat

abbreviation (input) NULL :: addr where
  "NULL \<equiv> 0"

datatype fault =
    Panic string          \<comment> \<open>the \<open>PANIC\<close> / \<open>MY_ASSERT\<close> / \<open>assert\<close> macros: the process exits\<close>
  | NullDeref             \<comment> \<open>a \<open>NULL\<close> pointer is dereferenced\<close>
  | OutOfBounds           \<comment> \<open>a read or write outside the allocated block\<close>
  | UseAfterFree          \<comment> \<open>memory is used after it was freed\<close>
  | BadIndex              \<comment> \<open>a table is indexed outside its declared size\<close>

type_synonym 'a res = "fault + 'a"

text \<open>Sequencing of operations that may fault.\<close>

definition rbind :: "'a res \<Rightarrow> ('a \<Rightarrow> 'b res) \<Rightarrow> 'b res" where
  "rbind m k = (case m of Inl f \<Rightarrow> Inl f | Inr x \<Rightarrow> k x)"

lemma rbind_simps [simp]: "rbind (Inr x) k = k x" "rbind (Inl f) k = Inl f"
  by (simp_all add: rbind_def)

lemma rbind_Inr_iff: "rbind m k = Inr y \<longleftrightarrow> (\<exists>x. m = Inr x \<and> k x = Inr y)"
  by (cases m) auto

text \<open>Collections: \<open>ring_simps\<close> for the linked lists of \<open>list.c\<close>, \<open>refine_simps\<close> for abstraction
  equations, \<open>inv_intros\<close> for preservation of component invariants.\<close>

named_theorems ring_simps
named_theorems refine_simps
named_theorems inv_intros

section \<open>Lists updated by index\<close>

lemma take_list_update_Suc:
  "i < length xs \<Longrightarrow> take (Suc i) (xs[i := x]) = take i xs @ [x]"
  by (simp add: take_Suc_conv_app_nth)

lemma mset_list_swap:
  "i < length xs \<Longrightarrow> j < length xs \<Longrightarrow> mset (xs[i := xs ! j, j := xs ! i]) = mset xs"
  by (rule mset_swap)

lemma drop_nth_Cons: "i < length xs \<Longrightarrow> drop i xs = xs ! i # drop (Suc i) xs"
  by (rule Cons_nth_drop_Suc [symmetric])

lemma list_update_split:
  "length pre = i \<Longrightarrow> (pre @ y # post)[i := x] = pre @ x # post"
  by (auto simp: list_update_append)

lemma nth_split: "length pre = i \<Longrightarrow> (pre @ y # post) ! i = y"
  by (auto simp: nth_append)

lemma butlast_take_length: "xs \<noteq> [] \<Longrightarrow> take (length xs - 1) xs = butlast xs"
  by (simp add: butlast_conv_take)

end
