(* ===== verification/CaskList.thy ===== *)
theory CaskList
  imports CaskPrelude
begin

text \<open>
  \<open>list.h\<close> / \<open>list.c\<close>: the intrusive circular doubly linked list every queue of libcask is built
  from (run queue, wait lists of mutex, condition variable and semaphore, time wheel slots, hash
  buckets, deque).  The memory of the \<open>struct _list_st\<close> nodes is a record of two field functions;
  an operation maps the memory to the new memory.  \<open>ring h q xs\<close> says that from the head \<open>q\<close> the
  nodes \<open>xs\<close> are linked in this order, forwards and backwards.
\<close>

section \<open>Model of list.c\<close>

record links =
  prv :: "addr \<Rightarrow> addr"
  nxt :: "addr \<Rightarrow> addr"

definition list_init :: "addr \<Rightarrow> links \<Rightarrow> links" where
  "list_init ls h = h\<lparr>prv := (prv h)(ls := ls), nxt := (nxt h)(ls := ls)\<rparr>"

text \<open>The macro \<open>_list_add(elm, p, n)\<close>.  Both callers pass an expression for \<open>p\<close> or \<open>n\<close>; its
  value is read when the statement that uses it starts, that is, the address of the left operand
  of \<open>p->next = n->prev = elm\<close> is computed before the stores (the order gcc uses).\<close>

definition list_add_raw :: "addr \<Rightarrow> addr \<Rightarrow> addr \<Rightarrow> links \<Rightarrow> links" where
  "list_add_raw elm p n h =
     (let h1 = h\<lparr>prv := (prv h)(elm := p)\<rparr>;
          h2 = h1\<lparr>nxt := (nxt h1)(elm := n)\<rparr>;
          h3 = h2\<lparr>prv := (prv h2)(n := elm)\<rparr>
      in h3\<lparr>nxt := (nxt h3)(p := elm)\<rparr>)"

definition list_add_before :: "addr \<Rightarrow> addr \<Rightarrow> links \<Rightarrow> links" where
  "list_add_before ls elm h = list_add_raw elm (prv h ls) ls h"

definition list_add_after :: "addr \<Rightarrow> addr \<Rightarrow> links \<Rightarrow> links" where
  "list_add_after ls elm h = list_add_raw elm ls (nxt h ls) h"

definition list_add :: "addr \<Rightarrow> addr \<Rightarrow> links \<Rightarrow> links" where
  "list_add ls elm h = list_add_after ls elm h"

definition list_delete_raw :: "addr \<Rightarrow> addr \<Rightarrow> links \<Rightarrow> links" where
  "list_delete_raw p n h =
     (let h1 = h\<lparr>nxt := (nxt h)(p := n)\<rparr>
      in h1\<lparr>prv := (prv h1)(n := p)\<rparr>)"

definition list_delete :: "addr \<Rightarrow> links \<Rightarrow> links" where
  "list_delete elm h = list_init elm (list_delete_raw (prv h elm) (nxt h elm) h)"

definition list_next :: "addr \<Rightarrow> links \<Rightarrow> addr" where
  "list_next ls h = nxt h ls"

definition list_prev :: "addr \<Rightarrow> links \<Rightarrow> addr" where
  "list_prev ls h = prv h ls"

definition list_empty :: "addr \<Rightarrow> links \<Rightarrow> bool" where
  "list_empty ls h \<longleftrightarrow> prv h ls = nxt h ls \<and> prv h ls = ls"

text \<open>Walking \<open>next\<close> from a node until the head comes up again, for at most \<open>n\<close> nodes: the loop
  \<open>while(ls != &head) ... ls = list_next(ls)\<close> of the clients.\<close>

fun list_walk :: "nat \<Rightarrow> addr \<Rightarrow> addr \<Rightarrow> links \<Rightarrow> addr list" where
  "list_walk 0 q ls h = []"
| "list_walk (Suc n) q ls h = (if ls = q then [] else ls # list_walk n q (list_next ls h) h)"

section \<open>Segments and rings\<close>

fun dseg :: "links \<Rightarrow> addr \<Rightarrow> addr list \<Rightarrow> addr \<Rightarrow> bool" where
  "dseg h a [] b \<longleftrightarrow> nxt h a = b \<and> prv h b = a"
| "dseg h a (x # xs) b \<longleftrightarrow> nxt h a = x \<and> prv h x = a \<and> dseg h x xs b"

definition ring :: "links \<Rightarrow> addr \<Rightarrow> addr list \<Rightarrow> bool" where
  "ring h q xs \<longleftrightarrow> distinct (q # xs) \<and> dseg h q xs q"

text \<open>The cells of two memories agree on a set of nodes.\<close>

definition same_on :: "addr set \<Rightarrow> links \<Rightarrow> links \<Rightarrow> bool" where
  "same_on A h h' \<longleftrightarrow> (\<forall>a\<in>A. prv h' a = prv h a \<and> nxt h' a = nxt h a)"

lemma dseg_append:
  "dseg h a (xs @ y # ys) b \<longleftrightarrow> dseg h a xs y \<and> dseg h y ys b"
  by (induction xs arbitrary: a) auto

lemma dseg_cong:
  assumes "\<And>c. c \<in> set (a # xs) \<Longrightarrow> nxt h' c = nxt h c"
    and "\<And>c. c \<in> set (xs @ [b]) \<Longrightarrow> prv h' c = prv h c"
  shows "dseg h' a xs b \<longleftrightarrow> dseg h a xs b"
  using assms by (induction xs arbitrary: a) auto

lemma dseg_next_upd [ring_simps]:
  "c \<notin> set (a # xs) \<Longrightarrow> dseg (h\<lparr>nxt := (nxt h)(c := v)\<rparr>) a xs b \<longleftrightarrow> dseg h a xs b"
  by (rule dseg_cong) auto

lemma dseg_prev_upd [ring_simps]:
  "c \<notin> set (xs @ [b]) \<Longrightarrow> dseg (h\<lparr>prv := (prv h)(c := v)\<rparr>) a xs b \<longleftrightarrow> dseg h a xs b"
  by (rule dseg_cong) auto

lemma dseg_ends:
  assumes "dseg h a xs b"
  shows "nxt h a = (if xs = [] then b else hd xs)" "prv h b = (if xs = [] then a else last xs)"
  using assms by (induction xs arbitrary: a) auto

lemma ring_frame:
  "ring h q xs \<Longrightarrow> same_on (set (q # xs)) h h' \<Longrightarrow> ring h' q xs"
  unfolding ring_def same_on_def
  by (subst dseg_cong [where h = h]) auto

lemma ring_ends:
  assumes "ring h q xs"
  shows "list_next q h = (if xs = [] then q else xs ! 0)"
    and "list_prev q h = (if xs = [] then q else last xs)"
  using assms dseg_ends [of h q xs q]
  by (auto simp: ring_def list_next_def list_prev_def hd_conv_nth)

lemma ring_empty_iff:
  assumes "ring h q xs"
  shows "list_empty q h \<longleftrightarrow> xs = []"
  using ring_ends [OF assms] assms
  by (auto simp: list_empty_def list_next_def list_prev_def ring_def split: if_splits)

lemma ring_Nil [simp]: "ring h q [] \<longleftrightarrow> nxt h q = q \<and> prv h q = q"
  by (simp add: ring_def)

lemma ring_distinct: "ring h q xs \<Longrightarrow> distinct (q # xs)"
  by (simp add: ring_def)

lemma ring_init: "ring (list_init a h) a []"
  by (simp add: list_init_def)

lemma list_init_same: "a \<notin> A \<Longrightarrow> same_on A h (list_init a h)"
  by (auto simp: same_on_def list_init_def)

text \<open>A node of a ring that has other nodes is never \<open>list_empty\<close>: the test \<open>while(!list_empty(ls))\<close>
  of the clients goes on for every linked node.\<close>

lemma ring_member_not_empty:
  assumes "ring h q xs" "x \<in> set xs"
  shows "\<not> list_empty x h"
proof -
  obtain us vs where xs: "xs = us @ x # vs"
    using assms(2) by (meson split_list)
  have d: "distinct (q # us @ x # vs)" and s: "dseg h q us x"
    using assms(1) by (auto simp: ring_def xs dseg_append)
  have "prv h x = (if us = [] then q else last us)"
    using dseg_ends(2) [OF s] .
  then have "prv h x \<noteq> x"
    using d last_in_set [of us] by (auto split: if_splits)
  then show ?thesis
    by (simp add: list_empty_def)
qed

section \<open>Insertion\<close>

lemma list_add_raw_fields [simp]:
  "nxt (list_add_raw e p n h) = (nxt h)(e := n, p := e)"
  "prv (list_add_raw e p n h) = (prv h)(e := p, n := e)"
  by (simp_all add: list_add_raw_def Let_def)

lemma list_delete_fields [simp]:
  "nxt (list_delete e h) = (nxt h)(prv h e := nxt h e, e := e)"
  "prv (list_delete e h) = (prv h)(nxt h e := prv h e, e := e)"
  by (simp_all add: list_delete_def list_delete_raw_def list_init_def Let_def)

lemma list_add_after_ring:
  assumes r: "ring h q xs" and e: "e \<notin> set (q # xs)"
  shows "ring (list_add_after q e h) q (e # xs)"
proof (cases xs)
  case Nil
  with assms show ?thesis
    by (auto simp: ring_def list_add_after_def)
next
  case (Cons x xs')
  have "dseg h x xs' q" "nxt h q = x" "prv h x = q" "distinct (q # x # xs')"
    using r by (auto simp: ring_def Cons)
  moreover from this e have "dseg (list_add_after q e h) x xs' q \<longleftrightarrow> dseg h x xs' q"
    by (intro dseg_cong) (auto simp: list_add_after_def Cons)
  ultimately show ?thesis
    using e by (auto simp: ring_def list_add_after_def Cons)
qed

lemma list_add_before_ring:
  assumes r: "ring h q xs" and e: "e \<notin> set (q # xs)"
  shows "ring (list_add_before q e h) q (xs @ [e])"
proof (cases xs rule: rev_cases)
  case Nil
  with assms show ?thesis
    by (auto simp: ring_def list_add_before_def)
next
  case (snoc us u)
  have "dseg h q us u" "nxt h u = q" "prv h q = u" "distinct (q # us @ [u])"
    using r by (auto simp: ring_def snoc dseg_append)
  moreover from this e have "dseg (list_add_before q e h) q us u \<longleftrightarrow> dseg h q us u"
    by (intro dseg_cong) (auto simp: list_add_before_def snoc)
  ultimately show ?thesis
    using e by (auto simp: ring_def list_add_before_def snoc dseg_append)
qed

lemma list_add_same:
  assumes "ring h q xs" "A \<inter> set (q # xs) = {}" "e \<notin> A"
  shows "same_on A h (list_add_after q e h)" "same_on A h (list_add_before q e h)"
proof -
  have "nxt h q \<in> set (q # xs)" "prv h q \<in> set (q # xs)"
    using ring_ends [OF assms(1)] by (auto simp: list_next_def list_prev_def split: if_splits)
  then show "same_on A h (list_add_after q e h)" "same_on A h (list_add_before q e h)"
    using assms(2,3) by (auto simp: same_on_def list_add_after_def list_add_before_def)
qed

section \<open>Deletion\<close>

lemma dseg_end_mem:
  assumes "dseg h a xs b"
  shows "nxt h a \<in> set (xs @ [b])" "prv h b \<in> set (a # xs)"
  using dseg_ends [OF assms] by (auto split: if_splits)

lemma dseg_unlink:
  assumes "dseg h a us x" "dseg h x vs b" "distinct (a # us @ x # vs)" "distinct (us @ x # vs @ [b])"
  shows "dseg (list_delete x h) a (us @ vs) b"
  using assms
proof (induction us arbitrary: a)
  case Nil
  show ?case
  proof (cases vs)
    case Nil
    with Nil.prems show ?thesis by auto
  next
    case (Cons v vs')
    with Nil.prems have "dseg (list_delete x h) v vs' b \<longleftrightarrow> dseg h v vs' b"
      by (intro dseg_cong) auto
    with Cons Nil.prems show ?thesis by auto
  qed
next
  case (Cons u us)
  have "dseg (list_delete x h) u (us @ vs) b"
    using Cons.prems by (intro Cons.IH) auto
  moreover have "prv h x \<in> set (u # us)" "nxt h x \<in> set (vs @ [b])"
    using dseg_end_mem Cons.prems(1,2) by (metis dseg.simps(2))+
  ultimately show ?case
    using Cons.prems by auto
qed

lemma list_delete_ring:
  assumes r: "ring h q (us @ x # vs)"
  shows "ring (list_delete x h) q (us @ vs)"
  using assms by (auto simp: ring_def dseg_append intro: dseg_unlink)

lemma list_delete_detached: "ring (list_delete x h) x []"
  by simp

lemma list_delete_same:
  assumes "ring h q xs" "x \<in> set (q # xs)" "A \<inter> set (q # xs) = {}"
  shows "same_on A h (list_delete x h)"
proof -
  have "nxt h x \<in> set (q # xs) \<and> prv h x \<in> set (q # xs)"
  proof (cases "x = q")
    case True
    then show ?thesis
      using ring_ends [OF assms(1)] by (auto simp: list_next_def list_prev_def split: if_splits)
  next
    case False
    then obtain us vs where "xs = us @ x # vs"
      using assms(2) by (metis set_ConsD split_list)
    then show ?thesis
      using assms(1) dseg_end_mem [of h q us x] dseg_end_mem [of h x vs q]
      by (auto simp: ring_def dseg_append)
  qed
  then show ?thesis
    using assms(2,3) by (auto simp: same_on_def)
qed

lemma list_delete_detached_id:
  assumes "ring h x []"
  shows "list_delete x h = h"
  using assms by (cases h) (auto simp: list_delete_def list_delete_raw_def list_init_def Let_def fun_upd_idem)

text \<open>Rings that share a memory: the frame rule for a client that holds several lists.\<close>

lemma ring_same_on_disjoint:
  assumes "ring h q' ys" "same_on A h h'" "set (q' # ys) \<subseteq> A"
  shows "ring h' q' ys"
  by (rule ring_frame [OF assms(1)]) (use assms(2,3) in \<open>auto simp: same_on_def\<close>)

section \<open>Walking a ring\<close>

lemma list_walk_dseg:
  assumes "dseg h a xs q" "q \<notin> set xs" "length xs < n"
  shows "list_walk n q (list_next a h) h = xs"
  using assms
proof (induction xs arbitrary: a n)
  case Nil
  then show ?case by (cases n) (auto simp: list_next_def)
next
  case (Cons x xs)
  then obtain m where "n = Suc m" by (cases n) auto
  with Cons show ?case by (auto simp: list_next_def)
qed

lemma list_walk_ring:
  "ring h q xs \<Longrightarrow> length xs < n \<Longrightarrow> list_walk n q (list_next q h) h = xs"
  by (intro list_walk_dseg) (auto simp: ring_def)

lemma ring_unique:
  assumes "ring h q xs" "ring h q ys"
  shows "xs = ys"
  using list_walk_ring [OF assms(1), of "Suc (length xs + length ys)"]
    list_walk_ring [OF assms(2), of "Suc (length xs + length ys)"] by simp

end
