(* ===== verification/CaskDeque.thy ===== *)
theory CaskDeque
  imports CaskList
begin

text \<open>
  \<open>deque.h\<close> / \<open>deque.c\<close> with the \<open>queue.h\<close> and \<open>stack.h\<close> wrappers: a deque of \<open>void *\<close> elements
  on an intrusive ring.  The state is the deque header, the links and \<open>elm\<close> fields of the nodes,
  and the allocator: \<open>malloc\<close> hands out the next unused address and is assumed to succeed (the code
  never tests its result), \<open>free\<close> clears the liveness mark.
\<close>

section \<open>Model of deque.c\<close>

record deque =
  head :: addr                 \<comment> \<open>the embedded \<open>list_t head\<close>\<close>
  dsize :: nat                 \<comment> \<open>\<open>int size\<close>: only decremented when nonzero\<close>
  lk :: links
  elm :: "addr \<Rightarrow> addr"        \<comment> \<open>\<open>node_t.elm\<close>, by the address of the node\<close>
  live :: "addr \<Rightarrow> bool"
  brk :: addr                  \<comment> \<open>the next address \<open>malloc\<close> returns\<close>

definition deque_init :: "deque \<Rightarrow> deque" where
  "deque_init d = d\<lparr>lk := list_init (head d) (lk d), dsize := 0\<rparr>"

definition deque_size :: "deque \<Rightarrow> nat" where
  "deque_size d = dsize d"

definition deque_empty :: "deque \<Rightarrow> bool" where
  "deque_empty d \<longleftrightarrow> deque_size d = 0"

definition new_node :: "addr \<Rightarrow> deque \<Rightarrow> addr \<times> deque" where
  "new_node e d =
     (let n = brk d;
          d1 = d\<lparr>brk := Suc n, live := (live d)(n := True)\<rparr>;
          d2 = d1\<lparr>elm := (elm d1)(n := e)\<rparr>
      in (n, d2\<lparr>lk := list_init n (lk d2)\<rparr>))"

definition delete_node :: "addr \<Rightarrow> deque \<Rightarrow> deque" where
  "delete_node n d =
     (if n \<noteq> NULL
      then (let d1 = d\<lparr>lk := list_delete n (lk d)\<rparr> in d1\<lparr>live := (live d1)(n := False)\<rparr>)
      else d)"

definition deque_push_front :: "addr \<Rightarrow> deque \<Rightarrow> deque" where
  "deque_push_front e d =
     (let (n, d1) = new_node e d
      in d1\<lparr>lk := list_add_after (head d1) n (lk d1), dsize := dsize d1 + 1\<rparr>)"

definition deque_push_back :: "addr \<Rightarrow> deque \<Rightarrow> deque" where
  "deque_push_back e d =
     (let (n, d1) = new_node e d
      in d1\<lparr>lk := list_add_before (head d1) n (lk d1), dsize := dsize d1 + 1\<rparr>)"

definition deque_pop :: "bool \<Rightarrow> deque \<Rightarrow> addr \<times> deque" where
  "deque_pop front d =
     (if deque_empty d then (NULL, d)
      else let l = (if front then list_next (head d) (lk d) else list_prev (head d) (lk d));
               d1 = d\<lparr>lk := list_delete l (lk d)\<rparr>;
               e = elm d1 l;
               d2 = delete_node l d1
           in (e, d2\<lparr>dsize := dsize d2 - 1\<rparr>))"

definition deque_pop_front :: "deque \<Rightarrow> addr \<times> deque" where
  "deque_pop_front d = deque_pop True d"

definition deque_pop_back :: "deque \<Rightarrow> addr \<times> deque" where
  "deque_pop_back d = deque_pop False d"

lemma deque_pop_size: "dsize d \<noteq> 0 \<Longrightarrow> dsize (snd (deque_pop f d)) < dsize d"
  by (simp add: deque_pop_def deque_empty_def deque_size_def delete_node_def Let_def)

lemma deque_pop_empty: "dsize d = 0 \<Longrightarrow> deque_pop f d = (NULL, d)"
  by (simp add: deque_pop_def deque_empty_def deque_size_def)

function deque_clear :: "deque \<Rightarrow> deque" where
  "deque_clear d = (if \<not> deque_empty d then deque_clear (snd (deque_pop_front d)) else d)"
  by pat_completeness auto
termination
  by (relation "measure dsize")
     (auto simp: deque_empty_def deque_size_def deque_pop_front_def deque_pop_size)

declare deque_clear.simps [simp del]

text \<open>\<open>deque_destory\<close> is \<open>do { deque_pop_back(d); } while(!deque_empty(d))\<close>.\<close>

function deque_destory :: "deque \<Rightarrow> deque" where
  "deque_destory d =
     (let d1 = snd (deque_pop_back d) in if \<not> deque_empty d1 then deque_destory d1 else d1)"
  by pat_completeness auto
termination
proof (relation "measure dsize")
  fix d d1
  assume "d1 = snd (deque_pop_back d)" "\<not> deque_empty d1"
  then show "(d1, d) \<in> measure dsize"
    by (cases "dsize d = 0")
       (simp_all add: deque_empty_def deque_size_def deque_pop_back_def deque_pop_empty deque_pop_size)
qed simp

declare deque_destory.simps [simp del]

text \<open>The \<open>queue.h\<close> and \<open>stack.h\<close> macros.\<close>

abbreviation queue_push :: "addr \<Rightarrow> deque \<Rightarrow> deque" where
  "queue_push \<equiv> deque_push_back"

abbreviation queue_pop :: "deque \<Rightarrow> addr \<times> deque" where
  "queue_pop \<equiv> deque_pop_front"

abbreviation stack_push :: "addr \<Rightarrow> deque \<Rightarrow> deque" where
  "stack_push \<equiv> deque_push_back"

abbreviation stack_pop :: "deque \<Rightarrow> addr \<times> deque" where
  "stack_pop \<equiv> deque_pop_back"

section \<open>Invariant and abstraction\<close>

definition deque_nodes :: "deque \<Rightarrow> addr list" where
  "deque_nodes d = list_walk (Suc (dsize d)) (head d) (list_next (head d) (lk d)) (lk d)"

definition deque_elems :: "deque \<Rightarrow> addr list" where
  "deque_elems d = map (elm d) (deque_nodes d)"

definition deque_inv :: "deque \<Rightarrow> bool" where
  "deque_inv d \<longleftrightarrow> ring (lk d) (head d) (deque_nodes d) \<and> dsize d = length (deque_nodes d) \<and>
     head d < brk d \<and> 0 < brk d \<and> \<not> live d (head d) \<and>
     (\<forall>a. live d a \<longleftrightarrow> a \<in> set (deque_nodes d)) \<and>
     (\<forall>a\<in>set (deque_nodes d). a < brk d \<and> a \<noteq> NULL)"

definition deque_rep :: "deque \<Rightarrow> addr list \<Rightarrow> bool" where
  "deque_rep d ns \<longleftrightarrow> ring (lk d) (head d) ns \<and> dsize d = length ns \<and> head d < brk d \<and> 0 < brk d \<and>
     \<not> live d (head d) \<and> (\<forall>a. live d a \<longleftrightarrow> a \<in> set ns) \<and> (\<forall>a\<in>set ns. a < brk d \<and> a \<noteq> NULL)"

lemma deque_rep_nodes: "deque_rep d ns \<Longrightarrow> deque_nodes d = ns"
  by (simp add: deque_rep_def deque_nodes_def list_walk_ring del: list_walk.simps)

lemma deque_inv_rep: "deque_inv d \<longleftrightarrow> deque_rep d (deque_nodes d)"
  by (simp add: deque_inv_def deque_rep_def)

lemma deque_rep_inv: "deque_rep d ns \<Longrightarrow> deque_inv d"
  using deque_rep_nodes deque_inv_rep by metis

lemma deque_rep_elems: "deque_rep d ns \<Longrightarrow> deque_elems d = map (elm d) ns"
  by (simp add: deque_elems_def deque_rep_nodes)

section \<open>Preservation and functional behaviour\<close>

lemma deque_init_rep:
  assumes "head d < brk d" "\<And>a. \<not> live d a"
  shows "deque_rep (deque_init d) []"
  using assms by (auto simp: deque_rep_def deque_init_def list_init_def)

lemma deque_push_rep:
  assumes "deque_rep d ns"
  shows "deque_rep (deque_push_front e d) (brk d # ns)" "deque_rep (deque_push_back e d) (ns @ [brk d])"
    and "map (elm (deque_push_front e d)) (brk d # ns) = e # map (elm d) ns"
    and "map (elm (deque_push_back e d)) (ns @ [brk d]) = map (elm d) ns @ [e]"
proof -
  have fresh: "brk d \<notin> set (head d # ns)" and r: "ring (lk d) (head d) ns"
    using assms by (auto simp: deque_rep_def)
  have r': "ring (list_init (brk d) (lk d)) (head d) ns"
    by (rule ring_frame [OF r list_init_same [OF fresh]])
  show "deque_rep (deque_push_front e d) (brk d # ns)"
    using assms list_add_after_ring [OF r' fresh]
    by (auto simp: deque_rep_def deque_push_front_def new_node_def Let_def)
  show "deque_rep (deque_push_back e d) (ns @ [brk d])"
    using assms list_add_before_ring [OF r' fresh]
    by (auto simp: deque_rep_def deque_push_back_def new_node_def Let_def)
  show "map (elm (deque_push_front e d)) (brk d # ns) = e # map (elm d) ns"
    "map (elm (deque_push_back e d)) (ns @ [brk d]) = map (elm d) ns @ [e]"
    using fresh by (auto simp: deque_push_front_def deque_push_back_def new_node_def Let_def)
qed

lemma deque_pop_rep:
  assumes "deque_rep d (us @ x # vs)" "x = (if f then list_next (head d) (lk d) else list_prev (head d) (lk d))"
  shows "fst (deque_pop f d) = elm d x" "deque_rep (snd (deque_pop f d)) (us @ vs)"
    and "elm (snd (deque_pop f d)) = elm d"
proof -
  have ne: "\<not> deque_empty d"
    using assms(1) by (simp add: deque_rep_def deque_empty_def deque_size_def)
  have x0: "x \<noteq> NULL" and rg: "ring (lk d) (head d) (us @ x # vs)"
    using assms(1) by (auto simp: deque_rep_def)
  have two: "list_delete x (list_delete x (lk d)) = list_delete x (lk d)"
    by (rule list_delete_detached_id) (rule list_delete_detached)
  have d: "distinct (us @ x # vs)"
    using ring_distinct [OF rg] by simp
  have pop: "deque_pop f d = (elm d x, d\<lparr>lk := list_delete x (lk d), live := (live d)(x := False), dsize := dsize d - 1\<rparr>)"
    using ne assms(2) x0 two by (simp add: deque_pop_def delete_node_def Let_def)
  show "fst (deque_pop f d) = elm d x" "elm (snd (deque_pop f d)) = elm d"
    by (simp_all add: pop)
  show "deque_rep (snd (deque_pop f d)) (us @ vs)"
    using assms(1) list_delete_ring [OF rg] d by (auto simp: deque_rep_def pop)
qed

lemma deque_pop_front_rep:
  assumes "deque_rep d (x # vs)"
  shows "fst (deque_pop_front d) = elm d x" "deque_rep (snd (deque_pop_front d)) vs"
    "elm (snd (deque_pop_front d)) = elm d"
proof -
  have "list_next (head d) (lk d) = x"
    using assms ring_ends(1) [of "lk d" "head d" "x # vs"] by (simp add: deque_rep_def)
  then have x: "x = (if True then list_next (head d) (lk d) else list_prev (head d) (lk d))"
    by simp
  have "deque_rep d ([] @ x # vs)"
    using assms by simp
  from deque_pop_rep [OF this x]
  show "fst (deque_pop_front d) = elm d x" "deque_rep (snd (deque_pop_front d)) vs"
    "elm (snd (deque_pop_front d)) = elm d"
    unfolding deque_pop_front_def append_Nil by - (assumption+)
qed

lemma deque_pop_back_rep:
  assumes "deque_rep d (us @ [x])"
  shows "fst (deque_pop_back d) = elm d x" "deque_rep (snd (deque_pop_back d)) us"
    "elm (snd (deque_pop_back d)) = elm d"
proof -
  have "list_prev (head d) (lk d) = x"
    using assms ring_ends(2) [of "lk d" "head d" "us @ [x]"] by (simp add: deque_rep_def)
  then have x: "x = (if False then list_next (head d) (lk d) else list_prev (head d) (lk d))"
    by simp
  from deque_pop_rep [OF assms x]
  show "fst (deque_pop_back d) = elm d x" "deque_rep (snd (deque_pop_back d)) us"
    "elm (snd (deque_pop_back d)) = elm d"
    unfolding deque_pop_back_def append_Nil2 by - (assumption+)
qed

lemma deque_clear_rep: "deque_rep d ns \<Longrightarrow> deque_rep (deque_clear d) []"
proof (induction ns arbitrary: d)
  case Nil
  then show ?case
    by (subst deque_clear.simps) (simp add: deque_empty_def deque_size_def deque_rep_def)
next
  case (Cons x ns)
  then have "\<not> deque_empty d" "deque_rep (snd (deque_pop_front d)) ns"
    by (simp add: deque_empty_def deque_size_def deque_rep_def) (rule deque_pop_front_rep(2) [OF Cons.prems])
  then show ?case
    by (subst deque_clear.simps) (simp add: Cons.IH)
qed

lemma deque_destory_rep: "deque_rep d ns \<Longrightarrow> deque_rep (deque_destory d) []"
proof (induction ns arbitrary: d rule: rev_induct)
  case Nil
  then show ?case
    by (subst deque_destory.simps)
       (simp add: Let_def deque_pop_back_def deque_pop_empty deque_empty_def deque_size_def deque_rep_def)
next
  case (snoc x ns)
  have r: "deque_rep (snd (deque_pop_back d)) ns"
    by (rule deque_pop_back_rep(2) [OF snoc.prems])
  then have "deque_empty (snd (deque_pop_back d)) \<longleftrightarrow> ns = []"
    by (simp add: deque_empty_def deque_size_def deque_rep_def)
  then show ?case
    using snoc.IH [OF r] r by (subst deque_destory.simps) (auto simp: Let_def)
qed

section \<open>The queue interface\<close>

text \<open>Popping a given number of elements, in order.\<close>

fun pops :: "('q \<Rightarrow> addr \<times> 'q) \<Rightarrow> nat \<Rightarrow> 'q \<Rightarrow> addr list \<times> 'q" where
  "pops pop 0 q = ([], q)"
| "pops pop (Suc n) q = (let (x, q1) = pop q; (xs, q2) = pops pop n q1 in (x # xs, q2))"

locale element_store =
  fixes inv :: "'q \<Rightarrow> bool"
    and elems :: "'q \<Rightarrow> addr list"
    and len :: "'q \<Rightarrow> nat"
    and push :: "addr \<Rightarrow> 'q \<Rightarrow> 'q"
  assumes len_elems: "inv q \<Longrightarrow> len q = length (elems q)"
    and push_inv: "inv q \<Longrightarrow> inv (push x q)"
    and push_elems: "inv q \<Longrightarrow> elems (push x q) = elems q @ [x]"
begin

lemma fold_push:
  "inv q \<Longrightarrow> inv (fold push xs q) \<and> elems (fold push xs q) = elems q @ xs"
  by (induction xs arbitrary: q) (simp_all add: push_inv push_elems)

lemma len_push: "inv q \<Longrightarrow> len (push x q) = Suc (len q)"
  by (simp add: len_elems push_inv push_elems)

end

locale fifo_queue = element_store +
  fixes pop :: "'a \<Rightarrow> addr \<times> 'a"
  assumes pop_cons: "inv q \<Longrightarrow> elems q = x # xs \<Longrightarrow>
      fst (pop q) = x \<and> inv (snd (pop q)) \<and> elems (snd (pop q)) = xs"
    and pop_nil: "inv q \<Longrightarrow> elems q = [] \<Longrightarrow> pop q = (NULL, q)"
begin

lemma pops_prefix:
  "inv q \<Longrightarrow> elems q = xs @ ys \<Longrightarrow>
     fst (pops pop (length xs) q) = xs \<and> elems (snd (pops pop (length xs) q)) = ys \<and>
     inv (snd (pops pop (length xs) q))"
proof (induction xs arbitrary: q)
  case Nil
  then show ?case by simp
next
  case (Cons x xs)
  then have "fst (pop q) = x" "inv (snd (pop q))" "elems (snd (pop q)) = xs @ ys"
    using pop_cons [of q x "xs @ ys"] by auto
  then show ?case
    using Cons.IH [of "snd (pop q)"] by (auto simp: Let_def split: prod.splits)
qed

lemma fifo_order:
  assumes "inv q" "elems q = []"
  shows "fst (pops pop (length xs) (fold push xs q)) = xs"
    and "elems (snd (pops pop (length xs) (fold push xs q))) = []"
  using pops_prefix [of "fold push xs q" xs "[]"] fold_push [OF assms(1), of xs] assms(2) by auto

end

locale lifo_stack = element_store +
  fixes pop :: "'a \<Rightarrow> addr \<times> 'a"
  assumes pop_snoc: "inv q \<Longrightarrow> elems q = xs @ [x] \<Longrightarrow>
      fst (pop q) = x \<and> inv (snd (pop q)) \<and> elems (snd (pop q)) = xs"
begin

lemma lifo_order:
  assumes "inv q" "elems q = []"
  shows "fst (pops pop (length xs) (fold push xs q)) = rev xs"
proof -
  have *: "fst (pops pop (length ys) p) = rev ys" if "inv p" "elems p = ys" for p ys
    using that
  proof (induction ys arbitrary: p rule: rev_induct)
    case Nil
    then show ?case by simp
  next
    case (snoc y ys)
    then have p: "fst (pop p) = y" "inv (snd (pop p))" "elems (snd (pop p)) = ys"
      using pop_snoc [of p ys y] by auto
    show ?case
      using snoc.IH [OF p(2,3)] p(1) by (simp add: Let_def split_def)
  qed
  then show ?thesis
    using fold_push [OF assms(1), of xs] assms(2) by simp
qed

end

lemma deque_push_back_inv: "deque_inv d \<Longrightarrow> deque_inv (deque_push_back e d)"
  by (metis deque_inv_rep deque_push_rep(2) deque_rep_inv)

lemma deque_push_back_elems:
  assumes "deque_inv d"
  shows "deque_elems (deque_push_back e d) = deque_elems d @ [e]"
proof -
  have r: "deque_rep d (deque_nodes d)"
    using assms by (simp add: deque_inv_rep)
  show ?thesis
    using deque_rep_elems [OF deque_push_rep(2) [OF r]] deque_push_rep(4) [OF r]
    by (simp add: deque_elems_def)
qed

lemma deque_pop_front_elems:
  assumes "deque_inv d" "deque_elems d = x # xs"
  shows "fst (deque_pop_front d) = x" "deque_inv (snd (deque_pop_front d))"
    "deque_elems (snd (deque_pop_front d)) = xs"
proof -
  obtain n ns where n: "deque_nodes d = n # ns" "elm d n = x" "map (elm d) ns = xs"
    using assms(2) by (auto simp: deque_elems_def)
  have r: "deque_rep d (n # ns)"
    using assms(1) by (simp add: deque_inv_rep n)
  show "fst (deque_pop_front d) = x" "deque_inv (snd (deque_pop_front d))"
    using deque_pop_front_rep(1,2) [OF r] n deque_rep_inv by auto
  show "deque_elems (snd (deque_pop_front d)) = xs"
    using deque_rep_elems [OF deque_pop_front_rep(2) [OF r]] deque_pop_front_rep(3) [OF r] n by simp
qed

lemma deque_pop_back_elems:
  assumes "deque_inv d" "deque_elems d = xs @ [x]"
  shows "fst (deque_pop_back d) = x" "deque_inv (snd (deque_pop_back d))"
    "deque_elems (snd (deque_pop_back d)) = xs"
proof -
  obtain ns n where n: "deque_nodes d = ns @ [n]" "elm d n = x" "map (elm d) ns = xs"
    using assms(2) by (cases "deque_nodes d" rule: rev_cases) (auto simp: deque_elems_def)
  have r: "deque_rep d (ns @ [n])"
    using assms(1) by (simp add: deque_inv_rep n)
  show "fst (deque_pop_back d) = x" "deque_inv (snd (deque_pop_back d))"
    using deque_pop_back_rep(1,2) [OF r] n deque_rep_inv by auto
  show "deque_elems (snd (deque_pop_back d)) = xs"
    using deque_rep_elems [OF deque_pop_back_rep(2) [OF r]] deque_pop_back_rep(3) [OF r] n by simp
qed

lemma deque_size_elems: "deque_inv d \<Longrightarrow> deque_size d = length (deque_elems d)"
  by (simp add: deque_size_def deque_inv_def deque_elems_def)

lemma deque_pop_front_nil: "deque_inv d \<Longrightarrow> deque_elems d = [] \<Longrightarrow> deque_pop_front d = (NULL, d)"
  by (simp add: deque_pop_front_def deque_pop_empty deque_size_elems [unfolded deque_size_def])

interpretation queue: fifo_queue deque_inv deque_elems deque_size queue_push queue_pop
  by unfold_locales
     (simp_all add: deque_size_elems deque_push_back_inv deque_push_back_elems deque_pop_front_elems
       deque_pop_front_nil)

interpretation stack: lifo_stack deque_inv deque_elems deque_size stack_push stack_pop
  by unfold_locales (simp_all add: deque_pop_back_elems)

lemma deque_inv_no_leak: "deque_inv d \<Longrightarrow> deque_elems d = [] \<Longrightarrow> \<not> live d a"
  by (simp add: deque_inv_def deque_elems_def)

definition deque_example :: deque where
  "deque_example = \<lparr>head = 1, dsize = 0, lk = \<lparr>prv = id, nxt = id\<rparr>, elm = (\<lambda>_. 0),
     live = (\<lambda>_. False), brk = 2\<rparr>"

lemma deque_example_inv: "deque_inv deque_example" "deque_elems deque_example = []"
  by (simp_all add: deque_inv_def deque_elems_def deque_nodes_def deque_example_def list_next_def)

section \<open>Properties\<close>

text \<open>C21: The queue of \<open>queue.h\<close> is first-in first-out: from an empty deque, pushing the elements of
  \<open>xs\<close> with \<open>deque_push_back\<close> and popping as many with \<open>deque_pop_front\<close> yields exactly \<open>xs\<close>, and
  leaves the queue empty with every node it allocated freed again.\<close>

theorem queue_fifo:
  assumes "deque_inv d" "deque_elems d = []"
  shows "\<exists>d'. pops queue_pop (length xs) (fold queue_push xs d) = (xs, d') \<and>
    deque_inv d' \<and> deque_elems d' = [] \<and> (\<forall>a. \<not> live d' a)"
proof -
  let ?r = "pops queue_pop (length xs) (fold queue_push xs d)"
  have "deque_elems (fold queue_push xs d) = xs @ []" "deque_inv (fold queue_push xs d)"
    using queue.fold_push [OF assms(1), of xs] assms(2) by simp_all
  then have "fst ?r = xs" "deque_elems (snd ?r) = []" "deque_inv (snd ?r)"
    using queue.pops_prefix by blast+
  then show ?thesis
    using deque_inv_no_leak by (metis prod.collapse)
qed

theorem queue_fifo_witness:
  "deque_inv deque_example \<and> deque_elems deque_example = [] \<and>
   fst (pops queue_pop 3 (fold queue_push [7, 8, 9] deque_example)) = [7, 8, 9]"
  using queue_fifo [OF deque_example_inv, of "[7, 8, 9]"] deque_example_inv
  by (auto simp: numeral_3_eq_3 simp del: pops.simps)

text \<open>The stack of \<open>stack.h\<close> is last-in first-out: from an empty deque, pushing the elements of
  \<open>xs\<close> and popping as many with \<open>deque_pop_back\<close> yields \<open>xs\<close> reversed.\<close>

theorem stack_lifo:
  assumes "deque_inv d" "deque_elems d = []"
  shows "fst (pops stack_pop (length xs) (fold stack_push xs d)) = rev xs"
  by (rule stack.lifo_order [OF assms])

theorem stack_lifo_witness:
  "deque_inv deque_example \<and> deque_elems deque_example = [] \<and>
   fst (pops stack_pop 3 (fold stack_push [7, 8, 9] deque_example)) = [9, 8, 7]"
  using stack_lifo [OF deque_example_inv, of "[7, 8, 9]"] deque_example_inv
  by (simp add: numeral_3_eq_3 del: pops.simps)

end
