(* ===== verification/CaskArray.thy ===== *)
theory CaskArray
  imports CaskPrelude
begin

text \<open>
  \<open>array.h\<close> / \<open>array.c\<close>: the growable vector of \<open>void *\<close> under the binary heap and the hash table.
  \<open>vector\<close> is \<open>None\<close> for \<open>NULL\<close> and otherwise the allocated block; \<open>junk\<close> is whatever a cell of a
  fresh \<open>malloc\<close> block holds before it is written.  The operations take the address of a struct
  embedded in its owner, so the \<open>if(!array)\<close> tests never fire and are left out.
\<close>

section \<open>Model of array.c\<close>

definition MIN_ARRAY_CAPCITY :: nat where
  "MIN_ARRAY_CAPCITY = 256"

record array =
  vector :: "addr list option"
  asize :: nat
  capcity :: nat
  junk :: addr

definition array_init :: "array \<Rightarrow> array" where
  "array_init a = a\<lparr>vector := None, asize := 0, capcity := 0\<rparr>"

definition array_destory :: "array \<Rightarrow> array" where
  "array_destory a = a\<lparr>vector := None, asize := 0, capcity := 0\<rparr>"

text \<open>The copy loop of \<open>realloc_array\<close>: \<open>for(; i < size; i++) vector[i] = ta[i]\<close>.\<close>

function realloc_copy :: "nat \<Rightarrow> nat \<Rightarrow> addr list \<Rightarrow> addr list \<Rightarrow> addr list res" where
  "realloc_copy i n ta b =
     (if i < n
      then if i < length ta \<and> i < length b
           then realloc_copy (Suc i) n ta (b[i := ta ! i])
           else Inl OutOfBounds
      else Inr b)"
  by pat_completeness auto
termination
  by (relation "measure (\<lambda>(i, n, ta, b). n - i)") auto

declare realloc_copy.simps [simp del]

definition realloc_array :: "array \<Rightarrow> array res" where
  "realloc_array a =
     (case vector a of
        None \<Rightarrow>
          (let c = (if capcity a \<noteq> 0 then capcity a else MIN_ARRAY_CAPCITY)
           in Inr (a\<lparr>asize := 0, capcity := c, vector := Some (replicate c (junk a))\<rparr>))
      | Some ta \<Rightarrow>
          (let c = capcity a * 2
           in case realloc_copy 0 (asize a) ta (replicate c (junk a)) of
                Inl f \<Rightarrow> Inl f
              | Inr b \<Rightarrow> Inr (a\<lparr>capcity := c, vector := Some b\<rparr>)))"

definition array_size :: "array \<Rightarrow> nat" where
  "array_size a = asize a"

text \<open>The shift loop of \<open>array_insert\<close>:
  \<open>while(loc < size) { vector[loc + 1] = vector[loc]; loc++; }\<close>.\<close>

function insert_shift :: "nat \<Rightarrow> nat \<Rightarrow> addr list \<Rightarrow> addr list res" where
  "insert_shift loc n b =
     (if loc < n
      then if Suc loc < length b
           then insert_shift (Suc loc) n (b[Suc loc := b ! loc])
           else Inl OutOfBounds
      else Inr b)"
  by pat_completeness auto
termination
  by (relation "measure (\<lambda>(loc, n, b). n - loc)") auto

declare insert_shift.simps [simp del]

definition array_insert :: "nat \<Rightarrow> addr \<Rightarrow> array \<Rightarrow> (int \<times> array) res" where
  "array_insert idx e a =
     (if idx > asize a then Inr (-1, a)
      else case (if vector a = None \<or> capcity a \<le> asize a then realloc_array a else Inr a) of
             Inl f \<Rightarrow> Inl f
           | Inr a1 \<Rightarrow>
               (case vector a1 of
                  None \<Rightarrow> Inl NullDeref
                | Some b \<Rightarrow>
                    (case insert_shift idx (asize a1) b of
                       Inl f \<Rightarrow> Inl f
                     | Inr b1 \<Rightarrow>
                         if idx < length b1
                         then Inr (0, a1\<lparr>vector := Some (b1[idx := e]), asize := asize a1 + 1\<rparr>)
                         else Inl OutOfBounds)))"

text \<open>\<open>array_put\<close>, \<open>array_get\<close> and \<open>array_del\<close> test the index against \<open>size\<close> before they touch the
  block; that the cell is inside the block is \<open>array_inv\<close> below.\<close>

definition array_put :: "nat \<Rightarrow> addr \<Rightarrow> array \<Rightarrow> int \<times> array" where
  "array_put idx e a =
     (if \<not> idx < array_size a then (-1, a)
      else (0, a\<lparr>vector := map_option (\<lambda>b. b[idx := e]) (vector a)\<rparr>))"

definition array_get :: "nat \<Rightarrow> array \<Rightarrow> addr" where
  "array_get idx a = (if idx \<ge> asize a then NULL else the (vector a) ! idx)"

text \<open>The loop \<open>while(idx < size - 1) vector[idx] = vector[++idx]\<close>, the left operand's address
  computed first.\<close>

function del_shift :: "nat \<Rightarrow> nat \<Rightarrow> addr list \<Rightarrow> addr list" where
  "del_shift idx n b = (if idx < n - 1 then del_shift (Suc idx) n (b[idx := b ! Suc idx]) else b)"
  by pat_completeness auto
termination
  by (relation "measure (\<lambda>(idx, n, b). n - idx)") auto

declare del_shift.simps [simp del]

definition array_del :: "nat \<Rightarrow> array \<Rightarrow> addr \<times> array" where
  "array_del idx a =
     (if idx \<ge> asize a then (NULL, a)
      else let e = the (vector a) ! idx
           in (e, a\<lparr>vector := map_option (del_shift idx (asize a)) (vector a), asize := asize a - 1\<rparr>))"

section \<open>Invariant and contents\<close>

definition array_inv :: "array \<Rightarrow> bool" where
  "array_inv a \<longleftrightarrow>
     (case vector a of
        None \<Rightarrow> asize a = 0 \<and> capcity a = 0
      | Some b \<Rightarrow> length b = capcity a \<and> asize a \<le> capcity a \<and> 0 < capcity a)"

definition array_elems :: "array \<Rightarrow> addr list" where
  "array_elems a = (case vector a of None \<Rightarrow> [] | Some b \<Rightarrow> take (asize a) b)"

section \<open>Loops\<close>

lemma realloc_copy_eq:
  assumes "n \<le> length ta" "n \<le> length b" "i \<le> n"
  shows "realloc_copy i n ta b = Inr (take i b @ drop i (take n ta) @ drop n b)"
  using assms
proof (induction i n ta b rule: realloc_copy.induct)
  case (1 i n ta b)
  show ?case
  proof (cases "i < n")
    case True
    let ?b = "b[i := ta ! i]"
    have "realloc_copy i n ta b = realloc_copy (Suc i) n ta ?b"
      using True "1.prems" by (simp add: realloc_copy.simps [of i])
    also have "\<dots> = Inr (take (Suc i) ?b @ drop (Suc i) (take n ta) @ drop n ?b)"
      using "1.IH" True "1.prems" by simp
    also have "take (Suc i) ?b = take i b @ [ta ! i]"
      using True "1.prems" by (simp add: take_list_update_Suc)
    also have "drop n ?b = drop n b"
      using True by simp
    also have "take i b @ [ta ! i] = take i b @ [take n ta ! i]"
      using True by simp
    finally show ?thesis
      using True "1.prems" by (simp add: drop_nth_Cons [of i "take n ta"])
  next
    case False
    with "1.prems" show ?thesis
      by (subst realloc_copy.simps) simp
  qed
qed

lemma insert_shift_eq:
  assumes "n < length b" "loc \<le> n"
  shows "insert_shift loc n b = Inr (take (Suc loc) b @ replicate (n - loc) (b ! loc) @ drop (Suc n) b)"
  using assms
proof (induction loc n b rule: insert_shift.induct)
  case (1 loc n b)
  show ?case
  proof (cases "loc < n")
    case True
    let ?b = "b[Suc loc := b ! loc]"
    have "insert_shift loc n b = insert_shift (Suc loc) n ?b"
      using True "1.prems" by (simp add: insert_shift.simps [of loc])
    also have "\<dots> = Inr (take (Suc (Suc loc)) ?b @ replicate (n - Suc loc) (?b ! Suc loc) @ drop (Suc n) ?b)"
      using "1.IH" True "1.prems" by simp
    also have "take (Suc (Suc loc)) ?b = take (Suc loc) b @ [b ! loc]"
      using True "1.prems" by (simp add: take_list_update_Suc)
    finally show ?thesis
      using True "1.prems" by (simp add: replicate_app_Cons_same [symmetric] Suc_diff_Suc [symmetric])
  next
    case False
    with "1.prems" show ?thesis
      by (subst insert_shift.simps) simp
  qed
qed

lemma del_shift_eq:
  assumes "n \<le> length b" "idx < n"
  shows "take (n - 1) (del_shift idx n b) = take idx b @ drop (Suc idx) (take n b)"
    and "length (del_shift idx n b) = length b"
  using assms
proof (induction idx n b rule: del_shift.induct)
  case (1 idx n b)
  {
    case 1
    show ?case
    proof (cases "idx < n - 1")
      case True
      let ?b = "b[idx := b ! Suc idx]"
      have "take (n - 1) (del_shift idx n b) = take (Suc idx) ?b @ drop (Suc (Suc idx)) (take n ?b)"
        using True "1.IH"(1) "1.prems" by (simp add: del_shift.simps [of idx])
      also have "take (Suc idx) ?b = take idx b @ [b ! Suc idx]"
        using True "1.prems" by (simp add: take_list_update_Suc)
      also have "drop (Suc (Suc idx)) (take n ?b) = drop (Suc (Suc idx)) (take n b)"
        by (simp add: drop_take)
      finally show ?thesis
        using True "1.prems" by (simp add: drop_nth_Cons [of "Suc idx" "take n b"])
    next
      case False
      with 1 have "n = Suc idx" by simp
      with 1 show ?thesis by (simp add: del_shift.simps [of idx])
    qed
  next
    case 2
    then show ?case
      using "1.IH"(2) by (cases "idx < n - 1") (simp_all add: del_shift.simps [of idx])
  }
qed

section \<open>Operations\<close>

lemma array_init_inv [simp]: "array_inv (array_init a)" "array_elems (array_init a) = []"
  by (simp_all add: array_inv_def array_init_def array_elems_def)

lemma array_elems_length: "array_inv a \<Longrightarrow> length (array_elems a) = asize a"
  by (auto simp: array_inv_def array_elems_def split: option.splits)

lemma array_get_elems:
  "array_inv a \<Longrightarrow> array_get idx a = (if idx < length (array_elems a) then array_elems a ! idx else NULL)"
  by (auto simp: array_inv_def array_elems_def array_get_def split: option.splits)

text \<open>Reads and writes that pass the size test stay inside the block.\<close>

lemma array_access_in_block:
  assumes "array_inv a" "idx < array_size a"
  shows "\<exists>b. vector a = Some b \<and> idx < length b"
  using assms by (auto simp: array_inv_def array_size_def split: option.splits)

lemma array_put_inv: "array_inv a \<Longrightarrow> array_inv (snd (array_put idx e a))"
  by (auto simp: array_inv_def array_put_def split: option.splits)

lemma array_put_elems: "array_inv a \<Longrightarrow> array_elems (snd (array_put idx e a)) = (array_elems a)[idx := e]"
  by (auto simp: array_inv_def array_put_def array_elems_def array_size_def take_update_swap
      list_update_beyond split: option.splits)

lemma array_del_inv: "array_inv a \<Longrightarrow> array_inv (snd (array_del idx a))"
  by (auto simp: array_inv_def array_del_def Let_def del_shift_eq(2) split: option.splits)

lemma array_del_elems:
  assumes "array_inv a" "idx < asize a"
  shows "fst (array_del idx a) = array_elems a ! idx"
    and "array_elems (snd (array_del idx a)) = take idx (array_elems a) @ drop (Suc idx) (array_elems a)"
proof -
  obtain b where b: "vector a = Some b" "length b = capcity a" "asize a \<le> capcity a"
    using assms by (auto simp: array_inv_def split: option.splits)
  have "take (asize a - 1) (del_shift idx (asize a) b) = take idx b @ drop (Suc idx) (take (asize a) b)"
    using assms(2) b by (intro del_shift_eq) simp_all
  then show "fst (array_del idx a) = array_elems a ! idx"
    "array_elems (snd (array_del idx a)) = take idx (array_elems a) @ drop (Suc idx) (array_elems a)"
    using assms(2) b by (simp_all add: array_del_def array_elems_def Let_def)
qed

lemma realloc_array_ok:
  assumes "array_inv a"
  shows "\<exists>a'. realloc_array a = Inr a' \<and> array_inv a' \<and> array_elems a' = array_elems a \<and>
    asize a' = asize a \<and> asize a' < capcity a' \<and> vector a' \<noteq> None"
proof (cases "vector a")
  case None
  then show ?thesis
    using assms by (auto simp: realloc_array_def array_inv_def array_elems_def Let_def MIN_ARRAY_CAPCITY_def)
next
  case (Some ta)
  with assms have l: "length ta = capcity a" "asize a \<le> capcity a" "0 < capcity a"
    by (auto simp: array_inv_def)
  then have "realloc_copy 0 (asize a) ta (replicate (capcity a * 2) (junk a)) =
      Inr (take (asize a) ta @ drop (asize a) (replicate (capcity a * 2) (junk a)))"
    by (subst realloc_copy_eq) auto
  with Some l show ?thesis
    by (auto simp: realloc_array_def array_inv_def array_elems_def Let_def)
qed

text \<open>What \<open>array_insert\<close> does at every index: below \<open>size\<close> the shift loop runs upwards over cells it
  has just overwritten, so the element at \<open>idx\<close> is smeared over the whole tail.\<close>

lemma array_insert_elems:
  assumes "array_inv a" "idx \<le> asize a"
  shows "\<exists>a'. array_insert idx e a = Inr (0, a') \<and> array_inv a' \<and>
    array_elems a' = take idx (array_elems a) @ e # replicate (asize a - idx) (array_elems a ! idx)"
proof -
  obtain a1 where a1: "(if vector a = None \<or> capcity a \<le> asize a then realloc_array a else Inr a) = Inr a1"
    "array_inv a1" "array_elems a1 = array_elems a" "asize a1 = asize a" "asize a1 < capcity a1" "vector a1 \<noteq> None"
    using realloc_array_ok [OF assms(1)] assms(1)
    by (cases "vector a = None \<or> capcity a \<le> asize a") auto
  then obtain b where b: "vector a1 = Some b" "length b = capcity a1"
    by (auto simp: array_inv_def)
  have el: "array_elems a = take (asize a) b"
    using a1 b by (simp add: array_elems_def)
  let ?b1 = "take (Suc idx) b @ replicate (asize a - idx) (b ! idx) @ drop (Suc (asize a)) b"
  have sh: "insert_shift idx (asize a) b = Inr ?b1"
    using assms(2) a1 b by (intro insert_shift_eq) auto
  have lb: "idx < length b" "length ?b1 = capcity a1"
    using assms(2) a1 b by auto
  have ins: "array_insert idx e a = Inr (0, a1\<lparr>vector := Some (?b1[idx := e]), asize := asize a + 1\<rparr>)"
    using assms(2) a1 b sh lb by (auto simp: array_insert_def)
  have upd: "?b1[idx := e] = take idx b @ e # replicate (asize a - idx) (b ! idx) @ drop (Suc (asize a)) b"
    using lb by (simp add: take_Suc_conv_app_nth list_update_append)
  have "take (asize a + 1) (?b1[idx := e]) = take idx (array_elems a) @ e # replicate (asize a - idx) (b ! idx)"
    using assms(2) lb by (simp add: upd el min_def Suc_diff_le)
  moreover have "replicate (asize a - idx) (b ! idx) = replicate (asize a - idx) (array_elems a ! idx)"
    using assms(2) by (cases "idx = asize a") (auto simp: el)
  ultimately show ?thesis
    using ins a1 lb by (auto simp: array_inv_def array_elems_def)
qed

lemma array_append_elems:
  assumes "array_inv a"
  shows "\<exists>a'. array_insert (asize a) e a = Inr (0, a') \<and> array_inv a' \<and> array_elems a' = array_elems a @ [e]"
  using array_insert_elems [OF assms, of "asize a" e] array_elems_length [OF assms] by simp

section \<open>Properties\<close>

definition array_example :: array where
  "array_example = \<lparr>vector = Some [10, 20, 30, 99], asize = 3, capcity = 4, junk = 99\<rparr>"

lemma array_example_inv:
  "array_inv array_example" "array_elems array_example = [10, 20, 30]" "array_size array_example = Suc (Suc (Suc 0))"
  by (simp_all add: array_inv_def array_elems_def array_example_def array_size_def numeral_3_eq_3)

text \<open>Appending with \<open>array_insert(array, size, elm)\<close>, the only way the heap and the hash table
  insert, never leaves the allocated block, keeps the invariant whether or not the block had to be
  reallocated, and adds the element at the end.\<close>

theorem array_append:
  assumes "array_inv a"
  shows "\<exists>a'. array_insert (array_size a) e a = Inr (0, a') \<and> array_inv a' \<and>
    array_elems a' = array_elems a @ [e] \<and> array_size a' = array_size a + 1"
proof -
  obtain a' where "array_insert (asize a) e a = Inr (0, a')" "array_inv a'" "array_elems a' = array_elems a @ [e]"
    using array_append_elems [OF assms] by blast
  then show ?thesis
    using array_elems_length [of a'] array_elems_length [OF assms] by (simp add: array_size_def)
qed

theorem array_append_witness:
  "array_inv array_example \<and>
   (\<exists>a'. array_insert (array_size array_example) 40 array_example = Inr (0, a') \<and> array_elems a' = [10, 20, 30, 40])"
  using array_append [OF array_example_inv(1), of 40] by (auto simp: array_example_inv)

text \<open>What insertion does: \<open>array_insert\<close> at an index up to the size never leaves the allocated block, also when it has to be reallocated,
  keeps the invariant and puts the element at the index. At the end this appends. Before the end the tail is not shifted up: every element from
  \<open>idx\<close> on is replaced by a copy of the element that was at \<open>idx\<close>, so for \<open>idx + 1 < size\<close> the other tail elements are lost.\<close>

theorem array_insert_smears_tail:
  assumes "array_inv a" "idx \<le> array_size a"
  shows "\<exists>a'. array_insert idx e a = Inr (0, a') \<and> array_inv a' \<and>
    array_elems a' = take idx (array_elems a) @ e # replicate (array_size a - idx) (array_elems a ! idx)"
  using array_insert_elems [OF assms(1), of idx e] assms(2) by (auto simp: array_size_def)

theorem array_insert_smears_tail_witness:
  "array_inv array_example \<and> 0 < array_size array_example \<and>
   (\<exists>a'. array_insert 0 5 array_example = Inr (0, a') \<and> array_elems a' = [5, 10, 10, 10])"
  using array_insert_smears_tail [OF array_example_inv(1), of 0 5]
  by (auto simp: array_example_inv)

end
