(* ===== verification/CaskHeap.thy ===== *)
theory CaskHeap
  imports CaskArray
begin

text \<open>
  \<open>heap.h\<close> / \<open>heap.c\<close>: the binary heap on \<open>array_t\<close>, ordered by a comparison callback: \<open>cmp l r\<close>
  true means \<open>l\<close> may stand above \<open>r\<close>.  Indices are natural numbers; the \<open>-1\<close> the code uses for a
  missing child and the loop counter that runs down to \<open>-1\<close> are integers.
\<close>

section \<open>Model of heap.c\<close>

record heap =
  harray :: array
  cmp :: "addr \<Rightarrow> addr \<Rightarrow> bool"

definition default_cmp :: "addr \<Rightarrow> addr \<Rightarrow> bool" where
  "default_cmp l r = (if l > r then False else True)"

definition heap_init :: "(addr \<Rightarrow> addr \<Rightarrow> bool) option \<Rightarrow> heap \<Rightarrow> heap" where
  "heap_init c0 hp =
     hp\<lparr>harray := array_init (harray hp), cmp := (case c0 of Some c \<Rightarrow> c | None \<Rightarrow> default_cmp)\<rparr>"

definition heap_size :: "heap \<Rightarrow> nat" where
  "heap_size hp = array_size (harray hp)"

definition heap_get :: "heap \<Rightarrow> nat \<Rightarrow> addr" where
  "heap_get hp idx = array_get idx (harray hp)"

definition heap_put :: "heap \<Rightarrow> nat \<Rightarrow> addr \<Rightarrow> heap" where
  "heap_put hp idx e = hp\<lparr>harray := snd (array_put idx e (harray hp))\<rparr>"

definition left_child :: "nat \<Rightarrow> nat" where
  "left_child idx = 2 * idx + 1"

definition right_child :: "nat \<Rightarrow> nat" where
  "right_child idx = 2 * idx + 2"

text \<open>\<open>parent(heap_size(hp) - 1)\<close> stored in an \<open>int\<close>.  The subtraction is on \<open>size_t\<close>: for an empty
  heap it wraps, and the shifted value converts to \<open>-1\<close>.\<close>

definition last_parent :: "heap \<Rightarrow> int" where
  "last_parent hp =
     (if heap_size hp = 0 then -1
      else if heap_size hp - 1 = 0 then 0 else int ((heap_size hp - 1 - 1) div 2))"

definition heap_swap :: "heap \<Rightarrow> nat \<Rightarrow> nat \<Rightarrow> heap" where
  "heap_swap h l r =
     (let tmp = heap_get h l;
          h1 = heap_put h l (heap_get h r)
      in heap_put h1 r tmp)"

definition heapify :: "heap \<Rightarrow> nat \<Rightarrow> nat \<times> heap" where
  "heapify hp root =
     (let size = heap_size hp
      in if \<not> root < size then (0, hp)
         else
           let left = (if left_child root < size then int (left_child root) else -1);
               right = (if right_child root < size then int (right_child root) else -1);
               max0 = root;
               max1 = (if left > 0 \<and> cmp hp (heap_get hp (nat left)) (heap_get hp max0) then nat left else max0);
               max2 = (if right > 0 \<and> cmp hp (heap_get hp (nat right)) (heap_get hp max1) then nat right else max1)
           in (max2, if max2 \<noteq> root then heap_swap hp max2 root else hp))"

text \<open>\<open>heapify_all s\<close> is the loop of \<open>heap_fixup\<close> from \<open>start = s - 1\<close> down to \<open>0\<close>.\<close>

fun heapify_all :: "nat \<Rightarrow> heap \<Rightarrow> heap" where
  "heapify_all 0 hp = hp"
| "heapify_all (Suc start) hp = heapify_all start (snd (heapify hp start))"

definition heap_fixup :: "heap \<Rightarrow> heap" where
  "heap_fixup hp = heapify_all (nat (last_parent hp + 1)) hp"

lemma heap_swap_size [simp]: "heap_size (heap_swap hp l r) = heap_size hp"
  by (simp add: heap_swap_def heap_put_def heap_size_def array_put_def array_size_def Let_def)

lemma heapify_size [simp]: "heap_size (snd (heapify hp root)) = heap_size hp"
  by (simp add: heapify_def Let_def)

lemma heapify_index:
  assumes "root < heap_size hp"
  shows "fst (heapify hp root) = root \<or>
    fst (heapify hp root) = left_child root \<and> left_child root < heap_size hp \<or>
    fst (heapify hp root) = right_child root \<and> right_child root < heap_size hp"
  using assms by (simp add: heapify_def Let_def)

lemma last_parent_less: "int root \<le> last_parent hp \<Longrightarrow> root < heap_size hp"
  by (simp add: last_parent_def split: if_splits)

text \<open>\<open>heapify\<close> never changes the size, so \<open>stop\<close> is the same in every round of the loop.\<close>

function fixdown_loop :: "nat \<Rightarrow> heap \<Rightarrow> heap" where
  "fixdown_loop root hp =
     (if int root \<le> last_parent hp
      then let (max, hp1) = heapify hp root
           in if max = root then hp1 else fixdown_loop max hp1
      else hp)"
  by pat_completeness auto
termination
proof (relation "measure (\<lambda>(root, hp). heap_size hp - root)")
  fix root hp x max hp1
  assume a: "int root \<le> last_parent hp" "x = heapify hp root" "(max, hp1) = x" "max \<noteq> root"
  then have eq: "max = fst (heapify hp root)" "hp1 = snd (heapify hp root)"
    by (metis fst_conv snd_conv)+
  have less: "root < heap_size hp"
    using last_parent_less a(1) .
  then have "root < max"
    using heapify_index [OF less] a(4) by (auto simp: eq left_child_def right_child_def)
  then show "((max, hp1), root, hp) \<in> measure (\<lambda>(root, hp). heap_size hp - root)"
    using less by (simp add: eq split_def)
qed simp

declare fixdown_loop.simps [simp del]

definition heap_fixdown :: "heap \<Rightarrow> heap" where
  "heap_fixdown hp = fixdown_loop 0 hp"

definition heap_push :: "heap \<Rightarrow> addr \<Rightarrow> heap res" where
  "heap_push hp e =
     (case array_insert (heap_size hp) e (harray hp) of
        Inl f \<Rightarrow> Inl f
      | Inr (_, a) \<Rightarrow> Inr (heap_fixup (hp\<lparr>harray := a\<rparr>)))"

definition heap_pop :: "heap \<Rightarrow> addr option \<times> heap" where
  "heap_pop hp =
     (if heap_size hp = 0 then (None, hp)
      else let e = heap_get hp 0;
               (x, a) = array_del (heap_size hp - 1) (harray hp);
               hp1 = heap_put (hp\<lparr>harray := a\<rparr>) 0 x
           in (Some e, heap_fixdown hp1))"

section \<open>Heap order on keys\<close>

definition par :: "nat \<Rightarrow> nat" where
  "par i = (i - 1) div 2"

lemma par_iff: "0 < i \<Longrightarrow> par i = r \<longleftrightarrow> i = 2 * r + 1 \<or> i = 2 * r + 2"
  unfolding par_def by presburger

lemma par_less: "0 < i \<Longrightarrow> par i < i"
  unfolding par_def by presburger

definition heap_ord :: "(nat \<Rightarrow> int) \<Rightarrow> nat \<Rightarrow> bool" where
  "heap_ord K n \<longleftrightarrow> (\<forall>i. 0 < i \<and> i < n \<longrightarrow> K (par i) \<le> K i)"

text \<open>Heap order except between \<open>h\<close> and its parent (bottom-up repair), and except between \<open>r\<close> and its
  children (top-down repair).\<close>

definition up_inv :: "(nat \<Rightarrow> int) \<Rightarrow> nat \<Rightarrow> nat \<Rightarrow> bool" where
  "up_inv K n h \<longleftrightarrow> (\<forall>i. 0 < i \<and> i < n \<and> i \<noteq> h \<longrightarrow> K (par i) \<le> K i) \<and>
     (\<forall>i. 0 < i \<and> i < n \<and> par i = h \<and> 0 < h \<longrightarrow> K (par h) \<le> K i)"

definition down_inv :: "(nat \<Rightarrow> int) \<Rightarrow> nat \<Rightarrow> nat \<Rightarrow> bool" where
  "down_inv K n r \<longleftrightarrow> (\<forall>i. 0 < i \<and> i < n \<and> par i \<noteq> r \<longrightarrow> K (par i) \<le> K i) \<and>
     (\<forall>i. 0 < i \<and> i < n \<and> par i = r \<and> 0 < r \<longrightarrow> K (par r) \<le> K i)"

text \<open>\<open>m\<close> is the least of \<open>s\<close> and its children.\<close>

definition least_child :: "(nat \<Rightarrow> int) \<Rightarrow> nat \<Rightarrow> nat \<Rightarrow> nat \<Rightarrow> bool" where
  "least_child K n s m \<longleftrightarrow> m < n \<and> (m = s \<or> 0 < m \<and> par m = s) \<and> K m \<le> K s \<and>
     (\<forall>i. 0 < i \<and> i < n \<and> par i = s \<longrightarrow> K m \<le> K i)"

lemma up_inv_0: "up_inv K n 0 \<longleftrightarrow> heap_ord K n"
  by (auto simp: up_inv_def heap_ord_def)

lemma up_step:
  assumes u: "up_inv K n h" and m: "least_child K n s m" and h: "h = 0 \<or> par h \<le> s"
  shows "\<exists>h'. up_inv (K(s := K m, m := K s)) n h' \<and> (h' = 0 \<or> par h' < s)"
proof (cases "K m = K s")
  case True
  then have K: "K(s := K m, m := K s) = K" by auto
  show ?thesis
  proof (cases "h = 0 \<or> par h < s")
    case True
    with u K show ?thesis by metis
  next
    case False
    with h have "0 < h" "par h = s" by auto
    then have "heap_ord K n"
      using u m True unfolding heap_ord_def up_inv_def least_child_def by metis
    then show ?thesis
      using K up_inv_0 by metis
  qed
next
  case False
  with m have ms: "m < n" "0 < m" "par m = s" "K m < K s"
    by (auto simp: least_child_def)
  then have hm: "h = m"
    using u unfolding up_inv_def by (metis not_le)
  have "s < m" using ms par_less by blast
  let ?K = "K(s := K m, m := K s)"
  have "up_inv ?K n s"
    unfolding up_inv_def
  proof (intro conjI allI impI)
    fix i
    assume i: "0 < i \<and> i < n \<and> i \<noteq> s"
    have u1: "i \<noteq> m \<Longrightarrow> K (par i) \<le> K i"
      using u i hm by (auto simp: up_inv_def)
    have u2: "par i = m \<Longrightarrow> K s \<le> K i"
      using u i hm ms by (auto simp: up_inv_def)
    have u3: "par i = s \<Longrightarrow> K m \<le> K i"
      using m i by (auto simp: least_child_def)
    show "?K (par i) \<le> ?K i"
      using u1 u2 u3 ms i \<open>s < m\<close> by (auto simp: fun_upd_apply)
  next
    fix i
    assume i: "0 < i \<and> i < n \<and> par i = s \<and> 0 < s"
    have "K (par s) \<le> K s"
      using u i hm ms \<open>s < m\<close> by (auto simp: up_inv_def)
    moreover have "i \<noteq> m \<Longrightarrow> K s \<le> K i"
      using u i hm by (auto simp: up_inv_def)
    moreover have "par s \<noteq> s" "par s \<noteq> m" "i \<noteq> s"
      using i par_less [of s] par_less [of i] \<open>s < m\<close> by auto
    ultimately show "?K (par s) \<le> ?K i"
      by (cases "i = m") auto
  qed
  moreover have "s = 0 \<or> par s < s"
    using par_less by blast
  ultimately show ?thesis by blast
qed

lemma down_step:
  assumes u: "down_inv K n r" and m: "least_child K n r m"
  shows "m = r \<Longrightarrow> heap_ord K n"
    and "m \<noteq> r \<Longrightarrow> down_inv (K(r := K m, m := K r)) n m"
proof -
  assume "m = r"
  with u m show "heap_ord K n"
    unfolding heap_ord_def down_inv_def least_child_def by metis
next
  assume "m \<noteq> r"
  with m have ms: "m < n" "0 < m" "par m = r" "K m \<le> K r"
    by (auto simp: least_child_def)
  then have "r < m" using par_less by blast
  let ?K = "K(r := K m, m := K r)"
  show "down_inv ?K n m"
    unfolding down_inv_def
  proof (intro conjI allI impI)
    fix i
    assume i: "0 < i \<and> i < n \<and> par i \<noteq> m"
    have u1: "par i \<noteq> r \<Longrightarrow> K (par i) \<le> K i"
      using u i by (auto simp: down_inv_def)
    have u2: "par i = r \<Longrightarrow> K m \<le> K i"
      using m i by (auto simp: least_child_def)
    have u3: "i = r \<Longrightarrow> K (par r) \<le> K m"
      using u i ms by (auto simp: down_inv_def)
    have "par i \<noteq> i" using i par_less [of i] by auto
    then show "?K (par i) \<le> ?K i"
      using u1 u2 u3 ms i \<open>r < m\<close> by (auto simp: fun_upd_apply)
  next
    fix i
    assume i: "0 < i \<and> i < n \<and> par i = m \<and> 0 < m"
    then have "K m \<le> K i"
      using u \<open>m \<noteq> r\<close> by (auto simp: down_inv_def)
    moreover have "i \<noteq> m" "i \<noteq> r"
      using i par_less [of i] \<open>r < m\<close> by auto
    ultimately show "?K (par m) \<le> ?K i"
      using ms by auto
  qed
qed

lemma heap_ord_root:
  assumes "heap_ord K n" "i < n"
  shows "K 0 \<le> K i"
  using assms(2)
proof (induction i rule: less_induct)
  case (less i)
  show ?case
  proof (cases "i = 0")
    case False
    then have "par i < i" "K (par i) \<le> K i"
      using par_less assms(1) less.prems by (auto simp: heap_ord_def)
    then show ?thesis
      using less.IH [of "par i"] less.prems by simp
  qed simp
qed

lemma up_inv_cong:
  assumes "\<And>i. i < n \<Longrightarrow> K i = K' i" "h = 0 \<or> par h < n"
  shows "up_inv K n h \<longleftrightarrow> up_inv K' n h"
proof -
  have "K i = K' i" "K (par i) = K' (par i)" if "0 < i" "i < n" for i
    using assms(1) that par_less [of i] by (meson less_trans)+
  moreover have "0 < h \<Longrightarrow> K (par h) = K' (par h)"
    using assms by auto
  ultimately show ?thesis
    unfolding up_inv_def by simp
qed

lemma down_inv_cong:
  assumes "\<And>i. i < n \<Longrightarrow> K i = K' i" "r < n"
  shows "down_inv K n r \<longleftrightarrow> down_inv K' n r"
proof -
  have "K i = K' i" "K (par i) = K' (par i)" if "0 < i" "i < n" for i
    using assms(1) that par_less [of i] by (meson less_trans)+
  moreover have "0 < r \<Longrightarrow> K (par r) = K' (par r)"
    using assms par_less [of r] by auto
  ultimately show ?thesis
    unfolding down_inv_def by simp
qed

lemma down_inv_leaf:
  assumes "down_inv K (heap_size hp) r" "\<not> int r \<le> last_parent hp"
  shows "heap_ord K (heap_size hp)"
proof -
  have "par i \<noteq> r" if "0 < i" "i < heap_size hp" for i
    using assms(2) that by (auto simp: last_parent_def par_def split: if_splits)
  with assms(1) show ?thesis
    by (auto simp: down_inv_def heap_ord_def)
qed

section \<open>From the code to keys\<close>

definition heap_elems :: "heap \<Rightarrow> addr list" where
  "heap_elems hp = array_elems (harray hp)"

definition heap_wf :: "heap \<Rightarrow> bool" where
  "heap_wf hp \<longleftrightarrow> array_inv (harray hp)"

lemma heap_size_elems: "heap_wf hp \<Longrightarrow> heap_size hp = length (heap_elems hp)"
  by (simp add: heap_size_def heap_wf_def heap_elems_def array_elems_length array_size_def)

lemma heap_get_elems: "heap_wf hp \<Longrightarrow> i < heap_size hp \<Longrightarrow> heap_get hp i = heap_elems hp ! i"
  by (simp add: heap_get_def heap_wf_def array_get_elems heap_elems_def heap_size_def array_size_def array_elems_length)

lemma heap_put_elems:
  "heap_wf hp \<Longrightarrow> heap_wf (heap_put hp i e) \<and> heap_elems (heap_put hp i e) = (heap_elems hp)[i := e] \<and>
   cmp (heap_put hp i e) = cmp hp"
  by (simp add: heap_wf_def heap_put_def array_put_inv array_put_elems heap_elems_def)

lemma heap_put_size [simp]: "heap_size (heap_put hp i e) = heap_size hp"
  by (simp add: heap_put_def heap_size_def array_put_def array_size_def)

lemma heap_swap_elems:
  assumes "heap_wf hp" "l < heap_size hp" "r < heap_size hp"
  shows "heap_wf (heap_swap hp l r) \<and>
    heap_elems (heap_swap hp l r) = (heap_elems hp)[l := heap_elems hp ! r, r := heap_elems hp ! l] \<and>
    cmp (heap_swap hp l r) = cmp hp"
  using assms by (simp add: heap_swap_def Let_def heap_put_elems heap_get_elems)

lemma heapify_elems:
  assumes "heap_wf hp" "root < heap_size hp"
  shows "heap_wf (snd (heapify hp root)) \<and> cmp (snd (heapify hp root)) = cmp hp \<and>
    heap_elems (snd (heapify hp root)) =
      (heap_elems hp)[fst (heapify hp root) := heap_elems hp ! root, root := heap_elems hp ! fst (heapify hp root)]"
proof -
  let ?m = "fst (heapify hp root)"
  have m: "?m < heap_size hp"
    using heapify_index [OF assms(2)] assms(2) by auto
  have "snd (heapify hp root) = (if ?m \<noteq> root then heap_swap hp ?m root else hp)"
    using assms(2) by (simp add: heapify_def Let_def)
  then show ?thesis
    using assms heap_swap_elems [OF assms(1) m assms(2)] by simp
qed

lemma heapify_mset: "heap_wf hp \<Longrightarrow> mset (heap_elems (snd (heapify hp root))) = mset (heap_elems hp)"
proof (cases "root < heap_size hp")
  case True
  assume w: "heap_wf hp"
  have "fst (heapify hp root) < heap_size hp"
    using heapify_index [OF True] True by auto
  with w True show ?thesis
    by (simp add: heapify_elems heap_size_elems mset_list_swap)
next
  case False
  then show ?thesis by (simp add: heapify_def)
qed

lemma heapify_wf: "heap_wf hp \<Longrightarrow> heap_wf (snd (heapify hp root)) \<and> cmp (snd (heapify hp root)) = cmp hp"
  by (cases "root < heap_size hp") (simp_all add: heapify_elems, simp add: heapify_def)

lemma heapify_all_frame:
  "heap_wf hp \<Longrightarrow> heap_wf (heapify_all s hp) \<and> cmp (heapify_all s hp) = cmp hp \<and>
   mset (heap_elems (heapify_all s hp)) = mset (heap_elems hp)"
  by (induction s arbitrary: hp) (simp_all add: heapify_wf heapify_mset)

lemma fixdown_loop_frame:
  "heap_wf hp \<Longrightarrow> heap_wf (fixdown_loop r hp) \<and> cmp (fixdown_loop r hp) = cmp hp \<and>
   mset (heap_elems (fixdown_loop r hp)) = mset (heap_elems hp)"
proof (induction r hp rule: fixdown_loop.induct)
  case (1 r hp)
  show ?case
  proof (cases "int r \<le> last_parent hp \<and> fst (heapify hp r) \<noteq> r")
    case True
    then have eq: "fixdown_loop r hp = fixdown_loop (fst (heapify hp r)) (snd (heapify hp r))"
      by (subst fixdown_loop.simps) (simp add: split_def Let_def)
    have "heap_wf (fixdown_loop (fst (heapify hp r)) (snd (heapify hp r))) \<and>
      cmp (fixdown_loop (fst (heapify hp r)) (snd (heapify hp r))) = cmp (snd (heapify hp r)) \<and>
      mset (heap_elems (fixdown_loop (fst (heapify hp r)) (snd (heapify hp r)))) = mset (heap_elems (snd (heapify hp r)))"
      using True "1.prems" by (intro "1.IH") (auto simp: heapify_wf)
    then show ?thesis
      using "1.prems" by (simp add: eq heapify_wf heapify_mset)
  next
    case False
    then have "fixdown_loop r hp = (if int r \<le> last_parent hp then snd (heapify hp r) else hp)"
      by (subst fixdown_loop.simps) (auto simp: split_def Let_def)
    then show ?thesis
      using "1.prems" by (simp add: heapify_wf heapify_mset)
  qed
qed

text \<open>The invariant for a comparison \<open>c\<close> that orders by \<open>key\<close>: a well-formed array in heap order.\<close>

definition heap_inv :: "(addr \<Rightarrow> addr \<Rightarrow> bool) \<Rightarrow> (addr \<Rightarrow> int) \<Rightarrow> heap \<Rightarrow> bool" where
  "heap_inv c key hp \<longleftrightarrow> heap_wf hp \<and> cmp hp = c \<and> heap_ord (\<lambda>i. key (heap_elems hp ! i)) (heap_size hp)"

text \<open>The interface the comparison callback has to meet: it decides an order on keys, with either
  answer allowed on equal keys (\<open>_id_cmp\<close> of \<open>cid.c\<close> is strict, \<open>_default_cmp\<close> is not).\<close>

locale key_order =
  fixes c :: "addr \<Rightarrow> addr \<Rightarrow> bool" and key :: "addr \<Rightarrow> int"
  assumes cmp_le: "c l r \<Longrightarrow> key l \<le> key r"
    and not_cmp_le: "\<not> c l r \<Longrightarrow> key r \<le> key l"
begin

lemma heapify_least:
  assumes w: "heap_wf hp" and s: "s < heap_size hp" and c: "cmp hp = c"
  shows "least_child (\<lambda>i. key (heap_elems hp ! i)) (heap_size hp) s (fst (heapify hp s))"
proof -
  have lr: "i = left_child s \<or> i = right_child s" if "0 < i" "par i = s" for i
    using that par_iff [of i s] by (simp add: left_child_def right_child_def)
  have pars: "par (left_child s) = s" "par (right_child s) = s"
    by (simp_all add: par_def left_child_def right_child_def)
  have get: "heap_get hp i = heap_elems hp ! i" if "i < heap_size hp" for i
    using heap_get_elems [OF w that] .
  have sm: "left_child s < heap_size hp" if "right_child s < heap_size hp"
    using that by (simp add: left_child_def right_child_def)
  have pos: "0 < left_child s" "0 < right_child s"
    by (simp_all add: left_child_def right_child_def)
  let ?K = "\<lambda>i. key (heap_elems hp ! i)"
  let ?n = "heap_size hp"
  define m1 where "m1 = (if left_child s < ?n \<and> c (heap_get hp (left_child s)) (heap_get hp s) then left_child s else s)"
  define m2 where "m2 = (if right_child s < ?n \<and> c (heap_get hp (right_child s)) (heap_get hp m1) then right_child s else m1)"
  have m: "fst (heapify hp s) = m2"
    using s pos by (simp add: heapify_def Let_def m1_def m2_def c)
  have m1: "m1 < ?n" "m1 = s \<or> m1 = left_child s" "?K m1 \<le> ?K s" "left_child s < ?n \<Longrightarrow> ?K m1 \<le> ?K (left_child s)"
    using s cmp_le not_cmp_le by (auto simp: m1_def get)
  have m2: "m2 < ?n" "m2 = m1 \<or> m2 = right_child s" "?K m2 \<le> ?K m1" "right_child s < ?n \<Longrightarrow> ?K m2 \<le> ?K (right_child s)"
    using m1(1) cmp_le not_cmp_le by (auto simp: m2_def get)
  have child: "?K m2 \<le> ?K i" if "0 < i" "i < ?n" "par i = s" for i
    using lr [OF that(1,3)] m1(4) m2(3,4) that(2) by (elim disjE) (auto intro: order_trans)
  have "m2 = s \<or> 0 < m2 \<and> par m2 = s"
    using m1(2) m2(2) pars pos by metis
  then show ?thesis
    unfolding m least_child_def using m1(3) m2(1,3) child by (auto intro: order_trans)
qed

lemma heapify_keys:
  assumes w: "heap_wf hp" and s: "s < heap_size hp" and i: "i < heap_size hp"
  shows "key (heap_elems (snd (heapify hp s)) ! i) =
    ((\<lambda>i. key (heap_elems hp ! i))(s := key (heap_elems hp ! fst (heapify hp s)),
      fst (heapify hp s) := key (heap_elems hp ! s))) i"
proof -
  have "fst (heapify hp s) < length (heap_elems hp)"
    using heapify_index [OF s] s heap_size_elems [OF w] by auto
  then show ?thesis
    using heapify_elems [OF w s] s i heap_size_elems [OF w]
    by (auto simp: nth_list_update)
qed

lemma heapify_all_ord:
  assumes "heap_wf hp" "cmp hp = c" "s \<le> heap_size hp"
    and "up_inv (\<lambda>i. key (heap_elems hp ! i)) (heap_size hp) h" "h = 0 \<or> par h < s"
  shows "heap_ord (\<lambda>i. key (heap_elems (heapify_all s hp) ! i)) (heap_size hp)"
  using assms
proof (induction s arbitrary: hp h)
  case 0
  then show ?case by (auto simp: up_inv_0)
next
  case (Suc s)
  let ?hp = "snd (heapify hp s)" and ?n = "heap_size hp" and ?m = "fst (heapify hp s)"
  let ?K = "\<lambda>i. key (heap_elems hp ! i)" and ?K' = "\<lambda>i. key (heap_elems (snd (heapify hp s)) ! i)"
  have s: "s < ?n" using Suc.prems by simp
  have l: "least_child ?K ?n s ?m"
    using heapify_least [OF Suc.prems(1) s Suc.prems(2)] .
  obtain h' where h': "up_inv (?K(s := ?K ?m, ?m := ?K s)) ?n h'" "h' = 0 \<or> par h' < s"
    using up_step [OF Suc.prems(4) l] Suc.prems(5) by auto
  have eq: "?K' i = (?K(s := ?K ?m, ?m := ?K s)) i" if "i < ?n" for i
    using heapify_keys [OF Suc.prems(1) s that] .
  have "up_inv ?K' ?n h'"
    by (rule up_inv_cong [THEN iffD2, OF _ _ h'(1)]) (use eq h' s in auto)
  then have "heap_ord (\<lambda>i. key (heap_elems (heapify_all s ?hp) ! i)) (heap_size ?hp)"
    using Suc.prems h' heapify_wf [OF Suc.prems(1)] by (intro Suc.IH [of ?hp h']) auto
  then show ?case by simp
qed

lemma fixdown_ord:
  assumes "heap_wf hp" "cmp hp = c" "down_inv (\<lambda>i. key (heap_elems hp ! i)) (heap_size hp) r"
  shows "heap_ord (\<lambda>i. key (heap_elems (fixdown_loop r hp) ! i)) (heap_size hp)"
  using assms
proof (induction r hp rule: fixdown_loop.induct)
  case (1 r hp)
  let ?hp = "snd (heapify hp r)" and ?n = "heap_size hp" and ?m = "fst (heapify hp r)"
  let ?K = "\<lambda>i. key (heap_elems hp ! i)" and ?K' = "\<lambda>i. key (heap_elems (snd (heapify hp r)) ! i)"
  show ?case
  proof (cases "int r \<le> last_parent hp")
    case True
    have r: "r < ?n" using last_parent_less [OF True] .
    have l: "least_child ?K ?n r ?m"
      using heapify_least [OF "1.prems"(1) r "1.prems"(2)] .
    have eq: "?K' i = (?K(r := ?K ?m, ?m := ?K r)) i" if "i < ?n" for i
      using heapify_keys [OF "1.prems"(1) r that] .
    show ?thesis
    proof (cases "?m = r")
      case m: True
      then have "fixdown_loop r hp = ?hp"
        using True by (subst fixdown_loop.simps) (simp add: split_def Let_def)
      then show ?thesis
        using down_step(1) [OF "1.prems"(3) l m] eq m by (auto simp: heap_ord_def par_def)
    next
      case m: False
      have d: "down_inv ?K' ?n ?m"
        by (rule down_inv_cong [THEN iffD2, OF _ _ down_step(2) [OF "1.prems"(3) l m]])
           (use eq l in \<open>auto simp: least_child_def\<close>)
      have "fixdown_loop r hp = fixdown_loop ?m ?hp"
        using True m by (subst fixdown_loop.simps) (simp add: split_def Let_def)
      moreover have "heap_ord (\<lambda>i. key (heap_elems (fixdown_loop ?m ?hp) ! i)) (heap_size ?hp)"
        using True m d heapify_wf [OF "1.prems"(1)] "1.prems"(2) by (intro "1.IH") auto
      ultimately show ?thesis by simp
    qed
  next
    case False
    then have "fixdown_loop r hp = hp"
      by (subst fixdown_loop.simps) simp
    moreover have "heap_ord ?K ?n"
      using "1.prems"(3) False down_inv_leaf by blast
    ultimately show ?thesis by simp
  qed
qed

lemma heap_push_inv:
  assumes inv: "heap_inv c key hp"
  shows "\<exists>hp'. heap_push hp e = Inr hp' \<and> heap_inv c key hp' \<and>
    mset (heap_elems hp') = add_mset e (mset (heap_elems hp))"
proof -
  have w: "heap_wf hp" and c: "cmp hp = c"
    using inv by (simp_all add: heap_inv_def)
  obtain a where a: "array_insert (heap_size hp) e (harray hp) = Inr (0, a)" "array_inv a"
    "array_elems a = heap_elems hp @ [e]"
    using array_append_elems [of "harray hp" e] w by (auto simp: heap_wf_def heap_size_def array_size_def heap_elems_def)
  let ?h = "hp\<lparr>harray := a\<rparr>"
  have h: "heap_wf ?h" "cmp ?h = c" "heap_elems ?h = heap_elems hp @ [e]"
    using a c by (simp_all add: heap_wf_def heap_elems_def)
  have n: "heap_size ?h = Suc (heap_size hp)"
    using heap_size_elems [OF h(1)] h(3) heap_size_elems [OF w] by simp
  have K: "key (heap_elems ?h ! i) = key (heap_elems hp ! i)" if "i < heap_size hp" for i
    using that heap_size_elems [OF w] by (simp add: h(3) nth_append)
  have up: "up_inv (\<lambda>i. key (heap_elems ?h ! i)) (heap_size ?h) (heap_size hp)"
    unfolding up_inv_def
  proof (intro conjI allI impI)
    fix i
    assume i: "0 < i \<and> i < heap_size ?h \<and> i \<noteq> heap_size hp"
    then have "i < heap_size hp" "par i < heap_size hp"
      using n par_less [of i] by auto
    then show "key (heap_elems ?h ! par i) \<le> key (heap_elems ?h ! i)"
      using inv i K by (simp add: heap_inv_def heap_ord_def)
  next
    fix i
    assume "0 < i \<and> i < heap_size ?h \<and> par i = heap_size hp \<and> 0 < heap_size hp"
    then show "key (heap_elems ?h ! par (heap_size hp)) \<le> key (heap_elems ?h ! i)"
      using n par_less [of i] by auto
  qed
  have lp: "nat (last_parent ?h + 1) \<le> heap_size ?h"
      "heap_size hp = 0 \<or> par (heap_size hp) < nat (last_parent ?h + 1)"
    using n by (auto simp: last_parent_def par_def)
  have ord: "heap_ord (\<lambda>i. key (heap_elems (heap_fixup ?h) ! i)) (heap_size ?h)"
    unfolding heap_fixup_def by (rule heapify_all_ord [OF h(1,2) lp(1) up lp(2)])
  have fr: "heap_wf (heap_fixup ?h)" "cmp (heap_fixup ?h) = c"
    "mset (heap_elems (heap_fixup ?h)) = mset (heap_elems hp @ [e])"
    using heapify_all_frame [OF h(1)] h by (simp_all add: heap_fixup_def)
  then have "heap_size (heap_fixup ?h) = heap_size ?h"
    using heap_size_elems h(1,3) by (metis mset_eq_length)
  then show ?thesis
    using a(1) fr ord by (simp add: heap_push_def heap_inv_def)
qed

lemma heap_pop_inv:
  assumes inv: "heap_inv c key hp" and ne: "heap_elems hp \<noteq> []"
  shows "\<exists>e hp'. heap_pop hp = (Some e, hp') \<and> heap_inv c key hp' \<and>
    mset (heap_elems hp) = add_mset e (mset (heap_elems hp')) \<and> (\<forall>x\<in>set (heap_elems hp). key e \<le> key x)"
proof -
  let ?xs = "heap_elems hp" and ?n = "heap_size hp"
  have w: "heap_wf hp" and c: "cmp hp = c"
    using inv by (simp_all add: heap_inv_def)
  have n: "?n = length ?xs" "?n \<noteq> 0"
    using heap_size_elems [OF w] ne by auto
  obtain x a where d: "array_del (?n - 1) (harray hp) = (x, a)"
    by fastforce
  have a: "x = last ?xs" "array_inv a" "array_elems a = butlast ?xs"
    using array_del_elems [of "harray hp" "?n - 1"] array_del_inv [of "harray hp" "?n - 1"] d w n ne
    by (auto simp: heap_wf_def heap_elems_def array_elems_length last_conv_nth butlast_conv_take)
  let ?h = "heap_put (hp\<lparr>harray := a\<rparr>) 0 x"
  have h0: "heap_wf (hp\<lparr>harray := a\<rparr>)" "heap_elems (hp\<lparr>harray := a\<rparr>) = butlast ?xs"
    using a by (simp_all add: heap_wf_def heap_elems_def)
  have h: "heap_wf ?h" "cmp ?h = c" "heap_elems ?h = (butlast ?xs)[0 := last ?xs]"
    using heap_put_elems [OF h0(1)] h0(2) a c by auto
  have hn: "heap_size ?h = ?n - 1"
    using heap_size_elems [OF h(1)] h(3) n by simp
  have K: "heap_elems ?h ! i = ?xs ! i" if "0 < i" "i < ?n - 1" for i
    using that n by (simp add: h(3) nth_butlast)
  have "down_inv (\<lambda>i. key (heap_elems ?h ! i)) (heap_size ?h) 0"
    unfolding down_inv_def
  proof (intro conjI allI impI)
    fix i
    assume i: "0 < i \<and> i < heap_size ?h \<and> par i \<noteq> 0"
    then have "0 < par i" "par i < ?n - 1" "i < ?n"
      using hn par_less [of i] by auto
    then show "key (heap_elems ?h ! par i) \<le> key (heap_elems ?h ! i)"
      using inv i K hn by (simp add: heap_inv_def heap_ord_def)
  qed simp
  then have ord: "heap_ord (\<lambda>i. key (heap_elems (heap_fixdown ?h) ! i)) (heap_size ?h)"
    unfolding heap_fixdown_def by (rule fixdown_ord [OF h(1,2)])
  have fr: "heap_wf (heap_fixdown ?h)" "cmp (heap_fixdown ?h) = c"
    "mset (heap_elems (heap_fixdown ?h)) = mset ((butlast ?xs)[0 := last ?xs])"
    using fixdown_loop_frame [OF h(1)] h by (simp_all add: heap_fixdown_def)
  have ms: "mset ?xs = add_mset (?xs ! 0) (mset ((butlast ?xs)[0 := last ?xs]))"
    using ne by (cases ?xs rule: rev_cases; cases "butlast ?xs") auto
  have "heap_size (heap_fixdown ?h) = heap_size ?h"
    using heap_size_elems fr h by (metis mset_eq_length)
  moreover have "heap_pop hp = (Some (?xs ! 0), heap_fixdown ?h)"
    using n d heap_get_elems [OF w, of 0] by (simp add: heap_pop_def Let_def)
  moreover have "\<forall>x\<in>set ?xs. key (?xs ! 0) \<le> key x"
    using heap_ord_root inv n by (fastforce simp: heap_inv_def in_set_conv_nth)
  ultimately show ?thesis
    using fr ord ms by (auto simp: heap_inv_def)
qed

end

lemma heap_init_inv: "heap_inv (case c0 of Some c \<Rightarrow> c | None \<Rightarrow> default_cmp) key (heap_init c0 hp)"
  by (simp add: heap_inv_def heap_wf_def heap_init_def heap_ord_def heap_size_def array_size_def array_init_def array_inv_def)

lemma heap_init_elems: "heap_elems (heap_init c0 hp) = []"
  by (simp add: heap_elems_def heap_init_def)

lemma heap_pop_nil: "heap_wf hp \<Longrightarrow> heap_elems hp = [] \<Longrightarrow> heap_pop hp = (None, hp)"
  by (simp add: heap_pop_def heap_size_elems)

interpretation default_order: key_order default_cmp int
  by unfold_locales (auto simp: default_cmp_def split: if_splits)

definition heap_example :: heap where
  "heap_example = \<lparr>harray = \<lparr>vector = Some [3, 5, 4, 0], asize = 3, capcity = 4, junk = 0\<rparr>, cmp = default_cmp\<rparr>"

lemma heap_example_inv:
  "heap_inv default_cmp int heap_example" "heap_elems heap_example = [3, 5, 4]"
proof -
  show e: "heap_elems heap_example = [3, 5, 4]"
    by (simp add: heap_elems_def array_elems_def heap_example_def numeral_3_eq_3)
  have n: "heap_size heap_example = 3"
    by (simp add: heap_size_def array_size_def heap_example_def)
  have "heap_ord (\<lambda>i. int ([3, 5, 4] ! i)) 3"
    by (auto simp: heap_ord_def par_def less_Suc_eq numeral_3_eq_3)
  then show "heap_inv default_cmp int heap_example"
    by (simp add: heap_inv_def heap_wf_def e n) (simp add: heap_example_def array_inv_def)
qed

section \<open>Properties\<close>

text \<open>For every comparison callback that decides an order on keys, \<open>heap_push\<close> terminates without
  leaving the array block, keeps the heap order (one bottom-up pass of single \<open>heapify\<close> steps is
  enough) and adds exactly the pushed element.\<close>

theorem heap_push_correct:
  assumes "key_order c key" "heap_inv c key hp"
  shows "\<exists>hp'. heap_push hp e = Inr hp' \<and> heap_inv c key hp' \<and>
    mset (heap_elems hp') = add_mset e (mset (heap_elems hp))"
  by (rule key_order.heap_push_inv [OF assms])

theorem heap_push_correct_witness:
  "key_order default_cmp int \<and> heap_inv default_cmp int heap_example \<and>
   (\<exists>hp'. heap_push heap_example 1 = Inr hp' \<and> mset (heap_elems hp') = {#1, 3, 5, 4#})"
  using heap_push_correct [OF default_order.key_order_axioms heap_example_inv(1), of 1]
    heap_example_inv default_order.key_order_axioms by auto

text \<open>C5: \<open>heap_pop\<close> on a nonempty heap returns an element with the least key of all stored elements,
  removes exactly that element and restores the heap order.\<close>

theorem heap_pop_least:
  assumes "key_order c key" "heap_inv c key hp" "heap_elems hp \<noteq> []"
  shows "\<exists>e hp'. heap_pop hp = (Some e, hp') \<and> heap_inv c key hp' \<and>
    mset (heap_elems hp) = add_mset e (mset (heap_elems hp')) \<and> (\<forall>x\<in>set (heap_elems hp). key e \<le> key x)"
  by (rule key_order.heap_pop_inv [OF assms])

theorem heap_pop_least_witness:
  "heap_inv default_cmp int heap_example \<and> heap_elems heap_example \<noteq> [] \<and>
   (\<exists>e hp'. heap_pop heap_example = (Some e, hp') \<and> (\<forall>x\<in>{3, 5, 4}. int e \<le> int x))"
  using heap_pop_least [OF default_order.key_order_axioms heap_example_inv(1)] heap_example_inv by auto

end
