(* ===== verification/CaskCid.thy ===== *)
theory CaskCid
  imports CaskHeap
begin

text \<open>
  \<open>cid.h\<close> / \<open>cid.c\<close>: the per-thread allocator of coroutine ids.  Fresh ids are counted up to
  \<open>max_id\<close>; after that, freed ids are taken from a heap.  The \<open>__thread\<close> pointer \<open>_cid_allocator\<close>
  is an option; the thread id is a parameter.  The result \<open>-1\<close> stands for \<open>(cid_t)-1\<close>.
\<close>

section \<open>Model of cid.c\<close>

definition THREAD_MAX_TASK_SIZE :: nat where
  "THREAD_MAX_TASK_SIZE = 100000"

record id_dispatch =
  recycle :: heap
  base :: nat
  max_id :: nat
  high_tid :: int

text \<open>\<open>int lv = (cid_t)l\<close>: the low 32 bits, read as a signed number.\<close>

definition int_of_ptr :: "addr \<Rightarrow> int" where
  "int_of_ptr p = sint (word_of_nat p :: 32 word)"

definition id_cmp :: "addr \<Rightarrow> addr \<Rightarrow> bool" where
  "id_cmp l r = (int_of_ptr l < int_of_ptr r)"

definition id_dispatch_init :: "int \<Rightarrow> nat \<Rightarrow> id_dispatch \<Rightarrow> id_dispatch" where
  "id_dispatch_init tid mx idp =
     idp\<lparr>recycle := heap_init (Some id_cmp) (recycle idp), max_id := mx, base := 0, high_tid := tid * int mx\<rparr>"

definition new_id_dispatch :: id_dispatch where
  "new_id_dispatch =
     \<lparr>recycle = \<lparr>harray = \<lparr>vector = None, asize = 0, capcity = 0, junk = 0\<rparr>, cmp = default_cmp\<rparr>,
      base = 0, max_id = 0, high_tid = 0\<rparr>"

definition cid_allocator_init :: "int \<Rightarrow> nat \<Rightarrow> id_dispatch option \<Rightarrow> int \<times> id_dispatch option" where
  "cid_allocator_init tid mx g =
     (case g of
        Some idp \<Rightarrow> (-1, Some idp)
      | None \<Rightarrow> (0, Some (id_dispatch_init tid mx new_id_dispatch)))"

definition cid_allocator_destory :: "id_dispatch option \<Rightarrow> id_dispatch option" where
  "cid_allocator_destory g = None"

definition alloc_cid :: "int \<Rightarrow> id_dispatch option \<Rightarrow> int \<times> id_dispatch option" where
  "alloc_cid tid g =
     (let g1 = (if g = None then snd (cid_allocator_init tid THREAD_MAX_TASK_SIZE g) else g);
          idp = the g1
      in if base idp \<ge> max_id idp
         then (case heap_pop (recycle idp) of
                 (None, h) \<Rightarrow> (-1, Some (idp\<lparr>recycle := h\<rparr>))
               | (Some e, h) \<Rightarrow> (int_of_ptr e, Some (idp\<lparr>recycle := h\<rparr>)))
         else (int (base idp), Some (idp\<lparr>base := base idp + 1\<rparr>)))"

definition free_cid :: "nat \<Rightarrow> id_dispatch option \<Rightarrow> id_dispatch option res" where
  "free_cid cid g =
     (case g of
        None \<Rightarrow> Inr None
      | Some idp \<Rightarrow>
          (case heap_push (recycle idp) (cid mod max_id idp) of
             Inl f \<Rightarrow> Inl f
           | Inr h \<Rightarrow> Inr (Some (idp\<lparr>recycle := h\<rparr>))))"

text \<open>One thread's history: each step allocates an id for a new task or frees the id of a live one.
  The second component is the set of ids held by live tasks.\<close>

inductive cid_reach :: "int \<Rightarrow> id_dispatch option \<Rightarrow> nat set \<Rightarrow> bool" for tid where
  start: "cid_reach tid None {}"
| alloc: "cid_reach tid g L \<Longrightarrow> alloc_cid tid g = (int i, g') \<Longrightarrow> cid_reach tid g' (insert i L)"
| exhausted: "cid_reach tid g L \<Longrightarrow> alloc_cid tid g = (-1, g') \<Longrightarrow> cid_reach tid g' L"
| free: "cid_reach tid g L \<Longrightarrow> i \<in> L \<Longrightarrow> free_cid i g = Inr g' \<Longrightarrow> cid_reach tid g' (L - {i})"

section \<open>Invariant\<close>

definition cid_inv :: "id_dispatch \<Rightarrow> nat set \<Rightarrow> bool" where
  "cid_inv idp L \<longleftrightarrow> heap_inv id_cmp int_of_ptr (recycle idp) \<and> distinct (heap_elems (recycle idp)) \<and>
     set (heap_elems (recycle idp)) \<inter> L = {} \<and> set (heap_elems (recycle idp)) \<union> L = {0..<base idp} \<and>
     base idp \<le> max_id idp \<and> max_id idp \<le> THREAD_MAX_TASK_SIZE \<and> 0 < max_id idp"

interpretation id_order: key_order id_cmp int_of_ptr
  by unfold_locales (auto simp: id_cmp_def)

lemma int_of_ptr_id: "i < 2 ^ 31 \<Longrightarrow> int_of_ptr i = int i"
  by (simp add: int_of_ptr_def signed_of_nat signed_take_bit_int_eq_self)

lemma cid_inv_init: "0 < mx \<Longrightarrow> mx \<le> THREAD_MAX_TASK_SIZE \<Longrightarrow> cid_inv (id_dispatch_init tid mx idp) {}"
  using heap_init_inv [of "Some id_cmp" int_of_ptr] heap_init_elems
  by (simp add: cid_inv_def id_dispatch_init_def)

lemma cid_inv_bound: "cid_inv idp L \<Longrightarrow> i \<in> set (heap_elems (recycle idp)) \<union> L \<Longrightarrow> i < max_id idp \<and> i < 2 ^ 31"
  by (auto simp: cid_inv_def THREAD_MAX_TASK_SIZE_def)

lemma alloc_cid_inv:
  assumes inv: "cid_inv idp L"
  shows "alloc_cid tid (Some idp) = (-1, Some idp) \<and> L = {0..<max_id idp} \<or>
    (\<exists>i idp'. alloc_cid tid (Some idp) = (int i, Some idp') \<and> i \<notin> L \<and> i < max_id idp \<and>
       max_id idp' = max_id idp \<and> cid_inv idp' (insert i L))"
proof (cases "base idp \<ge> max_id idp")
  case False
  then have "alloc_cid tid (Some idp) = (int (base idp), Some (idp\<lparr>base := base idp + 1\<rparr>))"
    by (simp add: alloc_cid_def)
  moreover have "base idp \<notin> L" "cid_inv (idp\<lparr>base := base idp + 1\<rparr>) (insert (base idp) L)"
    using inv False by (auto simp: cid_inv_def)
  ultimately show ?thesis
    using False by auto
next
  case True
  let ?h = "recycle idp"
  have h: "heap_inv id_cmp int_of_ptr ?h"
    using inv by (simp add: cid_inv_def)
  show ?thesis
  proof (cases "heap_elems ?h = []")
    case Nil: True
    have "heap_pop ?h = (None, ?h)"
      using heap_pop_nil h Nil by (simp add: heap_inv_def)
    then have "alloc_cid tid (Some idp) = (-1, Some idp)"
      using True by (simp add: alloc_cid_def)
    moreover have "L = {0..<max_id idp}"
      using inv True Nil by (simp add: cid_inv_def)
    ultimately show ?thesis by blast
  next
    case False
    obtain e h' where e: "heap_pop ?h = (Some e, h')" "heap_inv id_cmp int_of_ptr h'"
      "mset (heap_elems ?h) = add_mset e (mset (heap_elems h'))"
      using id_order.heap_pop_inv [OF h False] by blast
    have se: "set (heap_elems ?h) = insert e (set (heap_elems h'))"
      using e(3) by (metis set_mset_add_mset_insert set_mset_mset)
    have "distinct (e # heap_elems h')"
      using e(3) inv by (metis cid_inv_def mset.simps(2) mset_eq_imp_distinct_iff)
    then have "cid_inv (idp\<lparr>recycle := h'\<rparr>) (insert e L)"
      using inv e(2) se by (auto simp: cid_inv_def)
    moreover have "e < max_id idp \<and> e < 2 ^ 31"
      using cid_inv_bound [OF inv, of e] se by blast
    moreover from this have "int_of_ptr e = int e"
      using int_of_ptr_id by blast
    moreover have "e \<notin> L"
      using inv se by (auto simp: cid_inv_def)
    moreover have "alloc_cid tid (Some idp) = (int_of_ptr e, Some (idp\<lparr>recycle := h'\<rparr>))"
      using True e(1) by (simp add: alloc_cid_def)
    ultimately show ?thesis by auto
  qed
qed

lemma free_cid_inv:
  assumes inv: "cid_inv idp L" and i: "i \<in> L"
  shows "\<exists>idp'. free_cid i (Some idp) = Inr (Some idp') \<and> cid_inv idp' (L - {i}) \<and> max_id idp' = max_id idp"
proof -
  let ?h = "recycle idp"
  have b: "i mod max_id idp = i"
    using cid_inv_bound [OF inv, of i] i by simp
  obtain h' where h: "heap_push ?h i = Inr h'" "heap_inv id_cmp int_of_ptr h'"
    "mset (heap_elems h') = add_mset i (mset (heap_elems ?h))"
    using id_order.heap_push_inv inv by (metis cid_inv_def)
  have se: "set (heap_elems h') = insert i (set (heap_elems ?h))"
    using h(3) by (metis set_mset_add_mset_insert set_mset_mset)
  have "distinct (heap_elems h') \<longleftrightarrow> distinct (i # heap_elems ?h)"
    using h(3) by (intro mset_eq_imp_distinct_iff) simp
  then have "cid_inv (idp\<lparr>recycle := h'\<rparr>) (L - {i})"
    using inv i h(2) se by (auto simp: cid_inv_def)
  then show ?thesis
    using h(1) b by (auto simp: free_cid_def)
qed

lemma alloc_cid_first: "alloc_cid tid None = alloc_cid tid (Some (id_dispatch_init tid THREAD_MAX_TASK_SIZE new_id_dispatch))"
  by (simp add: alloc_cid_def cid_allocator_init_def)

lemma cid_inv_first: "cid_inv (id_dispatch_init tid THREAD_MAX_TASK_SIZE new_id_dispatch) {}"
  by (rule cid_inv_init) (simp_all add: THREAD_MAX_TASK_SIZE_def)

lemma cid_reach_inv:
  assumes "cid_reach tid g L"
  shows "g = None \<and> L = {} \<or> (\<exists>idp. g = Some idp \<and> cid_inv idp L)"
  using assms
proof (induction rule: cid_reach.induct)
  case start
  then show ?case by simp
next
  case (alloc g L i g')
  then obtain idp where "alloc_cid tid (Some idp) = (int i, g')" "cid_inv idp L"
    using alloc_cid_first cid_inv_first by metis
  then show ?case
    using alloc_cid_inv [of idp L tid] by auto
next
  case (exhausted g L g')
  then obtain idp where "alloc_cid tid (Some idp) = (-1, g')" "cid_inv idp L"
    using alloc_cid_first cid_inv_first by metis
  then show ?case
    using alloc_cid_inv [of idp L tid] by auto
next
  case (free g L i g')
  then obtain idp where "g = Some idp" "cid_inv idp L"
    by auto
  then show ?case
    using free_cid_inv [of idp L i] free.hyps by auto
qed

section \<open>Properties\<close>

text \<open>C6: Coroutine ids are unique among live tasks: in every state the allocator can reach by
  allocating ids and freeing ids of live tasks, \<open>alloc_cid\<close> either returns an id below
  \<open>THREAD_MAX_TASK_SIZE\<close> that no live task holds, or returns \<open>-1\<close>, and the latter only when all
  \<open>max_id\<close> ids are held.\<close>

theorem alloc_cid_unique:
  assumes "cid_reach tid g L"
  shows "(\<exists>i g'. alloc_cid tid g = (int i, g') \<and> i \<notin> L \<and> i < THREAD_MAX_TASK_SIZE) \<or>
    (\<exists>idp. g = Some idp \<and> alloc_cid tid g = (-1, g) \<and> L = {0..<max_id idp})"
proof -
  consider "g = None" "L = {}" | idp where "g = Some idp" "cid_inv idp L"
    using cid_reach_inv [OF assms] by blast
  then show ?thesis
  proof cases
    case 1
    then show ?thesis
      by (auto simp: alloc_cid_def cid_allocator_init_def id_dispatch_init_def THREAD_MAX_TASK_SIZE_def)
  next
    case 2
    then have "max_id idp \<le> THREAD_MAX_TASK_SIZE"
      by (simp add: cid_inv_def)
    then show ?thesis
      using alloc_cid_inv [OF 2(2), of tid] 2(1) by fastforce
  qed
qed

theorem alloc_cid_unique_witness:
  "\<exists>g. cid_reach 7 g {0} \<and> (\<exists>i g'. alloc_cid 7 g = (int i, g') \<and> i \<notin> {0} \<or> alloc_cid 7 g = (-1, g))"
proof -
  let ?g = "snd (alloc_cid 7 None)"
  have "alloc_cid 7 None = (int 0, ?g)"
    by (simp add: alloc_cid_def cid_allocator_init_def id_dispatch_init_def THREAD_MAX_TASK_SIZE_def)
  then have r: "cid_reach 7 ?g {0}"
    using cid_reach.alloc [OF cid_reach.start] by fastforce
  show ?thesis
    using r alloc_cid_unique [OF r] by blast
qed

end
