(* ===== verification/CaskSched.thy ===== *)
theory CaskSched
  imports CaskList CaskCid
begin

text \<open>
  \<open>task.c\<close>, \<open>sched_RR.c\<close> and \<open>task_sched.c\<close>: tasks, the round-robin run queue and the scheduling
  loop of a thread.  A task is named by the address of its \<open>run_link\<close>; all links live in one
  memory, because the same \<open>run_link\<close> is also what the wait lists of mutexes, condition variables and
  semaphores thread.  Threads (schedulers) are numbered; \<open>me\<close> is the running one, and
  \<open>*t->sched\<close> is the number of the scheduler a task belongs to.

  What a task does between two context switches is not code of the library: it is a list of
  library calls and the status it leaves.  The same holds for \<open>epoll_wait\<close>, whose result is the
  list of tasks to resume.
\<close>

section \<open>Tasks\<close>

datatype task_status = READY | RUNNABLE | IO_BLOCK | SYS_BLOCK | SLEEP | KILLED | DEAD

record task =
  func :: addr
  iparam :: addr
  oparam :: addr
  stack_size :: nat
  specs :: addr
  cid :: int
  hook :: int
  errnu :: int
  status :: task_status
  tsched :: "nat option"

record run_queue =
  run_list :: addr
  task_num :: nat

text \<open>\<open>tk\<close>: contents of the task structures, \<open>live\<close>: the allocated ones, \<open>cids\<close>: the id allocator,
  \<open>rq\<close>: run queue per scheduler, \<open>active\<close>: bytes written to the wake-up pipe of a scheduler,
  \<open>timeout\<close>: \<open>epoll->timeout\<close> of the running thread.\<close>

record world =
  lnk :: links
  tk :: "addr \<Rightarrow> task"
  live :: "addr set"
  cids :: "id_dispatch option"
  g_task_alive :: nat
  rq :: "nat \<Rightarrow> run_queue"
  active :: "nat \<Rightarrow> nat"
  timeout :: int

definition RUN_STACK_SIZE :: nat where
  "RUN_STACK_SIZE = 2 ^ 18"

definition set_status :: "addr \<Rightarrow> task_status \<Rightarrow> world \<Rightarrow> world" where
  "set_status t st w = w\<lparr>tk := (tk w)(t := (tk w t)\<lparr>status := st\<rparr>)\<rparr>"

definition task_init :: "nat \<Rightarrow> addr \<Rightarrow> addr \<Rightarrow> addr \<Rightarrow> addr \<Rightarrow> world \<Rightarrow> world" where
  "task_init me t f ip op w =
     (let (c, g) = alloc_cid (int me) (cids w)
      in w\<lparr>cids := g, lnk := list_init t (lnk w),
           tk := (tk w)(t := \<lparr>func = f, iparam = ip, oparam = op,
                              stack_size = (if f \<noteq> NULL then RUN_STACK_SIZE else 0), specs = NULL, cid = c, hook = 0,
                              errnu = 0, status = READY, tsched = None\<rparr>)\<rparr>)"

text \<open>\<open>t\<close> is the address \<open>malloc\<close> returns.\<close>

definition task_create :: "nat \<Rightarrow> addr \<Rightarrow> addr \<Rightarrow> addr \<Rightarrow> addr \<Rightarrow> world \<Rightarrow> world" where
  "task_create me t f ip op w =
     (let w1 = task_init me t f ip op w
      in w1\<lparr>live := insert t (live w1), g_task_alive := g_task_alive w1 + 1\<rparr>)"

text \<open>\<open>free_cid\<close> takes the id as \<open>unsigned long\<close>.\<close>

definition task_destory :: "addr \<Rightarrow> world \<Rightarrow> world res" where
  "task_destory t w =
     (if t = NULL then Inr w
      else case free_cid (nat (cid (tk w t) mod 2 ^ 64)) (cids w) of
             Inl f \<Rightarrow> Inl f
           | Inr g \<Rightarrow> Inr (w\<lparr>lnk := list_delete t (lnk w), cids := g, live := live w - {t},
                             g_task_alive := g_task_alive w - 1\<rparr>))"

definition task_exit :: "addr \<Rightarrow> world \<Rightarrow> world" where
  "task_exit t w = (if t = NULL then w else set_status t KILLED w)"

section \<open>The round-robin policy\<close>

definition RR_init :: "nat \<Rightarrow> world \<Rightarrow> world" where
  "RR_init s w =
     w\<lparr>lnk := list_init (run_list (rq w s)) (lnk w), rq := (rq w)(s := (rq w s)\<lparr>task_num := 0\<rparr>)\<rparr>"

definition RR_enqueue :: "nat \<Rightarrow> addr \<Rightarrow> world \<Rightarrow> world" where
  "RR_enqueue s t w =
     w\<lparr>lnk := list_add_before (run_list (rq w s)) t (list_delete t (lnk w)),
       rq := (rq w)(s := (rq w s)\<lparr>task_num := task_num (rq w s) + 1\<rparr>)\<rparr>"

definition RR_dequeue :: "nat \<Rightarrow> addr \<Rightarrow> world \<Rightarrow> world" where
  "RR_dequeue s t w =
     w\<lparr>lnk := list_delete t (lnk w), rq := (rq w)(s := (rq w s)\<lparr>task_num := task_num (rq w s) - 1\<rparr>)\<rparr>"

section \<open>Scheduling\<close>

definition sched_active_event :: "nat \<Rightarrow> world \<Rightarrow> world" where
  "sched_active_event s w = w\<lparr>active := (active w)(s := active w s + 1)\<rparr>"

definition sched_rq_enqueue :: "nat \<Rightarrow> addr \<Rightarrow> world \<Rightarrow> world" where
  "sched_rq_enqueue me t w =
     (let w1 = set_status t RUNNABLE w;
          s = (case tsched (tk w1 t) of Some s \<Rightarrow> s | None \<Rightarrow> me);
          w2 = RR_enqueue s t (w1\<lparr>tk := (tk w1)(t := (tk w1 t)\<lparr>tsched := Some s\<rparr>)\<rparr>)
      in if s \<noteq> me then sched_active_event s w2 else w2)"

definition sched_rq_dequeue :: "nat \<Rightarrow> addr \<Rightarrow> world \<Rightarrow> world" where
  "sched_rq_dequeue me t w = RR_dequeue me t w"

abbreviation co_resume :: "nat \<Rightarrow> addr \<Rightarrow> world \<Rightarrow> world" where
  "co_resume \<equiv> sched_rq_enqueue"

definition delay_event :: "int \<Rightarrow> world \<Rightarrow> world" where
  "delay_event ms w = w\<lparr>timeout := ms\<rparr>"

text \<open>The loop of \<open>RR_picknext\<close>: every call of \<open>event_wait\<close> consumes one batch, the tasks whose events
  came in; with no batch left the thread is still inside \<open>epoll_wait\<close> and the result is \<open>None\<close>.
  The last component lists, for each call, the timeout it was made with and whether the run
  queue was empty at that moment.\<close>

fun RR_picknext :: "nat \<Rightarrow> addr list list \<Rightarrow> world \<Rightarrow> (addr \<times> addr list list \<times> world) option \<times> (int \<times> bool) list" where
  "RR_picknext me [] w = (None, [(timeout w, list_empty (list_next (run_list (rq w me)) (lnk w)) (lnk w))])"
| "RR_picknext me (b # bs) w =
     (let ls = list_next (run_list (rq w me)) (lnk w);
          call = (timeout w, list_empty ls (lnk w));
          w1 = fold (co_resume me) b w;
          w2 = delay_event (if b = [] \<and> list_empty ls (lnk w1) then 1000 * 60 else 0) w1;
          ls2 = list_next (run_list (rq w2 me)) (lnk w2)
      in if list_empty ls2 (lnk w2)
         then (case RR_picknext me bs w2 of (r, calls) \<Rightarrow> (r, call # calls))
         else (Some (ls2, bs, w2), [call]))"

text \<open>What a running task does before it switches back: resume a task (every wake-up of the library
  ends in \<open>co_resume\<close>), or create one at a fresh address.\<close>

datatype task_act = Resume addr | Create addr addr

fun do_act :: "nat \<Rightarrow> task_act \<Rightarrow> world \<Rightarrow> world" where
  "do_act me (Resume t) w = co_resume me t w"
| "do_act me (Create t f) w = sched_rq_enqueue me t (task_create me t f NULL NULL w)"

text \<open>The head of the loop of \<open>schedule\<close>: what happens to the task that just switched back.\<close>

definition sched_prev :: "nat \<Rightarrow> addr \<Rightarrow> world \<Rightarrow> world res" where
  "sched_prev me prev w =
     (if prev = NULL then Inr w
      else case status (tk w prev) of
             RUNNABLE \<Rightarrow> Inr (sched_rq_enqueue me prev w)
           | KILLED \<Rightarrow> task_destory prev w
           | _ \<Rightarrow> Inr w)"

text \<open>One round of \<open>schedule\<close>: settle the previous task, pick the next one, run it.  The task's part is
  given by \<open>run\<close>: its calls and the status it leaves (\<open>RUNNABLE\<close> for \<open>co_yield\<close>).\<close>

definition sched_round ::
  "nat \<Rightarrow> (addr \<Rightarrow> task_act list \<times> task_status) \<Rightarrow> addr \<Rightarrow> addr list list \<Rightarrow> world \<Rightarrow>
     (addr \<times> addr list list \<times> world) option res" where
  "sched_round me run prev bs w =
     (case sched_prev me prev w of
        Inl f \<Rightarrow> Inl f
      | Inr w1 \<Rightarrow>
          (case fst (RR_picknext me bs w1) of
             None \<Rightarrow> Inr None
           | Some (t, bs', w2) \<Rightarrow>
               (let w3 = set_status t RUNNABLE (sched_rq_dequeue me t w2);
                    (acts, st) = run t
                in Inr (Some (t, bs', set_status t st (fold (do_act me) acts w3))))))"

text \<open>\<open>n\<close> rounds, with the tasks that ran.\<close>

fun sched_rounds ::
  "nat \<Rightarrow> nat \<Rightarrow> (addr \<Rightarrow> task_act list \<times> task_status) \<Rightarrow> addr \<Rightarrow> addr list list \<Rightarrow> world \<Rightarrow>
     (addr list \<times> addr \<times> addr list list \<times> world) option res" where
  "sched_rounds 0 me run prev bs w = Inr (Some ([], prev, bs, w))"
| "sched_rounds (Suc n) me run prev bs w =
     (case sched_round me run prev bs w of
        Inl f \<Rightarrow> Inl f
      | Inr None \<Rightarrow> Inr None
      | Inr (Some (t, bs', w')) \<Rightarrow>
          (case sched_rounds n me run t bs' w' of
             Inl f \<Rightarrow> Inl f
           | Inr None \<Rightarrow> Inr None
           | Inr (Some (ts, p, bs'', w'')) \<Rightarrow> Inr (Some (t # ts, p, bs'', w''))))"

section \<open>The run queue as a list of tasks\<close>

definition rq_rep :: "nat \<Rightarrow> addr list \<Rightarrow> world \<Rightarrow> bool" where
  "rq_rep s xs w \<longleftrightarrow> ring (lnk w) (run_list (rq w s)) xs"

lemma set_status_fields [simp]:
  "lnk (set_status t st w) = lnk w" "rq (set_status t st w) = rq w" "timeout (set_status t st w) = timeout w"
  "live (set_status t st w) = live w" "cids (set_status t st w) = cids w"
  "tk (set_status t st w) u = (if u = t then (tk w t)\<lparr>status := st\<rparr> else tk w u)"
  by (simp_all add: set_status_def)

lemma RR_enqueue_fields [simp]:
  "run_list (rq (RR_enqueue s t w) n) = run_list (rq w n)" "tk (RR_enqueue s t w) = tk w"
  "timeout (RR_enqueue s t w) = timeout w" "live (RR_enqueue s t w) = live w"
  by (simp_all add: RR_enqueue_def)

lemma sched_rq_enqueue_fields [simp]:
  "run_list (rq (sched_rq_enqueue me t w) n) = run_list (rq w n)" "timeout (sched_rq_enqueue me t w) = timeout w"
  "live (sched_rq_enqueue me t w) = live w"
  by (simp_all add: sched_rq_enqueue_def sched_active_event_def Let_def)

text \<open>Enqueueing moves a task to the end of the run queue from wherever its link is: already in the
  queue, detached, or in a wait list.\<close>

lemma RR_enqueue_queued:
  assumes "rq_rep s xs w" "t \<in> set xs"
  shows "rq_rep s (remove1 t xs @ [t]) (RR_enqueue s t w)"
proof -
  obtain us vs where xs: "xs = us @ t # vs" "t \<notin> set us"
    using assms(2) by (meson split_list_first)
  have "ring (list_delete t (lnk w)) (run_list (rq w s)) (us @ vs)"
    using list_delete_ring assms(1) xs by (simp add: rq_rep_def)
  moreover have "t \<notin> set (run_list (rq w s) # us @ vs)"
    using ring_distinct [of "lnk w" "run_list (rq w s)" xs] assms(1) xs by (auto simp: rq_rep_def)
  ultimately have "ring (list_add_before (run_list (rq w s)) t (list_delete t (lnk w))) (run_list (rq w s)) ((us @ vs) @ [t])"
    by (rule list_add_before_ring)
  then show ?thesis
    using xs by (simp add: rq_rep_def RR_enqueue_def remove1_append)
qed

lemma RR_enqueue_detached:
  assumes "rq_rep s xs w" "ring (lnk w) t []" "t \<notin> set (run_list (rq w s) # xs)"
  shows "rq_rep s (xs @ [t]) (RR_enqueue s t w)"
  using assms list_add_before_ring list_delete_detached_id by (simp add: rq_rep_def RR_enqueue_def del: ring_Nil)

lemma RR_enqueue_waiting:
  assumes r: "rq_rep s xs w" and wl: "ring (lnk w) q (us @ t # vs)"
    and dis: "set (q # us @ t # vs) \<inter> set (run_list (rq w s) # xs) = {}"
  shows "rq_rep s (xs @ [t]) (RR_enqueue s t w) \<and> ring (lnk (RR_enqueue s t w)) q (us @ vs)"
proof -
  let ?h = "list_delete t (lnk w)" and ?q = "run_list (rq w s)"
  have "same_on (set (?q # xs)) (lnk w) ?h"
    by (rule list_delete_same [OF wl]) (use dis in auto)
  then have r': "ring ?h ?q xs"
    using r ring_frame by (simp add: rq_rep_def)
  have w': "ring ?h q (us @ vs)"
    by (rule list_delete_ring [OF wl])
  have "distinct (q # us @ t # vs)"
    by (rule ring_distinct [OF wl])
  then have "same_on (set (q # us @ vs)) ?h (list_add_before ?q t ?h)"
    by (intro list_add_same [OF r']) (use dis in auto)
  then have "ring (list_add_before ?q t ?h) q (us @ vs)"
    using w' ring_frame by blast
  moreover have "ring (list_add_before ?q t ?h) ?q (xs @ [t])"
    by (rule list_add_before_ring [OF r']) (use dis in auto)
  ultimately show ?thesis
    by (simp add: rq_rep_def RR_enqueue_def)
qed


lemma rq_rep_empty: "rq_rep s xs w \<Longrightarrow> list_empty (list_next (run_list (rq w s)) (lnk w)) (lnk w) \<longleftrightarrow> xs = []"
  using ring_ends(1) [of "lnk w" "run_list (rq w s)" xs] ring_member_not_empty [of "lnk w" "run_list (rq w s)" xs]
    ring_empty_iff [of "lnk w" "run_list (rq w s)" xs]
  by (cases xs) (auto simp: rq_rep_def)

lemma rq_rep_first: "rq_rep s (x # xs) w \<Longrightarrow> list_next (run_list (rq w s)) (lnk w) = x"
  using ring_ends(1) [of "lnk w" "run_list (rq w s)" "x # xs"] by (simp add: rq_rep_def)

lemma delay_event_fields [simp]:
  "lnk (delay_event ms w) = lnk w" "rq (delay_event ms w) = rq w" "tk (delay_event ms w) = tk w"
  "timeout (delay_event ms w) = ms" "rq_rep s xs (delay_event ms w) = rq_rep s xs w"
  by (simp_all add: delay_event_def rq_rep_def)

text \<open>With a nonempty queue after the events of a batch came in, the oldest task is picked.\<close>

lemma picknext_first:
  assumes "rq_rep me (x # xs) (fold (co_resume me) b w)"
  shows "RR_picknext me (b # bs) w =
    (Some (x, bs, delay_event 0 (fold (co_resume me) b w)), [(timeout w, list_empty (list_next (run_list (rq w me)) (lnk w)) (lnk w))])"
  using rq_rep_empty [OF assms] rq_rep_first [OF assms] by (cases "b = []") (simp_all add: Let_def)

lemma RR_dequeue_rep:
  assumes "rq_rep s (x # xs) w"
  shows "rq_rep s xs (RR_dequeue s x w) \<and> ring (lnk (RR_dequeue s x w)) x []"
  using list_delete_ring [of "lnk w" "run_list (rq w s)" "[]" x xs] list_delete_detached assms
  by (simp add: rq_rep_def RR_dequeue_def del: ring_Nil)

text \<open>The state between two rounds: \<open>p\<close> switched back still runnable, \<open>xs\<close> wait in the queue, all belong
  to this thread.\<close>

definition between :: "nat \<Rightarrow> addr \<Rightarrow> addr list \<Rightarrow> world \<Rightarrow> bool" where
  "between me p xs w \<longleftrightarrow> rq_rep me xs w \<and> ring (lnk w) p [] \<and> p \<notin> set (run_list (rq w me) # xs) \<and> 0 \<notin> set (p # xs) \<and>
     status (tk w p) = RUNNABLE \<and> (\<forall>t \<in> set (p # xs). tsched (tk w t) \<in> {None, Some me})"

definition yields :: "addr \<Rightarrow> task_act list \<times> task_status" where
  "yields t = ([], RUNNABLE)"

lemma sched_rq_enqueue_local:
  assumes "tsched (tk w t) \<in> {None, Some me}"
  shows "rq_rep me xs (sched_rq_enqueue me t w) \<longleftrightarrow> rq_rep me xs (RR_enqueue me t w)"
    and "lnk (sched_rq_enqueue me t w) = lnk (RR_enqueue me t w)"
    and "tsched (tk (sched_rq_enqueue me t w) u) \<in> {None, Some me} \<longleftrightarrow> tsched (tk w u) \<in> {None, Some me}"
  using assms by (auto simp: sched_rq_enqueue_def RR_enqueue_def rq_rep_def set_status_def Let_def)

lemma sched_round_yield:
  assumes "between me p xs w"
  shows "\<exists>w'. sched_round me yields p ([] # bs) w = Inr (Some (hd (xs @ [p]), bs, w')) \<and>
    between me (hd (xs @ [p])) (tl (xs @ [p])) w'"
proof -
  let ?w1 = "sched_rq_enqueue me p w"
  obtain y ys where y: "xs @ [p] = y # ys" by (cases "xs @ [p]") auto
  have b: "rq_rep me xs w" "ring (lnk w) p []" "p \<notin> set (run_list (rq w me) # xs)" "0 \<notin> set (p # xs)"
    "status (tk w p) = RUNNABLE" "\<forall>t \<in> set (p # xs). tsched (tk w t) \<in> {None, Some me}"
    using assms unfolding between_def by blast+
  have rep: "rq_rep me (y # ys) ?w1"
    using RR_enqueue_detached [OF b(1-3)] b(6) y sched_rq_enqueue_local(1) by simp
  then have pick: "fst (RR_picknext me ([] # bs) ?w1) = Some (y, bs, delay_event 0 ?w1)"
    using picknext_first [of me y ys "[]" ?w1 bs] by auto
  define w2 where "w2 = set_status y RUNNABLE (set_status y RUNNABLE (sched_rq_dequeue me y (delay_event 0 ?w1)))"
  have "sched_prev me p w = Inr ?w1"
    using b by (auto simp: sched_prev_def)
  then have round: "sched_round me yields p ([] # bs) w = Inr (Some (y, bs, w2))"
    using pick by (simp add: sched_round_def yields_def w2_def Let_def)
  have d: "rq_rep me ys w2 \<and> ring (lnk w2) y []"
    using RR_dequeue_rep [of me y ys "delay_event 0 ?w1"] rep
    by (simp add: w2_def sched_rq_dequeue_def rq_rep_def del: ring_Nil)
  have "distinct (run_list (rq w me) # y # ys)"
    using rep ring_distinct [of "lnk ?w1" "run_list (rq w me)" "y # ys"] by (simp add: rq_rep_def)
  moreover have "set (y # ys) = set (p # xs)"
    using y by (metis list.simps(15) set_append Un_insert_right sup_bot.right_neutral list.set(1))
  moreover have "tsched (tk w2 u) \<in> {None, Some me} \<longleftrightarrow> tsched (tk w u) \<in> {None, Some me}" for u
    using sched_rq_enqueue_local(3) [of w p me u] b(6)
    by (cases "u = y") (simp_all add: w2_def sched_rq_dequeue_def RR_dequeue_def)
  moreover have "run_list (rq w2 me) = run_list (rq w me)" "status (tk w2 y) = RUNNABLE"
    by (simp_all add: w2_def sched_rq_dequeue_def RR_dequeue_def)
  ultimately have "between me y ys w2"
    using d b(4,6) unfolding between_def by force
  then show ?thesis
    using round y by auto
qed

lemma sched_rounds_yield:
  assumes "between me p xs w"
  shows "\<exists>p' w'. sched_rounds n me yields p (replicate n [] @ bs) w =
      Inr (Some (map (\<lambda>i. hd (rotate (Suc i) (p # xs))) [0..<n], p', bs, w')) \<and>
    between me p' (tl (rotate n (p # xs))) w' \<and> p' = hd (rotate n (p # xs))"
  using assms
proof (induction n arbitrary: p xs w)
  case (Suc n)
  let ?y = "hd (xs @ [p])" and ?ys = "tl (xs @ [p])"
  have rot: "?y # ?ys = rotate1 (p # xs)"
    by (cases xs) auto
  obtain w1 where r: "sched_round me yields p ([] # replicate n [] @ bs) w = Inr (Some (?y, replicate n [] @ bs, w1))"
    "between me ?y ?ys w1"
    using sched_round_yield [OF Suc.prems] by blast
  have m: "map (\<lambda>i. hd (rotate (Suc i) (p # xs))) [0..<Suc n] =
      ?y # map (\<lambda>i. hd (rotate (Suc i) (?y # ?ys))) [0..<n]"
    unfolding rot by (simp add: rotate1_rotate_swap map_upt_Suc flip: rot del: upt_Suc)
  have "rotate n (?y # ?ys) = rotate (Suc n) (p # xs)"
    unfolding rot by (simp add: rotate1_rotate_swap)
  then show ?case
    using Suc.IH [OF r(2)] r(1) m by auto
qed (auto)


section \<open>Live tasks and their ids\<close>

definition cid_of :: "world \<Rightarrow> addr \<Rightarrow> int" where
  "cid_of w t = cid (tk w t)"

definition tasks_inv :: "world \<Rightarrow> bool" where
  "tasks_inv w \<longleftrightarrow> finite (live w) \<and> g_task_alive w = card (live w) \<and> inj_on (cid_of w) (live w) \<and> 0 \<notin> live w \<and>
     (case cids w of
        None \<Rightarrow> live w = {}
      | Some idp \<Rightarrow> max_id idp = THREAD_MAX_TASK_SIZE \<and> (\<exists>L. cid_inv idp L \<and> cid_of w ` live w = int ` L))"

text \<open>A thread's tasks over time: creation (below the limit on ids), destruction, and the steps that
  only change links, queues and statuses.\<close>

inductive task_hist :: "nat \<Rightarrow> world \<Rightarrow> bool" for me where
  start: "live w = {} \<Longrightarrow> cids w = None \<Longrightarrow> g_task_alive w = 0 \<Longrightarrow> task_hist me w"
| create: "task_hist me w \<Longrightarrow> t \<notin> live w \<Longrightarrow> t \<noteq> 0 \<Longrightarrow> card (live w) < THREAD_MAX_TASK_SIZE \<Longrightarrow>
     task_hist me (task_create me t f ip op w)"
| destory: "task_hist me w \<Longrightarrow> t \<in> live w \<Longrightarrow> task_destory t w = Inr w' \<Longrightarrow> task_hist me w'"
| enqueue: "task_hist me w \<Longrightarrow> task_hist me (sched_rq_enqueue me t w)"
| dequeue: "task_hist me w \<Longrightarrow> task_hist me (sched_rq_dequeue me t w)"
| status: "task_hist me w \<Longrightarrow> task_hist me (set_status t st w)"

lemma cid_of_upd:
  "cid_of (sched_rq_enqueue me t w) = cid_of w" "cid_of (set_status t st w) = cid_of w"
  "cid_of (sched_rq_dequeue me t w) = cid_of w"
  by (auto simp: cid_of_def fun_eq_iff sched_rq_enqueue_def sched_active_event_def sched_rq_dequeue_def
      RR_dequeue_def RR_enqueue_def set_status_def Let_def)

text \<open>The allocator as the invariant sees it: on first use it is initialised.\<close>

lemma alloc_cid_fresh_start:
  "alloc_cid tid None = alloc_cid tid (Some (id_dispatch_init tid THREAD_MAX_TASK_SIZE new_id_dispatch))"
  by (simp add: alloc_cid_def cid_allocator_init_def)

lemma alloc_for_live:
  assumes "cid_inv idp L" "max_id idp = THREAD_MAX_TASK_SIZE" "card L < THREAD_MAX_TASK_SIZE"
  shows "\<exists>i idp'. alloc_cid tid (Some idp) = (int i, Some idp') \<and> max_id idp' = THREAD_MAX_TASK_SIZE \<and>
    i \<notin> L \<and> cid_inv idp' (insert i L)"
  using alloc_cid_inv [OF assms(1), of tid] assms(2,3) by auto

lemma tasks_inv_ids:
  assumes "tasks_inv w"
  shows "\<exists>idp L. alloc_cid tid (cids w) = alloc_cid tid (Some idp) \<and> max_id idp = THREAD_MAX_TASK_SIZE \<and>
    cid_inv idp L \<and> cid_of w ` live w = int ` L \<and> card L = card (live w)"
proof (cases "cids w")
  case None
  then show ?thesis
    using assms cid_inv_init [of THREAD_MAX_TASK_SIZE tid new_id_dispatch]
    by (intro exI [of _ "id_dispatch_init tid THREAD_MAX_TASK_SIZE new_id_dispatch"] exI [of _ "{}"])
      (auto simp: tasks_inv_def alloc_cid_fresh_start id_dispatch_init_def THREAD_MAX_TASK_SIZE_def)
next
  case (Some idp)
  then obtain L where L: "max_id idp = THREAD_MAX_TASK_SIZE" "cid_inv idp L" "cid_of w ` live w = int ` L"
    using assms by (auto simp: tasks_inv_def)
  have "card (cid_of w ` live w) = card (live w)" "card (int ` L) = card L"
    using assms by (auto simp: tasks_inv_def card_image)
  then show ?thesis
    using L Some by auto
qed

lemma tasks_inv_create:
  assumes inv: "tasks_inv w" and t: "t \<notin> live w" "t \<noteq> 0" and c: "card (live w) < THREAD_MAX_TASK_SIZE"
  shows "tasks_inv (task_create me t f ip op w)"
proof -
  obtain idp0 K where k: "alloc_cid (int me) (cids w) = alloc_cid (int me) (Some idp0)" "max_id idp0 = THREAD_MAX_TASK_SIZE"
    "cid_inv idp0 K" "cid_of w ` live w = int ` K" "card K = card (live w)"
    using tasks_inv_ids [OF inv, of "int me"] by blast
  obtain i idp where a: "alloc_cid (int me) (cids w) = (int i, Some idp)" "max_id idp = THREAD_MAX_TASK_SIZE"
    "i \<notin> K" "cid_inv idp (insert i K)"
    using alloc_for_live [OF k(3,2), of "int me"] k(1,5) c by auto
  let ?w = "task_create me t f ip op w"
  have f: "live ?w = insert t (live w)" "cids ?w = Some idp" "g_task_alive ?w = g_task_alive w + 1"
    "cid_of ?w t = int i" "\<And>u. u \<noteq> t \<Longrightarrow> cid_of ?w u = cid_of w u"
    using a(1) by (simp_all add: task_create_def task_init_def cid_of_def Let_def)
  have img: "cid_of ?w ` live w = int ` K"
    using f(5) t(1) k(4) by (metis image_cong)
  moreover have "inj_on (cid_of ?w) (live w)"
    using inv f(5) t(1) inj_on_cong [of "live w" "cid_of ?w" "cid_of w"] by (metis tasks_inv_def)
  moreover have "cid_of ?w ` live ?w = int ` insert i K"
    using img f(1,4) by simp
  ultimately show ?thesis
    using inv t a f unfolding tasks_inv_def by (auto simp del: image_insert)
qed

lemma tasks_inv_destory:
  assumes inv: "tasks_inv w" and t: "t \<in> live w" and d: "task_destory t w = Inr w'"
  shows "tasks_inv w'"
proof -
  obtain idp L where L: "cids w = Some idp" "max_id idp = THREAD_MAX_TASK_SIZE" "cid_inv idp L" "cid_of w ` live w = int ` L"
    using inv t by (auto simp: tasks_inv_def split: option.splits)
  obtain i where i: "cid_of w t = int i" "i \<in> L"
    using L(4) t by (metis image_eqI image_iff)
  have "i < 2 ^ 31"
    using cid_inv_bound [OF L(3), of i] i(2) by blast
  then have n: "nat (cid (tk w t) mod 2 ^ 64) = i"
    using i(1) by (simp add: cid_of_def)
  obtain idp' where f: "free_cid i (Some idp) = Inr (Some idp')" "cid_inv idp' (L - {i})" "max_id idp' = max_id idp"
    using free_cid_inv [OF L(3) i(2)] by blast
  have t0: "t \<noteq> 0"
    using inv t unfolding tasks_inv_def by metis
  have w': "w' = w\<lparr>lnk := list_delete t (lnk w), cids := Some idp', live := live w - {t}, g_task_alive := g_task_alive w - 1\<rparr>"
    using d t0 n f(1) L(1) by (simp add: task_destory_def)
  have inj: "inj_on (cid_of w) (live w)"
    using inv by (simp add: tasks_inv_def)
  have "cid_of w ` (live w - {t}) = int ` (L - {i})"
    using inj_on_image_set_diff [OF inj, of "live w" "{t}"] t L(4) i(1) by (auto simp: image_set_diff)
  moreover have "cid_of w' = cid_of w"
    by (simp add: w' cid_of_def fun_eq_iff)
  moreover have "inj_on (cid_of w) (live w - {t})"
    using inj by (rule inj_on_diff)
  ultimately show ?thesis
    using inv t f(2,3) L(2) by (auto simp: tasks_inv_def w')
qed

lemma tasks_inv_frame:
  "live w' = live w \<Longrightarrow> cids w' = cids w \<Longrightarrow> g_task_alive w' = g_task_alive w \<Longrightarrow> cid_of w' = cid_of w \<Longrightarrow>
   tasks_inv w' = tasks_inv w"
  by (simp add: tasks_inv_def split: option.split)

lemma tasks_inv_upd [simp]:
  "tasks_inv (sched_rq_enqueue me t w) = tasks_inv w" "tasks_inv (set_status t st w) = tasks_inv w"
  "tasks_inv (sched_rq_dequeue me t w) = tasks_inv w"
  by (rule tasks_inv_frame [OF _ _ _ cid_of_upd(1)] tasks_inv_frame [OF _ _ _ cid_of_upd(2)]
      tasks_inv_frame [OF _ _ _ cid_of_upd(3)];
      simp add: sched_rq_enqueue_def sched_active_event_def sched_rq_dequeue_def
        RR_dequeue_def RR_enqueue_def set_status_def Let_def)+

lemma task_hist_inv: "task_hist me w \<Longrightarrow> tasks_inv w"
proof (induction rule: task_hist.induct)
  case (start w)
  then show ?case by (simp add: tasks_inv_def)
next
  case (create w t f ip op)
  show ?case by (rule tasks_inv_create [OF create.IH create.hyps(2-4)])
next
  case (destory w t w')
  show ?case by (rule tasks_inv_destory [OF destory.IH destory.hyps(2,3)])
qed simp_all

section \<open>A concrete thread\<close>

definition task_example :: task where
  "task_example = \<lparr>func = 1, iparam = 0, oparam = 0, stack_size = RUN_STACK_SIZE, specs = 0, cid = 0, hook = 0,
     errnu = 0, status = RUNNABLE, tsched = None\<rparr>"

definition empty_world :: world where
  "empty_world = \<lparr>lnk = \<lparr>prv = (\<lambda>a. a), nxt = (\<lambda>a. a)\<rparr>, tk = (\<lambda>_. task_example), live = {}, cids = None,
     g_task_alive = 0, rq = (\<lambda>_. \<lparr>run_list = 100, task_num = 0\<rparr>), active = (\<lambda>_. 0), timeout = 0\<rparr>"

text \<open>Tasks 2 and 3 queued, task 1 just switched back.\<close>

definition sched_example :: world where
  "sched_example = RR_enqueue 0 3 (RR_enqueue 0 2 empty_world)"

lemma sched_example_between: "between 0 1 [2, 3] sched_example"
  by (simp add: between_def sched_example_def empty_world_def task_example_def RR_enqueue_def rq_rep_def ring_def
      list_add_before_def)

section \<open>Properties\<close>

text \<open>C2: Round robin: from a state with task \<open>p\<close> switched back and tasks \<open>xs\<close> queued, all of them tasks that
  only yield, any number of rounds of \<open>schedule\<close> runs them in cyclic order: round \<open>i\<close> runs the head
  of the list \<open>p # xs\<close> rotated \<open>i + 1\<close> times, and no round faults or blocks.\<close>

theorem schedule_round_robin:
  assumes "between me p xs w"
  shows "\<exists>p' w'. sched_rounds n me yields p (replicate n []) w =
    Inr (Some (map (\<lambda>i. hd (rotate (Suc i) (p # xs))) [0..<n], p', [], w')) \<and>
    between me p' (tl (rotate n (p # xs))) w'"
  using sched_rounds_yield [OF assms, of n "[]"] by auto

theorem schedule_round_robin_witness:
  "\<exists>p' w'. sched_rounds 4 0 yields 1 (replicate 4 []) sched_example = Inr (Some ([2, 3, 1, 2], p', [], w'))"
proof -
  have "map (\<lambda>i. hd (rotate (Suc i) [1, 2, 3 :: addr])) [0..<4] = [2, 3, 1, 2]"
    by code_simp
  then show ?thesis
    using schedule_round_robin [OF sched_example_between, of 4] by metis
qed

text \<open>The thread never sleeps in \<open>epoll_wait\<close> while a task is runnable: if \<open>RR_picknext\<close> is entered with
  a zero timeout or an empty run queue, every \<open>event_wait\<close> it makes with a nonzero timeout is made
  with an empty run queue, and when it returns a task the timeout is zero again.\<close>

theorem picknext_never_oversleeps:
  assumes "RR_picknext me bs w = (r, calls)"
    and "timeout w = 0 \<or> list_empty (list_next (run_list (rq w me)) (lnk w)) (lnk w)"
  shows "(\<forall>(ms, queue_empty) \<in> set calls. ms = 0 \<or> queue_empty) \<and>
    (case r of None \<Rightarrow> True | Some (t, bs', w') \<Rightarrow> timeout w' = 0)"
  using assms
proof (induction bs arbitrary: w r calls)
  case Nil
  then show ?case by auto
next
  case (Cons b bs)
  let ?ls = "list_next (run_list (rq w me)) (lnk w)"
  let ?w1 = "fold (co_resume me) b w"
  let ?w2 = "delay_event (if b = [] \<and> list_empty ?ls (lnk ?w1) then 1000 * 60 else 0) ?w1"
  let ?e = "list_empty (list_next (run_list (rq ?w2 me)) (lnk ?w2)) (lnk ?w2)"
  show ?case
  proof (cases ?e)
    case True
    obtain calls' where c: "RR_picknext me bs ?w2 = (r, calls')" "calls = (timeout w, list_empty ?ls (lnk w)) # calls'"
      using Cons.prems(1) True by (auto simp: Let_def split: prod.splits)
    show ?thesis
      using Cons.IH [OF c(1)] True c(2) Cons.prems(2) by auto
  next
    case False
    then show ?thesis
      using Cons.prems by (cases "b = []") (auto simp: Let_def)
  qed
qed

theorem picknext_never_oversleeps_witness:
  "\<exists>r calls. RR_picknext 0 [[], [5]] (empty_world\<lparr>timeout := 1000\<rparr>) = (r, calls) \<and>
     (\<forall>(ms, queue_empty) \<in> set calls. ms = 0 \<or> queue_empty)"
proof -
  obtain r calls where c: "RR_picknext 0 [[], [5]] (empty_world\<lparr>timeout := 1000\<rparr>) = (r, calls)"
    by (cases "RR_picknext 0 [[], [5]] (empty_world\<lparr>timeout := 1000\<rparr>)")
  then show ?thesis
    using picknext_never_oversleeps [OF c] by (simp add: empty_world_def list_empty_def list_next_def)
qed

text \<open>Task ids: over every history of creating, destroying, queueing and switching the tasks of a
  thread, with never more than \<open>THREAD_MAX_TASK_SIZE\<close> of them alive, all live tasks have different ids
  and \<open>g_task_alive\<close> is their number.\<close>

theorem task_ids_unique:
  assumes "task_hist me w"
  shows "inj_on (\<lambda>t. cid (tk w t)) (live w) \<and> g_task_alive w = card (live w)"
  using task_hist_inv [OF assms] by (simp add: tasks_inv_def cid_of_def inj_on_def)

theorem task_ids_unique_witness:
  "\<exists>w. task_hist 0 w \<and> live w = {5, 6} \<and> cid (tk w 5) \<noteq> cid (tk w 6)"
proof -
  let ?w = "task_create 0 6 1 0 0 (task_create 0 5 1 0 0 empty_world)"
  have l: "live (task_create 0 t f 0 0 w) = insert t (live w)" for t f w
    by (simp add: task_create_def task_init_def Let_def split: prod.split)
  have e: "task_hist 0 empty_world"
    by (rule task_hist.start) (simp_all add: empty_world_def)
  have "task_hist 0 ?w"
    by (intro task_hist.create e; simp add: l empty_world_def THREAD_MAX_TASK_SIZE_def)
  moreover have "live ?w = {5, 6}"
    by (auto simp: l empty_world_def)
  ultimately show ?thesis
    using task_ids_unique [of 0 ?w] by (intro exI [of _ ?w]) (simp add: inj_on_def)
qed

text \<open>Beyond the limit uniqueness is lost: with all ids taken, \<open>alloc_cid\<close> returns \<open>-1\<close>, which \<open>task_init\<close>
  stores unchecked; destroying that task frees the id \<open>(2^64 - 1) mod 100000 = 51615\<close>, and the next task
  gets this id although another task still holds it.\<close>

theorem exhausted_ids_are_reissued:
  assumes "cid_inv idp {0..<THREAD_MAX_TASK_SIZE}" "max_id idp = THREAD_MAX_TASK_SIZE"
  shows "\<exists>idp' idp''. alloc_cid tid (Some idp) = (-1, Some idp) \<and>
    free_cid (2 ^ 64 - 1) (Some idp) = Inr (Some idp') \<and> alloc_cid tid (Some idp') = (51615, Some idp'')"
proof -
  have i: "heap_inv id_cmp int_of_ptr (recycle idp)" "set (heap_elems (recycle idp)) \<inter> {0..<THREAD_MAX_TASK_SIZE} = {}"
    "set (heap_elems (recycle idp)) \<union> {0..<THREAD_MAX_TASK_SIZE} = {0..<base idp}" "base idp \<le> max_id idp"
    using assms(1) unfolding cid_inv_def by blast+
  have "THREAD_MAX_TASK_SIZE - 1 \<in> {0..<base idp}"
    unfolding i(3) [symmetric] by (simp add: THREAD_MAX_TASK_SIZE_def)
  then have "THREAD_MAX_TASK_SIZE \<le> base idp"
    by (simp add: THREAD_MAX_TASK_SIZE_def)
  then have b: "base idp = max_id idp"
    using i(4) assms(2) by simp
  then have "set (heap_elems (recycle idp)) \<subseteq> {0..<THREAD_MAX_TASK_SIZE}"
    using i(3) assms(2) by (metis Un_upper1)
  then have h: "heap_inv id_cmp int_of_ptr (recycle idp)" "heap_elems (recycle idp) = []" "base idp = max_id idp"
    using i(1,2) b by (auto simp: Int_absorb2)
  obtain h' where p: "heap_push (recycle idp) 51615 = Inr h'" "heap_inv id_cmp int_of_ptr h'"
    "mset (heap_elems h') = add_mset 51615 (mset (heap_elems (recycle idp)))"
    using id_order.heap_push_inv [OF h(1)] by blast
  have e: "heap_elems h' = [51615]"
    using p(3) h(2) by simp
  then obtain x h'' where q: "heap_pop h' = (Some x, h'')" "mset (heap_elems h') = add_mset x (mset (heap_elems h''))"
    using id_order.heap_pop_inv [OF p(2)] by force
  then have "x = 51615"
    using e by (metis add_mset_eq_single mset_single_iff_right mset.simps)
  then show ?thesis
    using h p q assms(2)
    by (auto simp: alloc_cid_def free_cid_def THREAD_MAX_TASK_SIZE_def heap_pop_nil heap_inv_def int_of_ptr_id)
qed

text \<open>An allocator that has handed out every id once.\<close>

definition full_example :: id_dispatch where
  "full_example = (id_dispatch_init 0 THREAD_MAX_TASK_SIZE new_id_dispatch)\<lparr>base := THREAD_MAX_TASK_SIZE\<rparr>"

theorem exhausted_ids_are_reissued_witness:
  "\<exists>idp' idp''. alloc_cid 7 (Some full_example) = (-1, Some full_example) \<and>
    free_cid (2 ^ 64 - 1) (Some full_example) = Inr (Some idp') \<and> alloc_cid 7 (Some idp') = (51615, Some idp'')"
proof (rule exhausted_ids_are_reissued)
  have "cid_inv (id_dispatch_init 0 THREAD_MAX_TASK_SIZE new_id_dispatch) {}"
    by (rule cid_inv_init) (simp_all add: THREAD_MAX_TASK_SIZE_def)
  then show "cid_inv full_example {0..<THREAD_MAX_TASK_SIZE}"
    by (auto simp: cid_inv_def full_example_def id_dispatch_init_def)
  show "max_id full_example = THREAD_MAX_TASK_SIZE"
    by (simp add: full_example_def id_dispatch_init_def)
qed

end
