(* ===== verification/CaskAtomic.thy ===== *)
theory CaskAtomic
  imports CaskPrelude
begin

text \<open>
  \<open>atomic.h\<close> and \<open>co_spin_lock.c\<close>: atomic 32-bit integers and the two spin locks, the plain
  compare-and-swap lock and the ticket lock of the \<open>CO_TICKET_SPINLOCK\<close> build.  Memory is sequentially
  consistent and every atomic operation is one step; a spinning loop is a step that is only
  enabled when its condition lets the thread through.
\<close>

section \<open>Model of atomic.h\<close>

type_synonym cint = "32 word"

record atomic_t =
  v :: cint

definition atomic_get :: "atomic_t \<Rightarrow> cint" where
  "atomic_get t = v t"

definition atomic_set :: "cint \<Rightarrow> atomic_t \<Rightarrow> atomic_t" where
  "atomic_set n t = t\<lparr>v := n\<rparr>"

definition atomic_add_and_fetch :: "cint \<Rightarrow> atomic_t \<Rightarrow> cint \<times> atomic_t" where
  "atomic_add_and_fetch n t = (v t + n, t\<lparr>v := v t + n\<rparr>)"

definition atomic_sub_and_fetch :: "cint \<Rightarrow> atomic_t \<Rightarrow> cint \<times> atomic_t" where
  "atomic_sub_and_fetch n t = (v t - n, t\<lparr>v := v t - n\<rparr>)"

definition atomic_fetch_and_add :: "cint \<Rightarrow> atomic_t \<Rightarrow> cint \<times> atomic_t" where
  "atomic_fetch_and_add n t = (v t, t\<lparr>v := v t + n\<rparr>)"

definition atomic_fetch_and_sub :: "cint \<Rightarrow> atomic_t \<Rightarrow> cint \<times> atomic_t" where
  "atomic_fetch_and_sub n t = (v t, t\<lparr>v := v t - n\<rparr>)"

definition atomic_compare_and_swap :: "cint \<Rightarrow> cint \<Rightarrow> atomic_t \<Rightarrow> bool \<times> atomic_t" where
  "atomic_compare_and_swap old new t = (if v t = old then (True, t\<lparr>v := new\<rparr>) else (False, t))"

text \<open>The inline assembly: \<open>sete\<close> stores the zero flag and \<open>sets\<close> the sign flag of the result.\<close>

definition atomic_sub_and_test :: "cint \<Rightarrow> atomic_t \<Rightarrow> bool \<times> atomic_t" where
  "atomic_sub_and_test i t = (v t - i = 0, t\<lparr>v := v t - i\<rparr>)"

definition atomic_add_and_test :: "cint \<Rightarrow> atomic_t \<Rightarrow> bool \<times> atomic_t" where
  "atomic_add_and_test i t = (v t + i = 0, t\<lparr>v := v t + i\<rparr>)"

definition atomic_inc :: "atomic_t \<Rightarrow> atomic_t" where
  "atomic_inc t = t\<lparr>v := v t + 1\<rparr>"

definition atomic_dec :: "atomic_t \<Rightarrow> atomic_t" where
  "atomic_dec t = t\<lparr>v := v t - 1\<rparr>"

definition atomic_inc_and_test :: "atomic_t \<Rightarrow> bool \<times> atomic_t" where
  "atomic_inc_and_test t = (v t + 1 = 0, t\<lparr>v := v t + 1\<rparr>)"

definition atomic_dec_and_test :: "atomic_t \<Rightarrow> bool \<times> atomic_t" where
  "atomic_dec_and_test t = (v t - 1 = 0, t\<lparr>v := v t - 1\<rparr>)"

definition atomic_dec_and_negative :: "atomic_t \<Rightarrow> bool \<times> atomic_t" where
  "atomic_dec_and_negative t = (v t - 1 <s 0, t\<lparr>v := v t - 1\<rparr>)"

definition atomic_inc_and_negative :: "atomic_t \<Rightarrow> bool \<times> atomic_t" where
  "atomic_inc_and_negative t = (v t + 1 <s 0, t\<lparr>v := v t + 1\<rparr>)"

text \<open>Signed comparisons of a counter that did not wrap around.\<close>

lemma word_of_int_sless:
  assumes "- (2 ^ 31) \<le> x" "x < (2 ^ 31 :: int)"
  shows "((word_of_int x :: cint) <s 0) = (x < 0)" "(0 \<le>s (word_of_int x :: cint)) = (0 \<le> x)"
  using assms by (simp_all add: word_sless_alt word_sle_eq signed_of_int signed_take_bit_int_eq_self)

lemma word_of_nat_count:
  assumes "k < 2 ^ 31"
  shows "(word_of_nat k :: cint) = 0 \<longleftrightarrow> k = 0" "0 <s (word_of_nat k :: cint) \<longleftrightarrow> 0 < k"
proof -
  have s: "sint (word_of_int (int k) :: cint) = int k"
    using assms by (simp add: signed_of_int signed_take_bit_int_eq_self del: of_int_of_nat_eq)
  show z: "(word_of_nat k :: cint) = 0 \<longleftrightarrow> k = 0"
  proof
    assume "(word_of_nat k :: cint) = 0"
    then show "k = 0" using s by simp
  qed simp
  show "0 <s (word_of_nat k :: cint) \<longleftrightarrow> 0 < k"
    using s by (simp add: word_sless_alt)
qed

section \<open>Model of co_spin_lock.c: compare and swap\<close>

definition SPIN_RELESAED :: cint where "SPIN_RELESAED = 1"
definition SPIN_ACQUIRED :: cint where "SPIN_ACQUIRED = 0"

definition spin_lock_init :: "atomic_t \<Rightarrow> atomic_t" where
  "spin_lock_init sl = atomic_set SPIN_RELESAED sl"

text \<open>\<open>None\<close>: the loop goes on spinning.\<close>

definition spin_lock :: "atomic_t \<Rightarrow> atomic_t option" where
  "spin_lock sl = (case atomic_compare_and_swap SPIN_RELESAED SPIN_ACQUIRED sl of
     (True, sl') \<Rightarrow> Some sl' | (False, sl') \<Rightarrow> None)"

definition spin_locked :: "atomic_t \<Rightarrow> bool" where
  "spin_locked sl = (atomic_get sl = SPIN_ACQUIRED)"

definition spin_unlock :: "atomic_t \<Rightarrow> atomic_t res" where
  "spin_unlock sl =
     (if \<not> spin_locked sl then Inl (Panic ''spin lock in not locked'')
      else Inr (snd (atomic_compare_and_swap SPIN_ACQUIRED SPIN_RELESAED sl)))"

definition spin_trylock :: "atomic_t \<Rightarrow> bool \<times> atomic_t" where
  "spin_trylock sl =
     (if spin_locked sl then (True, sl) else atomic_compare_and_swap SPIN_RELESAED SPIN_ACQUIRED sl)"

lemmas spin_defs = spin_lock_def spin_locked_def spin_unlock_def spin_lock_init_def spin_trylock_def
  SPIN_RELESAED_def SPIN_ACQUIRED_def atomic_compare_and_swap_def atomic_get_def atomic_set_def

lemma spin_lock_iff: "spin_lock sl = Some sl' \<longleftrightarrow> v sl = 1 \<and> sl' = sl\<lparr>v := 0\<rparr>"
  by (auto simp: spin_defs split: if_splits)

lemma spin_unlock_acquired: "v sl = 0 \<Longrightarrow> spin_unlock sl = Inr (sl\<lparr>v := 1\<rparr>)"
  by (simp add: spin_defs)

section \<open>The ticket lock\<close>

text \<open>A thread takes a ticket from \<open>next\<close> and spins until \<open>owner\<close> shows it; both counters wrap
  around.  \<open>pc\<close> is \<open>None\<close> outside, \<open>Some (id, holding)\<close> inside.\<close>

record ticket_lock =
  tnext :: atomic_t
  owner :: atomic_t
  tpc :: "nat \<Rightarrow> (cint \<times> bool) option"

definition ticket_lock_init :: "ticket_lock \<Rightarrow> ticket_lock" where
  "ticket_lock_init sl = sl\<lparr>tnext := atomic_set 0 (tnext sl), owner := atomic_set 0 (owner sl)\<rparr>"

definition ticket_take :: "nat \<Rightarrow> ticket_lock \<Rightarrow> ticket_lock" where
  "ticket_take t sl =
     (let (i, n) = atomic_fetch_and_add 1 (tnext sl) in sl\<lparr>tnext := n, tpc := (tpc sl)(t := Some (i, False))\<rparr>)"

definition ticket_enter :: "nat \<Rightarrow> cint \<Rightarrow> ticket_lock \<Rightarrow> ticket_lock option" where
  "ticket_enter t i sl =
     (if i = atomic_get (owner sl) then Some (sl\<lparr>tpc := (tpc sl)(t := Some (i, True))\<rparr>) else None)"

definition ticket_locked :: "ticket_lock \<Rightarrow> bool" where
  "ticket_locked sl = (atomic_get (owner sl) \<noteq> atomic_get (tnext sl))"

definition ticket_unlock :: "nat \<Rightarrow> ticket_lock \<Rightarrow> ticket_lock" where
  "ticket_unlock t sl = sl\<lparr>owner := atomic_inc (owner sl), tpc := (tpc sl)(t := None)\<rparr>"

text \<open>\<open>N\<close> threads use the lock.\<close>

inductive ticket_reach :: "nat \<Rightarrow> ticket_lock \<Rightarrow> bool" for N where
  start: "ticket_reach N (ticket_lock_init \<lparr>tnext = a, owner = b, tpc = (\<lambda>_. None)\<rparr>)"
| take: "ticket_reach N sl \<Longrightarrow> t < N \<Longrightarrow> tpc sl t = None \<Longrightarrow> ticket_reach N (ticket_take t sl)"
| enter: "ticket_reach N sl \<Longrightarrow> tpc sl t = Some (i, False) \<Longrightarrow> ticket_enter t i sl = Some sl' \<Longrightarrow> ticket_reach N sl'"
| unlock: "ticket_reach N sl \<Longrightarrow> tpc sl t = Some (i, True) \<Longrightarrow> ticket_reach N (ticket_unlock t sl)"

text \<open>The threads inside, in ticket order: the \<open>k\<close>-th of them holds ticket \<open>owner + k\<close>, and only the first
  can be past the spin.\<close>

definition ticket_inv :: "nat \<Rightarrow> ticket_lock \<Rightarrow> nat list \<Rightarrow> bool" where
  "ticket_inv N sl ts \<longleftrightarrow> distinct ts \<and> set ts \<subseteq> {0..<N} \<and> (\<forall>t. t \<notin> set ts \<longrightarrow> tpc sl t = None) \<and>
     v (tnext sl) = v (owner sl) + word_of_nat (length ts) \<and>
     (\<forall>k < length ts. \<exists>h. tpc sl (ts ! k) = Some (v (owner sl) + word_of_nat k, h) \<and> (h \<longrightarrow> k = 0))"

lemma ticket_inv_length: "ticket_inv N sl ts \<Longrightarrow> length ts \<le> N"
  unfolding ticket_inv_def by (metis card_atLeastLessThan card_mono diff_zero distinct_card finite_atLeastLessThan)

lemma word_of_nat_small: "k < 2 ^ 32 \<Longrightarrow> (word_of_nat k :: cint) = 0 \<longleftrightarrow> k = 0"
  by (simp add: word_unat_eq_iff unat_of_nat)

lemma ticket_take_inv:
  assumes inv: "ticket_inv N sl ts" and t: "t < N" "tpc sl t = None"
  shows "ticket_inv N (ticket_take t sl) (ts @ [t])"
proof -
  have nt: "t \<notin> set ts"
    using inv t(2) unfolding ticket_inv_def by (metis in_set_conv_nth option.distinct(1))
  show ?thesis
    using inv t nt
    by (auto simp: ticket_inv_def ticket_take_def atomic_fetch_and_add_def nth_append less_Suc_eq)
qed

lemma ticket_enter_inv:
  assumes inv: "ticket_inv N sl ts" and N: "N < 2 ^ 32"
    and t: "tpc sl t = Some (i, False)" "ticket_enter t i sl = Some sl'"
  shows "ticket_inv N sl' ts \<and> ts \<noteq> [] \<and> ts ! 0 = t"
proof -
  have "t \<in> set ts"
    using inv t(1) by (auto simp: ticket_inv_def)
  then obtain k where k: "k < length ts" "ts ! k = t"
    by (meson in_set_conv_nth)
  then have "i = v (owner sl) + word_of_nat k"
    using inv t(1) by (auto simp: ticket_inv_def)
  moreover have "i = v (owner sl)" and sl': "sl' = sl\<lparr>tpc := (tpc sl)(t := Some (i, True))\<rparr>"
    using t(2) by (auto simp: ticket_enter_def atomic_get_def split: if_splits)
  ultimately have "(word_of_nat k :: cint) = 0"
    by simp
  then have k0: "k = 0"
    using word_of_nat_small k(1) ticket_inv_length [OF inv] N by (metis less_le_trans less_trans)
  show ?thesis
    using inv k k0 \<open>i = v (owner sl)\<close> unfolding sl'
    by (auto simp: ticket_inv_def nth_eq_iff_index_eq)
qed

lemma ticket_unlock_inv:
  assumes inv: "ticket_inv N sl ts" and t: "tpc sl t = Some (i, True)"
  shows "ticket_inv N (ticket_unlock t sl) (tl ts)"
proof -
  have "t \<in> set ts"
    using inv t(1) by (auto simp: ticket_inv_def)
  then obtain k where k: "k < length ts" "ts ! k = t"
    by (meson in_set_conv_nth)
  then have "k = 0"
    using inv t by (auto simp: ticket_inv_def)
  then obtain us where ts: "ts = t # us"
    using k by (cases ts) auto
  have "\<exists>h. tpc (ticket_unlock t sl) (us ! k) = Some (v (owner (ticket_unlock t sl)) + word_of_nat k, h) \<and> (h \<longrightarrow> k = 0)"
    if "k < length us" for k
  proof -
    have "\<exists>h. tpc sl (ts ! Suc k) = Some (v (owner sl) + word_of_nat (Suc k), h) \<and> (h \<longrightarrow> Suc k = 0)"
      using inv that ts unfolding ticket_inv_def by (metis Suc_less_eq length_Cons)
    moreover have "us ! k \<noteq> t"
      using inv that ts by (auto simp: ticket_inv_def)
    ultimately show ?thesis
      using ts by (auto simp: ticket_unlock_def atomic_inc_def)
  qed
  then show ?thesis
    using inv ts by (auto simp: ticket_inv_def ticket_unlock_def atomic_inc_def)
qed

lemma ticket_reach_inv: "ticket_reach N sl \<Longrightarrow> N < 2 ^ 32 \<Longrightarrow> \<exists>ts. ticket_inv N sl ts"
proof (induction rule: ticket_reach.induct)
  case (start a b)
  then show ?case
    by (intro exI [of _ "[]"]) (simp add: ticket_inv_def ticket_lock_init_def atomic_set_def)
next
  case (take sl t)
  then show ?case using ticket_take_inv by blast
next
  case (enter sl t i sl')
  then show ?case using ticket_enter_inv by blast
next
  case (unlock sl t i)
  then show ?case using ticket_unlock_inv by blast
qed

section \<open>Properties\<close>

text \<open>C13: The ticket lock excludes: with fewer than \<open>2^32\<close> threads, in every reachable state at most one
  thread holds the lock, although both counters wrap around, and \<open>spin_locked\<close> is true exactly when
  some thread holds the lock or waits for it.\<close>

theorem ticket_lock_excludes:
  assumes "ticket_reach N sl" "N < 2 ^ 32"
  shows "(\<forall>t u i j. tpc sl t = Some (i, True) \<and> tpc sl u = Some (j, True) \<longrightarrow> t = u) \<and>
    (ticket_locked sl \<longleftrightarrow> (\<exists>t. tpc sl t \<noteq> None))"
proof -
  obtain ts where inv: "ticket_inv N sl ts"
    using ticket_reach_inv [OF assms] by blast
  have first: "ts \<noteq> [] \<and> t = ts ! 0" if "tpc sl t = Some (i, True)" for t i
  proof -
    have "t \<in> set ts"
      using inv that by (auto simp: ticket_inv_def)
    then obtain k where "k < length ts" "ts ! k = t"
      by (meson in_set_conv_nth)
    then show ?thesis
      using inv that by (auto simp: ticket_inv_def)
  qed
  have "length ts < 2 ^ 32"
    using ticket_inv_length [OF inv] assms(2) by simp
  then have "ticket_locked sl \<longleftrightarrow> ts \<noteq> []"
    using inv word_of_nat_small [of "length ts"] by (simp add: ticket_locked_def ticket_inv_def atomic_get_def)
  moreover have "\<exists>t. tpc sl t \<noteq> None" if "ts \<noteq> []"
    using inv that unfolding ticket_inv_def by (metis length_greater_0_conv option.distinct(1))
  moreover have "ts \<noteq> []" if "tpc sl t \<noteq> None" for t
    using inv that by (auto simp: ticket_inv_def)
  ultimately show ?thesis
    using first by metis
qed

text \<open>Three threads, two tickets taken, the first thread inside.\<close>

definition ticket_example :: ticket_lock where
  "ticket_example = the (ticket_enter 2 0 (ticket_take 1 (ticket_take 2
     (ticket_lock_init \<lparr>tnext = \<lparr>v = 5\<rparr>, owner = \<lparr>v = 5\<rparr>, tpc = (\<lambda>_. None)\<rparr>))))"

theorem ticket_lock_excludes_witness:
  "ticket_reach 3 ticket_example \<and> tpc ticket_example 2 = Some (0, True) \<and>
   {u. \<exists>j. tpc ticket_example u = Some (j, True)} = {2} \<and> ticket_locked ticket_example"
proof -
  let ?s = "ticket_take 1 (ticket_take 2 (ticket_lock_init \<lparr>tnext = \<lparr>v = 5\<rparr>, owner = \<lparr>v = 5\<rparr>, tpc = (\<lambda>_. None)\<rparr>))"
  note defs = ticket_example_def ticket_enter_def ticket_take_def ticket_lock_init_def atomic_fetch_and_add_def
    atomic_get_def atomic_set_def
  have "ticket_reach 3 ?s"
    by (intro ticket_reach.take ticket_reach.start) (simp_all add: defs)
  moreover have "tpc ?s 2 = Some (0, False)" "ticket_enter 2 0 ?s = Some ticket_example"
    by (simp_all add: defs)
  ultimately have r: "ticket_reach 3 ticket_example"
    by (rule ticket_reach.enter)
  have p: "tpc ticket_example 2 = Some (0, True)"
    by (simp add: defs)
  show ?thesis
    using r p ticket_lock_excludes [OF r] by auto
qed

end
