(* ===== verification/CaskMutex.thy ===== *)
theory CaskMutex
  imports CaskList CaskAtomic
begin

text \<open>
  \<open>co_mutex.c\<close> and \<open>co_cond.c\<close>: the mutex and the condition variable of coroutines.  Tasks run on
  several threads, so every access to shared memory is a step of its own: the compare and swap on
  the owner word, entering the spin lock \<open>wait_lock\<close>, the body it protects, and the wake-up.  A
  parked task is a task that has switched back to its scheduler (\<open>co_sync_yield\<close>); \<open>co_resume\<close> moves
  its \<open>run_link\<close> to the run queue, from where the scheduler lets it go on.
\<close>

section \<open>Model of co\_mutex.c\<close>

datatype mpc =
    MIdle
  | MTry              \<comment> \<open>at the compare and swap of \<open>co_mutex_lock\<close>\<close>
  | MSpin             \<comment> \<open>\<open>task_wait_mutex\<close>, at \<open>spin_lock\<close>\<close>
  | MCheck            \<comment> \<open>\<open>task_wait_mutex\<close>, holding the spin lock\<close>
  | MPark             \<comment> \<open>switched away\<close>
  | MHold             \<comment> \<open>between \<open>co_mutex_lock\<close> and \<open>co_mutex_unlock\<close>\<close>
  | MWake             \<comment> \<open>\<open>mutex_wakeup_task\<close>, at \<open>spin_lock\<close>\<close>
  | MWCheck           \<comment> \<open>\<open>mutex_wakeup_task\<close>, holding the spin lock\<close>
  | MResume addr      \<comment> \<open>\<open>mutex_wakeup_task\<close>, at \<open>co_resume\<close>\<close>

record co_mutex =
  lock :: addr
  wait_lock :: atomic_t
  wait_list :: addr

record msys =
  mu :: co_mutex
  lk :: links
  run_list :: addr
  mpc :: "addr \<Rightarrow> mpc"
  panic :: bool

definition mgoto :: "addr \<Rightarrow> mpc \<Rightarrow> msys \<Rightarrow> msys" where
  "mgoto t l s = s\<lparr>mpc := (mpc s)(t := l)\<rparr>"

definition co_mutex_init :: "msys \<Rightarrow> msys" where
  "co_mutex_init s =
     s\<lparr>mu := (mu s)\<lparr>lock := NULL, wait_lock := spin_lock_init (wait_lock (mu s))\<rparr>,
       lk := list_init (wait_list (mu s)) (lk s)\<rparr>"

definition co_mutex_locked :: "co_mutex \<Rightarrow> bool" where
  "co_mutex_locked m = (lock m \<noteq> NULL)"

text \<open>\<open>__sync_bool_compare_and_swap\<close> on the owner word.\<close>

definition ATOMIC_LOCK :: "addr \<Rightarrow> co_mutex \<Rightarrow> bool \<times> co_mutex" where
  "ATOMIC_LOCK self m = (if lock m = NULL then (True, m\<lparr>lock := self\<rparr>) else (False, m))"

definition ATOMIC_UNLOCK :: "addr \<Rightarrow> co_mutex \<Rightarrow> bool \<times> co_mutex" where
  "ATOMIC_UNLOCK self m = (if lock m = self then (True, m\<lparr>lock := NULL\<rparr>) else (False, m))"

definition mspin_lock :: "addr \<Rightarrow> mpc \<Rightarrow> msys \<Rightarrow> msys option" where
  "mspin_lock t l s =
     (case spin_lock (wait_lock (mu s)) of
        None \<Rightarrow> None
      | Some sl \<Rightarrow> Some (mgoto t l (s\<lparr>mu := (mu s)\<lparr>wait_lock := sl\<rparr>\<rparr>)))"

definition mspin_unlock :: "addr \<Rightarrow> mpc \<Rightarrow> msys \<Rightarrow> msys" where
  "mspin_unlock t l s =
     (case spin_unlock (wait_lock (mu s)) of
        Inl f \<Rightarrow> s\<lparr>panic := True\<rparr>
      | Inr sl \<Rightarrow> mgoto t l (s\<lparr>mu := (mu s)\<lparr>wait_lock := sl\<rparr>\<rparr>))"

definition task_wait_mutex :: "addr \<Rightarrow> msys \<Rightarrow> msys" where
  "task_wait_mutex t s =
     (if \<not> co_mutex_locked (mu s) then mspin_unlock t MTry s
      else mspin_unlock t MPark (s\<lparr>lk := list_add_before (wait_list (mu s)) t (lk s)\<rparr>))"

definition mutex_wakeup_task :: "addr \<Rightarrow> msys \<Rightarrow> msys" where
  "mutex_wakeup_task t s =
     (if co_mutex_locked (mu s) then mspin_unlock t MIdle s
      else let ls = list_next (wait_list (mu s)) (lk s)
           in if list_empty ls (lk s) then mspin_unlock t MIdle s
              else mspin_unlock t (MResume ls) (s\<lparr>lk := list_delete ls (lk s)\<rparr>))"

text \<open>\<open>co_resume\<close>: \<open>RR_enqueue\<close> of the task's scheduler.\<close>

definition resume_task :: "addr \<Rightarrow> links \<Rightarrow> addr \<Rightarrow> links" where
  "resume_task q h u = list_add_before q u (list_delete u h)"

definition co_mutex_lock :: "addr \<Rightarrow> msys \<Rightarrow> msys" where
  "co_mutex_lock t s = (if lock (mu s) = t then s\<lparr>panic := True\<rparr> else mgoto t MTry s)"

definition co_mutex_unlock :: "addr \<Rightarrow> msys \<Rightarrow> msys" where
  "co_mutex_unlock t s =
     (if lock (mu s) \<noteq> t then s\<lparr>panic := True\<rparr>
      else if \<not> co_mutex_locked (mu s) then mgoto t MIdle s
      else mgoto t MWake (s\<lparr>mu := snd (ATOMIC_UNLOCK t (mu s))\<rparr>))"

definition co_mutex_try_lock :: "addr \<Rightarrow> co_mutex \<Rightarrow> bool \<times> co_mutex" where
  "co_mutex_try_lock self m = (if lock m = self then (True, m) else ATOMIC_LOCK self m)"

text \<open>\<open>m'\<close> is the mutex after the sleep.\<close>

definition co_mutex_lock_wait :: "addr \<Rightarrow> (co_mutex \<Rightarrow> co_mutex) \<Rightarrow> co_mutex \<Rightarrow> bool \<times> co_mutex" where
  "co_mutex_lock_wait self sleep m =
     (case co_mutex_try_lock self m of
        (True, m1) \<Rightarrow> (True, m1)
      | (False, m1) \<Rightarrow> let m2 = sleep m1 in (co_mutex_locked m2, m2))"

text \<open>One step of task \<open>t\<close>; \<open>None\<close> if it cannot move.\<close>

definition mutex_run :: "addr \<Rightarrow> msys \<Rightarrow> msys option" where
  "mutex_run t s =
     (case mpc s t of
        MIdle \<Rightarrow> None
      | MTry \<Rightarrow> (case ATOMIC_LOCK t (mu s) of
                   (True, m) \<Rightarrow> Some (mgoto t MHold (s\<lparr>mu := m\<rparr>))
                 | (False, m) \<Rightarrow> Some (mgoto t MSpin s))
      | MSpin \<Rightarrow> mspin_lock t MCheck s
      | MCheck \<Rightarrow> Some (task_wait_mutex t s)
      | MPark \<Rightarrow> (if list_next (run_list s) (lk s) = t
                  then Some (mgoto t MTry (s\<lparr>lk := list_delete t (lk s)\<rparr>)) else None)
      | MHold \<Rightarrow> None
      | MWake \<Rightarrow> mspin_lock t MWCheck s
      | MWCheck \<Rightarrow> Some (mutex_wakeup_task t s)
      | MResume u \<Rightarrow> Some (mgoto t MIdle (s\<lparr>lk := resume_task (run_list s) (lk s) u\<rparr>)))"

inductive mutex_step :: "addr set \<Rightarrow> msys \<Rightarrow> msys \<Rightarrow> bool" for T where
  lock: "t \<in> T \<Longrightarrow> mpc s t = MIdle \<Longrightarrow> mutex_step T s (co_mutex_lock t s)"
| unlock: "t \<in> T \<Longrightarrow> mpc s t = MHold \<Longrightarrow> mutex_step T s (co_mutex_unlock t s)"
| run: "t \<in> T \<Longrightarrow> mutex_run t s = Some s' \<Longrightarrow> mutex_step T s s'"

inductive mutex_reach :: "addr set \<Rightarrow> msys \<Rightarrow> msys \<Rightarrow> bool" for T s where
  refl: "mutex_reach T s s"
| step: "mutex_reach T s s1 \<Longrightarrow> mutex_step T s1 s2 \<Longrightarrow> mutex_reach T s s2"

section \<open>Two lists in one memory\<close>

definition two_lists :: "links \<Rightarrow> addr \<Rightarrow> addr list \<Rightarrow> addr \<Rightarrow> addr list \<Rightarrow> bool" where
  "two_lists h a xs b ys \<longleftrightarrow> ring h a xs \<and> ring h b ys \<and> set (a # xs) \<inter> set (b # ys) = {} \<and>
     (\<forall>u. u \<notin> set (a # xs) \<union> set (b # ys) \<longrightarrow> ring h u [])"

lemma two_lists_sym: "two_lists h a xs b ys \<longleftrightarrow> two_lists h b ys a xs"
  by (auto simp: two_lists_def)

lemma ring_same_on:
  "ring h q xs \<Longrightarrow> same_on A h h' \<Longrightarrow> set (q # xs) \<subseteq> A \<Longrightarrow> ring h' q xs"
  by (rule ring_same_on_disjoint)

lemma two_lists_add:
  assumes "two_lists h a xs b ys" "u \<notin> set (a # xs) \<union> set (b # ys)"
  shows "two_lists (list_add_before a u h) a (xs @ [u]) b ys"
proof -
  have r: "ring h a xs" "ring h b ys" "set (a # xs) \<inter> set (b # ys) = {}"
    and d: "\<And>w. w \<notin> set (a # xs) \<union> set (b # ys) \<Longrightarrow> ring h w []"
    using assms(1) unfolding two_lists_def by blast+
  have same: "same_on (- set (u # a # xs)) h (list_add_before a u h)"
    by (rule list_add_same(2) [OF r(1)]) auto
  have "ring (list_add_before a u h) a (xs @ [u])"
    by (rule list_add_before_ring [OF r(1)]) (use assms(2) in auto)
  moreover have "ring (list_add_before a u h) b ys"
    by (rule ring_same_on [OF r(2) same]) (use assms(2) r(3) in auto)
  moreover have "ring (list_add_before a u h) w []" if "w \<notin> set (a # xs @ [u]) \<union> set (b # ys)" for w
    by (rule ring_same_on [OF d same]) (use that in auto)
  ultimately show ?thesis
    using r(3) assms(2) unfolding two_lists_def by auto
qed

lemma two_lists_del:
  assumes "two_lists h a (us @ u # vs) b ys"
  shows "two_lists (list_delete u h) a (us @ vs) b ys"
proof -
  have r: "ring h a (us @ u # vs)" "ring h b ys" "set (a # us @ u # vs) \<inter> set (b # ys) = {}"
    and d: "\<And>w. w \<notin> set (a # us @ u # vs) \<union> set (b # ys) \<Longrightarrow> ring h w []"
    using assms unfolding two_lists_def by blast+
  have same: "same_on (- set (a # us @ u # vs)) h (list_delete u h)"
    by (rule list_delete_same [OF r(1)]) auto
  have "ring (list_delete u h) a (us @ vs)"
    by (rule list_delete_ring [OF r(1)])
  moreover have "ring (list_delete u h) b ys"
    by (rule ring_same_on [OF r(2) same]) (use r(3) in auto)
  moreover have "ring (list_delete u h) w []" if "w \<notin> set (a # us @ vs) \<union> set (b # ys)" for w
  proof (cases "w = u")
    case False
    then show ?thesis
      by (intro ring_same_on [OF d same]) (use that in auto)
  qed (simp add: list_delete_detached del: ring_Nil)
  ultimately show ?thesis
    using r(3) unfolding two_lists_def by auto
qed

lemma two_lists_resume:
  assumes "two_lists h a xs b ys" "u \<notin> set (a # xs) \<union> set (b # ys)"
  shows "two_lists (resume_task b h u) a xs b (ys @ [u])"
proof -
  have "list_delete u h = h"
    using assms list_delete_detached_id unfolding two_lists_def by blast
  then show ?thesis
    using two_lists_add [of h b ys a xs u] assms two_lists_sym unfolding resume_task_def by auto
qed

section \<open>Invariant of the mutex\<close>

fun crit :: "mpc \<Rightarrow> bool" where
  "crit MCheck = True"
| "crit MWCheck = True"
| "crit _ = False"

text \<open>A task on its way to take the mutex or to wake another one.\<close>

fun coming :: "mpc \<Rightarrow> bool" where
  "coming MIdle = False"
| "coming MPark = False"
| "coming MHold = False"
| "coming _ = True"

definition parked :: "(addr \<Rightarrow> mpc) \<Rightarrow> addr list \<Rightarrow> addr list \<Rightarrow> addr set \<Rightarrow> bool" where
  "parked pcs ws rs T \<longleftrightarrow> (\<forall>t. t \<notin> T \<longrightarrow> pcs t = MIdle) \<and>
     (\<forall>t. pcs t = MPark \<longleftrightarrow> t \<in> set ws \<or> t \<in> set rs \<or> (\<exists>w. pcs w = MResume t)) \<and>
     (\<forall>w u. pcs w = MResume u \<longrightarrow> u \<notin> set ws \<union> set rs) \<and>
     (\<forall>w w' u. pcs w = MResume u \<longrightarrow> pcs w' = MResume u \<longrightarrow> w = w')"

definition owned :: "(addr \<Rightarrow> mpc) \<Rightarrow> addr \<Rightarrow> bool" where
  "owned pcs l \<longleftrightarrow> (\<forall>t. pcs t = MHold \<longleftrightarrow> l = t \<and> t \<noteq> 0)"

definition spinning :: "(addr \<Rightarrow> mpc) \<Rightarrow> cint \<Rightarrow> bool" where
  "spinning pcs x \<longleftrightarrow> (\<forall>t u. crit (pcs t) \<longrightarrow> crit (pcs u) \<longrightarrow> t = u) \<and> x = (if \<exists>t. crit (pcs t) then 0 else 1)"

definition minv :: "addr set \<Rightarrow> msys \<Rightarrow> addr list \<Rightarrow> addr list \<Rightarrow> bool" where
  "minv T s ws rs \<longleftrightarrow> \<not> panic s \<and> T \<inter> {0, wait_list (mu s), run_list s} = {} \<and>
     two_lists (lk s) (wait_list (mu s)) ws (run_list s) rs \<and> parked (mpc s) ws rs T \<and>
     owned (mpc s) (lock (mu s)) \<and> spinning (mpc s) (v (wait_lock (mu s))) \<and>
     (ws \<noteq> [] \<longrightarrow> lock (mu s) \<noteq> 0 \<or> rs \<noteq> [] \<or> (\<exists>t. coming (mpc s t)))"

lemma parked_upd:
  assumes "parked pcs ws rs T" "t \<in> T" "pcs t \<noteq> MPark" "l \<noteq> MPark" "\<And>u. pcs t \<noteq> MResume u" "\<And>u. l \<noteq> MResume u"
  shows "parked (pcs(t := l)) ws rs T"
  using assms unfolding parked_def by (auto split: if_splits) metis+

lemma owned_upd:
  "owned pcs l \<Longrightarrow> pcs t \<noteq> MHold \<Longrightarrow> n \<noteq> MHold \<Longrightarrow> owned (pcs(t := n)) l"
  by (auto simp: owned_def)

lemma spinning_upd:
  "spinning pcs x \<Longrightarrow> \<not> crit (pcs t) \<Longrightarrow> \<not> crit n \<Longrightarrow> spinning (pcs(t := n)) x"
  unfolding spinning_def by (metis fun_upd_apply)

lemma spinning_enter:
  "spinning pcs 1 \<Longrightarrow> crit n \<Longrightarrow> spinning (pcs(t := n)) 0"
  unfolding spinning_def by (metis fun_upd_apply zero_neq_one)

lemma spinning_leave:
  "spinning pcs x \<Longrightarrow> crit (pcs t) \<Longrightarrow> \<not> crit n \<Longrightarrow> x = 0 \<and> spinning (pcs(t := n)) 1"
  unfolding spinning_def by (metis fun_upd_apply)

lemma parked_wait:
  assumes "parked pcs ws rs T" "t \<in> T" "pcs t \<noteq> MPark" "\<And>u. pcs t \<noteq> MResume u"
  shows "parked (pcs(t := MPark)) (ws @ [t]) rs T"
  using assms unfolding parked_def by (auto split: if_splits) metis+

lemma parkedD:
  assumes "parked pcs ws rs T"
  shows "t \<notin> T \<Longrightarrow> pcs t = MIdle"
    and "pcs t = MPark \<longleftrightarrow> t \<in> set ws \<or> t \<in> set rs \<or> (\<exists>w. pcs w = MResume t)"
    and "pcs w = MResume u \<Longrightarrow> u \<notin> set ws \<union> set rs"
    and "pcs w = MResume u \<Longrightarrow> pcs w' = MResume u \<Longrightarrow> w = w'"
  using assms unfolding parked_def by blast+

lemma parked_pop:
  assumes p: "parked pcs (u # ws) rs T" and t: "t \<in> T" "pcs t \<noteq> MPark" "\<And>u. pcs t \<noteq> MResume u"
    and u: "u \<notin> set ws" "u \<notin> set rs"
  shows "parked (pcs(t := MResume u)) ws rs T"
  unfolding parked_def
proof (intro conjI allI impI)
  have up: "pcs u = MPark" "u \<noteq> t" and ur: "\<And>w. pcs w \<noteq> MResume u"
    using parkedD(2) [OF p, of u] parkedD(3) [OF p, of _ u] t(2) by auto
  fix x w w' y
  show "(pcs(t := MResume u)) x = MIdle" if "x \<notin> T"
    using that t(1) parkedD(1) [OF p] by auto
  have "(\<exists>w. (pcs(t := MResume u)) w = MResume x) \<longleftrightarrow> x = u \<or> (\<exists>w. pcs w = MResume x)"
    using t(3) by (metis fun_upd_apply mpc.inject)
  then show "(pcs(t := MResume u)) x = MPark \<longleftrightarrow> x \<in> set ws \<or> x \<in> set rs \<or> (\<exists>w. (pcs(t := MResume u)) w = MResume x)"
    using parkedD(2) [OF p, of x] parkedD(2) [OF p, of t] t(2) up by (simp del: fun_upd_apply) (auto simp: up)
  show "y \<notin> set ws \<union> set rs" if "(pcs(t := MResume u)) w = MResume y"
    using that parkedD(3) [OF p, of w y] u by (auto split: if_splits)
  show "w = w'" if "(pcs(t := MResume u)) w = MResume y" "(pcs(t := MResume u)) w' = MResume y"
    using that parkedD(4) [OF p] ur by (metis fun_upd_apply mpc.inject)
qed

lemma resume_upd:
  assumes "\<And>u. l \<noteq> MResume u"
  shows "(\<exists>w. (pcs(t := l)) w = MResume x) \<longleftrightarrow> (\<exists>w. w \<noteq> t \<and> pcs w = MResume x)"
  using assms by (metis fun_upd_other fun_upd_same)

lemma parked_resume:
  assumes p: "parked pcs ws rs T" and t: "pcs t = MResume u" "t \<in> T"
  shows "parked (pcs(t := MIdle)) ws (rs @ [u]) T"
  unfolding parked_def
proof (intro conjI allI impI)
  have up: "pcs u = MPark" and out: "t \<notin> set ws \<union> set rs" "\<And>w. pcs w \<noteq> MResume t"
    using parkedD(2) [OF p, of u] parkedD(2) [OF p, of t] t(1) by auto
  have ur: "\<And>w. w \<noteq> t \<Longrightarrow> pcs w \<noteq> MResume u"
    using parkedD(4) [OF p] t(1) by blast
  fix x w w' y
  show "(pcs(t := MIdle)) x = MIdle" if "x \<notin> T"
    using that parkedD(1) [OF p] by auto
  have "(\<exists>w. (pcs(t := MIdle)) w = MResume x) \<longleftrightarrow> x \<noteq> u \<and> (\<exists>w. pcs w = MResume x)"
    using ur t(1) by (subst resume_upd) (simp, metis mpc.inject)
  then show "(pcs(t := MIdle)) x = MPark \<longleftrightarrow> x \<in> set ws \<or> x \<in> set (rs @ [u]) \<or> (\<exists>w. (pcs(t := MIdle)) w = MResume x)"
    using parkedD(2) [OF p, of x] out t(1) up by (simp del: fun_upd_apply) (auto simp: up)
  show "y \<notin> set ws \<union> set (rs @ [u])" if "(pcs(t := MIdle)) w = MResume y"
    using that parkedD(3) [OF p, of w y] ur [of w] by (cases "w = t") auto
  show "w = w'" if "(pcs(t := MIdle)) w = MResume y" "(pcs(t := MIdle)) w' = MResume y"
    using that parkedD(4) [OF p, of w y w'] by (cases "w = t"; cases "w' = t") simp_all
qed

lemma parked_run:
  assumes p: "parked pcs ws (t # rs) T" and t: "t \<in> T" "t \<notin> set ws" "t \<notin> set rs"
  shows "parked (pcs(t := MTry)) ws rs T"
  unfolding parked_def
proof (intro conjI allI impI)
  have up: "pcs t = MPark" and ur: "\<And>w. pcs w \<noteq> MResume t"
    using parkedD(2) [OF p, of t] parkedD(3) [OF p, of _ t] by auto
  fix x w w' y
  show "(pcs(t := MTry)) x = MIdle" if "x \<notin> T"
    using that t(1) parkedD(1) [OF p] by auto
  have "(\<exists>w. (pcs(t := MTry)) w = MResume x) \<longleftrightarrow> (\<exists>w. pcs w = MResume x)"
    using up by (subst resume_upd) (simp, metis mpc.distinct)
  then show "(pcs(t := MTry)) x = MPark \<longleftrightarrow> x \<in> set ws \<or> x \<in> set rs \<or> (\<exists>w. (pcs(t := MTry)) w = MResume x)"
    using parkedD(2) [OF p, of x] t up ur by (simp del: fun_upd_apply) auto
  show "y \<notin> set ws \<union> set rs" if "(pcs(t := MTry)) w = MResume y"
    using that parkedD(3) [OF p, of w y] by (auto split: if_splits)
  show "w = w'" if "(pcs(t := MTry)) w = MResume y" "(pcs(t := MTry)) w' = MResume y"
    using that parkedD(4) [OF p, of w y w'] by (cases "w = t"; cases "w' = t") simp_all
qed

lemmas parked_lemmas = parked_upd parked_wait parked_pop parked_resume parked_run

lemma minv_addr: "minv T s ws rs \<Longrightarrow> t \<in> T \<Longrightarrow> t \<noteq> 0 \<and> t \<noteq> wait_list (mu s) \<and> t \<noteq> run_list s"
proof -
  assume "minv T s ws rs" "t \<in> T"
  moreover from this have "T \<inter> {0, wait_list (mu s), run_list s} = {}"
    by (simp add: minv_def)
  ultimately show ?thesis by (metis IntI empty_iff insertCI)
qed

lemma minvD:
  assumes "minv T s ws rs"
  shows "\<not> panic s" "two_lists (lk s) (wait_list (mu s)) ws (run_list s) rs" "parked (mpc s) ws rs T"
    "owned (mpc s) (lock (mu s))" "spinning (mpc s) (v (wait_lock (mu s)))"
  using assms unfolding minv_def by blast+

lemma parked_out: "parked pcs ws rs T \<Longrightarrow> pcs t \<noteq> MPark \<Longrightarrow> t \<notin> set ws \<union> set rs"
  unfolding parked_def by blast

text \<open>A step keeps the invariant if it keeps its five parts and leaves somebody on the way.\<close>

lemma minv_upd:
  assumes "minv T s ws rs" "wait_list (mu s') = wait_list (mu s)" "run_list s' = run_list s" "\<not> panic s'"
    and "two_lists (lk s') (wait_list (mu s)) ws' (run_list s) rs'" "parked (mpc s') ws' rs' T"
    and "owned (mpc s') (lock (mu s'))" "spinning (mpc s') (v (wait_lock (mu s')))"
    and "ws' \<noteq> [] \<Longrightarrow> lock (mu s') \<noteq> 0 \<or> rs' \<noteq> [] \<or> (\<exists>t. coming (mpc s' t))"
  shows "minv T s' ws' rs'"
  using assms unfolding minv_def by simp

lemma minv_lists:
  assumes "minv T s ws rs"
  shows "distinct (wait_list (mu s) # ws)" "distinct (run_list s # rs)" "set ws \<inter> set rs = {}"
    "list_next (wait_list (mu s)) (lk s) = (if ws = [] then wait_list (mu s) else ws ! 0)"
    "list_next (run_list s) (lk s) = (if rs = [] then run_list s else rs ! 0)"
    "list_empty (list_next (wait_list (mu s)) (lk s)) (lk s) \<longleftrightarrow> ws = []"
proof -
  have r: "ring (lk s) (wait_list (mu s)) ws" "ring (lk s) (run_list s) rs"
    "set (wait_list (mu s) # ws) \<inter> set (run_list s # rs) = {}"
    using assms unfolding minv_def two_lists_def by blast+
  show "distinct (wait_list (mu s) # ws)" "distinct (run_list s # rs)" "set ws \<inter> set rs = {}"
    using ring_distinct [OF r(1)] ring_distinct [OF r(2)] r(3) by auto
  show n: "list_next (wait_list (mu s)) (lk s) = (if ws = [] then wait_list (mu s) else ws ! 0)"
    "list_next (run_list s) (lk s) = (if rs = [] then run_list s else rs ! 0)"
    using ring_ends(1) [OF r(1)] ring_ends(1) [OF r(2)] by simp_all
  show "list_empty (list_next (wait_list (mu s)) (lk s)) (lk s) \<longleftrightarrow> ws = []"
    using n(1) ring_empty_iff [OF r(1)] ring_member_not_empty [OF r(1)] by (cases ws) auto
qed

lemma mspin_lock_inv:
  assumes inv: "minv T s ws rs" and t: "t \<in> T" "mpc s t = MSpin \<and> l = MCheck \<or> mpc s t = MWake \<and> l = MWCheck"
    and s': "mspin_lock t l s = Some s'"
  shows "minv T s' ws rs"
proof -
  have w: "v (wait_lock (mu s)) = 1" and s'_eq: "s' = mgoto t l (s\<lparr>mu := (mu s)\<lparr>wait_lock := (wait_lock (mu s))\<lparr>v := 0\<rparr>\<rparr>\<rparr>)"
    using s' by (auto simp: mspin_lock_def spin_lock_iff split: option.splits)
  have "parked ((mpc s)(t := l)) ws rs T" "owned ((mpc s)(t := l)) (lock (mu s))" "spinning ((mpc s)(t := l)) 0"
    using inv t w parked_upd [of "mpc s" ws rs T t l] owned_upd [of "mpc s" "lock (mu s)" t l] spinning_enter [of "mpc s" l t]
    by (auto simp: minv_def)
  moreover have "coming (((mpc s)(t := l)) t)"
    using t(2) by auto
  ultimately show ?thesis
    using inv unfolding minv_def s'_eq mgoto_def by auto
qed

text \<open>Leaving the spin lock with a new list configuration.\<close>

lemma mspin_unlock_inv:
  assumes inv: "minv T s ws rs" and t: "crit (mpc s t)" and l: "\<not> crit l" "l \<noteq> MHold"
    and lists: "two_lists h (wait_list (mu s)) ws' (run_list s) rs'" "parked ((mpc s)(t := l)) ws' rs' T"
    and live: "ws' \<noteq> [] \<Longrightarrow> lock (mu s) \<noteq> 0 \<or> rs' \<noteq> [] \<or> coming l"
  shows "minv T (mspin_unlock t l (s\<lparr>lk := h\<rparr>)) ws' rs'"
proof -
  have sp: "v (wait_lock (mu s)) = 0" "spinning ((mpc s)(t := l)) 1"
    using inv t l(1) spinning_leave [of "mpc s" "v (wait_lock (mu s))" t l] by (auto simp: minv_def)
  have e: "mspin_unlock t l (s\<lparr>lk := h\<rparr>) =
      s\<lparr>lk := h, mu := (mu s)\<lparr>wait_lock := (wait_lock (mu s))\<lparr>v := 1\<rparr>\<rparr>, mpc := (mpc s)(t := l)\<rparr>"
    using spin_unlock_acquired [OF sp(1)] by (simp add: mspin_unlock_def mgoto_def)
  have "owned ((mpc s)(t := l)) (lock (mu s))"
    using inv t l owned_upd [of "mpc s" "lock (mu s)" t l] unfolding minv_def by (metis crit.simps(7))
  then show ?thesis
    using inv lists sp(2) live unfolding minv_def e by (auto intro!: exI [of _ t])
qed

lemma task_wait_mutex_inv:
  assumes inv: "minv T s ws rs" and t: "t \<in> T" "mpc s t = MCheck"
  shows "\<exists>ws'. minv T (task_wait_mutex t s) ws' rs"
proof (cases "lock (mu s) = 0")
  case True
  have "minv T (mspin_unlock t MTry (s\<lparr>lk := lk s\<rparr>)) ws rs"
    by (rule mspin_unlock_inv [OF inv])
      (use inv t parked_upd [of "mpc s" ws rs T t MTry] in \<open>auto simp: minv_def\<close>)
  then show ?thesis
    using True by (auto simp: task_wait_mutex_def co_mutex_locked_def)
next
  case False
  have nt: "t \<notin> set (wait_list (mu s) # ws) \<union> set (run_list s # rs)"
    using minv_addr [OF inv t(1)] parked_out [OF minvD(3) [OF inv], of t] t(2) by auto
  have "minv T (mspin_unlock t MPark (s\<lparr>lk := list_add_before (wait_list (mu s)) t (lk s)\<rparr>)) (ws @ [t]) rs"
    by (rule mspin_unlock_inv [OF inv])
      (use inv t nt False parked_wait [of "mpc s" ws rs T t] two_lists_add in \<open>auto simp: minv_def\<close>)
  then show ?thesis
    using False by (auto simp: task_wait_mutex_def co_mutex_locked_def)
qed

lemma mutex_wakeup_task_inv:
  assumes inv: "minv T s ws rs" and t: "t \<in> T" "mpc s t = MWCheck"
  shows "\<exists>ws'. minv T (mutex_wakeup_task t s) ws' rs"
proof (cases "lock (mu s) \<noteq> 0 \<or> ws = []")
  case True
  have "minv T (mspin_unlock t MIdle (s\<lparr>lk := lk s\<rparr>)) ws rs"
    by (rule mspin_unlock_inv [OF inv])
      (use inv t True parked_upd [of "mpc s" ws rs T t MIdle] in \<open>auto simp: minv_def\<close>)
  then show ?thesis
    using True minv_lists(6) [OF inv] by (auto simp: mutex_wakeup_task_def co_mutex_locked_def Let_def)
next
  case False
  then obtain u us where ws: "ws = u # us" by (cases ws) auto
  note l = minv_lists [OF inv]
  have "minv T (mspin_unlock t (MResume u) (s\<lparr>lk := list_delete u (lk s)\<rparr>)) us rs"
  proof (rule mspin_unlock_inv [OF inv])
    show "two_lists (list_delete u (lk s)) (wait_list (mu s)) us (run_list s) rs"
      using inv ws two_lists_del [of "lk s" "wait_list (mu s)" "[]" u us] by (simp add: minv_def)
    show "parked ((mpc s)(t := MResume u)) us rs T"
      using inv t ws l(1,3) parked_pop [of "mpc s" u us rs T t] by (simp add: minv_def)
  qed (use t in auto)
  then show ?thesis
    using False ws l(4,6) by (auto simp: mutex_wakeup_task_def co_mutex_locked_def Let_def)
qed

lemma mutex_try_inv:
  assumes inv: "minv T s ws rs" and t: "t \<in> T" "mpc s t = MTry" and r: "mutex_run t s = Some s'"
  shows "minv T s' ws rs"
proof (cases "lock (mu s) = 0")
  case True
  have t0: "t \<noteq> 0"
    using minv_addr [OF inv t(1)] by simp
  have "owned ((mpc s)(t := MHold)) t"
    using inv True t0 by (auto simp: minv_def owned_def)
  then show ?thesis
    using inv t r True t0 parked_upd [of "mpc s" ws rs T t MHold] spinning_upd [of "mpc s" "v (wait_lock (mu s))" t MHold]
    by (auto simp: minv_def mutex_run_def ATOMIC_LOCK_def mgoto_def)
next
  case False
  then show ?thesis
    using inv t r parked_upd [of "mpc s" ws rs T t MSpin] spinning_upd [of "mpc s" "v (wait_lock (mu s))" t MSpin]
      owned_upd [of "mpc s" "lock (mu s)" t MSpin]
    by (auto simp: minv_def mutex_run_def ATOMIC_LOCK_def mgoto_def)
qed

lemma mutex_park_inv:
  assumes inv: "minv T s ws rs" and t: "t \<in> T" "mpc s t = MPark" and r: "mutex_run t s = Some s'"
  shows "\<exists>rs'. minv T s' ws rs'"
proof -
  note l = minv_lists [OF inv]
  have n: "list_next (run_list s) (lk s) = t" and s': "s' = mgoto t MTry (s\<lparr>lk := list_delete t (lk s)\<rparr>)"
    using r t by (auto simp: mutex_run_def split: if_splits)
  have "t \<noteq> run_list s"
    using minv_addr [OF inv t(1)] by simp
  then obtain us where rs: "rs = t # us"
    using n l(5) by (cases rs) auto
  have "two_lists (list_delete t (lk s)) (wait_list (mu s)) ws (run_list s) us"
    using minvD(2) [OF inv] two_lists_del [of "lk s" "run_list s" "[]" t us "wait_list (mu s)" ws]
    unfolding rs two_lists_sym [of _ "wait_list (mu s)"] by simp
  moreover have "parked ((mpc s)(t := MTry)) ws us T"
    using inv rs l(2,3) t parked_run [of "mpc s" ws t us T] by (auto simp: minv_def)
  moreover have "coming (((mpc s)(t := MTry)) t)" by simp
  ultimately have "minv T s' ws us"
    using inv t spinning_upd [of "mpc s" "v (wait_lock (mu s))" t MTry] owned_upd [of "mpc s" "lock (mu s)" t MTry]
    unfolding minv_def s' mgoto_def by (auto intro!: exI [of _ t])
  then show ?thesis by blast
qed

lemma mutex_resume_inv:
  assumes inv: "minv T s ws rs" and t: "t \<in> T" "mpc s t = MResume u" and r: "mutex_run t s = Some s'"
  shows "minv T s' ws (rs @ [u])"
proof -
  have s': "s' = mgoto t MIdle (s\<lparr>lk := resume_task (run_list s) (lk s) u\<rparr>)"
    using r t by (simp add: mutex_run_def)
  have "mpc s u = MPark" "u \<notin> set ws \<union> set rs"
    using inv t unfolding minv_def parked_def by blast+
  then have "u \<in> T" "u \<notin> set ws \<union> set rs"
    using inv unfolding minv_def parked_def by force+
  then have "u \<notin> set (wait_list (mu s) # ws) \<union> set (run_list s # rs)"
    using inv unfolding minv_def by auto
  then have "two_lists (resume_task (run_list s) (lk s) u) (wait_list (mu s)) ws (run_list s) (rs @ [u])"
    using inv two_lists_resume unfolding minv_def by blast
  moreover have "parked ((mpc s)(t := MIdle)) ws (rs @ [u]) T"
    using inv t parked_resume [of "mpc s" ws rs T t u] by (simp add: minv_def)
  ultimately show ?thesis
    using inv t spinning_upd [of "mpc s" "v (wait_lock (mu s))" t MIdle] owned_upd [of "mpc s" "lock (mu s)" t MIdle]
    unfolding minv_def s' mgoto_def by auto
qed

lemma mutex_run_inv:
  assumes "minv T s ws rs" "t \<in> T" "mutex_run t s = Some s'"
  shows "\<exists>ws' rs'. minv T s' ws' rs'"
proof (cases "mpc s t")
  case MTry
  then show ?thesis using assms mutex_try_inv by blast
next
  case MSpin
  then show ?thesis using assms mspin_lock_inv [of T s ws rs t MCheck s'] by (auto simp: mutex_run_def)
next
  case MCheck
  then show ?thesis using assms task_wait_mutex_inv [of T s ws rs t] by (auto simp: mutex_run_def)
next
  case MPark
  then show ?thesis using assms mutex_park_inv by blast
next
  case MWake
  then show ?thesis using assms mspin_lock_inv [of T s ws rs t MWCheck s'] by (auto simp: mutex_run_def)
next
  case MWCheck
  then show ?thesis using assms mutex_wakeup_task_inv [of T s ws rs t] by (auto simp: mutex_run_def)
next
  case (MResume u)
  then show ?thesis using assms mutex_resume_inv by blast
qed (use assms in \<open>auto simp: mutex_run_def\<close>)

lemma co_mutex_lock_inv:
  assumes inv: "minv T s ws rs" and t: "t \<in> T" "mpc s t = MIdle"
  shows "minv T (co_mutex_lock t s) ws rs"
proof -
  have "lock (mu s) \<noteq> t"
    using minvD(4) [OF inv] minv_addr [OF inv t(1)] t(2) unfolding owned_def by (metis mpc.distinct(9))
  then have e: "co_mutex_lock t s = mgoto t MTry s"
    by (simp add: co_mutex_lock_def)
  show ?thesis
    unfolding e mgoto_def
  proof (rule minv_upd [OF inv])
    show "parked (mpc (s\<lparr>mpc := (mpc s)(t := MTry)\<rparr>)) ws rs T"
      using parked_upd [OF minvD(3) [OF inv] t(1), of MTry] t(2) by simp
    show "lock (mu (s\<lparr>mpc := (mpc s)(t := MTry)\<rparr>)) \<noteq> 0 \<or> rs \<noteq> [] \<or> (\<exists>u. coming (mpc (s\<lparr>mpc := (mpc s)(t := MTry)\<rparr>) u))"
      by (auto intro!: exI [of _ t])
  qed (use minvD [OF inv] t(2) owned_upd spinning_upd in auto)
qed

lemma co_mutex_unlock_inv:
  assumes inv: "minv T s ws rs" and t: "t \<in> T" "mpc s t = MHold"
  shows "minv T (co_mutex_unlock t s) ws rs"
proof -
  have l: "lock (mu s) = t" "t \<noteq> 0"
    using minvD(4) [OF inv] t(2) unfolding owned_def by blast+
  let ?s = "s\<lparr>mu := (mu s)\<lparr>lock := 0\<rparr>, mpc := (mpc s)(t := MWake)\<rparr>"
  have e: "co_mutex_unlock t s = ?s"
    using l by (simp add: co_mutex_unlock_def co_mutex_locked_def ATOMIC_UNLOCK_def mgoto_def)
  have "owned ((mpc s)(t := MWake)) 0"
    using minvD(4) [OF inv] l by (auto simp: owned_def)
  moreover have "parked ((mpc s)(t := MWake)) ws rs T"
    using parked_upd [OF minvD(3) [OF inv] t(1), of MWake] t(2) by simp
  moreover have "lock (mu ?s) \<noteq> 0 \<or> rs \<noteq> [] \<or> (\<exists>u. coming (mpc ?s u))"
    by (auto intro!: exI [of _ t])
  ultimately show ?thesis
    unfolding e by (intro minv_upd [OF inv]) (use minvD [OF inv] t(2) spinning_upd in auto)
qed

lemma mutex_step_inv:
  assumes "mutex_step T s s'" "minv T s ws rs"
  shows "\<exists>ws' rs'. minv T s' ws' rs'"
  using assms(1)
proof (cases rule: mutex_step.cases)
  case (lock t)
  then show ?thesis using co_mutex_lock_inv [OF assms(2)] by blast
next
  case (unlock t)
  then show ?thesis using co_mutex_unlock_inv [OF assms(2)] by blast
next
  case (run t)
  then show ?thesis using mutex_run_inv assms(2) by blast
qed

lemma mutex_reach_inv: "mutex_reach T s s' \<Longrightarrow> \<exists>ws rs. minv T s ws rs \<Longrightarrow> \<exists>ws' rs'. minv T s' ws' rs'"
  by (induction rule: mutex_reach.induct) (auto dest: mutex_step_inv)

text \<open>Initially nothing is linked and nobody runs.\<close>

lemma minv_init:
  assumes "T \<inter> {0, wait_list (mu s0), run_list s0} = {}" "wait_list (mu s0) \<noteq> run_list s0"
    and "\<forall>a. a \<noteq> wait_list (mu s0) \<longrightarrow> ring (lk s0) a []" "\<forall>t. mpc s0 t = MIdle" "\<not> panic s0"
  shows "minv T (co_mutex_init s0) [] []"
proof -
  have "two_lists (list_init (wait_list (mu s0)) (lk s0)) (wait_list (mu s0)) [] (run_list s0) []"
    using assms(2,3) by (auto simp: two_lists_def list_init_def)
  then show ?thesis
    using assms by (simp add: minv_def co_mutex_init_def parked_def owned_def spinning_def spin_lock_init_def
        atomic_set_def SPIN_RELESAED_def) auto
qed

text \<open>Whoever is on the way can move, or waits for a spin lock whose holder can move.\<close>

lemma coming_moves:
  assumes inv: "minv T s ws rs" and c: "coming (mpc s t) \<or> rs \<noteq> []"
  shows "\<exists>u\<in>T. mutex_run u s \<noteq> None"
proof (cases "rs = []")
  case False
  then obtain u us where rs: "rs = u # us" by (cases rs) auto
  then have u: "mpc s u = MPark" "list_next (run_list s) (lk s) = u"
    using parkedD(2) [OF minvD(3) [OF inv], of u] minv_lists(5) [OF inv] by auto
  then have "u \<in> T" "mutex_run u s \<noteq> None"
    using parkedD(1) [OF minvD(3) [OF inv], of u] by (auto simp: mutex_run_def)
  then show ?thesis by blast
next
  case True
  have tT: "t \<in> T"
    using parkedD(1) [OF minvD(3) [OF inv], of t] c True by (metis coming.simps(1))
  show ?thesis
  proof (cases "mutex_run t s = None")
    case None: True
    then have "v (wait_lock (mu s)) \<noteq> 1"
      using c True by (cases "mpc s t")
        (auto simp: mutex_run_def mspin_lock_def spin_defs ATOMIC_LOCK_def split: if_splits)
    then obtain u where u: "crit (mpc s u)"
      using minvD(5) [OF inv] unfolding spinning_def by metis
    have "u \<in> T" "mutex_run u s \<noteq> None"
      using parkedD(1) [OF minvD(3) [OF inv], of u] u by (cases "mpc s u"; force simp: mutex_run_def)+
    then show ?thesis by blast
  next
    case False
    then show ?thesis using tT by blast
  qed
qed

section \<open>Condition variables: co\_cond.c\<close>

text \<open>The loop of \<open>_co_cond_signal_all\<close>: \<open>q\<close> is the run queue \<open>co_resume\<close> appends to; the fuel bounds the
  number of tasks woken.\<close>

fun cond_signal_loop :: "nat \<Rightarrow> bool \<Rightarrow> addr \<Rightarrow> addr \<Rightarrow> links \<Rightarrow> links option" where
  "cond_signal_loop n all q ls h =
     (if list_empty ls h then Some h
      else case n of
             0 \<Rightarrow> None
           | Suc m \<Rightarrow>
               (let t = ls; ls' = list_next ls h; h' = resume_task q (list_delete t h) t
                in if \<not> all then Some h' else cond_signal_loop m all q ls' h'))"

declare cond_signal_loop.simps [simp del]

definition co_cond_init :: "addr \<Rightarrow> links \<Rightarrow> links" where
  "co_cond_init wl h = list_init wl h"

definition co_cond_signal_all :: "nat \<Rightarrow> bool \<Rightarrow> addr \<Rightarrow> addr \<Rightarrow> links \<Rightarrow> links option" where
  "co_cond_signal_all n all q wl h = cond_signal_loop n all q (list_next wl h) h"

abbreviation co_cond_signal :: "nat \<Rightarrow> addr \<Rightarrow> addr \<Rightarrow> links \<Rightarrow> links option" where
  "co_cond_signal n \<equiv> co_cond_signal_all n False"

abbreviation co_cond_broadcast :: "nat \<Rightarrow> addr \<Rightarrow> addr \<Rightarrow> links \<Rightarrow> links option" where
  "co_cond_broadcast n \<equiv> co_cond_signal_all n True"

text \<open>The part of \<open>co_cond_wait\<close> before the switch: the task joins the wait list and releases the mutex;
  after the switch it runs \<open>co_mutex_lock\<close> again.\<close>

definition co_cond_wait :: "addr \<Rightarrow> addr \<Rightarrow> msys \<Rightarrow> msys" where
  "co_cond_wait wl t s =
     (if \<not> co_mutex_locked (mu s) then s\<lparr>panic := True\<rparr>
      else co_mutex_unlock t (s\<lparr>lk := list_add_before wl t (lk s)\<rparr>))"

lemma cond_next:
  assumes "two_lists h wl (t # ws) q rs"
  shows "list_next wl h = t" "\<not> list_empty t h" "list_next t h = (if ws = [] then wl else ws ! 0)"
proof -
  have r: "ring h wl (t # ws)"
    using assms by (simp add: two_lists_def)
  show "list_next wl h = t" "\<not> list_empty t h"
    using ring_ends(1) [OF r] ring_member_not_empty [OF r, of t] by simp_all
  have "dseg h t ws wl"
    using r by (simp add: ring_def)
  then show "list_next t h = (if ws = [] then wl else ws ! 0)"
    using dseg_ends(1) [of h t ws wl] by (simp add: list_next_def hd_conv_nth)
qed

lemma cond_wake_one:
  assumes "two_lists h wl (t # ws) q rs"
  shows "two_lists (resume_task q (list_delete t h) t) wl ws q (rs @ [t])"
proof -
  have "two_lists (list_delete t h) wl ws q rs"
    using two_lists_del [of h wl "[]" t ws] assms by simp
  moreover have "t \<notin> set (wl # ws) \<union> set (q # rs)"
    using assms ring_distinct [of h wl "t # ws"] unfolding two_lists_def by auto
  ultimately show ?thesis
    by (rule two_lists_resume)
qed

lemma cond_broadcast_loop:
  assumes "two_lists h wl ws q rs" "ls = (if ws = [] then wl else ws ! 0)" "length ws \<le> n"
  shows "\<exists>h'. cond_signal_loop n True q ls h = Some h' \<and> two_lists h' wl [] q (rs @ ws)"
  using assms
proof (induction ws arbitrary: n ls h rs)
  case Nil
  then have "list_empty ls h"
    using ring_empty_iff [of h wl "[]"] by (simp add: two_lists_def)
  then show ?case
    using Nil by (auto simp: cond_signal_loop.simps)
next
  case (Cons t ws)
  then obtain m where n: "n = Suc m" by (cases n) auto
  have t: "ls = t" using Cons.prems(2) by simp
  note c = cond_next [OF Cons.prems(1)]
  have "\<exists>h'. cond_signal_loop m True q (if ws = [] then wl else ws ! 0) (resume_task q (list_delete t h) t) = Some h' \<and>
      two_lists h' wl [] q ((rs @ [t]) @ ws)"
    using Cons.prems(3) n by (intro Cons.IH cond_wake_one Cons.prems(1)) simp_all
  then show ?case
    using c n t by (subst cond_signal_loop.simps) (simp add: Let_def)
qed

section \<open>Properties\<close>

text \<open>C1: The mutex is correct under every interleaving: from an initialised mutex with all tasks idle, no
  sequence of locks, unlocks, spins, parks, wake-ups and schedulings reaches a \<open>PANIC\<close>; at most one task is
  between \<open>co_mutex_lock\<close> and \<open>co_mutex_unlock\<close>; and no wake-up is lost: while a task is in the wait
  list, either some task holds the mutex (and will wake a waiter when it unlocks) or some task inside the
  mutex code can take its next step.\<close>

theorem co_mutex_correct:
  assumes "mutex_reach T (co_mutex_init s0) s"
    and "T \<inter> {0, wait_list (mu s0), run_list s0} = {}" "wait_list (mu s0) \<noteq> run_list s0"
    and "\<forall>a. a \<noteq> wait_list (mu s0) \<longrightarrow> ring (lk s0) a []" "\<forall>t. mpc s0 t = MIdle" "\<not> panic s0"
  shows "\<not> panic s \<and> (\<forall>t u. mpc s t = MHold \<and> mpc s u = MHold \<longrightarrow> t = u) \<and>
    (\<exists>ws rs. ring (lk s) (wait_list (mu s)) ws \<and> ring (lk s) (run_list s) rs \<and>
       (ws \<noteq> [] \<longrightarrow> (\<exists>t. mpc s t = MHold) \<or> (\<exists>t\<in>T. mutex_run t s \<noteq> None)))"
proof -
  obtain ws rs where inv: "minv T s ws rs"
    using mutex_reach_inv [OF assms(1)] minv_init [OF assms(2-6)] by blast
  have "ring (lk s) (wait_list (mu s)) ws \<and> ring (lk s) (run_list s) rs"
    using minvD(2) [OF inv] by (simp add: two_lists_def)
  moreover have "ws \<noteq> [] \<longrightarrow> (\<exists>t. mpc s t = MHold) \<or> rs \<noteq> [] \<or> (\<exists>t. coming (mpc s t))"
    using inv minvD(4) [OF inv] unfolding minv_def owned_def by blast
  then have "ws \<noteq> [] \<longrightarrow> (\<exists>t. mpc s t = MHold) \<or> (\<exists>t\<in>T. mutex_run t s \<noteq> None)"
    using coming_moves [OF inv] by blast
  moreover have "t = u" if "mpc s t = MHold" "mpc s u = MHold" for t u
    using that minvD(4) [OF inv] unfolding owned_def by metis
  ultimately show ?thesis
    using minvD(1) [OF inv] by blast
qed

text \<open>Tasks 1 and 2; task 1 takes the mutex, task 2 parks, task 1 unlocks.\<close>

definition mutex_example :: msys where
  "mutex_example = \<lparr>mu = \<lparr>lock = 9, wait_lock = \<lparr>v = 7\<rparr>, wait_list = 50\<rparr>, lk = \<lparr>prv = (\<lambda>a. a), nxt = (\<lambda>a. a)\<rparr>,
     run_list = 60, mpc = (\<lambda>_. MIdle), panic = False\<rparr>"

fun mutex_sched :: "(addr \<times> nat) list \<Rightarrow> msys \<Rightarrow> msys option" where
  "mutex_sched [] s = Some s"
| "mutex_sched ((t, k) # evs) s =
     (if k = 0 then (if mpc s t = MIdle then mutex_sched evs (co_mutex_lock t s) else None)
      else if k = 1 then (if mpc s t = MHold then mutex_sched evs (co_mutex_unlock t s) else None)
      else case mutex_run t s of None \<Rightarrow> None | Some s' \<Rightarrow> mutex_sched evs s')"

lemma mutex_reach_trans: "mutex_reach T s1 s2 \<Longrightarrow> mutex_reach T s0 s1 \<Longrightarrow> mutex_reach T s0 s2"
  by (induction rule: mutex_reach.induct) (auto intro: mutex_reach.step)

lemma mutex_sched_reach:
  "mutex_sched evs s = Some s' \<Longrightarrow> fst ` set evs \<subseteq> T \<Longrightarrow> mutex_reach T s s'"
proof (induction evs s rule: mutex_sched.induct)
  case (2 t k evs s)
  then obtain s1 where "mutex_step T s s1" "mutex_reach T s1 s'"
    by (auto intro: mutex_step.intros split: if_splits option.splits)
  then show ?case
    using mutex_reach.step [OF mutex_reach.refl] mutex_reach_trans by blast
qed (auto intro: mutex_reach.refl)

definition mutex_trace :: "(addr \<times> nat) list" where
  "mutex_trace = [(1, 0), (1, 2), (2, 0), (2, 2), (2, 2), (2, 2), (1, 1)]"

lemma mutex_trace_runs:
  "\<exists>s. mutex_sched mutex_trace (co_mutex_init mutex_example) = Some s \<and> mpc s 2 = MPark \<and> mpc s 1 = MWake"
  by (simp add: mutex_trace_def mutex_example_def co_mutex_init_def co_mutex_lock_def co_mutex_unlock_def mutex_run_def
      mgoto_def ATOMIC_LOCK_def ATOMIC_UNLOCK_def mspin_lock_def mspin_unlock_def spin_defs task_wait_mutex_def
      co_mutex_locked_def)

theorem co_mutex_correct_witness:
  "\<exists>s. mutex_reach {1, 2} (co_mutex_init mutex_example) s \<and> mpc s 2 = MPark \<and> \<not> panic s"
proof -
  obtain s where s: "mutex_sched mutex_trace (co_mutex_init mutex_example) = Some s" "mpc s 2 = MPark"
    using mutex_trace_runs by blast
  have r: "mutex_reach {1, 2} (co_mutex_init mutex_example) s"
    by (rule mutex_sched_reach [OF s(1)]) (auto simp: mutex_trace_def)
  have "\<not> panic s"
    using co_mutex_correct [OF r] by (simp add: mutex_example_def)
  then show ?thesis
    using r s(2) by blast
qed

text \<open>\<open>co_cond_broadcast\<close> wakes everybody in order: it terminates after as many rounds as there are
  waiters, empties the wait list, and appends the waiters in the order they came to the run queue.\<close>

theorem co_cond_broadcast_wakes_all:
  assumes "two_lists h wl ws q rs"
  shows "\<exists>h'. co_cond_broadcast (length ws) q wl h = Some h' \<and> ring h' wl [] \<and> ring h' q (rs @ ws)"
proof -
  have "list_next wl h = (if ws = [] then wl else ws ! 0)"
    using assms ring_ends(1) [of h wl ws] by (simp add: two_lists_def)
  then show ?thesis
    using cond_broadcast_loop [OF assms, of "list_next wl h" "length ws"]
    by (auto simp: co_cond_signal_all_def two_lists_def)
qed

text \<open>Waiters 1 and 2, an empty run queue.\<close>

definition cond_example :: links where
  "cond_example = list_add_before 50 2 (list_add_before 50 1 \<lparr>prv = (\<lambda>a. a), nxt = (\<lambda>a. a)\<rparr>)"

theorem co_cond_broadcast_wakes_all_witness:
  "\<exists>h'. co_cond_broadcast 2 60 50 cond_example = Some h' \<and> ring h' 50 [] \<and> ring h' 60 [1, 2]"
proof -
  have "two_lists cond_example 50 [1, 2] 60 []"
    by (auto simp: cond_example_def two_lists_def ring_def list_add_before_def)
  from co_cond_broadcast_wakes_all [OF this] show ?thesis
    by (simp add: numeral_2_eq_2 del: ring_Nil)
qed

text \<open>\<open>co_mutex_lock_wait\<close> does not say whether the caller got the mutex: when another task holds it
  and still holds it after the sleep, the result is 1, and the caller is not the owner.\<close>

theorem lock_wait_reports_foreign_lock:
  assumes "lock m = other" "other \<noteq> 0" "other \<noteq> self"
  shows "co_mutex_lock_wait self (\<lambda>m. m) m = (True, m)"
  using assms by (simp add: co_mutex_lock_wait_def co_mutex_try_lock_def ATOMIC_LOCK_def co_mutex_locked_def)

theorem lock_wait_reports_foreign_lock_witness:
  "co_mutex_lock_wait 1 (\<lambda>m. m) \<lparr>lock = 2, wait_lock = \<lparr>v = 1\<rparr>, wait_list = 50\<rparr> =
     (True, \<lparr>lock = 2, wait_lock = \<lparr>v = 1\<rparr>, wait_list = 50\<rparr>)"
  by (rule lock_wait_reports_foreign_lock [of _ 2]) simp_all

end
