(* ===== verification/CaskChan.thy ===== *)
theory CaskChan
  imports CaskDeque
begin

text \<open>
  \<open>chan.h\<close> / \<open>chan.c\<close>: channels between coroutines, a message queue with a capacity, a mutex and the
  conditions \<open>not_full\<close> and \<open>not_empty\<close>.  Everything the code does to a channel happens between
  \<open>co_mutex_lock\<close> and either \<open>co_mutex_unlock\<close> or the release inside \<open>co_cond_wait\<close>, so, the mutex
  excluding, a step is one such critical section of one task.  The wait list of a condition
  variable is the list of waiting tasks in order; \<open>co_cond_signal\<close> takes the first of them, who is
  then woken but has not run yet.  A message stands for its contents (\<open>malloc\<close> and \<open>memcpy\<close> of
  \<open>elem_size\<close> bytes give an equal copy).
\<close>

section \<open>Model\<close>

datatype cpc = CIdle | SendWait addr | RecvWait | NSendWait addr bool

record chan =
  msgs :: deque
  nelems :: nat
  not_full :: "nat list"
  not_empty :: "nat list"
  woken_full :: "nat list"
  woken_empty :: "nat list"
  cpc :: "nat \<Rightarrow> cpc"
  sent :: "addr list"
  received :: "addr list"

definition chan_open :: "nat \<Rightarrow> chan \<Rightarrow> chan" where
  "chan_open n c = c\<lparr>msgs := deque_init (msgs c), not_full := [], not_empty := [], nelems := n\<rparr>"

definition chan_msgs_empty :: "chan \<Rightarrow> bool" where
  "chan_msgs_empty c = deque_empty (msgs c)"

definition chan_msgs_full :: "chan \<Rightarrow> bool" where
  "chan_msgs_full c = (deque_size (msgs c) = nelems c \<or> nelems c = 0 \<and> deque_size (msgs c) = 1)"

definition chan_push_msg :: "addr \<Rightarrow> chan \<Rightarrow> chan" where
  "chan_push_msg m c = c\<lparr>msgs := queue_push m (msgs c), sent := sent c @ [m]\<rparr>"

definition chan_pop_msg :: "chan \<Rightarrow> chan" where
  "chan_pop_msg c = (let (m, q) = queue_pop (msgs c) in c\<lparr>msgs := q, received := received c @ [m]\<rparr>)"

definition chan_buffered :: "chan \<Rightarrow> bool" where
  "chan_buffered c = (nelems c \<noteq> 0)"

text \<open>\<open>co_cond_signal\<close> and the first half of \<open>co_cond_wait\<close> on the two conditions.\<close>

definition signal_full :: "chan \<Rightarrow> chan" where
  "signal_full c = c\<lparr>not_full := tl (not_full c), woken_full := woken_full c @ take 1 (not_full c)\<rparr>"

definition signal_empty :: "chan \<Rightarrow> chan" where
  "signal_empty c = c\<lparr>not_empty := tl (not_empty c), woken_empty := woken_empty c @ take 1 (not_empty c)\<rparr>"

definition wait_full :: "nat \<Rightarrow> cpc \<Rightarrow> chan \<Rightarrow> chan" where
  "wait_full t l c = c\<lparr>not_full := not_full c @ [t], cpc := (cpc c)(t := l)\<rparr>"

definition wait_empty :: "nat \<Rightarrow> cpc \<Rightarrow> chan \<Rightarrow> chan" where
  "wait_empty t l c = c\<lparr>not_empty := not_empty c @ [t], cpc := (cpc c)(t := l)\<rparr>"

definition returns :: "nat \<Rightarrow> chan \<Rightarrow> chan" where
  "returns t c = c\<lparr>cpc := (cpc c)(t := CIdle)\<rparr>"

text \<open>\<open>chan_nobuffer_send\<close>: a task comes here from the call (\<open>sent = False\<close>) and after every wake-up.\<close>

definition chan_nobuffer_send :: "nat \<Rightarrow> addr \<Rightarrow> bool \<Rightarrow> chan \<Rightarrow> chan" where
  "chan_nobuffer_send t m snt c =
     (if snt then returns t c
      else if chan_msgs_empty c then wait_full t (NSendWait m True) (signal_empty (chan_push_msg m c))
      else wait_full t (NSendWait m False) c)"

definition chan_nobuffer_recv :: "nat \<Rightarrow> chan \<Rightarrow> chan" where
  "chan_nobuffer_recv t c =
     (if chan_msgs_empty c then wait_empty t RecvWait c
      else returns t (signal_full (signal_full (chan_pop_msg c))))"

definition chan_buffer_send :: "nat \<Rightarrow> addr \<Rightarrow> chan \<Rightarrow> chan" where
  "chan_buffer_send t m c =
     (if chan_msgs_full c then wait_full t (SendWait m) c
      else returns t (signal_empty (chan_push_msg m c)))"

definition chan_buffer_recv :: "nat \<Rightarrow> chan \<Rightarrow> chan" where
  "chan_buffer_recv t c =
     (if chan_msgs_empty c then wait_empty t RecvWait c
      else returns t (signal_full (chan_pop_msg c)))"

definition chan_send :: "nat \<Rightarrow> addr \<Rightarrow> chan \<Rightarrow> chan" where
  "chan_send t m c = (if chan_buffered c then chan_buffer_send t m c else chan_nobuffer_send t m False c)"

definition chan_recv :: "nat \<Rightarrow> chan \<Rightarrow> chan" where
  "chan_recv t c = (if chan_buffered c then chan_buffer_recv t c else chan_nobuffer_recv t c)"

definition chan_size :: "chan \<Rightarrow> nat" where
  "chan_size c = deque_size (msgs c)"

definition chan_close :: "chan \<Rightarrow> chan" where
  "chan_close c = c\<lparr>msgs := deque_clear (msgs c)\<rparr>"

text \<open>A woken task goes on with its loop.\<close>

definition chan_resume :: "nat \<Rightarrow> chan \<Rightarrow> chan" where
  "chan_resume t c =
     (case cpc c t of
        CIdle \<Rightarrow> c
      | SendWait m \<Rightarrow> chan_buffer_send t m (c\<lparr>woken_full := remove1 t (woken_full c)\<rparr>)
      | RecvWait \<Rightarrow> chan_recv t (c\<lparr>woken_empty := remove1 t (woken_empty c)\<rparr>)
      | NSendWait m snt \<Rightarrow> chan_nobuffer_send t m snt (c\<lparr>woken_full := remove1 t (woken_full c)\<rparr>))"

inductive chan_step :: "chan \<Rightarrow> chan \<Rightarrow> bool" where
  send: "cpc c t = CIdle \<Longrightarrow> chan_step c (chan_send t m c)"
| recv: "cpc c t = CIdle \<Longrightarrow> chan_step c (chan_recv t c)"
| resume: "t \<in> set (woken_full c) \<union> set (woken_empty c) \<Longrightarrow> chan_step c (chan_resume t c)"

inductive chan_reach :: "chan \<Rightarrow> chan \<Rightarrow> bool" for c where
  refl: "chan_reach c c"
| step: "chan_reach c c1 \<Longrightarrow> chan_step c1 c2 \<Longrightarrow> chan_reach c c2"

section \<open>Invariant\<close>

definition cap :: "chan \<Rightarrow> nat" where
  "cap c = (if nelems c = 0 then 1 else nelems c)"

abbreviation stored :: "chan \<Rightarrow> addr list" where
  "stored c \<equiv> deque_elems (msgs c)"

text \<open>The bookkeeping of the lists: a task waits in at most one list and its program counter says where.\<close>

definition waits_ok :: "chan \<Rightarrow> bool" where
  "waits_ok c \<longleftrightarrow> distinct (not_full c @ woken_full c) \<and> distinct (not_empty c @ woken_empty c) \<and>
     (\<forall>t \<in> set (not_full c @ woken_full c). (\<exists>m. cpc c t = SendWait m) \<or> (\<exists>m b. cpc c t = NSendWait m b)) \<and>
     (\<forall>t \<in> set (not_empty c @ woken_empty c). cpc c t = RecvWait) \<and>
     (nelems c \<noteq> 0 \<longrightarrow> (\<forall>t m b. cpc c t \<noteq> NSendWait m b)) \<and> (nelems c = 0 \<longrightarrow> (\<forall>t m. cpc c t \<noteq> SendWait m))"

text \<open>\<open>chan_pre de df\<close>: the invariant up to \<open>de\<close> woken receivers and \<open>df\<close> woken senders that are just running.
  The last two clauses say that no wake-up is lost: while tasks wait, every stored message (every free
  slot) has a woken receiver (sender) on its way.\<close>

definition chan_pre :: "nat \<Rightarrow> nat \<Rightarrow> chan \<Rightarrow> bool" where
  "chan_pre de df c \<longleftrightarrow> deque_inv (msgs c) \<and> sent c = received c @ stored c \<and> length (stored c) \<le> cap c \<and> waits_ok c \<and>
     (not_empty c \<noteq> [] \<longrightarrow> length (stored c) \<le> length (woken_empty c) + de) \<and>
     (nelems c \<noteq> 0 \<longrightarrow> not_full c \<noteq> [] \<longrightarrow> nelems c - length (stored c) \<le> length (woken_full c) + df)"

abbreviation chan_inv :: "chan \<Rightarrow> bool" where
  "chan_inv \<equiv> chan_pre 0 0"

definition out :: "nat \<Rightarrow> chan \<Rightarrow> bool" where
  "out t c \<longleftrightarrow> t \<notin> set (not_full c @ woken_full c @ not_empty c @ woken_empty c)"

lemma msgs_empty_iff: "deque_inv (msgs c) \<Longrightarrow> chan_msgs_empty c \<longleftrightarrow> stored c = []"
  by (simp add: chan_msgs_empty_def deque_empty_def queue.len_elems)

lemma msgs_full_iff:
  "deque_inv (msgs c) \<Longrightarrow> length (stored c) \<le> cap c \<Longrightarrow> nelems c \<noteq> 0 \<Longrightarrow> chan_msgs_full c \<longleftrightarrow> length (stored c) = nelems c"
  by (simp add: chan_msgs_full_def queue.len_elems)

lemma take_1_tl: "take 1 xs @ tl xs = xs"
  by (cases xs) auto

lemmas chan_defs = chan_push_msg_def chan_pop_msg_def signal_full_def signal_empty_def wait_full_def wait_empty_def returns_def

lemma waits_ok_wait_full:
  assumes "waits_ok c" "out t c"
    and "if nelems c = 0 then \<exists>m b. l = NSendWait m b else \<exists>m. l = SendWait m"
  shows "waits_ok (wait_full t l c)"
  using assms unfolding waits_ok_def wait_full_def out_def by (auto split: if_splits)

lemma waits_ok_wait_empty:
  assumes "waits_ok c" "out t c"
  shows "waits_ok (wait_empty t RecvWait c)"
  using assms unfolding waits_ok_def wait_empty_def out_def by auto

lemma waits_ok_returns:
  assumes "waits_ok c" "out t c"
  shows "waits_ok (returns t c)"
  using assms unfolding waits_ok_def returns_def out_def by auto

lemma waits_ok_signal:
  "waits_ok c \<Longrightarrow> waits_ok (signal_full c)" "waits_ok c \<Longrightarrow> waits_ok (signal_empty c)"
  unfolding waits_ok_def signal_full_def signal_empty_def
  by (cases "not_full c"; auto) (cases "not_empty c"; auto)

lemma out_signal: "out t c \<Longrightarrow> out t (signal_full c)" "out t c \<Longrightarrow> out t (signal_empty c)"
  unfolding out_def signal_full_def signal_empty_def by (cases "not_full c"; auto) (cases "not_empty c"; auto)

lemma waits_ok_queue:
  "waits_ok (c\<lparr>msgs := q, sent := xs\<rparr>) = waits_ok c" "waits_ok (c\<lparr>msgs := q, received := xs\<rparr>) = waits_ok c"
  "out t (c\<lparr>msgs := q, sent := xs\<rparr>) = out t c" "out t (c\<lparr>msgs := q, received := xs\<rparr>) = out t c"
  by (simp_all add: waits_ok_def out_def)

text \<open>Pushing and signalling.\<close>

lemma push_signal_inv:
  assumes "chan_pre 0 df c" "df \<le> 1" "length (stored c) < cap c" "nelems c = 0 \<or> length (stored c) < nelems c"
  shows "chan_inv (signal_empty (chan_push_msg m c))"
proof -
  have "waits_ok (signal_empty (chan_push_msg m c))"
    using assms(1) unfolding chan_push_msg_def by (intro waits_ok_signal) (simp add: waits_ok_queue chan_pre_def)
  then show ?thesis
    using assms queue.push_inv [of "msgs c" m] queue.push_elems [of "msgs c" m]
    by (cases "not_empty c") (auto simp: chan_pre_def chan_push_msg_def signal_empty_def cap_def)
qed

lemma pop_inv:
  assumes "chan_pre de 0 c" "de \<le> 1" "stored c \<noteq> []"
  shows "chan_pre 0 1 (chan_pop_msg c) \<and> stored c = last (received (chan_pop_msg c)) # stored (chan_pop_msg c)"
proof -
  obtain m ms where m: "stored c = m # ms"
    using assms(3) by (cases "stored c") auto
  obtain q where q: "queue_pop (msgs c) = (m, q)" "deque_inv q" "deque_elems q = ms"
    using queue.pop_cons [of "msgs c" m ms] assms(1) m by (cases "queue_pop (msgs c)") (auto simp: chan_pre_def)
  show ?thesis
    using assms q m by (auto simp: chan_pre_def chan_pop_msg_def waits_ok_queue cap_def)
qed

lemma signal_full_inv:
  assumes "chan_pre 0 1 c" shows "chan_inv (signal_full c)"
proof -
  have "waits_ok (signal_full c)"
    using assms waits_ok_signal by (simp add: chan_pre_def)
  then show ?thesis
    using assms by (cases "not_full c") (auto simp: chan_pre_def signal_full_def cap_def)
qed

lemma signal_full_more:
  assumes "chan_inv c" shows "chan_inv (signal_full c)"
  by (rule signal_full_inv) (use assms in \<open>auto simp: chan_pre_def\<close>)

lemma returns_inv: "chan_inv c \<Longrightarrow> out t c \<Longrightarrow> chan_inv (returns t c)"
  using waits_ok_returns [of c t] by (auto simp: chan_pre_def returns_def cap_def)

lemma buffer_send_inv:
  assumes "chan_pre 0 df c" "df \<le> 1" "out t c" "nelems c \<noteq> 0"
  shows "chan_inv (chan_buffer_send t m c)"
proof (cases "chan_msgs_full c")
  case True
  then have "length (stored c) = nelems c"
    using assms msgs_full_iff by (simp add: chan_pre_def)
  then show ?thesis
    using assms waits_ok_wait_full [of c t "SendWait m"] True
    by (auto simp: chan_buffer_send_def chan_pre_def wait_full_def cap_def)
next
  case False
  then have l: "length (stored c) < nelems c"
    using assms msgs_full_iff [of c] by (simp add: chan_pre_def cap_def)
  have "out t (signal_empty (chan_push_msg m c))"
    using assms(3) out_signal(2) by (simp add: chan_push_msg_def waits_ok_queue)
  then show ?thesis
    using False push_signal_inv [OF assms(1,2)] l returns_inv by (simp add: chan_buffer_send_def cap_def)
qed

lemma nobuffer_send_inv:
  assumes "chan_pre 0 df c" "df \<le> 1" "out t c" "nelems c = 0"
  shows "chan_inv (chan_nobuffer_send t m snt c)"
proof -
  have c: "chan_inv c"
    using assms by (simp add: chan_pre_def)
  have w: "chan_inv (wait_full t (NSendWait m b) d)" if "chan_inv d" "out t d" "nelems d = 0" for b d
    using that waits_ok_wait_full [of d t "NSendWait m b"] by (auto simp: chan_pre_def wait_full_def cap_def)
  have "chan_inv (signal_empty (chan_push_msg m c))" if "stored c = []"
    using that assms(4) by (intro push_signal_inv [OF assms(1,2)]) (simp_all add: cap_def)
  moreover have "out t (signal_empty (chan_push_msg m c))"
    using assms(3) out_signal(2) by (simp add: chan_push_msg_def waits_ok_queue)
  moreover have "nelems (signal_empty (chan_push_msg m c)) = 0"
    using assms(4) by (simp add: chan_push_msg_def signal_empty_def)
  moreover have "chan_msgs_empty c \<longleftrightarrow> stored c = []"
    using c msgs_empty_iff by (simp add: chan_pre_def)
  ultimately show ?thesis
    using c w assms returns_inv by (simp add: chan_nobuffer_send_def)
qed

lemma wait_empty_inv:
  assumes "chan_pre de 0 c" "out t c" "stored c = []"
  shows "chan_inv (wait_empty t RecvWait c)"
  using assms waits_ok_wait_empty [of c t] by (auto simp: chan_pre_def wait_empty_def cap_def)

lemma chan_recv_inv:
  assumes "chan_pre de 0 c" "de \<le> 1" "out t c"
  shows "chan_inv (chan_recv t c)"
proof (cases "stored c = []")
  case True
  then show ?thesis
    using wait_empty_inv [OF assms(1,3)] assms(1) msgs_empty_iff [of c]
    by (simp add: chan_recv_def chan_buffer_recv_def chan_nobuffer_recv_def chan_pre_def)
next
  case False
  have o: "out t (chan_pop_msg c)"
    using assms(3) by (simp add: chan_pop_msg_def waits_ok_queue split: prod.split)
  have "chan_inv (signal_full (chan_pop_msg c))"
    using pop_inv [OF assms(1,2) False] signal_full_inv by blast
  then show ?thesis
    using False assms(1) msgs_empty_iff [of c] o out_signal(1) signal_full_more returns_inv
    by (simp add: chan_recv_def chan_buffer_recv_def chan_nobuffer_recv_def chan_pre_def [of de])
qed

lemma waits_okD:
  assumes "waits_ok c"
  shows "t \<in> set (not_full c @ woken_full c) \<Longrightarrow> cpc c t \<noteq> CIdle \<and> cpc c t \<noteq> RecvWait"
    and "t \<in> set (not_empty c @ woken_empty c) \<Longrightarrow> cpc c t = RecvWait"
proof -
  assume "t \<in> set (not_full c @ woken_full c)"
  then have "(\<exists>m. cpc c t = SendWait m) \<or> (\<exists>m b. cpc c t = NSendWait m b)"
    using assms unfolding waits_ok_def by blast
  then show "cpc c t \<noteq> CIdle \<and> cpc c t \<noteq> RecvWait" by auto
next
  assume "t \<in> set (not_empty c @ woken_empty c)"
  then show "cpc c t = RecvWait"
    using assms unfolding waits_ok_def by blast
qed

lemma idle_out: "waits_ok c \<Longrightarrow> cpc c t = CIdle \<Longrightarrow> out t c"
  using waits_okD [of c t] unfolding out_def by auto

text \<open>A woken task leaves its list; what it was counted for becomes slack.\<close>

lemma resume_full_pre:
  assumes "chan_inv c" "t \<in> set (woken_full c)"
  shows "chan_pre 0 1 (c\<lparr>woken_full := remove1 t (woken_full c)\<rparr>)" "out t (c\<lparr>woken_full := remove1 t (woken_full c)\<rparr>)"
proof -
  have w: "waits_ok c"
    using assms(1) by (simp add: chan_pre_def)
  then have "distinct (not_full c @ woken_full c)"
    by (simp add: waits_ok_def)
  moreover have "t \<notin> set (not_empty c @ woken_empty c)"
    using waits_okD [OF w, of t] assms(2) by auto
  ultimately show "out t (c\<lparr>woken_full := remove1 t (woken_full c)\<rparr>)"
    using assms(2) unfolding out_def by auto
  have "waits_ok (c\<lparr>woken_full := remove1 t (woken_full c)\<rparr>)"
    using w set_remove1_subset [of t "woken_full c"] unfolding waits_ok_def by auto
  then show "chan_pre 0 1 (c\<lparr>woken_full := remove1 t (woken_full c)\<rparr>)"
    using assms by (auto simp: chan_pre_def cap_def length_remove1)
qed

lemma resume_empty_pre:
  assumes "chan_inv c" "t \<in> set (woken_empty c)"
  shows "chan_pre 1 0 (c\<lparr>woken_empty := remove1 t (woken_empty c)\<rparr>)" "out t (c\<lparr>woken_empty := remove1 t (woken_empty c)\<rparr>)"
proof -
  have w: "waits_ok c"
    using assms(1) by (simp add: chan_pre_def)
  then have "distinct (not_empty c @ woken_empty c)"
    by (simp add: waits_ok_def)
  moreover have "t \<notin> set (not_full c @ woken_full c)"
    using waits_okD [OF w, of t] assms(2) by auto
  ultimately show "out t (c\<lparr>woken_empty := remove1 t (woken_empty c)\<rparr>)"
    using assms(2) unfolding out_def by auto
  have "waits_ok (c\<lparr>woken_empty := remove1 t (woken_empty c)\<rparr>)"
    using w set_remove1_subset [of t "woken_empty c"] unfolding waits_ok_def by auto
  then show "chan_pre 1 0 (c\<lparr>woken_empty := remove1 t (woken_empty c)\<rparr>)"
    using assms by (auto simp: chan_pre_def cap_def length_remove1)
qed

lemma chan_resume_inv:
  assumes inv: "chan_inv c" and t: "t \<in> set (woken_full c) \<union> set (woken_empty c)"
  shows "chan_inv (chan_resume t c)"
proof (cases "t \<in> set (woken_empty c)")
  case True
  then have "cpc c t = RecvWait"
    using inv by (auto simp: chan_pre_def waits_ok_def)
  then show ?thesis
    using chan_recv_inv [OF resume_empty_pre(1) [OF inv True] _ resume_empty_pre(2) [OF inv True]]
    by (simp add: chan_resume_def)
next
  case False
  then have f: "t \<in> set (woken_full c)" using t by blast
  then consider m where "cpc c t = SendWait m" "nelems c \<noteq> 0" | m b where "cpc c t = NSendWait m b" "nelems c = 0"
    using inv unfolding chan_pre_def waits_ok_def by (metis Un_iff set_append)
  then show ?thesis
  proof cases
    case 1
    then show ?thesis
      using buffer_send_inv [OF resume_full_pre(1) [OF inv f] _ resume_full_pre(2) [OF inv f]]
      by (simp add: chan_resume_def)
  next
    case 2
    then show ?thesis
      using nobuffer_send_inv [OF resume_full_pre(1) [OF inv f] _ resume_full_pre(2) [OF inv f]]
      by (simp add: chan_resume_def)
  qed
qed

lemma chan_step_inv: "chan_step c c' \<Longrightarrow> chan_inv c \<Longrightarrow> chan_inv c'"
proof (induction rule: chan_step.induct)
  case (send c t m)
  then have "out t c"
    using idle_out by (simp add: chan_pre_def)
  then show ?case
    using send buffer_send_inv [of 0 c t m] nobuffer_send_inv [of 0 c t m False]
    by (simp add: chan_send_def chan_buffered_def)
next
  case (recv c t)
  then have "out t c"
    using idle_out by (simp add: chan_pre_def)
  then show ?case
    using recv chan_recv_inv [of 0 c t] by simp
next
  case (resume t c)
  then show ?case using chan_resume_inv by blast
qed

lemma chan_reach_inv: "chan_reach c c' \<Longrightarrow> chan_inv c \<Longrightarrow> chan_inv c'"
  by (induction rule: chan_reach.induct) (auto dest: chan_step_inv)

text \<open>A channel as \<open>chan_open\<close> leaves it, before any task uses it.\<close>

definition chan_fresh :: "chan \<Rightarrow> bool" where
  "chan_fresh c \<longleftrightarrow> deque_inv (msgs c) \<and> stored c = [] \<and> not_full c = [] \<and> not_empty c = [] \<and> woken_full c = [] \<and>
     woken_empty c = [] \<and> (\<forall>t. cpc c t = CIdle) \<and> sent c = [] \<and> received c = []"

lemma chan_fresh_inv: "chan_fresh c \<Longrightarrow> chan_inv c"
  by (auto simp: chan_fresh_def chan_pre_def waits_ok_def)

definition chan_example :: "nat \<Rightarrow> chan" where
  "chan_example n = chan_open n \<lparr>msgs = deque_example, nelems = 0, not_full = [], not_empty = [], woken_full = [],
     woken_empty = [], cpc = (\<lambda>_. CIdle), sent = [], received = []\<rparr>"

lemma chan_example_fresh: "chan_fresh (chan_example n)"
  by (simp add: chan_fresh_def chan_example_def chan_open_def deque_init_def deque_example_def deque_inv_def deque_elems_def
      deque_nodes_def list_init_def list_next_def)

section \<open>The channel as a specification on lists\<close>

text \<open>What a channel promises, with the messages as a list; \<open>abs_chan\<close> forgets the linked queue, and every
  operation of the code is the operation of the specification.\<close>

record achan =
  aq :: "addr list"
  an :: nat
  af :: "nat list"
  ae :: "nat list"
  wf :: "nat list"
  we :: "nat list"
  apc :: "nat \<Rightarrow> cpc"
  arcv :: "addr list"

definition abs_chan :: "chan \<Rightarrow> achan" where
  "abs_chan c = \<lparr>aq = stored c, an = nelems c, af = not_full c, ae = not_empty c, wf = woken_full c, we = woken_empty c,
     apc = cpc c, arcv = received c\<rparr>"

definition a_push :: "addr \<Rightarrow> achan \<Rightarrow> achan" where
  "a_push m c = c\<lparr>aq := aq c @ [m], ae := tl (ae c), we := we c @ take 1 (ae c)\<rparr>"

definition a_pop :: "achan \<Rightarrow> achan" where
  "a_pop c = c\<lparr>aq := tl (aq c), arcv := arcv c @ [hd (aq c)]\<rparr>"

definition a_signal :: "achan \<Rightarrow> achan" where
  "a_signal c = c\<lparr>af := tl (af c), wf := wf c @ take 1 (af c)\<rparr>"

definition a_wait :: "nat \<Rightarrow> cpc \<Rightarrow> achan \<Rightarrow> achan" where
  "a_wait t l c = c\<lparr>af := af c @ [t], apc := (apc c)(t := l)\<rparr>"

definition a_done :: "nat \<Rightarrow> achan \<Rightarrow> achan" where
  "a_done t c = c\<lparr>apc := (apc c)(t := CIdle)\<rparr>"

definition a_send :: "nat \<Rightarrow> addr \<Rightarrow> bool \<Rightarrow> achan \<Rightarrow> achan" where
  "a_send t m snt c =
     (if an c \<noteq> 0
      then if length (aq c) = an c then a_wait t (SendWait m) c else a_done t (a_push m c)
      else if snt then a_done t c
      else if aq c = [] then a_wait t (NSendWait m True) (a_push m c) else a_wait t (NSendWait m False) c)"

definition a_recv :: "nat \<Rightarrow> achan \<Rightarrow> achan" where
  "a_recv t c =
     (if aq c = [] then c\<lparr>ae := ae c @ [t], apc := (apc c)(t := RecvWait)\<rparr>
      else if an c \<noteq> 0 then a_done t (a_signal (a_pop c)) else a_done t (a_signal (a_signal (a_pop c))))"

lemma abs_push: "deque_inv (msgs c) \<Longrightarrow> abs_chan (signal_empty (chan_push_msg m c)) = a_push m (abs_chan c)"
  using queue.push_elems [of "msgs c" m] by (simp add: abs_chan_def a_push_def chan_defs)

lemma abs_pop: "deque_inv (msgs c) \<Longrightarrow> stored c \<noteq> [] \<Longrightarrow> abs_chan (chan_pop_msg c) = a_pop (abs_chan c)"
  using queue.pop_cons [of "msgs c" "hd (stored c)" "tl (stored c)"]
  by (auto simp: abs_chan_def a_pop_def chan_pop_msg_def split: prod.splits)

lemma abs_other:
  "abs_chan (signal_full c) = a_signal (abs_chan c)" "abs_chan (wait_full t l c) = a_wait t l (abs_chan c)"
  "abs_chan (returns t c) = a_done t (abs_chan c)"
  by (simp_all add: abs_chan_def a_signal_def a_wait_def a_done_def chan_defs)

lemma abs_sel [simp]: "an (abs_chan c) = nelems c" "aq (abs_chan c) = stored c" "apc (abs_chan c) = cpc c"
    "wf (abs_chan c) = woken_full c" "we (abs_chan c) = woken_empty c"
  by (simp_all add: abs_chan_def)

lemma chan_send_refines:
  assumes "deque_inv (msgs c)"
  shows "abs_chan (chan_send t m c) = a_send t m False (abs_chan c)"
    and "nelems c = 0 \<Longrightarrow> abs_chan (chan_nobuffer_send t m snt c) = a_send t m snt (abs_chan c)"
    and "nelems c \<noteq> 0 \<Longrightarrow> abs_chan (chan_buffer_send t m c) = a_send t m snt (abs_chan c)"
  using assms msgs_empty_iff [of c]
  by (auto simp: chan_send_def chan_buffered_def chan_buffer_send_def chan_nobuffer_send_def a_send_def abs_push abs_other
      chan_msgs_full_def queue.len_elems)

lemma chan_recv_refines:
  assumes "deque_inv (msgs c)"
  shows "abs_chan (chan_recv t c) = a_recv t (abs_chan c)"
  using assms msgs_empty_iff [of c]
  by (auto simp: chan_recv_def chan_buffered_def chan_buffer_recv_def chan_nobuffer_recv_def a_recv_def abs_pop abs_other)
    (simp_all add: abs_chan_def wait_empty_def)

definition a_resume :: "nat \<Rightarrow> achan \<Rightarrow> achan" where
  "a_resume t c =
     (case apc c t of
        CIdle \<Rightarrow> c
      | SendWait m \<Rightarrow> a_send t m False (c\<lparr>wf := remove1 t (wf c)\<rparr>)
      | RecvWait \<Rightarrow> a_recv t (c\<lparr>we := remove1 t (we c)\<rparr>)
      | NSendWait m snt \<Rightarrow> a_send t m snt (c\<lparr>wf := remove1 t (wf c)\<rparr>))"

lemma chan_resume_refines:
  assumes inv: "chan_inv c"
  shows "abs_chan (chan_resume t c) = a_resume t (abs_chan c)"
proof -
  have d: "deque_inv (msgs c)" and w: "waits_ok c"
    using inv by (simp_all add: chan_pre_def)
  have u: "abs_chan (c\<lparr>woken_full := xs\<rparr>) = (abs_chan c)\<lparr>wf := xs\<rparr>" "abs_chan (c\<lparr>woken_empty := xs\<rparr>) = (abs_chan c)\<lparr>we := xs\<rparr>" for xs
    by (simp_all add: abs_chan_def)
  show ?thesis
  proof (cases "cpc c t")
    case (SendWait m)
    then have "nelems c \<noteq> 0"
      using w unfolding waits_ok_def by blast
    then show ?thesis
      using chan_send_refines(3) [of "c\<lparr>woken_full := remove1 t (woken_full c)\<rparr>" t m False] d SendWait
      by (simp add: chan_resume_def a_resume_def u)
  next
    case (NSendWait m b)
    then have "nelems c = 0"
      using w unfolding waits_ok_def by blast
    then show ?thesis
      using chan_send_refines(2) [of "c\<lparr>woken_full := remove1 t (woken_full c)\<rparr>" t m b] d NSendWait
      by (simp add: chan_resume_def a_resume_def u)
  next
    case RecvWait
    then show ?thesis
      using chan_recv_refines [of "c\<lparr>woken_empty := remove1 t (woken_empty c)\<rparr>" t] d
      by (simp add: chan_resume_def a_resume_def u)
  qed (simp add: chan_resume_def a_resume_def)
qed

text \<open>Schedules of calls and resumptions.\<close>

datatype chan_ev = Send nat addr | Recv nat | Go nat

fun chan_do :: "chan_ev \<Rightarrow> chan \<Rightarrow> chan option" where
  "chan_do (Send t m) c = (if cpc c t = CIdle then Some (chan_send t m c) else None)"
| "chan_do (Recv t) c = (if cpc c t = CIdle then Some (chan_recv t c) else None)"
| "chan_do (Go t) c = (if t \<in> set (woken_full c) \<union> set (woken_empty c) then Some (chan_resume t c) else None)"

fun a_do :: "chan_ev \<Rightarrow> achan \<Rightarrow> achan option" where
  "a_do (Send t m) c = (if apc c t = CIdle then Some (a_send t m False c) else None)"
| "a_do (Recv t) c = (if apc c t = CIdle then Some (a_recv t c) else None)"
| "a_do (Go t) c = (if t \<in> set (wf c) \<union> set (we c) then Some (a_resume t c) else None)"

fun run_evs :: "('e \<Rightarrow> 's \<Rightarrow> 's option) \<Rightarrow> 'e list \<Rightarrow> 's \<Rightarrow> 's option" where
  "run_evs f [] c = Some c"
| "run_evs f (e # es) c = (case f e c of None \<Rightarrow> None | Some c' \<Rightarrow> run_evs f es c')"

lemma chan_do_step: "chan_do e c = Some c' \<Longrightarrow> chan_step c c'"
  by (cases e) (auto intro: chan_step.intros split: if_splits)

lemma chan_do_refines: "chan_inv c \<Longrightarrow> map_option abs_chan (chan_do e c) = a_do e (abs_chan c)"
  using chan_send_refines(1) [of c] chan_recv_refines [of c] chan_resume_refines [of c]
  by (cases e) (auto simp: chan_pre_def)

text \<open>Refinement along a schedule: the code reaches what the specification computes.\<close>

lemma chan_sched_reach:
  "run_evs a_do es (abs_chan c0) = Some a \<Longrightarrow> chan_inv c0 \<Longrightarrow> chan_reach c1 c0 \<Longrightarrow>
   \<exists>c. chan_reach c1 c \<and> abs_chan c = a"
proof (induction es arbitrary: c0)
  case (Cons e es)
  then obtain a1 where a1: "a_do e (abs_chan c0) = Some a1" "run_evs a_do es a1 = Some a"
    by (auto split: option.splits)
  then obtain c2 where c2: "chan_do e c0 = Some c2" "abs_chan c2 = a1"
    using chan_do_refines [OF Cons.prems(2), of e] by (cases "chan_do e c0") auto
  have s: "chan_step c0 c2"
    by (rule chan_do_step [OF c2(1)])
  show ?case
    using Cons.IH [of c2] a1(2) c2(2) chan_step_inv [OF s Cons.prems(2)] chan_reach.step [OF Cons.prems(3) s] by blast
qed auto

lemma chan_example_abs:
  "abs_chan (chan_example n) = \<lparr>aq = [], an = n, af = [], ae = [], wf = [], we = [], apc = (\<lambda>_. CIdle), arcv = []\<rparr>"
  using chan_example_fresh [of n] by (simp add: abs_chan_def chan_fresh_def fun_eq_iff) (simp add: chan_example_def chan_open_def)

definition left_trace :: "chan_ev list" where
  "left_trace = [Send 1 11, Send 2 12, Recv 9, Send 3 13, Go 2, Send 4 14, Send 5 15, Recv 9, Go 2, Recv 9, Go 1, Go 3, Go 4, Go 5]"

lemma left_trace_runs:
  "\<exists>c. chan_reach (chan_example 0) c \<and> received c = [11, 13, 12] \<and> cpc c 2 = NSendWait 12 True \<and> not_full c = [2, 4, 5] \<and>
     woken_full c = [] \<and> woken_empty c = []"
proof -
  have "case run_evs a_do left_trace (abs_chan (chan_example 0)) of None \<Rightarrow> False
    | Some c \<Rightarrow> arcv c = [11, 13, 12] \<and> apc c 2 = NSendWait 12 True \<and> af c = [2, 4, 5] \<and> wf c = [] \<and> we c = []"
    unfolding left_trace_def chan_example_abs by code_simp
  then obtain a where a: "run_evs a_do left_trace (abs_chan (chan_example 0)) = Some a" "arcv a = [11, 13, 12]"
    "apc a 2 = NSendWait 12 True" "af a = [2, 4, 5]" "wf a = []" "we a = []"
    by (auto split: option.splits)
  then show ?thesis
    using chan_sched_reach [OF a(1) chan_fresh_inv [OF chan_example_fresh] chan_reach.refl]
    by (auto simp: abs_chan_def)
qed

definition buffer_trace :: "chan_ev list" where
  "buffer_trace = [Recv 8, Recv 9, Send 1 11, Send 2 12, Go 8]"

lemma buffer_trace_runs:
  "\<exists>c. chan_reach (chan_example 2) c \<and> received c = [11] \<and> stored c = [12] \<and> nelems c = 2 \<and> woken_empty c = [9]"
proof -
  have "case run_evs a_do buffer_trace (abs_chan (chan_example 2)) of None \<Rightarrow> False
    | Some c \<Rightarrow> arcv c = [11] \<and> aq c = [12] \<and> an c = 2 \<and> we c = [9]"
    unfolding buffer_trace_def chan_example_abs by code_simp
  then obtain a where a: "run_evs a_do buffer_trace (abs_chan (chan_example 2)) = Some a" "arcv a = [11]"
    "aq a = [12]" "an a = 2" "we a = [9]"
    by (auto split: option.splits)
  then show ?thesis
    using chan_sched_reach [OF a(1) chan_fresh_inv [OF chan_example_fresh] chan_reach.refl]
    by (auto simp: abs_chan_def)
qed

section \<open>Properties\<close>

text \<open>C8: A channel delivers in order and within its capacity: in every reachable state, buffered or not, the
  messages received so far followed by the stored ones are the messages sent so far, and at most
  \<open>nelems\<close> of them (one, if unbuffered) are stored.\<close>

theorem chan_fifo_bounded:
  assumes "chan_reach c0 c" "chan_fresh c0"
  shows "sent c = received c @ stored c \<and> length (stored c) \<le> cap c"
  using chan_reach_inv [OF assms(1) chan_fresh_inv [OF assms(2)]] by (simp add: chan_pre_def)

theorem chan_fifo_bounded_witness:
  "\<exists>c. chan_reach (chan_example 2) c \<and> received c = [11] \<and> sent c = [11] @ stored c \<and> length (stored c) \<le> cap c"
proof -
  obtain c where r: "chan_reach (chan_example 2) c" and c: "received c = [11]"
    using buffer_trace_runs by blast
  show ?thesis
    using r c chan_fifo_bounded [OF r chan_example_fresh] by metis
qed

text \<open>C10: No wake-up is lost on a buffered channel: a receiver blocked while messages are stored, or a sender
  blocked while slots are free, is matched by a woken task of its kind that has not run yet.\<close>

theorem chan_no_lost_wakeup:
  assumes "chan_reach c0 c" "chan_fresh c0" "nelems c \<noteq> 0"
  shows "(not_empty c \<noteq> [] \<and> stored c \<noteq> [] \<longrightarrow> woken_empty c \<noteq> []) \<and>
    (not_full c \<noteq> [] \<and> length (stored c) < nelems c \<longrightarrow> woken_full c \<noteq> [])"
  using chan_reach_inv [OF assms(1) chan_fresh_inv [OF assms(2)]] assms(3) by (auto simp: chan_pre_def)

theorem chan_no_lost_wakeup_witness:
  "\<exists>c. chan_reach (chan_example 2) c \<and> stored c = [12] \<and> (not_empty c \<noteq> [] \<longrightarrow> woken_empty c \<noteq> [])"
proof -
  obtain c where r: "chan_reach (chan_example 2) c" and c: "stored c = [12]" "nelems c = 2"
    using buffer_trace_runs by blast
  show ?thesis
    using r c chan_no_lost_wakeup [OF r chan_example_fresh] by (intro exI [of _ c]) simp
qed

text \<open>On an unbuffered channel a sender can stay blocked after its message was received: with five
  senders there is a reachable state in which message 12 of sender 2 has been received, nobody is woken
  any more, and sender 2 still waits for \<open>not_full\<close>, until some later receive signals it.\<close>

theorem nobuffer_sender_left_waiting:
  "\<exists>c. chan_reach (chan_example 0) c \<and> received c = [11, 13, 12] \<and> cpc c 2 = NSendWait 12 True \<and>
     2 \<in> set (not_full c) \<and> woken_full c = [] \<and> woken_empty c = []"
proof -
  obtain c where "chan_reach (chan_example 0) c" "received c = [11, 13, 12]" "cpc c 2 = NSendWait 12 True"
    "not_full c = [2, 4, 5]" "woken_full c = []" "woken_empty c = []"
    using left_trace_runs by blast
  then show ?thesis by (intro exI [of _ c]) simp
qed

end
