(* ===== verification/CaskInt.thy ===== *)
theory CaskInt
  imports CaskPrelude "HOL-Library.Signed_Division"
begin

text \<open>
  Integers of C at their width.  A value is converted to \<open>int\<close> or \<open>int64_t\<close> by keeping its low bits in two's complement.  Signed arithmetic
  that leaves the range is undefined in C; the model writes out what the machine computes, and the properties state the range in which
  nothing is lost.
\<close>

definition int32 :: "int \<Rightarrow> int" where
  "int32 x = signed_take_bit 31 x"

definition int64 :: "int \<Rightarrow> int" where
  "int64 x = signed_take_bit 63 x"

definition size64 :: "int \<Rightarrow> nat" where
  "size64 x = nat (take_bit 64 x)"

lemma int32_id [simp]: "- (2 ^ 31) \<le> x \<Longrightarrow> x < 2 ^ 31 \<Longrightarrow> int32 x = x"
  by (simp add: int32_def signed_take_bit_int_eq_self)

lemma int64_id [simp]: "- (2 ^ 63) \<le> x \<Longrightarrow> x < 2 ^ 63 \<Longrightarrow> int64 x = x"
  by (simp add: int64_def signed_take_bit_int_eq_self)

lemma int32_range: "- (2 ^ 31) \<le> int32 x" "int32 x < 2 ^ 31"
  using signed_take_bit_int_greater_eq_minus_exp [of 31 x] signed_take_bit_int_less_exp [of 31 x] by (simp_all add: int32_def)

lemma size64_id [simp]: "0 \<le> x \<Longrightarrow> x < 2 ^ 64 \<Longrightarrow> size64 x = nat x"
  by (simp add: size64_def take_bit_int_eq_self)

lemma sdiv_nonneg: "0 \<le> x \<Longrightarrow> 0 \<le> y \<Longrightarrow> x sdiv y = (x :: int) div y"
  by (auto simp: signed_divide_int_def sgn_if)

end
