(* ===== verification/NattanBase64.thy ===== *)
theory NattanBase64
  imports CaskInt
begin

unbundle bit_operations_syntax

text \<open>
  \<open>util/base64/base64.c\<close> and its wrapper \<open>util/Base64.h\<close>.  Bytes are 8-bit words; \<open>char\<close> is signed, so a
  byte is promoted to the 32-bit \<open>int\<close> by sign extension where the code indexes with \<open>string[i]\<close>, and
  zero-extended where it uses \<open>unsigned char\<close>.  The output buffer is the list of bytes written through
  the moving output pointer, in order.  Lengths are \<open>int\<close>, with every operation cut to 32 bits.  Reading past the end of the input is
  \<open>OutOfBounds\<close>.
\<close>

section \<open>Model of base64.c\<close>

type_synonym byte = "8 word"
type_synonym c_int = "32 word"

definition pr2six :: "byte list" where
  "pr2six =
   [64, 64, 64, 64, 64, 64, 64, 64, 64, 64, 64, 64, 64, 64, 64, 64,
    64, 64, 64, 64, 64, 64, 64, 64, 64, 64, 64, 64, 64, 64, 64, 64,
    64, 64, 64, 64, 64, 64, 64, 64, 64, 64, 64, 62, 64, 64, 64, 63,
    52, 53, 54, 55, 56, 57, 58, 59, 60, 61, 64, 64, 64, 64, 64, 64,
    64,  0,  1,  2,  3,  4,  5,  6,  7,  8,  9, 10, 11, 12, 13, 14,
    15, 16, 17, 18, 19, 20, 21, 22, 23, 24, 25, 64, 64, 64, 64, 64,
    64, 26, 27, 28, 29, 30, 31, 32, 33, 34, 35, 36, 37, 38, 39, 40,
    41, 42, 43, 44, 45, 46, 47, 48, 49, 50, 51, 64, 64, 64, 64, 64,
    64, 64, 64, 64, 64, 64, 64, 64, 64, 64, 64, 64, 64, 64, 64, 64,
    64, 64, 64, 64, 64, 64, 64, 64, 64, 64, 64, 64, 64, 64, 64, 64,
    64, 64, 64, 64, 64, 64, 64, 64, 64, 64, 64, 64, 64, 64, 64, 64,
    64, 64, 64, 64, 64, 64, 64, 64, 64, 64, 64, 64, 64, 64, 64, 64,
    64, 64, 64, 64, 64, 64, 64, 64, 64, 64, 64, 64, 64, 64, 64, 64,
    64, 64, 64, 64, 64, 64, 64, 64, 64, 64, 64, 64, 64, 64, 64, 64,
    64, 64, 64, 64, 64, 64, 64, 64, 64, 64, 64, 64, 64, 64, 64, 64,
    64, 64, 64, 64, 64, 64, 64, 64, 64, 64, 64, 64, 64, 64, 64, 64]"

text \<open>\<open>pr2six[c]\<close>, an \<open>unsigned char\<close> promoted to \<open>int\<close>.\<close>

definition six :: "byte \<Rightarrow> c_int" where
  "six c = ucast (pr2six ! unat c)"

text \<open>The scan \<open>while (pr2six[*(bufin++)] <= 63);\<close> both decoders start with, from position \<open>i\<close>: the
  result is \<open>nprbytes\<close>.\<close>

function scan_coded :: "nat \<Rightarrow> byte list \<Rightarrow> nat res" where
  "scan_coded i buf =
     (if length buf \<le> i then Inl OutOfBounds
      else if six (buf ! i) \<le> 63 then scan_coded (Suc i) buf
      else Inr i)"
  by pat_completeness auto
termination by (relation "measure (\<lambda>(i, buf). length buf - i)") auto

declare scan_coded.simps [simp del]

definition Base64decode_len :: "byte list \<Rightarrow> int res" where
  "Base64decode_len bufcoded =
     (case scan_coded 0 bufcoded of
        Inl f \<Rightarrow> Inl f
      | Inr n \<Rightarrow>
          let nprbytes = int32 (int n); nbytesdecoded = int32 (int32 (nprbytes + 3) sdiv 4 * 3)
          in Inr (int32 (nbytesdecoded + 1)))"

definition dec1 :: "byte \<Rightarrow> byte \<Rightarrow> byte" where
  "dec1 a b = ucast (push_bit 2 (six a) OR drop_bit 4 (six b))"

definition dec2 :: "byte \<Rightarrow> byte \<Rightarrow> byte" where
  "dec2 b c = ucast (push_bit 4 (six b) OR drop_bit 2 (six c))"

definition dec3 :: "byte \<Rightarrow> byte \<Rightarrow> byte" where
  "dec3 c d = ucast (push_bit 6 (six c) OR six d)"

text \<open>The loop \<open>while (nprbytes > 4)\<close>: the input pointer is the index \<open>i\<close>, the result is the final
  pointer, the final \<open>nprbytes\<close> and the bytes written.\<close>

function decode_loop :: "nat \<Rightarrow> int \<Rightarrow> byte list \<Rightarrow> byte list \<Rightarrow> nat \<times> int \<times> byte list" where
  "decode_loop i nprbytes buf out =
     (if nprbytes > 4
      then decode_loop (i + 4) (nprbytes - 4) buf
             (out @ [dec1 (buf ! i) (buf ! (i + 1)), dec2 (buf ! (i + 1)) (buf ! (i + 2)),
                     dec3 (buf ! (i + 2)) (buf ! (i + 3))])
      else (i, nprbytes, out))"
  by pat_completeness auto
termination by (relation "measure (\<lambda>(i, n, buf, out). nat n)") auto

declare decode_loop.simps [simp del]

definition Base64decode :: "byte list \<Rightarrow> (int \<times> byte list) res" where
  "Base64decode bufcoded =
     (case scan_coded 0 bufcoded of
        Inl f \<Rightarrow> Inl f
      | Inr n \<Rightarrow>
          (let nprbytes0 = int32 (int n);
               nbytesdecoded = int32 (int32 (nprbytes0 + 3) sdiv 4 * 3);
               (i, nprbytes, out0) = decode_loop 0 nprbytes0 bufcoded [];
               out1 = (if nprbytes > 1 then out0 @ [dec1 (bufcoded ! i) (bufcoded ! (i + 1))] else out0);
               out2 = (if nprbytes > 2 then out1 @ [dec2 (bufcoded ! (i + 1)) (bufcoded ! (i + 2))] else out1);
               out3 = (if nprbytes > 3 then out2 @ [dec3 (bufcoded ! (i + 2)) (bufcoded ! (i + 3))] else out2)
           in Inr (int32 (nbytesdecoded - (int32 (4 - nprbytes) AND 3)), out3 @ [0])))"

definition basis_64 :: "byte list" where
  "basis_64 = map of_char ''ABCDEFGHIJKLMNOPQRSTUVWXYZabcdefghijklmnopqrstuvwxyz0123456789+/''"

definition basis :: "c_int \<Rightarrow> byte" where
  "basis w = basis_64 ! unat w"

definition Base64encode_len :: "int \<Rightarrow> int" where
  "Base64encode_len len = int32 (int32 (int32 (len + 2) sdiv 3 * 4) + 1)"

definition enc1 :: "byte \<Rightarrow> c_int" where
  "enc1 a = signed_drop_bit 2 (scast a) AND 0x3F"

definition enc2 :: "byte \<Rightarrow> byte \<Rightarrow> c_int" where
  "enc2 a b = push_bit 4 (scast a AND 0x3) OR signed_drop_bit 4 (scast b AND 0xF0)"

definition enc3 :: "byte \<Rightarrow> byte \<Rightarrow> c_int" where
  "enc3 b c = push_bit 2 (scast b AND 0xF) OR signed_drop_bit 6 (scast c AND 0xC0)"

definition enc4 :: "byte \<Rightarrow> c_int" where
  "enc4 c = scast c AND 0x3F"

text \<open>The loop \<open>for (i = 0; i < len - 2; i += 3)\<close>; \<open>i + 3\<close> is at most \<open>len\<close> and stays in range.\<close>

function encode_loop :: "nat \<Rightarrow> int \<Rightarrow> byte list \<Rightarrow> byte list \<Rightarrow> (nat \<times> byte list) res" where
  "encode_loop i len s p =
     (if \<not> int i < int32 (len - 2) then Inr (i, p)
      else if length s \<le> i + 2 then Inl OutOfBounds
      else encode_loop (i + 3) len s
             (p @ [basis (enc1 (s ! i)), basis (enc2 (s ! i) (s ! (i + 1))),
                   basis (enc3 (s ! (i + 1)) (s ! (i + 2))), basis (enc4 (s ! (i + 2)))]))"
  by pat_completeness auto
termination
proof (relation "measure (\<lambda>(i, len, s, p). nat (2 ^ 31 - int i))", goal_cases)
  case (2 i len s p)
  then show ?case using int32_range(2) [of "len - 2"] by simp
qed simp

declare encode_loop.simps [simp del]

text \<open>\<open>'='\<close>.\<close>

definition pad_char :: byte where
  "pad_char = 61"

definition Base64encode :: "byte list \<Rightarrow> int \<Rightarrow> (int \<times> byte list) res" where
  "Base64encode s len =
     (case encode_loop 0 len s [] of
        Inl f \<Rightarrow> Inl f
      | Inr (i, p) \<Rightarrow>
          (if int i < len \<and> int (length s) < len then Inl OutOfBounds
           else
             let p1 = (if int i < len
                       then p @ basis (enc1 (s ! i)) #
                              (if int i = len - 1
                               then [basis (push_bit 4 (scast (s ! i) AND 0x3)), pad_char]
                               else [basis (enc2 (s ! i) (s ! (i + 1))),
                                     basis (push_bit 2 (scast (s ! (i + 1)) AND 0xF))]) @ [pad_char]
                       else p) @ [0]
             in Inr (int32 (int (length p1)), p1)))"

section \<open>Model of Base64.h\<close>

text \<open>\<open>std::string\<close> to and from \<open>char*\<close>: \<open>data()\<close> is followed by a NUL, and building a string from a
  \<open>char*\<close> stops at the first NUL.  The result buffer is a zero-filled vector of the computed size
  plus one, whose first bytes the C routine overwrites; a negative size becomes a huge \<open>size_t\<close> and the constructor throws.\<close>

definition c_str :: "byte list \<Rightarrow> byte list" where
  "c_str buf = takeWhile (\<lambda>b. b \<noteq> 0) buf"

definition overwrite :: "int \<Rightarrow> byte list \<Rightarrow> byte list res" where
  "overwrite n out =
     (if n < 0 then Inl (Panic ''length_error'')
      else if length out \<le> nat n then Inr (out @ replicate (nat n - length out) 0) else Inl OutOfBounds)"

definition Base64_encode :: "byte list \<Rightarrow> byte list res" where
  "Base64_encode content =
     (if content = [] then Inr []
      else let len = int32 (int (length content)) in
           case Base64encode (content @ [0]) len of
             Inl f \<Rightarrow> Inl f
           | Inr (n, out) \<Rightarrow> map_sum id c_str (overwrite (int32 (Base64encode_len len + 1)) out))"

definition Base64_decode :: "byte list \<Rightarrow> byte list res" where
  "Base64_decode content =
     (if content = [] then Inr []
      else case Base64decode_len (content @ [0]) of
             Inl f \<Rightarrow> Inl f
           | Inr decode_len \<Rightarrow>
               (case Base64decode (content @ [0]) of
                  Inl f \<Rightarrow> Inl f
                | Inr (n, out) \<Rightarrow> map_sum id c_str (overwrite (int32 (decode_len + 1)) out)))"

section \<open>The six-bit groups\<close>

lemma masks:
  "(0x3F::c_int) = mask 6" "(0x3::c_int) = mask 2" "(0xF::c_int) = mask 4"
  "(0xF0::c_int) = push_bit 4 (mask 4)" "(0xC0::c_int) = push_bit 6 (mask 2)"
  by (simp_all add: mask_eq_exp_minus_1 push_bit_eq_mult)

lemma Suc_Suc_minus2: "2 \<le> n \<Longrightarrow> Suc (Suc (n - 2)) = n"
  by simp

lemmas enc_defs = enc1_def enc2_def enc3_def enc4_def masks

lemma group1: "(ucast (push_bit 2 (enc1 a) OR drop_bit 4 (enc2 a b)) :: byte) = a"
  unfolding enc_defs by (rule bit_word_eqI, simp add: bit_simps, auto simp: bit_simps Suc_Suc_minus2)

lemma group2: "(ucast (push_bit 4 (enc2 a b) OR drop_bit 2 (enc3 b c)) :: byte) = b"
  unfolding enc_defs by (rule bit_word_eqI, simp add: bit_simps, auto simp: bit_simps Suc_Suc_minus2)

lemma group3: "(ucast (push_bit 6 (enc3 b c) OR enc4 c) :: byte) = c"
  unfolding enc_defs by (rule bit_word_eqI, simp add: bit_simps, auto simp: bit_simps Suc_Suc_minus2)

lemma enc_zero:
  "push_bit 4 (scast a AND 0x3) = enc2 a 0" "push_bit 2 (scast b AND 0xF) = enc3 b 0"
  by (simp_all add: enc2_def enc3_def)

lemma sextet_less: assumes "take_bit 6 w = (w::c_int)" shows "unat w < 64"
proof -
  have "unat w = take_bit 6 (unat w)"
    by (metis assms unsigned_take_bit_eq)
  also have "\<dots> < 2 ^ 6"
    by (rule take_bit_nat_less_exp)
  finally show ?thesis by simp
qed

lemma enc_less: "unat (enc1 a) < 64" "unat (enc2 a b) < 64" "unat (enc3 b c) < 64" "unat (enc4 c) < 64"
  by (rule sextet_less, rule bit_word_eqI, auto simp: enc_defs bit_simps)+


text \<open>The two tables are inverse to each other on six-bit values.\<close>

lemma basis_six_table:
  "\<forall>n<64. pr2six ! unat (basis_64 ! n) = word_of_nat n \<and> basis_64 ! n \<noteq> 0"
proof -
  have "list_all (\<lambda>n. pr2six ! unat (basis_64 ! n) = word_of_nat n \<and> basis_64 ! n \<noteq> 0) [0..<64]"
    unfolding pr2six_def basis_64_def by code_simp
  then show ?thesis
    by (simp add: list_all_iff)
qed

lemma ucast_of_small: "n < 64 \<Longrightarrow> (ucast (word_of_nat n :: byte) :: c_int) = word_of_nat n"
  by (simp add: unsigned_of_nat take_bit_nat_eq_self)

lemma six_basis: assumes "unat w < 64" shows "six (basis w) = w"
proof -
  have "six (basis w) = ucast (word_of_nat (unat w) :: byte)"
    using basis_six_table assms unfolding six_def basis_def by presburger
  also have "\<dots> = word_of_nat (unat w)"
    using assms by (rule ucast_of_small)
  finally show ?thesis by simp
qed

lemma basis_nonzero: "unat w < 64 \<Longrightarrow> basis w \<noteq> 0"
  using basis_six_table by (simp add: basis_def)

lemma six_stop: "six pad_char = 64" "six 0 = 64"
  unfolding six_def pad_char_def pr2six_def by code_simp+

section \<open>Encoding and decoding as functions on lists\<close>

fun sextets :: "byte list \<Rightarrow> c_int list" where
  "sextets (a # b # c # r) = enc1 a # enc2 a b # enc3 b c # enc4 c # sextets r"
| "sextets [a, b] = [enc1 a, enc2 a b, enc3 b 0]"
| "sextets [a] = [enc1 a, enc2 a 0]"
| "sextets [] = []"

definition padding :: "nat \<Rightarrow> byte list" where
  "padding n = replicate ((3 - n mod 3) mod 3) pad_char"

lemma sextets_less: "\<forall>w \<in> set (sextets s). unat w < 64"
  by (induction s rule: sextets.induct) (auto simp: enc_less)

lemma sextets_length: "length (sextets s) = (4 * length s + 2) div 3"
  by (induction s rule: sextets.induct) auto

fun unsix :: "byte list \<Rightarrow> byte list" where
  "unsix (a # b # c # d # r) = dec1 a b # dec2 b c # dec3 c d # unsix r"
| "unsix [a, b, c] = [dec1 a b, dec2 b c]"
| "unsix [a, b] = [dec1 a b]"
| "unsix [a] = []"
| "unsix [] = []"

lemma unsix_sextets: "unsix (map basis (sextets s)) = s"
  by (induction s rule: sextets.induct)
    (auto simp: dec1_def dec2_def dec3_def six_basis enc_less group1 group2 group3)


lemma encode_loop_sextets:
  assumes "i \<le> length s" and len: "length s < 2 ^ 31"
  shows "encode_loop i (int (length s)) (s @ r) p =
    Inr (i + 3 * ((length s - i) div 3),
         p @ map basis (sextets (take (3 * ((length s - i) div 3)) (drop i s))))"
  using assms(1)
proof (induction "length s - i" arbitrary: i p rule: less_induct)
  case less
  have len2: "int32 (int (length s) - 2) = int (length s) - 2" using len by simp
  show ?case
  proof (cases "i + 2 < length s")
    case False
    then have "(length s - i) div 3 = 0" by simp
    then show ?thesis
      using False len2 by (simp add: encode_loop.simps)
  next
    case True
    define k where "k = (length s - (i + 3)) div 3"
    have k: "(length s - i) div 3 = Suc k"
      using True by (simp add: k_def)
    have d: "drop i s = s ! i # s ! (i + 1) # s ! (i + 2) # drop (i + 3) s"
      using True by (simp add: drop_nth_Cons numeral_3_eq_3)
    have t3: "take (3 + m) (a # b # c # x) = a # b # c # take m x" for m and a b c :: byte and x
      by (simp add: numeral_3_eq_3)
    show ?thesis
      unfolding k d
      using True less(1) [of "i + 3"] len2
      by (subst encode_loop.simps) (simp add: nth_append t3 k_def [symmetric])
  qed
qed

lemma sextets_append:
  "length xs mod 3 = 0 \<Longrightarrow> sextets (xs @ ys) = sextets xs @ sextets ys"
  by (induction xs rule: sextets.induct) auto

lemmas Base64encode_alt = Base64encode_def [unfolded enc_zero]

lemma encode_len_exact:
  assumes "n \<le> 1610612733"
  shows "Base64encode_len (int n) = (int n + 2) div 3 * 4 + 1"
proof -
  have "(int n + 2) div 3 * 4 + 1 < 2 ^ 31" "0 \<le> (int n + 2) div 3" using assms by simp_all
  then show ?thesis using assms by (simp add: Base64encode_len_def sdiv_nonneg)
qed

text \<open>The longest input whose encoding is counted by an \<open>int\<close>.\<close>

abbreviation encodable :: "byte list \<Rightarrow> bool" where
  "encodable s \<equiv> length s \<le> 1610612733"

lemma encode_sextets:
  assumes "encodable s"
  shows "Base64encode (s @ r) (int (length s)) =
     Inr (Base64encode_len (int (length s)), map basis (sextets s) @ padding (length s) @ [0])"
proof -
  define q where "q = length s div 3"
  define u v where "u = take (3 * q) s" and "v = drop (3 * q) s"
  have s: "s = u @ v" and u: "length u = 3 * q" and v: "length v < 3"
    by (auto simp: u_def v_def q_def)
  have loop: "encode_loop 0 (int (length s)) (s @ r) [] = Inr (3 * q, map basis (sextets u))"
    using encode_loop_sextets [of 0 s r "[]"] assms by (simp add: q_def u_def)
  have ss: "sextets (u @ w) = sextets u @ sextets w" for w
    using sextets_append [of u] u by simp
  have lu: "length (sextets u) = 4 * q"
    using sextets_length [of u] u by simp
  have m: "Suc (3 * q) mod 3 = 1" "Suc (Suc (3 * q)) mod 3 = 2"
    by presburger+
  have z: "(3 * int q + 2) div 3 = int q" "(3 * int q + 3) div 3 = int q + 1" "(3 * int q + 4) div 3 = int q + 1"
    by presburger+
  consider "v = []" | a where "v = [a]" | a b where "v = [a, b]"
    using v by (cases v; cases "tl v"; cases "tl (tl v)") auto
  then show ?thesis
    using loop assms encode_len_exact [of "3 * q"] encode_len_exact [of "Suc (3 * q)"] encode_len_exact [of "Suc (Suc (3 * q))"]
    by cases (simp_all add: Base64encode_alt s u lu ss m z padding_def nth_append numeral_2_eq_2)
qed

lemma scan_coded_run:
  assumes "\<forall>b \<in> set xs. six b \<le> 63" "\<not> six y \<le> 63"
  shows "scan_coded 0 (xs @ y # r) = Inr (length xs)"
proof -
  have "i \<le> length xs \<Longrightarrow> scan_coded i (xs @ y # r) = Inr (length xs)" for i
    by (induction "length xs - i" arbitrary: i) 
     (use assms in \<open>auto simp: scan_coded.simps nth_append\<close>)
  then show ?thesis by simp
qed

lemma decode_loop_unsix:
  "i + n \<le> length buf \<Longrightarrow>
   \<exists>j m out'. decode_loop i (int n) buf out = (j, int m, out') \<and> m \<le> 4 \<and> j + m = i + n \<and> m mod 4 = n mod 4 \<and> (0 < n \<longrightarrow> 0 < m) \<and>
      out' @ unsix (take m (drop j buf)) = out @ unsix (take n (drop i buf))"
proof (induction n arbitrary: i out rule: less_induct)
  case (less n)
  show ?case
  proof (cases "n > 4")
    case False
    then show ?thesis by (simp add: decode_loop.simps)
  next
    case True
    then have d: "take n (drop i buf) = buf ! i # buf ! (i + 1) # buf ! (i + 2) # buf ! (i + 3) # take (n - 4) (drop (i + 4) buf)"
      using less.prems by (simp add: drop_nth_Cons numeral_eq_Suc take_Cons')
    have m: "n mod 4 = (n - 4) mod 4" using True by (simp add: mod_if)
    let ?out = "out @ [dec1 (buf ! i) (buf ! (i + 1)), dec2 (buf ! (i + 1)) (buf ! (i + 2)), dec3 (buf ! (i + 2)) (buf ! (i + 3))]"
    obtain j k out' where r: "decode_loop (i + 4) (int (n - 4)) buf ?out = (j, int k, out')" "k \<le> 4" "j + k = i + 4 + (n - 4)"
        "k mod 4 = (n - 4) mod 4" "0 < n - 4 \<longrightarrow> 0 < k"
        "out' @ unsix (take k (drop j buf)) = ?out @ unsix (take (n - 4) (drop (i + 4) buf))"
      using less.IH [of "n - 4" "i + 4" ?out] less.prems True by auto
    have "decode_loop i (int n) buf out = (j, int k, out')"
      using r(1) True by (subst decode_loop.simps) (simp add: of_nat_diff)
    moreover have "k mod 4 = n mod 4" "j + k = i + n" "0 < k \<or> n = 4" using r(3-5) True m by auto
    moreover have "out' @ unsix (take k (drop j buf)) = out @ unsix (take n (drop i buf))" using r(6) by (simp add: d)
    moreover have "0 < n \<longrightarrow> 0 < k" using r(5) True by simp
    ultimately show ?thesis
      using r(2) by (intro exI [of _ j] exI [of _ k] exI [of _ out']) blast
  qed
qed

lemma and_3_int: "(x::int) AND 3 = x mod 4"
  using take_bit_eq_mask [of 2 x] by (simp add: take_bit_eq_mod mask_eq_exp_minus_1)

lemma unsix_length: "length (unsix xs) = 3 * (length xs div 4) + (length xs mod 4 - 1)"
  by (induction xs rule: unsix.induct) (auto simp: div_add_self1)

lemma take_upto_4:
  assumes "m \<le> 4" "j + m \<le> length buf"
  shows "unsix (take m (drop j buf)) =
    (if m > 1 then [dec1 (buf ! j) (buf ! (j + 1))] else []) @
    (if m > 2 then [dec2 (buf ! (j + 1)) (buf ! (j + 2))] else []) @
    (if m > 3 then [dec3 (buf ! (j + 2)) (buf ! (j + 3))] else [])"
proof -
  consider "m = 0" | "m = 1" | "m = 2" | "m = 3" | "m = 4"
    using assms by linarith
  then show ?thesis
    using assms by cases (auto simp: drop_nth_Cons numeral_eq_Suc)
qed

lemma count_arith:
  assumes "m \<le> 4" "m mod 4 = n mod 4" "0 < n \<longrightarrow> 0 < m" "m \<le> n"
  shows "(int n + 3) div 4 * 3 - (4 - int m) mod 4 = int (3 * (n div 4) + (n mod 4 - 1))"
proof -
  define k where "k = (n - m) div 4"
  have n: "n = 4 * k + m"
    using assms(2,4) by (simp add: k_def mod_eq_dvd_iff_nat [symmetric])
  consider "m = 0" "k = 0" | "m = 1" | "m = 2" | "m = 3" | "m = 4"
    using assms n by linarith
  moreover have "(4 * k + 2) div 4 = k" "(4 * k + 2) mod 4 = 2"
    by presburger+
  ultimately show ?thesis
    by cases (simp_all add: n)
qed

lemma encode_result_length: "Base64encode s len = Inr (n, e) \<Longrightarrow> int32 (int (length e)) = n"
  by (auto simp: Base64encode_def Let_def split: sum.splits prod.splits if_splits)

lemma group_counts:
  fixes n :: nat
  shows "(4 * n + 2) div 3 + (3 - n mod 3) mod 3 + 1 = (n + 2) div 3 * 4 + 1" "n \<le> ((4 * n + 2) div 3 + 3) div 4 * 3"
proof -
  define q where "q = n div 3"
  have d: "(12 * q + 2) div 3 = 4 * q" "(12 * q + 6) div 3 = 4 * q + 2" "(12 * q + 10) div 3 = 4 * q + 3"
    "(4 * q + 3) div 4 = q" "(4 * q + 5) div 4 = q + 1" "(4 * q + 6) div 4 = q + 1"
    "(3 * q + 2) div 3 = q" "(3 * q + 3) div 3 = q + 1" "(3 * q + 4) div 3 = q + 1"
    "(3 * q) mod 3 = 0" "(3 * q + 1) mod 3 = 1" "(3 * q + 2) mod 3 = 2"
    by presburger+
  have "n mod 3 < 3" "n = 3 * q + n mod 3" by (simp_all add: q_def)
  then consider "n = 3 * q" | "n = 3 * q + 1" | "n = 3 * q + 2" by linarith
  then have "(4 * n + 2) div 3 + (3 - n mod 3) mod 3 + 1 = (n + 2) div 3 * 4 + 1 \<and> n \<le> ((4 * n + 2) div 3 + 3) div 4 * 3"
  proof cases
    case 1
    have "4 * n + 2 = 12 * q + 2" using 1 by simp
    then show ?thesis using d(1,4,7,10) 1 by (simp only:) simp
  next
    case 2
    have "4 * n + 2 = 12 * q + 6" "n + 2 = 3 * q + 3" "4 * q + 2 + 3 = 4 * q + 5" using 2 by simp_all
    then show ?thesis using d(2,5,8,11) 2 by (simp only:) simp
  next
    case 3
    have "4 * n + 2 = 12 * q + 10" "n + 2 = 3 * q + 4" "4 * q + 3 + 3 = 4 * q + 6" using 3 by simp_all
    then show ?thesis using d(3,6,9,12) 3 by (simp only:) simp
  qed
  then show "(4 * n + 2) div 3 + (3 - n mod 3) mod 3 + 1 = (n + 2) div 3 * 4 + 1" "n \<le> ((4 * n + 2) div 3 + 3) div 4 * 3"
    by blast+
qed

lemma encode_length:
  assumes "encodable s"
  shows "int (length (map basis (sextets s) @ padding (length s) @ [0])) = Base64encode_len (int (length s))"
proof -
  have "length (map basis (sextets s) @ padding (length s) @ [0]) = (length s + 2) div 3 * 4 + 1"
    using group_counts(1) [of "length s"] by (simp add: sextets_length padding_def)
  also have "int \<dots> = (int (length s) + 2) div 3 * 4 + 1"
    by (simp add: zdiv_int)
  finally show ?thesis
    using assms by (simp add: encode_len_exact)
qed

text \<open>Both decoders on an input whose scan stops at position \<open>n\<close>; the sums stay in range below \<open>2\<^sup>3\<^sup>1 - 3\<close>.\<close>

lemma decode_unsix:
  assumes scan: "scan_coded 0 buf = Inr n" and n: "n \<le> length buf" and b: "n < 2 ^ 31 - 3"
  shows "Base64decode buf = Inr (int (length (unsix (take n buf))), unsix (take n buf) @ [0])"
    and "Base64decode_len buf = Inr ((int n + 3) div 4 * 3 + 1)"
proof -
  have c: "(int n + 3) div 4 * 3 + 1 < 2 ^ 31" "0 \<le> (int n + 3) div 4" using b by simp_all
  then show "Base64decode_len buf = Inr ((int n + 3) div 4 * 3 + 1)"
    using scan b by (simp add: Base64decode_len_def sdiv_nonneg)
  obtain j m out where l: "decode_loop 0 (int n) buf [] = (j, int m, out)"
    and m: "m \<le> 4" "j + m = n" "m mod 4 = n mod 4" "0 < n \<longrightarrow> 0 < m"
    and out: "out @ unsix (take m (drop j buf)) = unsix (take n buf)"
    using decode_loop_unsix [of 0 n buf "[]"] n by auto
  have "(int n + 3) div 4 * 3 - (4 - int m) mod 4 = int (3 * (n div 4) + (n mod 4 - 1))"
    using count_arith [OF m(1,3,4)] m(2) by linarith
  then have len: "(int n + 3) div 4 * 3 - (4 - int m) mod 4 = int (length (unsix (take n buf)))"
    using n by (simp add: unsix_length min_absorb2)
  moreover have "int (length (unsix (take n buf))) < 2 ^ 31"
    using len c pos_mod_sign [of 4 "4 - int m"] by linarith
  moreover have "j + m \<le> length buf"
    using m n by simp
  ultimately show "Base64decode buf = Inr (int (length (unsix (take n buf))), unsix (take n buf) @ [0])"
    using take_upto_4 [OF m(1), of j buf] out [symmetric] b c m(1)
    by (simp add: Base64decode_def scan l and_3_int sdiv_nonneg)
qed

lemma scan_coded_stops:
  assumes "0 \<in> set buf" shows "\<exists>n. scan_coded 0 buf = Inr n \<and> n < length buf"
proof -
  define xs where "xs = takeWhile (\<lambda>b. six b \<le> 63) buf"
  have "\<exists>b \<in> set buf. \<not> six b \<le> 63"
    using assms six_stop(2) by (intro bexI [of _ 0]) auto
  then have ne: "dropWhile (\<lambda>b. six b \<le> 63) buf \<noteq> []"
    by (simp add: dropWhile_eq_Nil_conv)
  then obtain y r where d: "dropWhile (\<lambda>b. six b \<le> 63) buf = y # r"
    by (meson neq_Nil_conv)
  have "\<not> six y \<le> 63"
    using hd_dropWhile [OF ne] d by simp
  moreover have buf: "buf = xs @ y # r"
    using takeWhile_dropWhile_id [of "\<lambda>b. six b \<le> 63" buf] d by (simp add: xs_def)
  moreover have "\<forall>b \<in> set xs. six b \<le> 63"
    by (auto simp: xs_def dest: set_takeWhileD)
  ultimately show ?thesis
    using scan_coded_run [of xs y r] buf by auto
qed

lemma decode_sextets:
  assumes "encodable s"
  shows "Base64decode (map basis (sextets s) @ padding (length s) @ [0]) = Inr (int (length s), s @ [0])"
    and "\<exists>len. Base64decode_len (map basis (sextets s) @ padding (length s) @ [0]) = Inr len \<and> int (length s) < len \<and> len < 2 ^ 31 - 1"
proof -
  let ?xs = "map basis (sextets s)"
  obtain y r where y: "padding (length s) @ [0] = y # r" "six y = 64"
    by (cases "(3 - length s mod 3) mod 3") (auto simp: padding_def six_stop)
  have "\<forall>b \<in> set ?xs. six b \<le> 63"
    using sextets_less [of s] by (auto simp: six_basis word_le_nat_alt)
  then have "scan_coded 0 (?xs @ y # r) = Inr (length ?xs)"
    using y by (intro scan_coded_run) simp_all
  note scan = this
  have n: "length ?xs < 2 ^ 31 - 3" "int (length ?xs) < 2 ^ 31 - 3" using assms by (simp_all add: sextets_length)
  show "Base64decode (?xs @ padding (length s) @ [0]) = Inr (int (length s), s @ [0])"
    using decode_unsix(1) [OF scan _ n(1)] y by (simp add: unsix_sextets)
  have "length s \<le> (length ?xs + 3) div 4 * 3"
    unfolding length_map sextets_length by (rule group_counts)
  then have "int (length s) \<le> int ((length ?xs + 3) div 4 * 3)"
    by (simp only: of_nat_le_iff)
  also have "\<dots> = (int (length ?xs) + 3) div 4 * 3"
    by (simp add: zdiv_int)
  finally have "int (length s) \<le> (int (length ?xs) + 3) div 4 * 3" .
  moreover have "(int (length ?xs) + 3) div 4 * 3 + 1 < 2 ^ 31 - 1" using n(2) by simp
  ultimately show "\<exists>len. Base64decode_len (?xs @ padding (length s) @ [0]) = Inr len \<and> int (length s) < len \<and> len < 2 ^ 31 - 1"
    using decode_unsix(2) [OF scan _ n(1)] y by simp
qed

text \<open>On every input that contains a NUL, whatever else it holds, \<open>Base64decode\<close> reads only inside the
  input, writes at most \<open>Base64decode_len\<close> bytes, and returns the number of bytes written before
  the terminating NUL, as long as the lengths fit an \<open>int\<close>.\<close>

lemma decode_bounds:
  assumes "0 \<in> set buf" "length buf < 2 ^ 31 - 3"
  shows "\<exists>n out len. Base64decode buf = Inr (n, out @ [0]) \<and> Base64decode_len buf = Inr len \<and>
           n = int (length out) \<and> int (length (out @ [0])) \<le> len"
proof -
  obtain n where n: "scan_coded 0 buf = Inr n" "n < length buf"
    using scan_coded_stops assms(1) by blast
  have "int (3 * (n div 4) + (n mod 4 - 1)) \<le> (int n + 3) div 4 * 3"
    by presburger
  then show ?thesis
    using n decode_unsix [OF n(1)] assms(2) by (auto simp: unsix_length min_absorb2)
qed

section \<open>Properties\<close>

text \<open>C4: A byte string of at most 1610612733 bytes, the longest whose encoding an \<open>int\<close> can count, is encoded without a fault: exactly
  \<open>Base64encode_len\<close> bytes are written, the terminating NUL included, and that number is returned.  Decoding what was written gives
  the string back, followed by a NUL, and returns its length, and \<open>Base64decode_len\<close> is large enough for it.\<close>

theorem base64_roundtrip:
  assumes "length s \<le> 1610612733"
  shows "\<exists>e len. Base64encode s (int (length s)) = Inr (int (length e), e) \<and>
       int (length e) = Base64encode_len (int (length s)) \<and>
       Base64decode e = Inr (int (length s), s @ [0]) \<and>
       Base64decode_len e = Inr len \<and> int (length (s @ [0])) \<le> len"
proof -
  let ?e = "map basis (sextets s) @ padding (length s) @ [0]"
  obtain len where "Base64decode_len ?e = Inr len" "int (length s) < len" using decode_sextets(2) [OF assms] by blast
  moreover have "Base64encode s (int (length s)) = Inr (int (length ?e), ?e)"
    using encode_sextets [OF assms, of "[]"] by (simp only: encode_length [OF assms] append_Nil2)
  ultimately show ?thesis
    using encode_length [OF assms] decode_sextets(1) [OF assms] by (intro exI [of _ ?e] exI [of _ len]) simp
qed

theorem base64_roundtrip_witness:
  "\<exists>e len. Base64encode (map of_char ''nattan'') (int (length (map of_char ''nattan'' :: byte list))) = Inr (int (length e), e) \<and>
       int (length e) = Base64encode_len (int (length (map of_char ''nattan'' :: byte list))) \<and>
       Base64decode e = Inr (int (length (map of_char ''nattan'' :: byte list)), map of_char ''nattan'' @ [0]) \<and>
       Base64decode_len e = Inr len \<and> int (length (map of_char ''nattan'' @ [0 :: byte])) \<le> len"
  by (rule base64_roundtrip) simp

text \<open>Through the \<open>std::string\<close> wrapper the round trip gives back the bytes before the first NUL: the
  vectors are large enough for what the C routines write, but both directions build their result
  from a \<open>char*\<close>, so a decoded string with an embedded NUL is cut there.\<close>

theorem base64_wrapper_roundtrip:
  assumes "length s < 1610612733"
  shows "\<exists>e. Base64_encode s = Inr e \<and> Base64_decode e = Inr (c_str s)"
proof (cases "s = []")
  case True
  then show ?thesis by (simp add: Base64_encode_def Base64_decode_def c_str_def)
next
  case False
  let ?e = "map basis (sextets s) @ padding (length s)"
  have s: "encodable s" using assms by simp
  have nz: "\<forall>b \<in> set ?e. b \<noteq> 0"
    using sextets_less [of s] by (auto simp: basis_nonzero padding_def pad_char_def)
  have ne: "?e \<noteq> []"
    using sextets_length [of s] False by (cases s rule: sextets.cases) auto
  have cs: "c_str (?e @ 0 # z) = ?e" for z
    using takeWhile_append2 [of ?e "\<lambda>b. b \<noteq> 0" "0 # z"] nz unfolding c_str_def by simp
  have enc: "Base64encode (s @ [0]) (int (length s)) = Inr (Base64encode_len (int (length s)), ?e @ [0])"
    using encode_sextets [OF s, of "[0]"] by simp
  have "Base64encode_len (int (length s)) < 2 ^ 31 - 1" using assms by (simp add: encode_len_exact)
  then have "Base64_encode s = Inr ?e"
    using enc encode_length [OF s] cs False s by (simp add: Base64_encode_def overwrite_def Let_def)
  moreover have "Base64_decode ?e = Inr (c_str s)"
  proof -
    have "c_str (s @ 0 # z) = c_str s" for z
      by (simp add: c_str_def takeWhile_tail)
    then show ?thesis
      using decode_sextets [OF s] ne False by (auto simp: Base64_decode_def overwrite_def)
  qed
  ultimately show ?thesis by blast
qed

end
