(* ===== verification/NattanRing.thy ===== *)
theory NattanRing
  imports CaskPrelude
begin

text \<open>
  The ring buffer that \<open>thread/ArrayBlockingQueue.h\<close> and \<open>sync/Chan.h\<close> both keep: an array, two
  indices that wrap at the capacity, and a count, all \<open>unsigned int\<close>.  The contract \<open>bounded_fifo\<close>
  says what the two private routines \<open>enqueue\<close> and \<open>dequeue\<close> promise; the clients that run
  them under a lock are in \<open>NattanBlockingQueue\<close> and \<open>NattanChan\<close>.
\<close>

section \<open>The buffer\<close>

type_synonym size_type = "32 word"

record 'a ring =
  items :: "'a list"
  qcount :: size_type
  qcapcity :: size_type
  putIndex :: size_type
  takeIndex :: size_type

text \<open>The constructors allocate \<open>capcity\<close> default elements and zero the rest.\<close>

definition ring_new :: "'a \<Rightarrow> size_type \<Rightarrow> 'a ring" where
  "ring_new dflt capcity =
     \<lparr>items = replicate (unat capcity) dflt, qcount = 0, qcapcity = capcity, putIndex = 0, takeIndex = 0\<rparr>"

definition isFull :: "('a, 'z) ring_scheme \<Rightarrow> bool" where
  "isFull q = (qcount q = qcapcity q)"

definition isEmpty :: "('a, 'z) ring_scheme \<Rightarrow> bool" where
  "isEmpty q = (qcount q = 0)"

definition enqueue :: "'a \<Rightarrow> ('a, 'z) ring_scheme \<Rightarrow> ('a, 'z) ring_scheme" where
  "enqueue e q =
     (let p = putIndex q + 1
      in q\<lparr>items := (items q)[unat (putIndex q) := e], putIndex := (if p = qcapcity q then 0 else p),
           qcount := qcount q + 1\<rparr>)"

definition dequeue :: "('a, 'z) ring_scheme \<Rightarrow> 'a \<times> ('a, 'z) ring_scheme" where
  "dequeue q =
     (let e = items q ! unat (takeIndex q); t = takeIndex q + 1
      in (e, q\<lparr>takeIndex := (if t = qcapcity q then 0 else t), qcount := qcount q - 1\<rparr>))"

section \<open>Contents and invariant\<close>

definition contents :: "('a, 'z) ring_scheme \<Rightarrow> 'a list" where
  "contents q = map (\<lambda>k. items q ! ((unat (takeIndex q) + k) mod unat (qcapcity q))) [0..<unat (qcount q)]"

definition ring_inv :: "('a, 'z) ring_scheme \<Rightarrow> bool" where
  "ring_inv q \<longleftrightarrow> length (items q) = unat (qcapcity q) \<and> qcount q \<le> qcapcity q \<and>
     (0 < qcapcity q \<longrightarrow> takeIndex q < qcapcity q \<and>
        unat (putIndex q) = (unat (takeIndex q) + unat (qcount q)) mod unat (qcapcity q))"

lemma ring_new_inv: "ring_inv (ring_new d c)" "contents (ring_new d c) = []"
  by (auto simp: ring_inv_def ring_new_def contents_def)

lemma contents_length: "length (contents q) = unat (qcount q)"
  by (simp add: contents_def)

lemma isFull_iff: "isFull q \<longleftrightarrow> length (contents q) = unat (qcapcity q)"
  by (simp add: isFull_def contents_length word_unat_eq_iff)

lemma isEmpty_iff: "isEmpty q \<longleftrightarrow> contents q = []"
  by (simp add: isEmpty_def contents_length word_unat_eq_iff flip: length_0_conv)

lemma unat_Suc_less: assumes "x < (y::size_type)" shows "unat (x + 1) = Suc (unat x)"
proof -
  have "unat x < unat y" "unat y < 2 ^ 32"
    using assms unsigned_less [of y, where ?'a = nat] by (simp_all add: word_less_nat_alt)
  then show ?thesis
    by (simp add: unat_plus_if')
qed

text \<open>\<open>if (++index == capcity) index = 0\<close> is the successor modulo the capacity.\<close>

lemma wrap_mod:
  assumes "i < (c::size_type)"
  shows "unat (if i + 1 = c then 0 else i + 1) = (unat i + 1) mod unat c"
    and "(if i + 1 = c then 0 else i + 1) < c"
proof -
  have lt: "unat i < unat c"
    using assms by (simp add: word_less_nat_alt)
  have eq: "i + 1 = c \<longleftrightarrow> Suc (unat i) = unat c"
    by (simp add: word_unat_eq_iff unat_Suc_less [OF assms])
  show *: "unat (if i + 1 = c then 0 else i + 1) = (unat i + 1) mod unat c"
    using lt eq by (auto simp: unat_Suc_less [OF assms] mod_less)
  then show "(if i + 1 = c then 0 else i + 1) < c"
    unfolding word_less_nat_alt using lt by simp
qed

lemma ring_slots_differ: "k < n \<Longrightarrow> n < c \<Longrightarrow> (t + k) mod c \<noteq> (t + n) mod (c::nat)"
  using mod_eq_dvd_iff_nat [of "t + k" "t + n" c] by (auto dest: dvd_imp_le)

lemma enqueue_contents:
  assumes "ring_inv q" "\<not> isFull q"
  shows "ring_inv (enqueue e q) \<and> contents (enqueue e q) = contents q @ [e]"
proof -
  let ?c = "unat (qcapcity q)" and ?n = "unat (qcount q)" and ?t = "unat (takeIndex q)"
  have lt: "qcount q < qcapcity q"
    using assms by (auto simp: ring_inv_def isFull_def)
  then have n: "?n < ?c" and n1: "unat (qcount q + 1) = Suc ?n" and c: "0 < qcapcity q"
    using unat_Suc_less [OF lt] by (auto simp: word_less_nat_alt)
  have put: "unat (putIndex q) = (?t + ?n) mod ?c" and len: "length (items q) = ?c"
    using assms(1) c by (auto simp: ring_inv_def)
  have "putIndex q < qcapcity q"
    using put n by (simp add: word_less_nat_alt)
  note w = wrap_mod(1) [OF this]
  have upd: "(items q)[unat (putIndex q) := e] ! ((?t + k) mod ?c) = items q ! ((?t + k) mod ?c)" if "k < ?n" for k
    unfolding put by (rule nth_list_update_neq) (use ring_slots_differ [OF that n] in metis)
  have "(items q)[unat (putIndex q) := e] ! ((?t + ?n) mod ?c) = e"
    using n put len by (simp add: mod_less_divisor)
  then have "contents (enqueue e q) = contents q @ [e]"
    using upd n1 by (simp add: contents_def enqueue_def Let_def)
  moreover have "ring_inv (enqueue e q)"
    using assms(1) w c put n n1
    by (auto simp: ring_inv_def enqueue_def Let_def word_le_nat_alt mod_Suc_eq)
  ultimately show ?thesis by blast
qed

lemma dequeue_contents:
  assumes "ring_inv q" "\<not> isEmpty q"
  shows "ring_inv (snd (dequeue q)) \<and> contents q = fst (dequeue q) # contents (snd (dequeue q))"
proof -
  let ?c = "unat (qcapcity q)" and ?n = "unat (qcount q)" and ?t = "unat (takeIndex q)"
  have n: "0 < ?n" "?n \<le> ?c"
    using assms by (auto simp: ring_inv_def isEmpty_def unat_gt_0 word_le_nat_alt)
  then have n1: "unat (qcount q - 1) = ?n - 1"
    by (subst unat_sub) (simp_all add: word_le_nat_alt)
  have c: "0 < qcapcity q"
    using n by (simp add: word_less_nat_alt)
  have t: "takeIndex q < qcapcity q" and put: "unat (putIndex q) = (?t + ?n) mod ?c"
    using assms(1) c by (auto simp: ring_inv_def)
  note w = wrap_mod [OF t]
  have "[0..<?n] = 0 # map Suc [0..<?n - 1]"
    using n(1) by (metis Suc_pred' map_Suc_upt upt_conv_Cons)
  then have "contents q = fst (dequeue q) # contents (snd (dequeue q))"
    using t w(1) n1 by (simp add: contents_def dequeue_def Let_def word_less_nat_alt mod_add_left_eq)
  moreover have "(Suc ?t mod ?c + (?n - 1)) mod ?c = (?t + ?n) mod ?c"
    by (subst mod_add_left_eq) (use n(1) in simp)
  then have "ring_inv (snd (dequeue q))"
    using assms(1) w c put n n1
    by (simp add: ring_inv_def dequeue_def Let_def word_le_nat_alt)
  ultimately show ?thesis by blast
qed

section \<open>Contract of a bounded FIFO buffer\<close>

text \<open>What the users of a buffer rely on.  \<open>fl\<close> and \<open>em\<close> are the two tests the code makes before
  it touches the buffer.\<close>

locale bounded_fifo =
  fixes inv :: "'s \<Rightarrow> bool"
    and cap :: "'s \<Rightarrow> nat"
    and elems :: "'s \<Rightarrow> 'a list"
    and fl em :: "'s \<Rightarrow> bool"
    and enq :: "'a \<Rightarrow> 's \<Rightarrow> 's"
    and deq :: "'s \<Rightarrow> 'a \<times> 's"
  assumes full_iff: "inv s \<Longrightarrow> fl s \<longleftrightarrow> length (elems s) = cap s"
    and bounded: "inv s \<Longrightarrow> length (elems s) \<le> cap s"
    and empty_iff: "inv s \<Longrightarrow> em s \<longleftrightarrow> elems s = []"
    and enq_law: "inv s \<Longrightarrow> \<not> fl s \<Longrightarrow> inv (enq x s) \<and> elems (enq x s) = elems s @ [x] \<and> cap (enq x s) = cap s"
    and deq_law: "inv s \<Longrightarrow> \<not> em s \<Longrightarrow> deq s = (x, s') \<Longrightarrow> inv s' \<and> elems s = x # elems s' \<and> cap s' = cap s"

text \<open>A sequence of guarded operations: \<open>Some x\<close> tries to enqueue \<open>x\<close>, \<open>None\<close> tries to dequeue; an
  operation whose test fails is skipped.  The results are the accepted and the returned values.\<close>

fun guarded :: "('s \<Rightarrow> bool) \<Rightarrow> ('s \<Rightarrow> bool) \<Rightarrow> ('a \<Rightarrow> 's \<Rightarrow> 's) \<Rightarrow> ('s \<Rightarrow> 'a \<times> 's) \<Rightarrow> 'a option list \<Rightarrow> 's \<Rightarrow> 'a list \<times> 'a list \<times> 's" where
  "guarded fl em enq deq [] s = ([], [], s)"
| "guarded fl em enq deq (Some x # ops) s =
     (if fl s then guarded fl em enq deq ops s
      else let (ins, outs, s') = guarded fl em enq deq ops (enq x s) in (x # ins, outs, s'))"
| "guarded fl em enq deq (None # ops) s =
     (if em s then guarded fl em enq deq ops s
      else let (y, s1) = deq s; (ins, outs, s') = guarded fl em enq deq ops s1 in (ins, y # outs, s'))"

context bounded_fifo
begin

lemma full_not_empty: "inv s \<Longrightarrow> 0 < cap s \<Longrightarrow> fl s \<Longrightarrow> \<not> em s"
  using full_iff empty_iff by force

lemma guarded_fifo:
  assumes "inv s" "guarded fl em enq deq ops s = (ins, outs, s')"
  shows "inv s' \<and> elems s @ ins = outs @ elems s' \<and> length (elems s') \<le> cap s"
  using assms
proof (induction ops arbitrary: s ins outs)
  case Nil
  then show ?case using bounded by auto
next
  case (Cons op ops)
  show ?case
  proof (cases op)
    case (Some x)
    then show ?thesis
      using Cons.prems Cons.IH [of s] Cons.IH [of "enq x s"] enq_law [of s x]
      by (auto split: if_splits prod.splits)
  next
    case None
    obtain y s1 where d: "deq s = (y, s1)" by (cases "deq s")
    show ?thesis
      using None Cons.prems Cons.IH [of s] Cons.IH [of s1] deq_law [OF _ _ d] d
      by (auto split: if_splits prod.splits)
  qed
qed

end

interpretation ring_fifo: bounded_fifo ring_inv "\<lambda>q. unat (qcapcity q)" contents isFull isEmpty enqueue dequeue
proof
  fix q :: "('a, 'z) ring_scheme" and x q'
  assume inv: "ring_inv q"
  show "isFull q \<longleftrightarrow> length (contents q) = unat (qcapcity q)"
    by (rule isFull_iff)
  show "length (contents q) \<le> unat (qcapcity q)"
    using inv by (simp add: contents_length ring_inv_def word_le_nat_alt)
  show "isEmpty q \<longleftrightarrow> contents q = []"
    by (rule isEmpty_iff)
  show "\<not> isFull q \<Longrightarrow> ring_inv (enqueue x q) \<and> contents (enqueue x q) = contents q @ [x] \<and>
      unat (qcapcity (enqueue x q)) = unat (qcapcity q)"
    using enqueue_contents [OF inv, of x] by (simp add: enqueue_def Let_def)
  show "\<not> isEmpty q \<Longrightarrow> dequeue q = (x, q') \<Longrightarrow>
      ring_inv q' \<and> contents q = x # contents q' \<and> unat (qcapcity q') = unat (qcapcity q)"
    using dequeue_contents [OF inv] by (auto simp: dequeue_def Let_def)
qed

end
