(* ===== verification/NattanBlockingQueue.thy ===== *)
theory NattanBlockingQueue
  imports NattanRing
begin

text \<open>
  \<open>thread/ArrayBlockingQueue.h\<close>: the ring buffer shared between threads under a \<open>ThreadMutex\<close> with the
  conditions \<open>notFull_\<close> and \<open>notEmpty_\<close>.  Threads interleave: a step is one thread running from
  one synchronisation point of the code to the next.  A pthread mutex is the id of the thread that
  holds it, a condition variable the set of threads blocked in its wait; \<open>notifyAll\<close> empties the
  set, and a thread whose id is no longer in it competes for the mutex again.  The unlocked reads
  of \<open>count_\<close> at the start of \<open>offer\<close> and \<open>poll\<close> are steps of their own.
\<close>

section \<open>Model\<close>

type_synonym tid = nat

definition DEFAULT_CAPCITY :: size_type where
  "DEFAULT_CAPCITY = 64"

text \<open>Where a thread is in the operation it runs.\<close>

datatype 'a pc =
    Idle
  | PutLock 'a          \<comment> \<open>\<open>put\<close>: at the \<open>LockGuard\<close>\<close>
  | PutTest 'a          \<comment> \<open>\<open>put\<close>: holds the lock, at the loop test\<close>
  | PutWait 'a          \<comment> \<open>\<open>put\<close>: inside \<open>notFull_.wait()\<close>\<close>
  | TakeLock
  | TakeTest
  | TakeWait
  | OfferTest 'a        \<comment> \<open>\<open>offer\<close>: at the unlocked test\<close>
  | OfferTry 'a         \<comment> \<open>\<open>offer\<close>: at \<open>try_lock\<close>\<close>
  | OfferIn 'a          \<comment> \<open>\<open>offer\<close>: holds the lock, at the second test\<close>
  | PollTest
  | PollTry
  | PollIn

text \<open>The queue object and, for the statements, every value enqueued and dequeued so far.\<close>

record 'a abq =
  q :: "'a ring"
  lk :: "tid option"
  notFull :: "tid set"
  notEmpty :: "tid set"
  pc :: "tid \<Rightarrow> 'a pc"
  ins :: "'a list"
  outs :: "'a list"

definition abq_new :: "'a \<Rightarrow> size_type \<Rightarrow> 'a abq" where
  "abq_new dflt capcity =
     \<lparr>q = ring_new dflt capcity, lk = None, notFull = {}, notEmpty = {}, pc = (\<lambda>_. Idle), ins = [], outs = []\<rparr>"

definition goto :: "tid \<Rightarrow> 'a pc \<Rightarrow> 'a abq \<Rightarrow> 'a abq" where
  "goto t l s = s\<lparr>pc := (pc s)(t := l)\<rparr>"

text \<open>\<open>lock_.lock()\<close> blocks (\<open>None\<close>) while another call holds the mutex.\<close>

definition acquire :: "tid \<Rightarrow> 'a pc \<Rightarrow> 'a abq \<Rightarrow> 'a abq option" where
  "acquire t l s = (if lk s = None then Some (goto t l (s\<lparr>lk := Some t\<rparr>)) else None)"

definition abq_enqueue :: "'a \<Rightarrow> 'a abq \<Rightarrow> 'a abq" where
  "abq_enqueue e s = s\<lparr>q := enqueue e (q s), notEmpty := {}, ins := ins s @ [e]\<rparr>"

definition abq_dequeue :: "'a abq \<Rightarrow> 'a abq" where
  "abq_dequeue s = (let (e, q') = dequeue (q s) in s\<lparr>q := q', notFull := {}, outs := outs s @ [e]\<rparr>)"

definition unlock_return :: "tid \<Rightarrow> 'a abq \<Rightarrow> 'a abq" where
  "unlock_return t s = goto t Idle (s\<lparr>lk := None\<rparr>)"

definition put_step :: "tid \<Rightarrow> 'a \<Rightarrow> 'a abq \<Rightarrow> 'a abq" where
  "put_step t e s =
     (if isFull (q s) then goto t (PutWait e) (s\<lparr>lk := None, notFull := insert t (notFull s)\<rparr>)
      else unlock_return t (abq_enqueue e s))"

definition take_step :: "tid \<Rightarrow> 'a abq \<Rightarrow> 'a abq" where
  "take_step t s =
     (if isEmpty (q s) then goto t TakeWait (s\<lparr>lk := None, notEmpty := insert t (notEmpty s)\<rparr>)
      else unlock_return t (abq_dequeue s))"

text \<open>\<open>if (isFull()) return false;\<close> after a successful \<open>try_lock\<close> leaves without \<open>unlock\<close>.\<close>

definition offer_step :: "tid \<Rightarrow> 'a \<Rightarrow> 'a abq \<Rightarrow> 'a abq" where
  "offer_step t e s = (if isFull (q s) then goto t Idle s else unlock_return t (abq_enqueue e s))"

definition poll_step :: "tid \<Rightarrow> 'a abq \<Rightarrow> 'a abq" where
  "poll_step t s = (if isEmpty (q s) then goto t Idle s else unlock_return t (abq_dequeue s))"

text \<open>One thread runs to its next synchronisation point; \<open>None\<close> if it is blocked there.\<close>

definition abq_run :: "tid \<Rightarrow> 'a abq \<Rightarrow> 'a abq option" where
  "abq_run t s =
     (case pc s t of
        Idle \<Rightarrow> None
      | PutLock e \<Rightarrow> acquire t (PutTest e) s
      | PutTest e \<Rightarrow> Some (put_step t e s)
      | PutWait e \<Rightarrow> if t \<in> notFull s then None else acquire t (PutTest e) s
      | TakeLock \<Rightarrow> acquire t TakeTest s
      | TakeTest \<Rightarrow> Some (take_step t s)
      | TakeWait \<Rightarrow> if t \<in> notEmpty s then None else acquire t TakeTest s
      | OfferTest e \<Rightarrow> Some (goto t (if isFull (q s) then Idle else OfferTry e) s)
      | OfferTry e \<Rightarrow> (if lk s = None then acquire t (OfferIn e) s else Some (goto t Idle s))
      | OfferIn e \<Rightarrow> Some (offer_step t e s)
      | PollTest \<Rightarrow> Some (goto t (if isEmpty (q s) then Idle else PollTry) s)
      | PollTry \<Rightarrow> (if lk s = None then acquire t PollIn s else Some (goto t Idle s))
      | PollIn \<Rightarrow> Some (poll_step t s))"

fun entry :: "'a pc \<Rightarrow> bool" where
  "entry (PutLock e) = True"
| "entry TakeLock = True"
| "entry (OfferTest e) = True"
| "entry PollTest = True"
| "entry _ = False"

inductive abq_step :: "'a abq \<Rightarrow> 'a abq \<Rightarrow> bool" where
  call: "pc s t = Idle \<Longrightarrow> entry l \<Longrightarrow> abq_step s (goto t l s)"
| run: "abq_run t s = Some s' \<Longrightarrow> abq_step s s'"
| spurious: "abq_step s (s\<lparr>notFull := notFull s - {t}, notEmpty := notEmpty s - {t}\<rparr>)"

inductive abq_reach :: "'a abq \<Rightarrow> 'a abq \<Rightarrow> bool" for s where
  refl: "abq_reach s s"
| step: "abq_reach s s1 \<Longrightarrow> abq_step s1 s2 \<Longrightarrow> abq_reach s s2"

inductive_cases abq_stepE: "abq_step s s'"

section \<open>Invariant\<close>

fun in_lock :: "'a pc \<Rightarrow> bool" where
  "in_lock (PutTest e) = True"
| "in_lock TakeTest = True"
| "in_lock (OfferIn e) = True"
| "in_lock PollIn = True"
| "in_lock _ = False"

definition abq_inv :: "'a abq \<Rightarrow> bool" where
  "abq_inv s \<longleftrightarrow> ring_inv (q s) \<and> ins s = outs s @ contents (q s) \<and>
     (\<forall>t. in_lock (pc s t) \<longrightarrow> lk s = Some t) \<and>
     (notFull s \<noteq> {} \<longrightarrow> isFull (q s)) \<and> (notEmpty s \<noteq> {} \<longrightarrow> isEmpty (q s))"

lemma abq_new_inv: "abq_inv (abq_new d c)"
  by (simp add: abq_inv_def abq_new_def ring_new_inv)

lemmas abq_defs = goto_def acquire_def unlock_return_def put_step_def take_step_def offer_step_def poll_step_def

lemma lock_holder: "abq_inv s \<Longrightarrow> in_lock (pc s t) \<Longrightarrow> lk s = Some t"
  by (simp add: abq_inv_def)

lemma goto_inv:
  assumes "abq_inv s" "in_lock l \<longrightarrow> lk s = Some t" shows "abq_inv (goto t l s)"
  using assms by (auto simp: abq_inv_def goto_def)

lemma enqueue_inv:
  assumes "abq_inv s" "\<not> isFull (q s)" shows "abq_inv (abq_enqueue e s)"
  using assms ring_fifo.enq_law [of "q s" e]
  by (auto simp: abq_inv_def abq_enqueue_def)

lemma dequeue_inv:
  assumes "abq_inv s" "\<not> isEmpty (q s)" shows "abq_inv (abq_dequeue s)"
proof -
  obtain e q' where d: "dequeue (q s) = (e, q')" by (cases "dequeue (q s)")
  show ?thesis
    using assms ring_fifo.deq_law [OF _ _ d] d by (auto simp: abq_inv_def abq_dequeue_def)
qed

text \<open>Releasing the mutex is safe for the one thread that holds it.\<close>

lemma release_inv:
  assumes inv: "abq_inv s" and t: "in_lock (pc s t)" "\<not> in_lock l"
    and w: "A \<noteq> {} \<longrightarrow> isFull (q s)" "B \<noteq> {} \<longrightarrow> isEmpty (q s)"
  shows "abq_inv (goto t l (s\<lparr>lk := None, notFull := A, notEmpty := B\<rparr>))"
proof -
  have "\<not> in_lock (pc s u)" if "u \<noteq> t" for u
    using lock_holder [OF inv t(1)] lock_holder [OF inv, of u] that by auto
  then show ?thesis
    using inv t w by (auto simp: abq_inv_def goto_def)
qed

lemma unlock_return_inv: "abq_inv s \<Longrightarrow> in_lock (pc s t) \<Longrightarrow> abq_inv (unlock_return t s)"
  using release_inv [of s t Idle "notFull s" "notEmpty s"] by (simp add: unlock_return_def abq_inv_def)

lemma enqueue_pc [simp]: "pc (abq_enqueue e s) = pc s" "lk (abq_enqueue e s) = lk s"
  by (simp_all add: abq_enqueue_def)

lemma dequeue_pc [simp]: "pc (abq_dequeue s) = pc s" "lk (abq_dequeue s) = lk s"
  by (simp_all add: abq_dequeue_def split: prod.splits)

lemma acquire_inv: "abq_inv s \<Longrightarrow> acquire t l s = Some s' \<Longrightarrow> abq_inv s'"
  by (auto simp: abq_inv_def abq_defs split: if_splits)

lemma abq_inv_waiting:
  "abq_inv s \<Longrightarrow> notFull s \<noteq> {} \<Longrightarrow> isFull (q s)" "abq_inv s \<Longrightarrow> notEmpty s \<noteq> {} \<Longrightarrow> isEmpty (q s)"
  by (simp_all add: abq_inv_def)

lemma put_step_inv: "abq_inv s \<Longrightarrow> in_lock (pc s t) \<Longrightarrow> abq_inv (put_step t e s)"
  using release_inv [of s t "PutWait e" "insert t (notFull s)" "notEmpty s"] abq_inv_waiting(2) [of s]
  by (cases "isFull (q s)") (auto simp: put_step_def unlock_return_inv enqueue_inv)

lemma take_step_inv: "abq_inv s \<Longrightarrow> in_lock (pc s t) \<Longrightarrow> abq_inv (take_step t s)"
  using release_inv [of s t TakeWait "notFull s" "insert t (notEmpty s)"] abq_inv_waiting(1) [of s]
  by (cases "isEmpty (q s)") (auto simp: take_step_def unlock_return_inv dequeue_inv)

lemma abq_run_inv: "abq_inv s \<Longrightarrow> abq_run t s = Some s' \<Longrightarrow> abq_inv s'"
  by (cases "pc s t")
    (auto simp: abq_run_def offer_step_def poll_step_def
      intro: acquire_inv put_step_inv take_step_inv goto_inv unlock_return_inv enqueue_inv dequeue_inv
      split: if_splits)

lemma abq_step_inv: "abq_step s s' \<Longrightarrow> abq_inv s \<Longrightarrow> abq_inv s'"
proof (induction rule: abq_step.induct)
  case (call s t l)
  then show ?case by (cases l) (auto intro: goto_inv)
next
  case (run t s s')
  then show ?case using abq_run_inv by blast
next
  case (spurious s t)
  then show ?case by (auto simp: abq_inv_def)
qed

lemma abq_reach_inv: "abq_reach s s' \<Longrightarrow> abq_inv s \<Longrightarrow> abq_inv s'"
  by (induction rule: abq_reach.induct) (auto dest: abq_step_inv)

lemma abq_run_cap: "abq_run t s = Some s' \<Longrightarrow> qcapcity (q s') = qcapcity (q s)"
  by (cases "pc s t")
    (auto simp: abq_run_def abq_defs abq_enqueue_def abq_dequeue_def enqueue_def dequeue_def Let_def split: if_splits)

lemma abq_reach_cap: "abq_reach (abq_new d c) s \<Longrightarrow> qcapcity (q s) = c"
proof (induction rule: abq_reach.induct)
  case (step s1 s2)
  from step.hyps(2) step.IH show ?case
    by (cases rule: abq_step.cases) (auto simp: goto_def abq_run_cap)
qed (simp add: abq_new_def ring_new_def)

section \<open>A lost lock\<close>

text \<open>A state in which the mutex is held by a thread that is not inside a critical section: no thread
  will ever release it.\<close>

definition leaked :: "'a abq \<Rightarrow> bool" where
  "leaked s \<longleftrightarrow> (\<exists>t. lk s = Some t \<and> \<not> in_lock (pc s t))"

lemma leaked_step: "abq_step s s' \<Longrightarrow> abq_inv s \<Longrightarrow> leaked s \<Longrightarrow> leaked s' \<and> q s' = q s"
proof (induction rule: abq_step.induct)
  case (call s t l)
  then show ?case by (cases l) (auto simp: leaked_def goto_def)
next
  case (run t s s')
  then obtain u where u: "lk s = Some u" "\<not> in_lock (pc s u)"
    by (auto simp: leaked_def)
  then have "\<not> in_lock (pc s t)"
    using run.prems by (auto simp: abq_inv_def)
  then show ?case
    using run u by (cases "pc s t") (auto simp: abq_run_def acquire_def goto_def leaked_def split: if_splits)
next
  case (spurious s t)
  then show ?case by (auto simp: leaked_def)
qed

lemma leaked_reach: "abq_reach s s' \<Longrightarrow> abq_inv s \<Longrightarrow> leaked s \<Longrightarrow> leaked s' \<and> q s' = q s"
proof (induction rule: abq_reach.induct)
  case (step s1 s2)
  then show ?case
    using leaked_step [OF step.hyps(2)] abq_reach_inv by metis
qed simp

section \<open>Concrete schedules\<close>

text \<open>A schedule lists whose turn it is: \<open>Some l\<close> calls an operation, \<open>None\<close> runs the thread.\<close>

fun abq_sched :: "(tid \<times> 'a pc option) list \<Rightarrow> 'a abq \<Rightarrow> 'a abq option" where
  "abq_sched [] s = Some s"
| "abq_sched ((t, Some l) # evs) s =
     (if pc s t = Idle \<and> entry l then abq_sched evs (goto t l s) else None)"
| "abq_sched ((t, None) # evs) s =
     (case abq_run t s of None \<Rightarrow> None | Some s' \<Rightarrow> abq_sched evs s')"

lemma abq_reach_trans: "abq_reach s1 s2 \<Longrightarrow> abq_reach s0 s1 \<Longrightarrow> abq_reach s0 s2"
  by (induction rule: abq_reach.induct) (auto intro: abq_reach.step)

lemma abq_sched_reach: "abq_sched evs s = Some s' \<Longrightarrow> abq_reach s s'"
proof (induction evs s rule: abq_sched.induct)
  case (2 t l evs s)
  then have "abq_reach s (goto t l s)"
    by (auto intro: abq_reach.step [OF abq_reach.refl] abq_step.call split: if_splits)
  then show ?case
    using 2 by (auto intro: abq_reach_trans split: if_splits)
next
  case (3 t evs s)
  then obtain s1 where s1: "abq_run t s = Some s1" "abq_sched evs s1 = Some s'"
    by (auto split: option.splits)
  then show ?case
    using 3 abq_reach.step [OF abq_reach.refl abq_step.run [OF s1(1)]] by (auto intro: abq_reach_trans)
qed (auto intro: abq_reach.refl)

lemmas abq_exec = abq_run_def abq_defs abq_enqueue_def abq_dequeue_def enqueue_def dequeue_def
  isFull_def isEmpty_def abq_new_def ring_new_def

text \<open>Thread 1 puts 7, thread 2 puts 8 and blocks, thread 3 takes 7; and the race of \<open>poll\<close> with \<open>take\<close>
  on the last element.\<close>

definition abq_trace :: "(tid \<times> nat pc option) list" where
  "abq_trace = [(1, Some (PutLock 7)), (1, None), (1, None), (2, Some (PutLock 8)), (2, None), (2, None),
     (3, Some TakeLock), (3, None), (3, None)]"

definition leak_trace :: "(tid \<times> nat pc option) list" where
  "leak_trace = [(1, Some (PutLock 7)), (1, None), (1, None), (1, Some PollTest), (1, None),
     (3, Some TakeLock), (3, None), (3, None), (1, None)]"

lemma abq_trace_runs:
  "\<exists>s. abq_sched abq_trace (abq_new 0 1) = Some s \<and> outs s = [7] \<and> notFull s = {} \<and> pc s 2 = PutWait 8"
  by (simp add: abq_trace_def abq_exec)

lemma leak_trace_runs:
  "\<exists>s. abq_sched leak_trace (abq_new 0 1) = Some s \<and> pc s 1 = PollIn \<and> isEmpty (q s)"
  by (simp add: leak_trace_def abq_exec)

section \<open>Properties\<close>

text \<open>C3: For every capacity and every interleaving of threads that call \<open>put\<close>, \<open>take\<close>, \<open>offer\<close> and \<open>poll\<close>,
  spurious wake-ups included, the values taken so far followed by the values in the buffer are
  exactly the values put so far, in order, and the buffer never holds more than the capacity.\<close>

theorem abq_fifo:
  assumes "abq_reach (abq_new dflt capcity) s"
  shows "ins s = outs s @ contents (q s) \<and> length (contents (q s)) \<le> unat capcity"
proof -
  have "abq_inv s"
    by (rule abq_reach_inv [OF assms abq_new_inv])
  moreover have "qcapcity (q s) = capcity"
    using assms by (rule abq_reach_cap)
  ultimately show ?thesis
    using ring_fifo.bounded [of "q s"] by (simp add: abq_inv_def)
qed

theorem abq_fifo_witness:
  "\<exists>s :: nat abq. abq_reach (abq_new 0 1) s \<and> outs s = [7] \<and> ins s = [7] @ contents (q s) \<and> length (contents (q s)) \<le> 1"
proof -
  obtain s where s: "abq_sched abq_trace (abq_new 0 1) = Some s" "outs s = [7]"
    using abq_trace_runs by blast
  then show ?thesis
    using abq_fifo [OF abq_sched_reach [OF s(1)]] abq_sched_reach [OF s(1)] by auto
qed

text \<open>C9: Wake-ups are not lost and the critical sections exclude each other: in every reachable state a
  thread still blocked in \<open>notFull_.wait()\<close> means that the buffer is full, one blocked in
  \<open>notEmpty_.wait()\<close> that it is empty, and at most one thread is between acquiring and
  releasing the lock.\<close>

theorem abq_no_lost_wakeup:
  assumes "abq_reach (abq_new dflt capcity) s"
  shows "(notFull s \<noteq> {} \<longrightarrow> isFull (q s)) \<and> (notEmpty s \<noteq> {} \<longrightarrow> isEmpty (q s)) \<and>
    (\<forall>t u. in_lock (pc s t) \<and> in_lock (pc s u) \<longrightarrow> t = u)"
proof -
  have "abq_inv s"
    by (rule abq_reach_inv [OF assms abq_new_inv])
  then show ?thesis
    using lock_holder [of s] abq_inv_waiting [of s] by (metis option.inject)
qed

theorem abq_no_lost_wakeup_witness:
  "\<exists>s :: nat abq. abq_reach (abq_new 0 1) s \<and> pc s 2 = PutWait 8 \<and> (notFull s \<noteq> {} \<longrightarrow> isFull (q s)) \<and>
     (\<forall>t u. in_lock (pc s t) \<and> in_lock (pc s u) \<longrightarrow> t = u)"
proof -
  obtain s where s: "abq_sched abq_trace (abq_new 0 1) = Some s" "pc s 2 = PutWait 8"
    using abq_trace_runs by blast
  then show ?thesis
    using abq_no_lost_wakeup [OF abq_sched_reach [OF s(1)]] abq_sched_reach [OF s(1)] by blast
qed

text \<open>\<open>offer\<close> and \<open>poll\<close> lose the lock when their second test fails: the state after it has the mutex
  held by a thread that has returned, and from any such state no execution ever changes the buffer again.\<close>

theorem abq_leak_is_permanent:
  assumes "abq_reach (abq_new dflt capcity) s"
    and "pc s t = PollIn \<and> isEmpty (q s) \<or> pc s t = OfferIn e \<and> isFull (q s)"
  shows "\<exists>s1. abq_run t s = Some s1 \<and> pc s1 t = Idle \<and> lk s1 = Some t \<and>
    (\<forall>s2. abq_reach s1 s2 \<longrightarrow> q s2 = q s)"
proof -
  have inv: "abq_inv s"
    by (rule abq_reach_inv [OF assms(1) abq_new_inv])
  define s1 where "s1 = goto t Idle s"
  have run: "abq_run t s = Some s1"
    using assms(2) by (auto simp: abq_run_def poll_step_def offer_step_def s1_def)
  have "lk s = Some t"
    using lock_holder [OF inv, of t] assms(2) by auto
  then have l: "pc s1 t = Idle" "lk s1 = Some t" "q s1 = q s" "leaked s1"
    by (auto simp: s1_def goto_def leaked_def)
  moreover have "abq_inv s1"
    using abq_run_inv [OF inv run] .
  ultimately show ?thesis
    using run leaked_reach [of s1] by metis
qed

theorem abq_leak_is_permanent_witness:
  "\<exists>s s1 :: nat abq. abq_reach (abq_new 0 1) s \<and> abq_run 1 s = Some s1 \<and> pc s1 1 = Idle \<and> lk s1 = Some 1 \<and>
     (\<forall>s2. abq_reach s1 s2 \<longrightarrow> q s2 = q s)"
proof -
  obtain s where s: "abq_sched leak_trace (abq_new 0 1) = Some s" "pc s 1 = PollIn \<and> isEmpty (q s)"
    using leak_trace_runs by blast
  then show ?thesis
    using abq_leak_is_permanent [OF abq_sched_reach [OF s(1)], of 1] abq_sched_reach [OF s(1)] by blast
qed

end
