(* ===== verification/NattanBuffer.thy ===== *)
theory NattanBuffer
  imports CaskPrelude
begin

text \<open>
  \<open>core/Buffer.h\<close>: the byte buffer the network layer reads into and writes from, a vector with a read
  and a write index and eight reserved bytes in front.  Sizes are \<open>size_t\<close>: subtraction wraps modulo
  \<open>2^64\<close>, which the code relies on nowhere but runs into in \<open>right()\<close>.  The two loops of \<open>makeSpace\<close>
  may run forever, so they are partial functions: \<open>None\<close> is a loop that does not end.  An access
  outside \<open>[0, fData.size())\<close> is \<open>OutOfBounds\<close>.
\<close>

section \<open>Model\<close>

type_synonym byte = "8 word"

record buffer =
  fData :: "byte list"
  fReadIdx :: nat
  fWriteIdx :: nat

definition kBufferPrefixed :: nat where
  "kBufferPrefixed = 8"

definition sub64 :: "nat \<Rightarrow> nat \<Rightarrow> nat" where
  "sub64 a b = (a + 2 ^ 64 - b) mod 2 ^ 64"

definition Buffer :: "nat \<Rightarrow> buffer" where
  "Buffer init_size =
     \<lparr>fData = replicate (if init_size > kBufferPrefixed then init_size else 1024) 0,
      fReadIdx = kBufferPrefixed, fWriteIdx = kBufferPrefixed\<rparr>"

definition capacity :: "buffer \<Rightarrow> nat" where
  "capacity b = sub64 (length (fData b)) kBufferPrefixed"

definition blength :: "buffer \<Rightarrow> nat" where
  "blength b = sub64 (fWriteIdx b) (fReadIdx b)"

definition right :: "buffer \<Rightarrow> nat" where
  "right b = sub64 (capacity b) (fWriteIdx b)"

definition left :: "buffer \<Rightarrow> nat" where
  "left b = sub64 (fReadIdx b) kBufferPrefixed"

definition clear :: "buffer \<Rightarrow> buffer" where
  "clear b = b\<lparr>fReadIdx := kBufferPrefixed, fWriteIdx := kBufferPrefixed\<rparr>"

text \<open>\<open>std::vector::resize\<close>: cut off, or pad with zero bytes.\<close>

definition resize :: "nat \<Rightarrow> buffer \<Rightarrow> buffer" where
  "resize n b = b\<lparr>fData := take n (fData b) @ replicate (n - length (fData b)) 0\<rparr>"

function arrange_loop :: "nat \<Rightarrow> nat \<Rightarrow> nat \<Rightarrow> byte list \<Rightarrow> byte list \<times> nat" where
  "arrange_loop i k w d =
     (if k < w then arrange_loop (Suc i) (Suc k) w (d[i := d ! k]) else (d, i))"
  by pat_completeness auto
termination by (relation "measure (\<lambda>(i, k, w, d). w - k)") auto

declare arrange_loop.simps [simp del]

definition arrange :: "buffer \<Rightarrow> buffer" where
  "arrange b =
     (let (d, i) = arrange_loop kBufferPrefixed (fReadIdx b) (fWriteIdx b) (fData b)
      in b\<lparr>fData := d, fReadIdx := kBufferPrefixed, fWriteIdx := i\<rparr>)"

text \<open>\<open>(double) fReadIdx * 1.0 / (double) capacity() > 0.88\<close>, with exact arithmetic; a zero capacity
  gives infinity, as \<open>fReadIdx\<close> is never zero.\<close>

definition tryArrange :: "buffer \<Rightarrow> bool \<times> buffer" where
  "tryArrange b =
     (if fReadIdx b = fWriteIdx b then (True, clear b)
      else if 100 * fReadIdx b > 88 * capacity b then (True, arrange b)
      else (False, b))"

text \<open>\<open>memcpy(buf, data(), len)\<close>.\<close>

definition copy_out :: "nat \<Rightarrow> buffer \<Rightarrow> byte list res" where
  "copy_out len b =
     (if fReadIdx b + len \<le> length (fData b) then Inr (take len (drop (fReadIdx b) (fData b))) else Inl OutOfBounds)"

definition buf_read :: "nat \<Rightarrow> buffer \<Rightarrow> (byte list \<times> buffer) res" where
  "buf_read buf_len b =
     (let len = min buf_len (blength b)
      in if len = 0 then Inr ([], b)
         else case copy_out len b of
                Inl f \<Rightarrow> Inl f
              | Inr out \<Rightarrow> Inr (out, snd (tryArrange (b\<lparr>fReadIdx := fReadIdx b + len\<rparr>))))"

definition buf_peek :: "nat \<Rightarrow> buffer \<Rightarrow> byte list res" where
  "buf_peek buf_len b =
     (let len = min buf_len (blength b) in if len = 0 then Inr [] else copy_out len b)"

definition shrink :: "nat \<Rightarrow> buffer \<Rightarrow> nat \<times> buffer" where
  "shrink len b =
     (let l = min (blength b) len in (l, snd (tryArrange (b\<lparr>fReadIdx := fReadIdx b + l\<rparr>))))"

partial_function (option) grow :: "nat \<Rightarrow> nat \<Rightarrow> nat \<Rightarrow> nat option" where
  "grow rz l len = (if sub64 rz l < len then grow ((rz * 2) mod 2 ^ 64) l len else Some rz)"

partial_function (option) makeSpace :: "nat \<Rightarrow> buffer \<Rightarrow> buffer option" where
  "makeSpace len b =
     (if right b \<le> len
      then if right b + left b > len then makeSpace len (arrange b)
           else case grow (capacity b) (blength b) len of
                  None \<Rightarrow> None
                | Some rz \<Rightarrow> makeSpace len (resize rz b)
      else Some b)"

text \<open>\<open>std::copy(buf, buf + buf_len, end())\<close> into the vector.\<close>

definition copy_in :: "byte list \<Rightarrow> buffer \<Rightarrow> buffer res" where
  "copy_in xs b =
     (if fWriteIdx b + length xs \<le> length (fData b)
      then Inr (b\<lparr>fData := take (fWriteIdx b) (fData b) @ xs @ drop (fWriteIdx b + length xs) (fData b),
                  fWriteIdx := fWriteIdx b + length xs\<rparr>)
      else Inl OutOfBounds)"

definition buf_write :: "byte list \<Rightarrow> buffer \<Rightarrow> buffer res option" where
  "buf_write xs b = (case makeSpace (length xs) b of None \<Rightarrow> None | Some b' \<Rightarrow> Some (copy_in xs b'))"

text \<open>The private \<open>fill\<close> (a null \<open>c\<close> only moves the write index).\<close>

definition fill :: "byte option \<Rightarrow> nat \<Rightarrow> buffer \<Rightarrow> buffer" where
  "fill c len b =
     (let b1 = (if right b < len then resize (blength b + len) b else b);
          b2 = (case c of None \<Rightarrow> b1
                | Some x \<Rightarrow> b1\<lparr>fData := take (fWriteIdx b1) (fData b1) @ replicate len x @ drop (fWriteIdx b1) (fData b1)\<rparr>)
      in b2\<lparr>fWriteIdx := fWriteIdx b2 + len\<rparr>)"

text \<open>\<open>sendTo\<close>: \<open>w\<close> is the state of the receiver and \<open>wr\<close> its \<open>write\<close>, which takes some of the bytes and
  returns how many.\<close>

partial_function (option) sendTo_loop ::
  "('w \<Rightarrow> byte list \<Rightarrow> int \<times> 'w) \<Rightarrow> byte list \<Rightarrow> 'w \<Rightarrow> (int \<times> 'w) option" where
  "sendTo_loop wr rest w =
     (if rest = [] then Some (1, w)
      else let (res, w') = wr w rest
           in if res \<le> 0 then Some (res, w') else sendTo_loop wr (drop (nat res) rest) w')"

definition sendTo :: "('w \<Rightarrow> byte list \<Rightarrow> int \<times> 'w) \<Rightarrow> buffer \<Rightarrow> 'w \<Rightarrow> (int \<times> 'w) option" where
  "sendTo wr b w =
     (if blength b = 0 then Some (0, w)
      else case sendTo_loop wr (take (blength b) (drop (fReadIdx b) (fData b))) w of
             None \<Rightarrow> None
           | Some (res, w') \<Rightarrow> Some (if res \<le> 0 then res else int (blength b), w'))"

section \<open>Contents and invariant\<close>

definition bytes :: "buffer \<Rightarrow> byte list" where
  "bytes b = take (fWriteIdx b - fReadIdx b) (drop (fReadIdx b) (fData b))"

definition limit :: nat where
  "limit = 2 ^ 60"

definition buf_inv :: "buffer \<Rightarrow> bool" where
  "buf_inv b \<longleftrightarrow> 8 \<le> fReadIdx b \<and> fReadIdx b \<le> fWriteIdx b \<and> fWriteIdx b + 8 \<le> length (fData b) \<and> length (fData b) < limit"

lemma sub64_eq [simp]: "b \<le> a \<Longrightarrow> a < 2 ^ 64 \<Longrightarrow> sub64 a b = a - b"
  unfolding sub64_def by (subst mod_if) auto

lemma sub64_wrap: "a < b \<Longrightarrow> b \<le> 2 ^ 64 \<Longrightarrow> sub64 a b = a + 2 ^ 64 - b"
  unfolding sub64_def by auto

lemma buf_inv_sizes:
  assumes "buf_inv b"
  shows "capacity b = length (fData b) - 8" "blength b = fWriteIdx b - fReadIdx b"
    "right b = length (fData b) - 8 - fWriteIdx b" "left b = fReadIdx b - 8"
proof -
  have b: "8 \<le> fReadIdx b" "fReadIdx b \<le> fWriteIdx b" "fWriteIdx b + 8 \<le> length (fData b)" "length (fData b) < 2 ^ 64"
    using assms by (simp_all add: buf_inv_def limit_def)
  then show c: "capacity b = length (fData b) - 8" and "blength b = fWriteIdx b - fReadIdx b" "left b = fReadIdx b - 8"
    by (simp_all add: capacity_def blength_def left_def kBufferPrefixed_def)
  show "right b = length (fData b) - 8 - fWriteIdx b"
    unfolding right_def c by (rule sub64_eq) (use b in linarith)+
qed

lemma arrange_loop_copy:
  assumes "i \<le> k" "k \<le> w" "w \<le> length d"
  shows "snd (arrange_loop i k w d) = i + (w - k) \<and> length (fst (arrange_loop i k w d)) = length d \<and>
    take (i + (w - k)) (fst (arrange_loop i k w d)) = take i d @ take (w - k) (drop k d)"
  using assms
proof (induction i k w d rule: arrange_loop.induct)
  case (1 i k w d)
  show ?case
  proof (cases "k < w")
    case False
    then show ?thesis
      using 1 by (simp add: arrange_loop.simps)
  next
    case True
    let ?d = "d[i := d ! k]"
    have t: "take (Suc i) ?d = take i d @ [d ! k]"
      using True 1 by (simp add: take_Suc_conv_app_nth)
    have dr: "drop (Suc k) ?d = drop (Suc k) d"
      using 1 by simp
    have "take (w - k) (drop k d) = d ! k # take (w - Suc k) (drop (Suc k) d)"
      using True 1 by (metis Cons_nth_drop_Suc Suc_diff_Suc less_le_trans take_Suc_Cons)
    then show ?thesis
      using 1(1) [OF True] 1(2-) True t dr by (subst (1 2 3) arrange_loop.simps) (simp add: Suc_diff_Suc)
  qed
qed

lemma arrange_bytes:
  assumes "buf_inv b"
  shows "buf_inv (arrange b)" "bytes (arrange b) = bytes b" "length (fData (arrange b)) = length (fData b)"
    "fReadIdx (arrange b) = 8" "fWriteIdx (arrange b) = 8 + (fWriteIdx b - fReadIdx b)"
proof -
  obtain d i where l: "arrange_loop 8 (fReadIdx b) (fWriteIdx b) (fData b) = (d, i)"
    by fastforce
  have c: "i = 8 + (fWriteIdx b - fReadIdx b)" "length d = length (fData b)"
    "take i d = take 8 (fData b) @ bytes b"
    using arrange_loop_copy [of 8 "fReadIdx b" "fWriteIdx b" "fData b"] assms l
    by (auto simp: buf_inv_def bytes_def)
  have a: "arrange b = b\<lparr>fData := d, fReadIdx := 8, fWriteIdx := i\<rparr>"
    using l by (simp add: arrange_def kBufferPrefixed_def)
  have "take (i - 8) (drop 8 d) = drop 8 (take i d)"
    by (simp add: drop_take)
  also have "\<dots> = bytes b"
    using c(3) assms by (simp add: buf_inv_def)
  finally show "bytes (arrange b) = bytes b"
    by (simp add: a bytes_def)
  show "length (fData (arrange b)) = length (fData b)" "fReadIdx (arrange b) = 8"
    "fWriteIdx (arrange b) = 8 + (fWriteIdx b - fReadIdx b)"
    using a c by simp_all
  then show "buf_inv (arrange b)"
    using assms by (auto simp: buf_inv_def)
qed

lemma resize_bytes:
  assumes "buf_inv b" "fWriteIdx b + 8 \<le> n" "n < limit"
  shows "buf_inv (resize n b)" "bytes (resize n b) = bytes b" "length (fData (resize n b)) = n"
    "fReadIdx (resize n b) = fReadIdx b" "fWriteIdx (resize n b) = fWriteIdx b"
  using assms by (auto simp: buf_inv_def resize_def bytes_def drop_take min_def)

section \<open>Making space\<close>

lemma grow_spec:
  assumes "0 < rz" "l \<le> rz" "l + len < limit" "rz < 2 * limit"
  shows "\<exists>r. grow rz l len = Some r \<and> l + len \<le> r \<and>
    (if l + len \<le> rz then r = rz else 2 * rz \<le> r \<and> r < 2 * (l + len))"
  using assms
proof (induction "l + len - rz" arbitrary: rz rule: less_induct)
  case less
  show ?case
  proof (cases "l + len \<le> rz")
    case True
    have "sub64 rz l = rz - l"
      using less.prems by (intro sub64_eq) (simp_all add: limit_def)
    then have "\<not> sub64 rz l < len"
      using True by simp
    then show ?thesis
      using True by (subst grow.simps) simp
  next
    case False
    have "rz < 2 ^ 64"
      using False less.prems(3) by (simp add: limit_def)
    then have "sub64 rz l = rz - l" "(rz * 2) mod 2 ^ 64 = 2 * rz"
      using less.prems False by (simp_all add: limit_def mult.commute)
    then have "grow rz l len = grow (2 * rz) l len"
      using False less.prems by (subst grow.simps) auto
    moreover have "\<exists>r. grow (2 * rz) l len = Some r \<and> l + len \<le> r \<and>
        (if l + len \<le> 2 * rz then r = 2 * rz else 2 * (2 * rz) \<le> r \<and> r < 2 * (l + len))"
      using less.prems False by (intro less.hyps) auto
    ultimately show ?thesis
      using False by (auto split: if_splits)
  qed
qed

definition made :: "nat \<Rightarrow> buffer \<Rightarrow> buffer \<Rightarrow> bool" where
  "made len b b' \<longleftrightarrow> buf_inv b' \<and> bytes b' = bytes b \<and> fWriteIdx b' + 8 + len < length (fData b')"

text \<open>Room behind the data or, after moving the data to the front, in all.\<close>

lemma makeSpace_keeps:
  assumes inv: "buf_inv b" and big: "fWriteIdx b - fReadIdx b + len + 16 < length (fData b)"
  shows "\<exists>b'. makeSpace len b = Some b' \<and> made len b b' \<and> length (fData b') = length (fData b)"
proof (cases "right b \<le> len")
  case False
  then have "makeSpace len b = Some b"
    by (subst makeSpace.simps) simp
  then show ?thesis
    using False inv buf_inv_sizes [OF inv] by (auto simp: made_def)
next
  case True
  note a = arrange_bytes [OF inv] and s = buf_inv_sizes [OF inv] and s' = buf_inv_sizes [OF arrange_bytes(1) [OF inv]]
  have rl: "right b + left b > len"
    using s big inv unfolding buf_inv_def by linarith
  have fit: "\<not> right (arrange b) \<le> len"
    using s' a big by simp
  have "makeSpace len b = makeSpace len (arrange b)"
    using True rl by (subst makeSpace.simps) simp
  also have "\<dots> = Some (arrange b)"
    using fit by (subst makeSpace.simps) simp
  finally show ?thesis
    using a big by (auto simp: made_def)
qed

lemma makeSpace_big:
  "buf_inv b \<Longrightarrow> fWriteIdx b - fReadIdx b + len + 16 < length (fData b) \<Longrightarrow> \<exists>b'. makeSpace len b = Some b' \<and> made len b b'"
  using makeSpace_keeps by blast

lemma makeSpace_resize:
  assumes inv: "buf_inv b" and small: "length (fData b) \<le> fWriteIdx b - fReadIdx b + len + 16" and len: "right b \<le> len"
    and g: "grow (length (fData b) - 8) (fWriteIdx b - fReadIdx b) len = Some rz"
  shows "makeSpace len b = makeSpace len (resize rz b)"
proof -
  have "\<not> right b + left b > len"
    using buf_inv_sizes [OF inv] small inv unfolding buf_inv_def by linarith
  then show ?thesis
    using len g buf_inv_sizes [OF inv] by (subst makeSpace.simps) simp
qed

lemma grow_buffer:
  assumes inv: "buf_inv b" and l: "fWriteIdx b - fReadIdx b + len < limit div 4"
    and lo: "length (fData b) - 8 < fWriteIdx b - fReadIdx b + len"
  shows "\<exists>r. grow (length (fData b) - 8) (fWriteIdx b - fReadIdx b) len = Some r \<and>
    fWriteIdx b - fReadIdx b + len \<le> r \<and> 2 * (length (fData b) - 8) \<le> r \<and> r < 2 * (fWriteIdx b - fReadIdx b + len)"
proof -
  have b: "8 \<le> fReadIdx b" "fReadIdx b \<le> fWriteIdx b" "fWriteIdx b + 8 \<le> length (fData b)" "length (fData b) < limit"
    using inv by (simp_all add: buf_inv_def)
  have "0 < length (fData b) - 8" "fWriteIdx b - fReadIdx b \<le> length (fData b) - 8"
    "fWriteIdx b - fReadIdx b + len < limit" "length (fData b) - 8 < 2 * limit"
    using b l by linarith+
  from grow_spec [OF this] show ?thesis
    using lo by (metis linorder_not_less)
qed

text \<open>Slightly too small: one doubling is enough.\<close>

lemma makeSpace_near:
  assumes inv: "buf_inv b" and n: "72 \<le> length (fData b)" and l: "fWriteIdx b - fReadIdx b + len < limit div 4"
    and lo: "length (fData b) - 8 < fWriteIdx b - fReadIdx b + len" and hi: "fWriteIdx b - fReadIdx b + len \<le> length (fData b)"
  shows "\<exists>b'. makeSpace len b = Some b' \<and> made len b b'"
proof -
  let ?n = "length (fData b)" and ?l = "fWriteIdx b - fReadIdx b"
  have bnds: "8 \<le> fReadIdx b" "fReadIdx b \<le> fWriteIdx b" "fWriteIdx b + 8 \<le> ?n" "?n < limit"
    using inv by (simp_all add: buf_inv_def)
  obtain r where r: "grow (?n - 8) ?l len = Some r" "?l + len \<le> r" "2 * (?n - 8) \<le> r" "r < 2 * (?l + len)"
    using grow_buffer [OF inv l lo] by blast
  have "right b \<le> len"
    using buf_inv_sizes(3) [OF inv] bnds lo by linarith
  moreover have "?n \<le> ?l + len + 16"
    using lo by linarith
  ultimately have e: "makeSpace len b = makeSpace len (resize r b)"
    using makeSpace_resize [OF inv _ _ r(1)] by blast
  have w: "fWriteIdx b + 8 \<le> r" "r < limit"
    using bnds r n l by (simp_all add: limit_def)
  note z = resize_bytes [OF inv w]
  have "fWriteIdx (resize r b) - fReadIdx (resize r b) + len + 16 < length (fData (resize r b))"
    using z r(3) hi n by simp
  from makeSpace_big [OF z(1) this] show ?thesis
    using e z by (auto simp: made_def)
qed

lemma makeSpace_shrink:
  assumes inv: "buf_inv b" and w: "fWriteIdx b + 16 \<le> length (fData b)" and l: "fWriteIdx b - fReadIdx b + len < limit div 4"
    and lo: "fWriteIdx b - fReadIdx b + len \<le> length (fData b) - 8"
    and small: "length (fData b) \<le> fWriteIdx b - fReadIdx b + len + 16" and right: "right b \<le> len"
  shows "makeSpace len b = makeSpace len (resize (length (fData b) - 8) b)"
proof -
  have bnds: "8 \<le> fReadIdx b" "fReadIdx b \<le> fWriteIdx b" "length (fData b) < limit"
    using inv by (simp_all add: buf_inv_def)
  have "grow (length (fData b) - 8) (fWriteIdx b - fReadIdx b) len = Some (length (fData b) - 8)"
    using grow_spec [of "length (fData b) - 8" "fWriteIdx b - fReadIdx b" len] bnds lo w l by (auto simp: limit_def)
  then show ?thesis
    by (rule makeSpace_resize [OF inv small right])
qed

text \<open>Between the two tests the code shrinks the vector by the reserved bytes, once or twice.\<close>

lemma makeSpace_mid:
  assumes inv: "buf_inv b" and n: "96 \<le> length (fData b)" and l: "fWriteIdx b - fReadIdx b + len < limit div 4"
    and w: "fWriteIdx b + 24 \<le> length (fData b)"
    and lo: "fWriteIdx b - fReadIdx b + len \<le> length (fData b) - 8"
    and small: "length (fData b) \<le> fWriteIdx b - fReadIdx b + len + 16"
  shows "\<exists>b'. makeSpace len b = Some b' \<and> made len b b'"
proof (cases "right b \<le> len")
  case False
  then show ?thesis
    using inv buf_inv_sizes [OF inv] by (subst makeSpace.simps) (auto simp: made_def)
next
  case right: True
  let ?n = "length (fData b)" and ?b1 = "resize (length (fData b) - 8) b"
  have e1: "makeSpace len b = makeSpace len ?b1"
    using makeSpace_shrink [OF inv _ l lo small right] w by simp
  have lim: "?n < limit"
    using inv by (simp add: buf_inv_def)
  have z1: "buf_inv ?b1" "bytes ?b1 = bytes b" "length (fData ?b1) = ?n - 8" "fReadIdx ?b1 = fReadIdx b" "fWriteIdx ?b1 = fWriteIdx b"
    using resize_bytes [OF inv, of "?n - 8"] w lim by simp_all
  have "\<exists>b'. makeSpace len ?b1 = Some b' \<and> made len ?b1 b'"
  proof (cases "?n - 16 < fWriteIdx b - fReadIdx b + len")
    case True
    show ?thesis
      by (rule makeSpace_near [OF z1(1)]) (unfold z1, (use n l True lo in linarith)+)
  next
    case False
    let ?b2 = "resize (?n - 16) ?b1"
    have right1: "right ?b1 \<le> len"
      using buf_inv_sizes(3) [OF z1(1)] buf_inv_sizes(3) [OF inv] z1 right by simp
    have m: "fWriteIdx b + 16 \<le> ?n - 8" "fWriteIdx b - fReadIdx b + len \<le> ?n - 8 - 8" "?n - 8 \<le> fWriteIdx b - fReadIdx b + len + 16"
      using w False small by linarith+
    have e2: "makeSpace len ?b1 = makeSpace len ?b2"
      using makeSpace_shrink [OF z1(1), unfolded z1, OF m(1) l m(2,3) right1] by simp
    have z2: "buf_inv ?b2" "bytes ?b2 = bytes ?b1" "length (fData ?b2) = ?n - 16" "fReadIdx ?b2 = fReadIdx b" "fWriteIdx ?b2 = fWriteIdx b"
      using resize_bytes [OF z1(1), of "?n - 16"] w lim z1 by simp_all
    have "\<exists>b'. makeSpace len ?b2 = Some b' \<and> made len ?b2 b'"
      by (rule makeSpace_near [OF z2(1)]) (unfold z2, (use n l small False in linarith)+)
    then show ?thesis
      using e2 z2 by (auto simp: made_def)
  qed
  then show ?thesis
    using e1 z1 by (auto simp: made_def)
qed

lemma makeSpace_far:
  assumes inv: "buf_inv b" and n: "96 \<le> length (fData b)" and l: "fWriteIdx b - fReadIdx b + len < limit div 4"
    and far: "length (fData b) < fWriteIdx b - fReadIdx b + len"
  shows "\<exists>b'. makeSpace len b = Some b' \<and> made len b b'"
proof -
  let ?n = "length (fData b)" and ?l = "fWriteIdx b - fReadIdx b"
  have bnds: "8 \<le> fReadIdx b" "fReadIdx b \<le> fWriteIdx b" "fWriteIdx b + 8 \<le> ?n" "?n < limit"
    using inv by (simp_all add: buf_inv_def)
  have lo: "?n - 8 < ?l + len"
    using far by linarith
  obtain r where r: "grow (?n - 8) ?l len = Some r" "?l + len \<le> r" "2 * (?n - 8) \<le> r" "r < 2 * (?l + len)"
    using grow_buffer [OF inv l lo] by blast
  have "right b \<le> len"
    using buf_inv_sizes(3) [OF inv] bnds far by linarith
  then have e: "makeSpace len b = makeSpace len (resize r b)"
    using makeSpace_resize [OF inv _ _ r(1)] far by simp
  have w: "fWriteIdx b + 8 \<le> r" "r < limit"
    using bnds r n l by (simp_all add: limit_def)
  note z = resize_bytes [OF inv w]
  consider "r > ?l + len + 16" | "r \<le> ?l + len + 16" "?l + len \<le> r - 8" | "r - 8 < ?l + len"
    by linarith
  then have "\<exists>b'. makeSpace len (resize r b) = Some b' \<and> made len (resize r b) b'"
  proof cases
    case 1
    show ?thesis by (rule makeSpace_big [OF z(1)]) (use 1 z in simp)
  next
    case 2
    show ?thesis by (rule makeSpace_mid [OF z(1)]) (unfold z, (use 2 r n bnds l in linarith)+)
  next
    case 3
    show ?thesis by (rule makeSpace_near [OF z(1)]) (unfold z, (use 3 r n bnds l in linarith)+)
  qed
  then show ?thesis
    using e z by (auto simp: made_def)
qed

lemma makeSpace_made:
  assumes inv: "buf_inv b" and n: "96 \<le> length (fData b)" and l: "fWriteIdx b - fReadIdx b + len < limit div 4"
    and ok: "length (fData b) < fWriteIdx b - fReadIdx b + len + 8 \<or> fWriteIdx b + 24 \<le> length (fData b) \<or>
      fWriteIdx b - fReadIdx b + len + 16 < length (fData b)"
  shows "\<exists>b'. makeSpace len b = Some b' \<and> made len b b'"
proof -
  let ?n = "length (fData b)" and ?l = "fWriteIdx b - fReadIdx b"
  consider "?n > ?l + len + 16" | "?n < ?l + len" | "?n - 8 < ?l + len" "?l + len \<le> ?n"
    | "?l + len \<le> ?n - 8" "?n \<le> ?l + len + 16" "fWriteIdx b + 24 \<le> ?n"
    using ok n by linarith
  then show ?thesis
    using makeSpace_big [OF inv] makeSpace_far [OF inv n l] makeSpace_near [OF inv _ l] makeSpace_mid [OF inv n l] n
    by cases simp_all
qed

lemma copy_in_bytes:
  assumes "made (length xs) b b'"
  shows "\<exists>b''. copy_in xs b' = Inr b'' \<and> buf_inv b'' \<and> bytes b'' = bytes b @ xs \<and> length (fData b'') = length (fData b')"
proof -
  let ?w = "fWriteIdx b'" and ?r = "fReadIdx b'"
  have m: "buf_inv b'" "bytes b' = bytes b" "?w + 8 + length xs < length (fData b')"
    using assms by (simp_all add: made_def)
  define b'' where "b'' = b'\<lparr>fData := take ?w (fData b') @ xs @ drop (?w + length xs) (fData b'), fWriteIdx := ?w + length xs\<rparr>"
  have "copy_in xs b' = Inr b''"
    using m(3) by (simp add: copy_in_def b''_def)
  moreover have "buf_inv b''"
    using m(1,3) by (auto simp: buf_inv_def b''_def)
  moreover have "length (fData b'') = length (fData b')"
    using m(3) by (simp add: b''_def)
  moreover have "bytes b'' = bytes b' @ xs"
    using m(1,3) by (auto simp: bytes_def b''_def buf_inv_def drop_take)
  ultimately show ?thesis
    using m(2) by auto
qed

section \<open>Reading\<close>

lemma tryArrange_bytes:
  assumes "buf_inv b"
  shows "buf_inv (snd (tryArrange b)) \<and> bytes (snd (tryArrange b)) = bytes b"
  using assms arrange_bytes(1,2) [OF assms]
  by (auto simp: tryArrange_def clear_def bytes_def buf_inv_def kBufferPrefixed_def)

lemma advance_bytes:
  assumes "buf_inv b" "n \<le> fWriteIdx b - fReadIdx b"
  shows "buf_inv (b\<lparr>fReadIdx := fReadIdx b + n\<rparr>) \<and> bytes (b\<lparr>fReadIdx := fReadIdx b + n\<rparr>) = drop n (bytes b)"
proof -
  have "drop n (take (fWriteIdx b - fReadIdx b) (drop (fReadIdx b) (fData b))) =
      take (fWriteIdx b - fReadIdx b - n) (drop n (drop (fReadIdx b) (fData b)))"
    by (simp add: drop_take)
  then show ?thesis
    using assms by (auto simp: buf_inv_def bytes_def add.commute diff_diff_left)
qed

lemma bytes_length: "buf_inv b \<Longrightarrow> length (bytes b) = fWriteIdx b - fReadIdx b"
  by (auto simp: bytes_def buf_inv_def)

lemma copy_out_bytes:
  assumes "buf_inv b" "n \<le> fWriteIdx b - fReadIdx b"
  shows "copy_out n b = Inr (take n (bytes b))"
  using assms by (auto simp: copy_out_def buf_inv_def bytes_def min_absorb1)

lemma buf_write_bytes:
  assumes "buf_inv b" "96 \<le> length (fData b)" "length (bytes b) + length xs < limit div 4"
    and "length (fData b) < length (bytes b) + length xs + 8 \<or> fWriteIdx b + 24 \<le> length (fData b) \<or>
      length (bytes b) + length xs + 16 < length (fData b)"
  shows "\<exists>b'. buf_write xs b = Some (Inr b') \<and> buf_inv b' \<and> bytes b' = bytes b @ xs"
proof -
  have "length (bytes b) = fWriteIdx b - fReadIdx b"
    using assms(1) by (auto simp: bytes_def buf_inv_def)
  then obtain b' where b': "makeSpace (length xs) b = Some b'" "made (length xs) b b'"
    using makeSpace_made [OF assms(1,2)] assms(3,4) by metis
  then show ?thesis
    using copy_in_bytes [OF b'(2)] by (auto simp: buf_write_def)
qed

lemma buf_read_bytes:
  assumes "buf_inv b"
  shows "\<exists>b'. buf_read n b = Inr (take n (bytes b), b') \<and> buf_inv b' \<and> bytes b' = drop n (bytes b)"
proof -
  define k where "k = min n (fWriteIdx b - fReadIdx b)"
  note l = bytes_length [OF assms] and s = buf_inv_sizes(2) [OF assms]
  have k: "k \<le> fWriteIdx b - fReadIdx b" "take n (bytes b) = take k (bytes b)" "drop n (bytes b) = drop k (bytes b)"
    using l by (auto simp: k_def min_def)
  show ?thesis
  proof (cases "k = 0")
    case True
    then show ?thesis
      using assms k s by (auto simp: buf_read_def k_def)
  next
    case False
    let ?b = "b\<lparr>fReadIdx := fReadIdx b + k\<rparr>"
    have "buf_read n b = Inr (take k (bytes b), snd (tryArrange ?b))"
      using False copy_out_bytes [OF assms k(1)] by (simp add: buf_read_def s k_def [symmetric] del: min_less_iff_conj)
    moreover have "buf_inv (snd (tryArrange ?b)) \<and> bytes (snd (tryArrange ?b)) = drop k (bytes b)"
      using advance_bytes [OF assms k(1)] tryArrange_bytes [of ?b] by simp
    ultimately show ?thesis
      using k(2,3) by simp
  qed
qed

section \<open>Properties\<close>

text \<open>C12: \<open>write\<close> appends: on a well-formed buffer of at least 96 bytes it terminates, stays inside the vector,
  keeps the unread bytes and appends the new ones, whether there is room behind the data, room after
  moving it to the front, or the vector has to grow, except when the new bytes just fit, within 8, and
  fewer than 16 bytes are free behind the write index.\<close>

theorem buffer_write_appends:
  assumes "buf_inv b" "96 \<le> length (fData b)" "length (bytes b) + length xs < limit div 4"
    and "length (fData b) < length (bytes b) + length xs + 8 \<or> fWriteIdx b + 24 \<le> length (fData b) \<or>
      length (bytes b) + length xs + 16 < length (fData b)"
  shows "\<exists>b'. buf_write xs b = Some (Inr b') \<and> buf_inv b' \<and> bytes b' = bytes b @ xs"
  by (rule buf_write_bytes [OF assms])

theorem buffer_write_appends_witness:
  "buf_inv (Buffer 1024) \<and> (\<exists>b'. buf_write [1, 2, 3] (Buffer 1024) = Some (Inr b') \<and> bytes b' = [1, 2, 3])"
proof -
  have i: "buf_inv (Buffer 1024)" "bytes (Buffer 1024) = []" "length (fData (Buffer 1024)) = 1024"
    by (simp_all add: Buffer_def buf_inv_def kBufferPrefixed_def limit_def bytes_def)
  show ?thesis
    using buffer_write_appends [OF i(1), of "[1, 2, 3]"] i by (auto simp: limit_def)
qed

text \<open>In the excepted case \<open>write\<close> leaves the vector: with nothing consumed yet and fewer than 8 bytes free
  behind the write index, a write that just exceeds the free bytes shrinks the vector instead of growing it, the
  unsigned \<open>right()\<close> wraps around, and the copy runs past the end of the vector.\<close>

theorem buffer_write_overruns:
  assumes "buf_inv b" "fReadIdx b = 8" "length (fData b) < fWriteIdx b + 16"
    and "length (fData b) - 8 < fWriteIdx b + length xs" "fWriteIdx b + length xs \<le> length (fData b)"
  shows "buf_write xs b = Some (Inl OutOfBounds)"
proof -
  let ?n = "length (fData b)" and ?len = "length xs" and ?b1 = "resize (length (fData b) - 8) b"
  have bnds: "8 \<le> fReadIdx b" "fReadIdx b \<le> fWriteIdx b" "fWriteIdx b + 8 \<le> ?n" "?n < limit"
    using assms(1) by (simp_all add: buf_inv_def)
  note s = buf_inv_sizes [OF assms(1)]
  have p: "0 < ?n - 8" "fWriteIdx b - fReadIdx b \<le> ?n - 8" "fWriteIdx b - fReadIdx b + ?len < limit" "?n - 8 < 2 * limit"
    "fWriteIdx b - fReadIdx b + ?len \<le> ?n - 8"
    using bnds assms(2,5) by linarith+
  then have g: "grow (?n - 8) (fWriteIdx b - fReadIdx b) ?len = Some (?n - 8)"
    using grow_spec [OF p(1-4)] by auto
  have "makeSpace ?len b = makeSpace ?len ?b1"
    by (rule makeSpace_resize [OF assms(1) _ _ g]) (use s assms bnds in linarith)+
  moreover have len1: "length (fData ?b1) = ?n - 8" "fWriteIdx ?b1 = fWriteIdx b"
    using bnds by (simp_all add: resize_def)
  moreover have "capacity ?b1 = ?n - 16"
    using len1 bnds assms(2) unfolding capacity_def kBufferPrefixed_def by (subst sub64_eq) (simp_all add: limit_def)
  then have "right ?b1 = ?n - 16 + 2 ^ 64 - fWriteIdx b"
    unfolding right_def len1(2) using assms(3) bnds by (subst sub64_wrap) (simp_all add: limit_def)
  then have "\<not> right ?b1 \<le> ?len"
    using assms(5) bnds by (simp add: limit_def)
  then have "makeSpace ?len ?b1 = Some ?b1"
    by (subst makeSpace.simps) simp
  ultimately show ?thesis
    using assms(4) by (simp add: buf_write_def copy_in_def)
qed

theorem buffer_write_overruns_witness:
  "\<exists>b. buf_write (replicate 1004 7) (Buffer 1024) = Some (Inr b) \<and> buf_write [1, 2, 3, 4, 5] b = Some (Inl OutOfBounds)"
proof -
  let ?b = "Buffer 1024"
  have i: "buf_inv ?b"
    by (simp add: Buffer_def buf_inv_def kBufferPrefixed_def limit_def)
  have "\<not> right ?b \<le> 1004"
    unfolding buf_inv_sizes(3) [OF i] by (simp add: Buffer_def kBufferPrefixed_def)
  then have "makeSpace 1004 ?b = Some ?b"
    by (subst makeSpace.simps) simp
  then obtain b where b: "buf_write (replicate 1004 7) ?b = Some (Inr b)" "fWriteIdx b = 1012" "fReadIdx b = 8" "length (fData b) = 1024"
    by (simp add: buf_write_def copy_in_def Buffer_def kBufferPrefixed_def)
  have "buf_write [1, 2, 3, 4, 5] b = Some (Inl OutOfBounds)"
    by (rule buffer_write_overruns) (simp_all add: b buf_inv_def limit_def)
  then show ?thesis
    using b(1) by blast
qed

text \<open>\<open>read\<close> consumes from the front: on a well-formed buffer it returns the first \<open>buf_len\<close> unread bytes, or
  all of them if there are fewer, never touches memory outside the vector, and leaves exactly the
  rest unread, also when it resets the indices or moves the data to the front.\<close>

theorem buffer_read_takes:
  assumes "buf_inv b"
  shows "\<exists>b'. buf_read n b = Inr (take n (bytes b), b') \<and> buf_inv b' \<and> bytes b' = drop n (bytes b)"
  by (rule buf_read_bytes [OF assms])

theorem buffer_read_takes_witness:
  "\<exists>b'. buf_read 2 ((Buffer 20)\<lparr>fWriteIdx := 12\<rparr>) = Inr ([0, 0], b') \<and> bytes b' = [0, 0]"
proof -
  have i: "buf_inv ((Buffer 20)\<lparr>fWriteIdx := 12\<rparr>)" "bytes ((Buffer 20)\<lparr>fWriteIdx := 12\<rparr>) = [0, 0, 0, 0]"
    by (simp_all add: Buffer_def buf_inv_def kBufferPrefixed_def limit_def bytes_def, simp add: eval_nat_numeral)
  show ?thesis
    using buffer_read_takes [OF i(1), of 2] by (auto simp: i numeral_2_eq_2)
qed

end
