(* ===== verification/NattanCiphers.thy ===== *)
theory NattanCiphers
  imports CaskPrelude
begin

text \<open>
  The TLS cipher suite tables of \<open>net/ssl/Ciphers.h\<close>, the lookup \<open>GetCipherByHexCode\<close> of \<open>net/ssl/LibSSL.h\<close>
  and the two functions of \<open>net/ssl/SSLHandler.h\<close> that hand a cipher list to OpenSSL. A \<open>std::map\<close> built
  from an initialiser list is the association list of the initialiser: \<open>find\<close> is \<open>map_of\<close>, which, like
  the C++ constructor, keeps the first of two entries with the same key. \<open>SSL_set_cipher_list\<close> is a
  parameter.

  The names are compared through \<open>char_key\<close>, an integer computed from a string; different keys
  mean different strings, which makes the comparison of several hundred names a comparison of numerals.
\<close>

section \<open>The tables\<close>

definition g_ssl_ciphers_1 :: "(int \<times> string) list" where
  "g_ssl_ciphers_1 = [
    (0x0000, ''TLS_NULL_WITH_NULL_NULL''),
    (0x0001, ''TLS_RSA_WITH_NULL_MD5''),
    (0x0002, ''TLS_RSA_WITH_NULL_SHA''),
    (0x0003, ''TLS_RSA_EXPORT_WITH_RC4_40_MD5''),
    (0x0004, ''TLS_RSA_WITH_RC4_128_MD5''),
    (0x0005, ''TLS_RSA_WITH_RC4_128_SHA''),
    (0x0006, ''TLS_RSA_EXPORT_WITH_RC2_CBC_40_MD5''),
    (0x0007, ''TLS_RSA_WITH_IDEA_CBC_SHA''),
    (0x0008, ''TLS_RSA_EXPORT_WITH_DES40_CBC_SHA''),
    (0x0009, ''TLS_RSA_WITH_DES_CBC_SHA''),
    (0x000A, ''TLS_RSA_WITH_3DES_EDE_CBC_SHA''),
    (0x000B, ''TLS_DH_DSS_EXPORT_WITH_DES40_CBC_SHA''),
    (0x000C, ''TLS_DH_DSS_WITH_DES_CBC_SHA''),
    (0x000D, ''TLS_DH_DSS_WITH_3DES_EDE_CBC_SHA''),
    (0x000E, ''TLS_DH_RSA_EXPORT_WITH_DES40_CBC_SHA''),
    (0x000F, ''TLS_DH_RSA_WITH_DES_CBC_SHA''),
    (0x0010, ''TLS_DH_RSA_WITH_3DES_EDE_CBC_SHA''),
    (0x0011, ''TLS_DHE_DSS_EXPORT_WITH_DES40_CBC_SHA''),
    (0x0012, ''TLS_DHE_DSS_WITH_DES_CBC_SHA''),
    (0x0013, ''TLS_DHE_DSS_WITH_3DES_EDE_CBC_SHA''),
    (0x0014, ''TLS_DHE_RSA_EXPORT_WITH_DES40_CBC_SHA''),
    (0x0015, ''TLS_DHE_RSA_WITH_DES_CBC_SHA''),
    (0x0016, ''TLS_DHE_RSA_WITH_3DES_EDE_CBC_SHA''),
    (0x0017, ''TLS_DH_anon_EXPORT_WITH_RC4_40_MD5''),
    (0x0018, ''TLS_DH_anon_WITH_RC4_128_MD5''),
    (0x0019, ''TLS_DH_anon_EXPORT_WITH_DES40_CBC_SHA''),
    (0x001A, ''TLS_DH_anon_WITH_DES_CBC_SHA''),
    (0x001B, ''TLS_DH_anon_WITH_3DES_EDE_CBC_SHA''),
    (0x001D, ''SSL_FORTEZZA_KEA_WITH_FORTEZZA_CBC_SHA''),
    (0x001E, ''SSL_FORTEZZA_KEA_WITH_RC4_128_SHA''),
    (0x001F, ''TLS_KRB5_WITH_3DES_EDE_CBC_SHA''),
    (0x0020, ''TLS_KRB5_WITH_RC4_128_SHA''),
    (0x0021, ''TLS_KRB5_WITH_IDEA_CBC_SHA''),
    (0x0022, ''TLS_KRB5_WITH_DES_CBC_MD5''),
    (0x0023, ''TLS_KRB5_WITH_3DES_EDE_CBC_MD5''),
    (0x0024, ''TLS_KRB5_WITH_RC4_128_MD5''),
    (0x0025, ''TLS_KRB5_WITH_IDEA_CBC_MD5''),
    (0x0026, ''TLS_KRB5_EXPORT_WITH_DES_CBC_40_SHA''),
    (0x0027, ''TLS_KRB5_EXPORT_WITH_RC2_CBC_40_SHA''),
    (0x0028, ''TLS_KRB5_EXPORT_WITH_RC4_40_SHA''),
    (0x0029, ''TLS_KRB5_EXPORT_WITH_DES_CBC_40_MD5''),
    (0x002A, ''TLS_KRB5_EXPORT_WITH_RC2_CBC_40_MD5''),
    (0x002B, ''TLS_KRB5_EXPORT_WITH_RC4_40_MD5''),
    (0x002C, ''TLS_PSK_WITH_NULL_SHA''),
    (0x002D, ''TLS_DHE_PSK_WITH_NULL_SHA''),
    (0x002E, ''TLS_RSA_PSK_WITH_NULL_SHA''),
    (0x002F, ''TLS_RSA_WITH_AES_128_CBC_SHA''),
    (0x0030, ''TLS_DH_DSS_WITH_AES_128_CBC_SHA''),
    (0x0031, ''TLS_DH_RSA_WITH_AES_128_CBC_SHA''),
    (0x0032, ''TLS_DHE_DSS_WITH_AES_128_CBC_SHA''),
    (0x0033, ''TLS_DHE_RSA_WITH_AES_128_CBC_SHA''),
    (0x0034, ''TLS_DH_anon_WITH_AES_128_CBC_SHA''),
    (0x0035, ''TLS_RSA_WITH_AES_256_CBC_SHA''),
    (0x0036, ''TLS_DH_DSS_WITH_AES_256_CBC_SHA''),
    (0x0037, ''TLS_DH_RSA_WITH_AES_256_CBC_SHA''),
    (0x0038, ''TLS_DHE_DSS_WITH_AES_256_CBC_SHA''),
    (0x0039, ''TLS_DHE_RSA_WITH_AES_256_CBC_SHA''),
    (0x003A, ''TLS_DH_anon_WITH_AES_256_CBC_SHA''),
    (0x003B, ''TLS_RSA_WITH_NULL_SHA256''),
    (0x003C, ''TLS_RSA_WITH_AES_128_CBC_SHA256''),
    (0x003D, ''TLS_RSA_WITH_AES_256_CBC_SHA256''),
    (0x003E, ''TLS_DH_DSS_WITH_AES_128_CBC_SHA256''),
    (0x003F, ''TLS_DH_RSA_WITH_AES_128_CBC_SHA256''),
    (0x0040, ''TLS_DHE_DSS_WITH_AES_128_CBC_SHA256''),
    (0x0041, ''TLS_RSA_WITH_CAMELLIA_128_CBC_SHA''),
    (0x0042, ''TLS_DH_DSS_WITH_CAMELLIA_128_CBC_SHA''),
    (0x0043, ''TLS_DH_RSA_WITH_CAMELLIA_128_CBC_SHA''),
    (0x0044, ''TLS_DHE_DSS_WITH_CAMELLIA_128_CBC_SHA''),
    (0x0045, ''TLS_DHE_RSA_WITH_CAMELLIA_128_CBC_SHA''),
    (0x0046, ''TLS_DH_anon_WITH_CAMELLIA_128_CBC_SHA''),
    (0x0067, ''TLS_DHE_RSA_WITH_AES_128_CBC_SHA256''),
    (0x0068, ''TLS_DH_DSS_WITH_AES_256_CBC_SHA256''),
    (0x0069, ''TLS_DH_RSA_WITH_AES_256_CBC_SHA256''),
    (0x006A, ''TLS_DHE_DSS_WITH_AES_256_CBC_SHA256''),
    (0x006B, ''TLS_DHE_RSA_WITH_AES_256_CBC_SHA256''),
    (0x006C, ''TLS_DH_anon_WITH_AES_128_CBC_SHA256''),
    (0x006D, ''TLS_DH_anon_WITH_AES_256_CBC_SHA256''),
    (0x0081, ''TLS_GOSTR341001_WITH_28147_CNT_IMIT''),
    (0x0083, ''TLS_GOSTR341001_WITH_NULL_GOSTR3411''),
    (0x0084, ''TLS_RSA_WITH_CAMELLIA_256_CBC_SHA''),
    (0x0085, ''TLS_DH_DSS_WITH_CAMELLIA_256_CBC_SHA''),
    (0x0086, ''TLS_DH_RSA_WITH_CAMELLIA_256_CBC_SHA''),
    (0x0087, ''TLS_DHE_DSS_WITH_CAMELLIA_256_CBC_SHA''),
    (0x0088, ''TLS_DHE_RSA_WITH_CAMELLIA_256_CBC_SHA''),
    (0x0089, ''TLS_DH_anon_WITH_CAMELLIA_256_CBC_SHA'')]"

definition g_ssl_ciphers_2 :: "(int \<times> string) list" where
  "g_ssl_ciphers_2 = [
    (0x008A, ''TLS_PSK_WITH_RC4_128_SHA''),
    (0x008B, ''TLS_PSK_WITH_3DES_EDE_CBC_SHA''),
    (0x008C, ''TLS_PSK_WITH_AES_128_CBC_SHA''),
    (0x008D, ''TLS_PSK_WITH_AES_256_CBC_SHA''),
    (0x008E, ''TLS_DHE_PSK_WITH_RC4_128_SHA''),
    (0x008F, ''TLS_DHE_PSK_WITH_3DES_EDE_CBC_SHA''),
    (0x0090, ''TLS_DHE_PSK_WITH_AES_128_CBC_SHA''),
    (0x0091, ''TLS_DHE_PSK_WITH_AES_256_CBC_SHA''),
    (0x0092, ''TLS_RSA_PSK_WITH_RC4_128_SHA''),
    (0x0093, ''TLS_RSA_PSK_WITH_3DES_EDE_CBC_SHA''),
    (0x0094, ''TLS_RSA_PSK_WITH_AES_128_CBC_SHA''),
    (0x0095, ''TLS_RSA_PSK_WITH_AES_256_CBC_SHA''),
    (0x0096, ''TLS_RSA_WITH_SEED_CBC_SHA''),
    (0x0097, ''TLS_DH_DSS_WITH_SEED_CBC_SHA''),
    (0x0098, ''TLS_DH_RSA_WITH_SEED_CBC_SHA''),
    (0x0099, ''TLS_DHE_DSS_WITH_SEED_CBC_SHA''),
    (0x009A, ''TLS_DHE_RSA_WITH_SEED_CBC_SHA''),
    (0x009B, ''TLS_DH_anon_WITH_SEED_CBC_SHA''),
    (0x009C, ''TLS_RSA_WITH_AES_128_GCM_SHA256''),
    (0x009D, ''TLS_RSA_WITH_AES_256_GCM_SHA384''),
    (0x009E, ''TLS_DHE_RSA_WITH_AES_128_GCM_SHA256''),
    (0x009F, ''TLS_DHE_RSA_WITH_AES_256_GCM_SHA384''),
    (0x00A0, ''TLS_DH_RSA_WITH_AES_128_GCM_SHA256''),
    (0x00A1, ''TLS_DH_RSA_WITH_AES_256_GCM_SHA384''),
    (0x00A2, ''TLS_DHE_DSS_WITH_AES_128_GCM_SHA256''),
    (0x00A3, ''TLS_DHE_DSS_WITH_AES_256_GCM_SHA384''),
    (0x00A4, ''TLS_DH_DSS_WITH_AES_128_GCM_SHA256''),
    (0x00A5, ''TLS_DH_DSS_WITH_AES_256_GCM_SHA384''),
    (0x00A6, ''TLS_DH_anon_WITH_AES_128_GCM_SHA256''),
    (0x00A7, ''TLS_DH_anon_WITH_AES_256_GCM_SHA384''),
    (0x00A8, ''TLS_PSK_WITH_AES_128_GCM_SHA256''),
    (0x00A9, ''TLS_PSK_WITH_AES_256_GCM_SHA384''),
    (0x00AA, ''TLS_DHE_PSK_WITH_AES_128_GCM_SHA256''),
    (0x00AB, ''TLS_DHE_PSK_WITH_AES_256_GCM_SHA384''),
    (0x00AC, ''TLS_RSA_PSK_WITH_AES_128_GCM_SHA256''),
    (0x00AD, ''TLS_RSA_PSK_WITH_AES_256_GCM_SHA384''),
    (0x00AE, ''TLS_PSK_WITH_AES_128_CBC_SHA256''),
    (0x00AF, ''TLS_PSK_WITH_AES_256_CBC_SHA384''),
    (0x00B0, ''TLS_PSK_WITH_NULL_SHA256''),
    (0x00B1, ''TLS_PSK_WITH_NULL_SHA384''),
    (0x00B2, ''TLS_DHE_PSK_WITH_AES_128_CBC_SHA256''),
    (0x00B3, ''TLS_DHE_PSK_WITH_AES_256_CBC_SHA384''),
    (0x00B4, ''TLS_DHE_PSK_WITH_NULL_SHA256''),
    (0x00B5, ''TLS_DHE_PSK_WITH_NULL_SHA384''),
    (0x00B6, ''TLS_RSA_PSK_WITH_AES_128_CBC_SHA256''),
    (0x00B7, ''TLS_RSA_PSK_WITH_AES_256_CBC_SHA384''),
    (0x00B8, ''TLS_RSA_PSK_WITH_NULL_SHA256''),
    (0x00B9, ''TLS_RSA_PSK_WITH_NULL_SHA384''),
    (0x00BA, ''TLS_RSA_WITH_CAMELLIA_128_CBC_SHA256''),
    (0x00BB, ''TLS_DH_DSS_WITH_CAMELLIA_128_CBC_SHA256''),
    (0x00BC, ''TLS_DH_RSA_WITH_CAMELLIA_128_CBC_SHA256''),
    (0x00BD, ''TLS_DHE_DSS_WITH_CAMELLIA_128_CBC_SHA256''),
    (0x00BE, ''TLS_DHE_RSA_WITH_CAMELLIA_128_CBC_SHA256''),
    (0x00BF, ''TLS_DH_anon_WITH_CAMELLIA_128_CBC_SHA256''),
    (0x00C0, ''TLS_RSA_WITH_CAMELLIA_256_CBC_SHA256''),
    (0x00C1, ''TLS_DH_DSS_WITH_CAMELLIA_256_CBC_SHA256''),
    (0x00C2, ''TLS_DH_RSA_WITH_CAMELLIA_256_CBC_SHA256''),
    (0x00C3, ''TLS_DHE_DSS_WITH_CAMELLIA_256_CBC_SHA256''),
    (0x00C4, ''TLS_DHE_RSA_WITH_CAMELLIA_256_CBC_SHA256''),
    (0x00C5, ''TLS_DH_anon_WITH_CAMELLIA_256_CBC_SHA256''),
    (0x00FF, ''TLS_EMPTY_RENEGOTIATION_INFO_SCSV''),
    (0x5600, ''TLS_FALLBACK_SCSV''),
    (0xC001, ''TLS_ECDH_ECDSA_WITH_NULL_SHA''),
    (0xC002, ''TLS_ECDH_ECDSA_WITH_RC4_128_SHA''),
    (0xC003, ''TLS_ECDH_ECDSA_WITH_3DES_EDE_CBC_SHA''),
    (0xC004, ''TLS_ECDH_ECDSA_WITH_AES_128_CBC_SHA''),
    (0xC005, ''TLS_ECDH_ECDSA_WITH_AES_256_CBC_SHA''),
    (0xC006, ''TLS_ECDHE_ECDSA_WITH_NULL_SHA''),
    (0xC007, ''TLS_ECDHE_ECDSA_WITH_RC4_128_SHA''),
    (0xC008, ''TLS_ECDHE_ECDSA_WITH_3DES_EDE_CBC_SHA''),
    (0xC009, ''TLS_ECDHE_ECDSA_WITH_AES_128_CBC_SHA''),
    (0xC00A, ''TLS_ECDHE_ECDSA_WITH_AES_256_CBC_SHA''),
    (0xC00B, ''TLS_ECDH_RSA_WITH_NULL_SHA''),
    (0xC00C, ''TLS_ECDH_RSA_WITH_RC4_128_SHA''),
    (0xC00D, ''TLS_ECDH_RSA_WITH_3DES_EDE_CBC_SHA''),
    (0xC00E, ''TLS_ECDH_RSA_WITH_AES_128_CBC_SHA''),
    (0xC00F, ''TLS_ECDH_RSA_WITH_AES_256_CBC_SHA''),
    (0xC010, ''TLS_ECDHE_RSA_WITH_NULL_SHA''),
    (0xC011, ''TLS_ECDHE_RSA_WITH_RC4_128_SHA''),
    (0xC012, ''TLS_ECDHE_RSA_WITH_3DES_EDE_CBC_SHA''),
    (0xC013, ''TLS_ECDHE_RSA_WITH_AES_128_CBC_SHA''),
    (0xC014, ''TLS_ECDHE_RSA_WITH_AES_256_CBC_SHA''),
    (0xC015, ''TLS_ECDH_anon_WITH_NULL_SHA''),
    (0xC016, ''TLS_ECDH_anon_WITH_RC4_128_SHA''),
    (0xC017, ''TLS_ECDH_anon_WITH_3DES_EDE_CBC_SHA'')]"

definition g_ssl_ciphers_3 :: "(int \<times> string) list" where
  "g_ssl_ciphers_3 = [
    (0xC018, ''TLS_ECDH_anon_WITH_AES_128_CBC_SHA''),
    (0xC019, ''TLS_ECDH_anon_WITH_AES_256_CBC_SHA''),
    (0xC01A, ''TLS_SRP_SHA_WITH_3DES_EDE_CBC_SHA''),
    (0xC01B, ''TLS_SRP_SHA_RSA_WITH_3DES_EDE_CBC_SHA''),
    (0xC01C, ''TLS_SRP_SHA_DSS_WITH_3DES_EDE_CBC_SHA''),
    (0xC01D, ''TLS_SRP_SHA_WITH_AES_128_CBC_SHA''),
    (0xC01E, ''TLS_SRP_SHA_RSA_WITH_AES_128_CBC_SHA''),
    (0xC01F, ''TLS_SRP_SHA_DSS_WITH_AES_128_CBC_SHA''),
    (0xC020, ''TLS_SRP_SHA_WITH_AES_256_CBC_SHA''),
    (0xC021, ''TLS_SRP_SHA_RSA_WITH_AES_256_CBC_SHA''),
    (0xC022, ''TLS_SRP_SHA_DSS_WITH_AES_256_CBC_SHA''),
    (0xC023, ''TLS_ECDHE_ECDSA_WITH_AES_128_CBC_SHA256''),
    (0xC024, ''TLS_ECDHE_ECDSA_WITH_AES_256_CBC_SHA384''),
    (0xC025, ''TLS_ECDH_ECDSA_WITH_AES_128_CBC_SHA256''),
    (0xC026, ''TLS_ECDH_ECDSA_WITH_AES_256_CBC_SHA384''),
    (0xC027, ''TLS_ECDHE_RSA_WITH_AES_128_CBC_SHA256''),
    (0xC028, ''TLS_ECDHE_RSA_WITH_AES_256_CBC_SHA384''),
    (0xC029, ''TLS_ECDH_RSA_WITH_AES_128_CBC_SHA256''),
    (0xC02A, ''TLS_ECDH_RSA_WITH_AES_256_CBC_SHA384''),
    (0xC02B, ''TLS_ECDHE_ECDSA_WITH_AES_128_GCM_SHA256''),
    (0xC02C, ''TLS_ECDHE_ECDSA_WITH_AES_256_GCM_SHA384''),
    (0xC02D, ''TLS_ECDH_ECDSA_WITH_AES_128_GCM_SHA256''),
    (0xC02E, ''TLS_ECDH_ECDSA_WITH_AES_256_GCM_SHA384''),
    (0xC02F, ''TLS_ECDHE_RSA_WITH_AES_128_GCM_SHA256''),
    (0xC030, ''TLS_ECDHE_RSA_WITH_AES_256_GCM_SHA384''),
    (0xC031, ''TLS_ECDH_RSA_WITH_AES_128_GCM_SHA256''),
    (0xC032, ''TLS_ECDH_RSA_WITH_AES_256_GCM_SHA384''),
    (0xC033, ''TLS_ECDHE_PSK_WITH_RC4_128_SHA''),
    (0xC034, ''TLS_ECDHE_PSK_WITH_3DES_EDE_CBC_SHA''),
    (0xC035, ''TLS_ECDHE_PSK_WITH_AES_128_CBC_SHA''),
    (0xC036, ''TLS_ECDHE_PSK_WITH_AES_256_CBC_SHA''),
    (0xC037, ''TLS_ECDHE_PSK_WITH_AES_128_CBC_SHA256''),
    (0xC038, ''TLS_ECDHE_PSK_WITH_AES_256_CBC_SHA384''),
    (0xC039, ''TLS_ECDHE_PSK_WITH_NULL_SHA''),
    (0xC03A, ''TLS_ECDHE_PSK_WITH_NULL_SHA256''),
    (0xC03B, ''TLS_ECDHE_PSK_WITH_NULL_SHA384''),
    (0xC03C, ''TLS_RSA_WITH_ARIA_128_CBC_SHA256''),
    (0xC03D, ''TLS_RSA_WITH_ARIA_256_CBC_SHA384''),
    (0xC03E, ''TLS_DH_DSS_WITH_ARIA_128_CBC_SHA256''),
    (0xC03F, ''TLS_DH_DSS_WITH_ARIA_256_CBC_SHA384''),
    (0xC040, ''TLS_DH_RSA_WITH_ARIA_128_CBC_SHA256''),
    (0xC041, ''TLS_DH_RSA_WITH_ARIA_256_CBC_SHA384''),
    (0xC042, ''TLS_DHE_DSS_WITH_ARIA_128_CBC_SHA256''),
    (0xC043, ''TLS_DHE_DSS_WITH_ARIA_256_CBC_SHA384''),
    (0xC044, ''TLS_DHE_RSA_WITH_ARIA_128_CBC_SHA256''),
    (0xC045, ''TLS_DHE_RSA_WITH_ARIA_256_CBC_SHA384''),
    (0xC046, ''TLS_DH_anon_WITH_ARIA_128_CBC_SHA256''),
    (0xC047, ''TLS_DH_anon_WITH_ARIA_256_CBC_SHA384''),
    (0xC048, ''TLS_ECDHE_ECDSA_WITH_ARIA_128_CBC_SHA256''),
    (0xC049, ''TLS_ECDHE_ECDSA_WITH_ARIA_256_CBC_SHA384''),
    (0xC04A, ''TLS_ECDH_ECDSA_WITH_ARIA_128_CBC_SHA256''),
    (0xC04B, ''TLS_ECDH_ECDSA_WITH_ARIA_256_CBC_SHA384''),
    (0xC04C, ''TLS_ECDHE_RSA_WITH_ARIA_128_CBC_SHA256''),
    (0xC04D, ''TLS_ECDHE_RSA_WITH_ARIA_256_CBC_SHA384''),
    (0xC04E, ''TLS_ECDH_RSA_WITH_ARIA_128_CBC_SHA256''),
    (0xC04F, ''TLS_ECDH_RSA_WITH_ARIA_256_CBC_SHA384''),
    (0xC050, ''TLS_RSA_WITH_ARIA_128_GCM_SHA256''),
    (0xC051, ''TLS_RSA_WITH_ARIA_256_GCM_SHA384''),
    (0xC052, ''TLS_DHE_RSA_WITH_ARIA_128_GCM_SHA256''),
    (0xC053, ''TLS_DHE_RSA_WITH_ARIA_256_GCM_SHA384''),
    (0xC054, ''TLS_DH_RSA_WITH_ARIA_128_GCM_SHA256''),
    (0xC055, ''TLS_DH_RSA_WITH_ARIA_256_GCM_SHA384''),
    (0xC056, ''TLS_DHE_DSS_WITH_ARIA_128_GCM_SHA256''),
    (0xC057, ''TLS_DHE_DSS_WITH_ARIA_256_GCM_SHA384''),
    (0xC058, ''TLS_DH_DSS_WITH_ARIA_128_GCM_SHA256''),
    (0xC059, ''TLS_DH_DSS_WITH_ARIA_256_GCM_SHA384''),
    (0xC05A, ''TLS_DH_anon_WITH_ARIA_128_GCM_SHA256''),
    (0xC05B, ''TLS_DH_anon_WITH_ARIA_256_GCM_SHA384''),
    (0xC05C, ''TLS_ECDHE_ECDSA_WITH_ARIA_128_GCM_SHA256''),
    (0xC05D, ''TLS_ECDHE_ECDSA_WITH_ARIA_256_GCM_SHA384''),
    (0xC05E, ''TLS_ECDH_ECDSA_WITH_ARIA_128_GCM_SHA256''),
    (0xC05F, ''TLS_ECDH_ECDSA_WITH_ARIA_256_GCM_SHA384''),
    (0xC060, ''TLS_ECDHE_RSA_WITH_ARIA_128_GCM_SHA256''),
    (0xC061, ''TLS_ECDHE_RSA_WITH_ARIA_256_GCM_SHA384''),
    (0xC062, ''TLS_ECDH_RSA_WITH_ARIA_128_GCM_SHA256''),
    (0xC063, ''TLS_ECDH_RSA_WITH_ARIA_256_GCM_SHA384''),
    (0xC064, ''TLS_PSK_WITH_ARIA_128_CBC_SHA256''),
    (0xC065, ''TLS_PSK_WITH_ARIA_256_CBC_SHA384''),
    (0xC066, ''TLS_DHE_PSK_WITH_ARIA_128_CBC_SHA256''),
    (0xC067, ''TLS_DHE_PSK_WITH_ARIA_256_CBC_SHA384''),
    (0xC068, ''TLS_RSA_PSK_WITH_ARIA_128_CBC_SHA256''),
    (0xC069, ''TLS_RSA_PSK_WITH_ARIA_256_CBC_SHA384''),
    (0xC06A, ''TLS_PSK_WITH_ARIA_128_GCM_SHA256''),
    (0xC06B, ''TLS_PSK_WITH_ARIA_256_GCM_SHA384''),
    (0xC06C, ''TLS_DHE_PSK_WITH_ARIA_128_GCM_SHA256'')]"

definition g_ssl_ciphers_4 :: "(int \<times> string) list" where
  "g_ssl_ciphers_4 = [
    (0xC06D, ''TLS_DHE_PSK_WITH_ARIA_256_GCM_SHA384''),
    (0xC06E, ''TLS_RSA_PSK_WITH_ARIA_128_GCM_SHA256''),
    (0xC06F, ''TLS_RSA_PSK_WITH_ARIA_256_GCM_SHA384''),
    (0xC070, ''TLS_ECDHE_PSK_WITH_ARIA_128_CBC_SHA256''),
    (0xC071, ''TLS_ECDHE_PSK_WITH_ARIA_256_CBC_SHA384''),
    (0xC072, ''TLS_ECDHE_ECDSA_WITH_CAMELLIA_128_CBC_SHA256''),
    (0xC073, ''TLS_ECDHE_ECDSA_WITH_CAMELLIA_256_CBC_SHA384''),
    (0xC074, ''TLS_ECDH_ECDSA_WITH_CAMELLIA_128_CBC_SHA256''),
    (0xC075, ''TLS_ECDH_ECDSA_WITH_CAMELLIA_256_CBC_SHA384''),
    (0xC076, ''TLS_ECDHE_RSA_WITH_CAMELLIA_128_CBC_SHA256''),
    (0xC077, ''TLS_ECDHE_RSA_WITH_CAMELLIA_256_CBC_SHA384''),
    (0xC078, ''TLS_ECDH_RSA_WITH_CAMELLIA_128_CBC_SHA256''),
    (0xC079, ''TLS_ECDH_RSA_WITH_CAMELLIA_256_CBC_SHA384''),
    (0xC07A, ''TLS_RSA_WITH_CAMELLIA_128_GCM_SHA256''),
    (0xC07B, ''TLS_RSA_WITH_CAMELLIA_256_GCM_SHA384''),
    (0xC07C, ''TLS_DHE_RSA_WITH_CAMELLIA_128_GCM_SHA256''),
    (0xC07D, ''TLS_DHE_RSA_WITH_CAMELLIA_256_GCM_SHA384''),
    (0xC07E, ''TLS_DH_RSA_WITH_CAMELLIA_128_GCM_SHA256''),
    (0xC07F, ''TLS_DH_RSA_WITH_CAMELLIA_256_GCM_SHA384''),
    (0xC080, ''TLS_DHE_DSS_WITH_CAMELLIA_128_GCM_SHA256''),
    (0xC081, ''TLS_DHE_DSS_WITH_CAMELLIA_256_GCM_SHA384''),
    (0xC082, ''TLS_DH_DSS_WITH_CAMELLIA_128_GCM_SHA256''),
    (0xC083, ''TLS_DH_DSS_WITH_CAMELLIA_256_GCM_SHA384''),
    (0xC084, ''TLS_DH_anon_WITH_CAMELLIA_128_GCM_SHA256''),
    (0xC085, ''TLS_DH_anon_WITH_CAMELLIA_256_GCM_SHA384''),
    (0xC086, ''TLS_ECDHE_ECDSA_WITH_CAMELLIA_128_GCM_SHA256''),
    (0xC087, ''TLS_ECDHE_ECDSA_WITH_CAMELLIA_256_GCM_SHA384''),
    (0xC088, ''TLS_ECDH_ECDSA_WITH_CAMELLIA_128_GCM_SHA256''),
    (0xC089, ''TLS_ECDH_ECDSA_WITH_CAMELLIA_256_GCM_SHA384''),
    (0xC08A, ''TLS_ECDHE_RSA_WITH_CAMELLIA_128_GCM_SHA256''),
    (0xC08B, ''TLS_ECDHE_RSA_WITH_CAMELLIA_256_GCM_SHA384''),
    (0xC08C, ''TLS_ECDH_RSA_WITH_CAMELLIA_128_GCM_SHA256''),
    (0xC08D, ''TLS_ECDH_RSA_WITH_CAMELLIA_256_GCM_SHA384''),
    (0xC08E, ''TLS_PSK_WITH_CAMELLIA_128_GCM_SHA256''),
    (0xC08F, ''TLS_PSK_WITH_CAMELLIA_256_GCM_SHA384''),
    (0xC090, ''TLS_DHE_PSK_WITH_CAMELLIA_128_GCM_SHA256''),
    (0xC091, ''TLS_DHE_PSK_WITH_CAMELLIA_256_GCM_SHA384''),
    (0xC092, ''TLS_RSA_PSK_WITH_CAMELLIA_128_GCM_SHA256''),
    (0xC093, ''TLS_RSA_PSK_WITH_CAMELLIA_256_GCM_SHA384''),
    (0xC094, ''TLS_PSK_WITH_CAMELLIA_128_CBC_SHA256''),
    (0xC095, ''TLS_PSK_WITH_CAMELLIA_256_CBC_SHA384''),
    (0xC096, ''TLS_DHE_PSK_WITH_CAMELLIA_128_CBC_SHA256''),
    (0xC097, ''TLS_DHE_PSK_WITH_CAMELLIA_256_CBC_SHA384''),
    (0xC098, ''TLS_RSA_PSK_WITH_CAMELLIA_128_CBC_SHA256''),
    (0xC099, ''TLS_RSA_PSK_WITH_CAMELLIA_256_CBC_SHA384''),
    (0xC09A, ''TLS_ECDHE_PSK_WITH_CAMELLIA_128_CBC_SHA256''),
    (0xC09B, ''TLS_ECDHE_PSK_WITH_CAMELLIA_256_CBC_SHA384''),
    (0xC09C, ''TLS_RSA_WITH_AES_128_CCM''),
    (0xC09D, ''TLS_RSA_WITH_AES_256_CCM''),
    (0xC09E, ''TLS_DHE_RSA_WITH_AES_128_CCM''),
    (0xC09F, ''TLS_DHE_RSA_WITH_AES_256_CCM''),
    (0xC0A0, ''TLS_RSA_WITH_AES_128_CCM_8''),
    (0xC0A1, ''TLS_RSA_WITH_AES_256_CCM_8''),
    (0xC0A2, ''TLS_DHE_RSA_WITH_AES_128_CCM_8''),
    (0xC0A3, ''TLS_DHE_RSA_WITH_AES_256_CCM_8''),
    (0xC0A4, ''TLS_PSK_WITH_AES_128_CCM''),
    (0xC0A5, ''TLS_PSK_WITH_AES_256_CCM''),
    (0xC0A6, ''TLS_DHE_PSK_WITH_AES_128_CCM''),
    (0xC0A7, ''TLS_DHE_PSK_WITH_AES_256_CCM''),
    (0xC0A8, ''TLS_PSK_WITH_AES_128_CCM_8''),
    (0xC0A9, ''TLS_PSK_WITH_AES_256_CCM_8''),
    (0xC0AA, ''TLS_PSK_DHE_WITH_AES_128_CCM_8''),
    (0xC0AB, ''TLS_PSK_DHE_WITH_AES_256_CCM_8''),
    (0xC0AC, ''TLS_ECDHE_ECDSA_WITH_AES_128_CCM''),
    (0xC0AD, ''TLS_ECDHE_ECDSA_WITH_AES_256_CCM''),
    (0xC0AE, ''TLS_ECDHE_ECDSA_WITH_AES_128_CCM_8''),
    (0xC0AF, ''TLS_ECDHE_ECDSA_WITH_AES_256_CCM_8''),
    (0xCCA8, ''TLS_ECDHE_RSA_WITH_CHACHA20_POLY1305_SHA256''),
    (0xCCA9, ''TLS_ECDHE_ECDSA_WITH_CHACHA20_POLY1305_SHA256''),
    (0xCCAA, ''TLS_DHE_RSA_WITH_CHACHA20_POLY1305_SHA256''),
    (0xCCAB, ''TLS_PSK_WITH_CHACHA20_POLY1305_SHA256''),
    (0xCCAC, ''TLS_ECDHE_PSK_WITH_CHACHA20_POLY1305_SHA256''),
    (0xCCAD, ''TLS_DHE_PSK_WITH_CHACHA20_POLY1305_SHA256''),
    (0xCCAE, ''TLS_RSA_PSK_WITH_CHACHA20_POLY1305_SHA256''),
    (0x1301, ''TLS_AES_128_GCM_SHA256''),
    (0x1302, ''TLS_AES_256_GCM_SHA384''),
    (0x1303, ''TLS_CHACHA20_POLY1305_SHA256''),
    (0x1304, ''TLS_AES_128_CCM_SHA256''),
    (0x1305, ''TLS_AES_128_CCM_8_SHA256''),
    (0xFEFE, ''SSL_RSA_FIPS_WITH_DES_CBC_SHA''),
    (0xFEFF, ''SSL_RSA_FIPS_WITH_3DES_EDE_CBC_SHA''),
    (0xFF85, ''GOST2012-GOST8912-GOST8912''),
    (0xFF87, ''GOST2012-NULL-GOST12'')]"

definition g_ssl_ciphers :: "(int \<times> string) list" where
  "g_ssl_ciphers = g_ssl_ciphers_1 @ g_ssl_ciphers_2 @ g_ssl_ciphers_3 @ g_ssl_ciphers_4"

definition g_standard_openssl_ciphers_map_1 :: "(string \<times> string) list" where
  "g_standard_openssl_ciphers_map_1 = [
    (''SSL_DH_DSS_WITH_3DES_EDE_CBC_SHA'', ''DH-DSS-DES-CBC3-SHA''),
    (''SSL_DH_RSA_WITH_3DES_EDE_CBC_SHA'', ''DH-RSA-DES-CBC3-SHA''),
    (''SSL_DHE_DSS_WITH_3DES_EDE_CBC_SHA'', ''DHE-DSS-DES-CBC3-SHA''),
    (''SSL_DHE_RSA_WITH_3DES_EDE_CBC_SHA'', ''DHE-RSA-DES-CBC3-SHA''),
    (''SSL_DH_anon_WITH_RC4_128_MD5'', ''ADH-RC4-MD5''),
    (''SSL_DH_anon_WITH_3DES_EDE_CBC_SHA'', ''ADH-DES-CBC3-SHA''),
    (''TLS_RSA_WITH_NULL_MD5'', ''NULL-MD5''),
    (''TLS_RSA_WITH_NULL_SHA'', ''NULL-SHA''),
    (''TLS_RSA_WITH_RC4_128_MD5'', ''RC4-MD5''),
    (''TLS_RSA_WITH_RC4_128_SHA'', ''RC4-SHA''),
    (''TLS_RSA_WITH_IDEA_CBC_SHA'', ''IDEA-CBC-SHA''),
    (''TLS_RSA_WITH_DES_CBC_SHA'', ''DES-CBC-SHA''),
    (''TLS_RSA_WITH_3DES_EDE_CBC_SHA'', ''DES-CBC3-SHA''),
    (''TLS_DH_DSS_WITH_DES_CBC_SHA'', ''DH-DSS-DES-CBC-SHA''),
    (''TLS_DH_RSA_WITH_DES_CBC_SHA'', ''DH-RSA-DES-CBC-SHA''),
    (''TLS_DH_DSS_WITH_3DES_EDE_CBC_SHA'', ''DH-DSS-DES-CBC3-SHA''),
    (''TLS_DH_RSA_WITH_3DES_EDE_CBC_SHA'', ''DH-RSA-DES-CBC3-SHA''),
    (''TLS_DHE_DSS_WITH_DES_CBC_SHA'', ''EDH-DSS-DES-CBC-SHA''),
    (''TLS_DHE_RSA_WITH_DES_CBC_SHA'', ''EDH-RSA-DES-CBC-SHA''),
    (''TLS_DHE_DSS_WITH_3DES_EDE_CBC_SHA'', ''DHE-DSS-DES-CBC3-SHA''),
    (''TLS_DHE_RSA_WITH_3DES_EDE_CBC_SHA'', ''DHE-RSA-DES-CBC3-SHA''),
    (''TLS_DH_anon_WITH_RC4_128_MD5'', ''ADH-RC4-MD5''),
    (''TLS_DH_anon_WITH_DES_CBC_SHA'', ''ADH-DES-CBC-SHA''),
    (''TLS_DH_anon_WITH_3DES_EDE_CBC_SHA'', ''ADH-DES-CBC3-SHA''),
    (''TLS_RSA_WITH_AES_128_CBC_SHA'', ''AES128-SHA''),
    (''TLS_RSA_WITH_AES_256_CBC_SHA'', ''AES256-SHA''),
    (''TLS_DH_DSS_WITH_AES_128_CBC_SHA'', ''DH-DSS-AES128-SHA''),
    (''TLS_DH_DSS_WITH_AES_256_CBC_SHA'', ''DH-DSS-AES256-SHA''),
    (''TLS_DH_RSA_WITH_AES_128_CBC_SHA'', ''DH-RSA-AES128-SHA''),
    (''TLS_DH_RSA_WITH_AES_256_CBC_SHA'', ''DH-RSA-AES256-SHA''),
    (''TLS_DHE_DSS_WITH_AES_128_CBC_SHA'', ''DHE-DSS-AES128-SHA''),
    (''TLS_DHE_DSS_WITH_AES_256_CBC_SHA'', ''DHE-DSS-AES256-SHA''),
    (''TLS_DHE_RSA_WITH_AES_128_CBC_SHA'', ''DHE-RSA-AES128-SHA''),
    (''TLS_DHE_RSA_WITH_AES_256_CBC_SHA'', ''DHE-RSA-AES256-SHA''),
    (''TLS_DH_anon_WITH_AES_128_CBC_SHA'', ''ADH-AES128-SHA''),
    (''TLS_DH_anon_WITH_AES_256_CBC_SHA'', ''ADH-AES256-SHA''),
    (''TLS_RSA_WITH_CAMELLIA_128_CBC_SHA'', ''CAMELLIA128-SHA''),
    (''TLS_RSA_WITH_CAMELLIA_256_CBC_SHA'', ''CAMELLIA256-SHA''),
    (''TLS_DH_DSS_WITH_CAMELLIA_128_CBC_SHA'', ''DH-DSS-CAMELLIA128-SHA''),
    (''TLS_DH_DSS_WITH_CAMELLIA_256_CBC_SHA'', ''DH-DSS-CAMELLIA256-SHA''),
    (''TLS_DH_RSA_WITH_CAMELLIA_128_CBC_SHA'', ''DH-RSA-CAMELLIA128-SHA''),
    (''TLS_DH_RSA_WITH_CAMELLIA_256_CBC_SHA'', ''DH-RSA-CAMELLIA256-SHA''),
    (''TLS_DHE_DSS_WITH_CAMELLIA_128_CBC_SHA'', ''DHE-DSS-CAMELLIA128-SHA''),
    (''TLS_DHE_DSS_WITH_CAMELLIA_256_CBC_SHA'', ''DHE-DSS-CAMELLIA256-SHA''),
    (''TLS_DHE_RSA_WITH_CAMELLIA_128_CBC_SHA'', ''DHE-RSA-CAMELLIA128-SHA''),
    (''TLS_DHE_RSA_WITH_CAMELLIA_256_CBC_SHA'', ''DHE-RSA-CAMELLIA256-SHA''),
    (''TLS_DH_anon_WITH_CAMELLIA_128_CBC_SHA'', ''ADH-CAMELLIA128-SHA''),
    (''TLS_DH_anon_WITH_CAMELLIA_256_CBC_SHA'', ''ADH-CAMELLIA256-SHA''),
    (''TLS_RSA_WITH_SEED_CBC_SHA'', ''SEED-SHA''),
    (''TLS_DH_DSS_WITH_SEED_CBC_SHA'', ''DH-DSS-SEED-SHA''),
    (''TLS_DH_RSA_WITH_SEED_CBC_SHA'', ''DH-RSA-SEED-SHA''),
    (''TLS_DHE_DSS_WITH_SEED_CBC_SHA'', ''DHE-DSS-SEED-SHA''),
    (''TLS_DHE_RSA_WITH_SEED_CBC_SHA'', ''DHE-RSA-SEED-SHA''),
    (''TLS_DH_anon_WITH_SEED_CBC_SHA'', ''ADH-SEED-SHA''),
    (''TLS_GOSTR341094_WITH_28147_CNT_IMIT'', ''GOST94-GOST89-GOST89''),
    (''TLS_GOSTR341001_WITH_28147_CNT_IMIT'', ''GOST2001-GOST89-GOST89''),
    (''TLS_GOSTR341094_WITH_NULL_GOSTR3411'', ''GOST94-NULL-GOST94''),
    (''TLS_GOSTR341001_WITH_NULL_GOSTR3411'', ''GOST2001-NULL-GOST94''),
    (''TLS_DHE_DSS_WITH_RC4_128_SHA'', ''DHE-DSS-RC4-SHA''),
    (''TLS_ECDH_RSA_WITH_NULL_SHA'', ''ECDH-RSA-NULL-SHA''),
    (''TLS_ECDH_RSA_WITH_RC4_128_SHA'', ''ECDH-RSA-RC4-SHA''),
    (''TLS_ECDH_RSA_WITH_3DES_EDE_CBC_SHA'', ''ECDH-RSA-DES-CBC3-SHA''),
    (''TLS_ECDH_RSA_WITH_AES_128_CBC_SHA'', ''ECDH-RSA-AES128-SHA''),
    (''TLS_ECDH_RSA_WITH_AES_256_CBC_SHA'', ''ECDH-RSA-AES256-SHA''),
    (''TLS_ECDH_ECDSA_WITH_NULL_SHA'', ''ECDH-ECDSA-NULL-SHA''),
    (''TLS_ECDH_ECDSA_WITH_RC4_128_SHA'', ''ECDH-ECDSA-RC4-SHA''),
    (''TLS_ECDH_ECDSA_WITH_3DES_EDE_CBC_SHA'', ''ECDH-ECDSA-DES-CBC3-SHA''),
    (''TLS_ECDH_ECDSA_WITH_AES_128_CBC_SHA'', ''ECDH-ECDSA-AES128-SHA''),
    (''TLS_ECDH_ECDSA_WITH_AES_256_CBC_SHA'', ''ECDH-ECDSA-AES256-SHA''),
    (''TLS_ECDHE_RSA_WITH_NULL_SHA'', ''ECDHE-RSA-NULL-SHA''),
    (''TLS_ECDHE_RSA_WITH_RC4_128_SHA'', ''ECDHE-RSA-RC4-SHA''),
    (''TLS_ECDHE_RSA_WITH_3DES_EDE_CBC_SHA'', ''ECDHE-RSA-DES-CBC3-SHA''),
    (''TLS_ECDHE_RSA_WITH_AES_128_CBC_SHA'', ''ECDHE-RSA-AES128-SHA''),
    (''TLS_ECDHE_RSA_WITH_AES_256_CBC_SHA'', ''ECDHE-RSA-AES256-SHA''),
    (''TLS_ECDHE_ECDSA_WITH_NULL_SHA'', ''ECDHE-ECDSA-NULL-SHA''),
    (''TLS_ECDHE_ECDSA_WITH_RC4_128_SHA'', ''ECDHE-ECDSA-RC4-SHA''),
    (''TLS_ECDHE_ECDSA_WITH_3DES_EDE_CBC_SHA'', ''ECDHE-ECDSA-DES-CBC3-SHA''),
    (''TLS_ECDHE_ECDSA_WITH_AES_128_CBC_SHA'', ''ECDHE-ECDSA-AES128-SHA''),
    (''TLS_ECDHE_ECDSA_WITH_AES_256_CBC_SHA'', ''ECDHE-ECDSA-AES256-SHA''),
    (''TLS_ECDH_anon_WITH_NULL_SHA'', ''AECDH-NULL-SHA''),
    (''TLS_ECDH_anon_WITH_RC4_128_SHA'', ''AECDH-RC4-SHA'')]"

definition g_standard_openssl_ciphers_map_2 :: "(string \<times> string) list" where
  "g_standard_openssl_ciphers_map_2 = [
    (''TLS_ECDH_anon_WITH_3DES_EDE_CBC_SHA'', ''AECDH-DES-CBC3-SHA''),
    (''TLS_ECDH_anon_WITH_AES_128_CBC_SHA'', ''AECDH-AES128-SHA''),
    (''TLS_ECDH_anon_WITH_AES_256_CBC_SHA'', ''AECDH-AES256-SHA''),
    (''TLS_RSA_WITH_NULL_SHA256'', ''NULL-SHA256''),
    (''TLS_RSA_WITH_AES_128_CBC_SHA256'', ''AES128-SHA256''),
    (''TLS_RSA_WITH_AES_256_CBC_SHA256'', ''AES256-SHA256''),
    (''TLS_RSA_WITH_AES_128_GCM_SHA256'', ''AES128-GCM-SHA256''),
    (''TLS_RSA_WITH_AES_256_GCM_SHA384'', ''AES256-GCM-SHA384''),
    (''TLS_DH_RSA_WITH_AES_128_CBC_SHA256'', ''DH-RSA-AES128-SHA256''),
    (''TLS_DH_RSA_WITH_AES_256_CBC_SHA256'', ''DH-RSA-AES256-SHA256''),
    (''TLS_DH_RSA_WITH_AES_128_GCM_SHA256'', ''DH-RSA-AES128-GCM-SHA256''),
    (''TLS_DH_RSA_WITH_AES_256_GCM_SHA384'', ''DH-RSA-AES256-GCM-SHA384''),
    (''TLS_DH_DSS_WITH_AES_128_CBC_SHA256'', ''DH-DSS-AES128-SHA256''),
    (''TLS_DH_DSS_WITH_AES_256_CBC_SHA256'', ''DH-DSS-AES256-SHA256''),
    (''TLS_DH_DSS_WITH_AES_128_GCM_SHA256'', ''DH-DSS-AES128-GCM-SHA256''),
    (''TLS_DH_DSS_WITH_AES_256_GCM_SHA384'', ''DH-DSS-AES256-GCM-SHA384''),
    (''TLS_DHE_RSA_WITH_AES_128_CBC_SHA256'', ''DHE-RSA-AES128-SHA256''),
    (''TLS_DHE_RSA_WITH_AES_256_CBC_SHA256'', ''DHE-RSA-AES256-SHA256''),
    (''TLS_DHE_RSA_WITH_AES_128_GCM_SHA256'', ''DHE-RSA-AES128-GCM-SHA256''),
    (''TLS_DHE_RSA_WITH_AES_256_GCM_SHA384'', ''DHE-RSA-AES256-GCM-SHA384''),
    (''TLS_DHE_DSS_WITH_AES_128_CBC_SHA256'', ''DHE-DSS-AES128-SHA256''),
    (''TLS_DHE_DSS_WITH_AES_256_CBC_SHA256'', ''DHE-DSS-AES256-SHA256''),
    (''TLS_DHE_DSS_WITH_AES_128_GCM_SHA256'', ''DHE-DSS-AES128-GCM-SHA256''),
    (''TLS_DHE_DSS_WITH_AES_256_GCM_SHA384'', ''DHE-DSS-AES256-GCM-SHA384''),
    (''TLS_ECDH_RSA_WITH_AES_128_CBC_SHA256'', ''ECDH-RSA-AES128-SHA256''),
    (''TLS_ECDH_RSA_WITH_AES_256_CBC_SHA384'', ''ECDH-RSA-AES256-SHA384''),
    (''TLS_ECDH_RSA_WITH_AES_128_GCM_SHA256'', ''ECDH-RSA-AES128-GCM-SHA256''),
    (''TLS_ECDH_RSA_WITH_AES_256_GCM_SHA384'', ''ECDH-RSA-AES256-GCM-SHA384''),
    (''TLS_ECDH_ECDSA_WITH_AES_128_CBC_SHA256'', ''ECDH-ECDSA-AES128-SHA256''),
    (''TLS_ECDH_ECDSA_WITH_AES_256_CBC_SHA384'', ''ECDH-ECDSA-AES256-SHA384''),
    (''TLS_ECDH_ECDSA_WITH_AES_128_GCM_SHA256'', ''ECDH-ECDSA-AES128-GCM-SHA256''),
    (''TLS_ECDH_ECDSA_WITH_AES_256_GCM_SHA384'', ''ECDH-ECDSA-AES256-GCM-SHA384''),
    (''TLS_ECDHE_RSA_WITH_AES_128_CBC_SHA256'', ''ECDHE-RSA-AES128-SHA256''),
    (''TLS_ECDHE_RSA_WITH_AES_256_CBC_SHA384'', ''ECDHE-RSA-AES256-SHA384''),
    (''TLS_ECDHE_RSA_WITH_AES_128_GCM_SHA256'', ''ECDHE-RSA-AES128-GCM-SHA256''),
    (''TLS_ECDHE_RSA_WITH_AES_256_GCM_SHA384'', ''ECDHE-RSA-AES256-GCM-SHA384''),
    (''TLS_ECDHE_ECDSA_WITH_AES_128_CBC_SHA256'', ''ECDHE-ECDSA-AES128-SHA256''),
    (''TLS_ECDHE_ECDSA_WITH_AES_256_CBC_SHA384'', ''ECDHE-ECDSA-AES256-SHA384''),
    (''TLS_ECDHE_ECDSA_WITH_AES_128_GCM_SHA256'', ''ECDHE-ECDSA-AES128-GCM-SHA256''),
    (''TLS_ECDHE_ECDSA_WITH_AES_256_GCM_SHA384'', ''ECDHE-ECDSA-AES256-GCM-SHA384''),
    (''TLS_DH_anon_WITH_AES_128_CBC_SHA256'', ''ADH-AES128-SHA256''),
    (''TLS_DH_anon_WITH_AES_256_CBC_SHA256'', ''ADH-AES256-SHA256''),
    (''TLS_DH_anon_WITH_AES_128_GCM_SHA256'', ''ADH-AES128-GCM-SHA256''),
    (''TLS_DH_anon_WITH_AES_256_GCM_SHA384'', ''ADH-AES256-GCM-SHA384''),
    (''TLS_RSA_WITH_AES_128_CCM'', ''AES128-CCM''),
    (''TLS_RSA_WITH_AES_256_CCM'', ''AES256-CCM''),
    (''TLS_DHE_RSA_WITH_AES_128_CCM'', ''DHE-RSA-AES128-CCM''),
    (''TLS_DHE_RSA_WITH_AES_256_CCM'', ''DHE-RSA-AES256-CCM''),
    (''TLS_RSA_WITH_AES_128_CCM_8'', ''AES128-CCM8''),
    (''TLS_RSA_WITH_AES_256_CCM_8'', ''AES256-CCM8''),
    (''TLS_DHE_RSA_WITH_AES_128_CCM_8'', ''DHE-RSA-AES128-CCM8''),
    (''TLS_DHE_RSA_WITH_AES_256_CCM_8'', ''DHE-RSA-AES256-CCM8''),
    (''TLS_ECDHE_ECDSA_WITH_AES_128_CCM'', ''ECDHE-ECDSA-AES128-CCM''),
    (''TLS_ECDHE_ECDSA_WITH_AES_256_CCM'', ''ECDHE-ECDSA-AES256-CCM''),
    (''TLS_ECDHE_ECDSA_WITH_AES_128_CCM_8'', ''ECDHE-ECDSA-AES128-CCM8''),
    (''TLS_ECDHE_ECDSA_WITH_AES_256_CCM_8'', ''ECDHE-ECDSA-AES256-CCM8''),
    (''TLS_ECDHE_ECDSA_WITH_CAMELLIA_128_CBC_SHA256'', ''ECDHE-ECDSA-CAMELLIA128-SHA256''),
    (''TLS_ECDHE_ECDSA_WITH_CAMELLIA_256_CBC_SHA384'', ''ECDHE-ECDSA-CAMELLIA256-SHA384''),
    (''TLS_ECDH_ECDSA_WITH_CAMELLIA_128_CBC_SHA256'', ''ECDH-ECDSA-CAMELLIA128-SHA256''),
    (''TLS_ECDH_ECDSA_WITH_CAMELLIA_256_CBC_SHA384'', ''ECDH-ECDSA-CAMELLIA256-SHA384''),
    (''TLS_ECDHE_RSA_WITH_CAMELLIA_128_CBC_SHA256'', ''ECDHE-RSA-CAMELLIA128-SHA256''),
    (''TLS_ECDHE_RSA_WITH_CAMELLIA_256_CBC_SHA384'', ''ECDHE-RSA-CAMELLIA256-SHA384''),
    (''TLS_ECDH_RSA_WITH_CAMELLIA_128_CBC_SHA256'', ''ECDH-RSA-CAMELLIA128-SHA256''),
    (''TLS_ECDH_RSA_WITH_CAMELLIA_256_CBC_SHA384'', ''ECDH-RSA-CAMELLIA256-SHA384''),
    (''TLS_PSK_WITH_NULL_SHA'', ''PSK-NULL-SHA''),
    (''TLS_DHE_PSK_WITH_NULL_SHA'', ''DHE-PSK-NULL-SHA''),
    (''TLS_RSA_PSK_WITH_NULL_SHA'', ''RSA-PSK-NULL-SHA''),
    (''TLS_PSK_WITH_RC4_128_SHA'', ''PSK-RC4-SHA''),
    (''TLS_PSK_WITH_3DES_EDE_CBC_SHA'', ''PSK-3DES-EDE-CBC-SHA''),
    (''TLS_PSK_WITH_AES_128_CBC_SHA'', ''PSK-AES128-CBC-SHA''),
    (''TLS_PSK_WITH_AES_256_CBC_SHA'', ''PSK-AES256-CBC-SHA''),
    (''TLS_DHE_PSK_WITH_RC4_128_SHA'', ''DHE-PSK-RC4-SHA''),
    (''TLS_DHE_PSK_WITH_3DES_EDE_CBC_SHA'', ''DHE-PSK-3DES-EDE-CBC-SHA''),
    (''TLS_DHE_PSK_WITH_AES_128_CBC_SHA'', ''DHE-PSK-AES128-CBC-SHA''),
    (''TLS_DHE_PSK_WITH_AES_256_CBC_SHA'', ''DHE-PSK-AES256-CBC-SHA''),
    (''TLS_RSA_PSK_WITH_RC4_128_SHA'', ''RSA-PSK-RC4-SHA''),
    (''TLS_RSA_PSK_WITH_3DES_EDE_CBC_SHA'', ''RSA-PSK-3DES-EDE-CBC-SHA''),
    (''TLS_RSA_PSK_WITH_AES_128_CBC_SHA'', ''RSA-PSK-AES128-CBC-SHA''),
    (''TLS_RSA_PSK_WITH_AES_256_CBC_SHA'', ''RSA-PSK-AES256-CBC-SHA''),
    (''TLS_PSK_WITH_AES_128_GCM_SHA256'', ''PSK-AES128-GCM-SHA256''),
    (''TLS_PSK_WITH_AES_256_GCM_SHA384'', ''PSK-AES256-GCM-SHA384'')]"

definition g_standard_openssl_ciphers_map_3 :: "(string \<times> string) list" where
  "g_standard_openssl_ciphers_map_3 = [
    (''TLS_DHE_PSK_WITH_AES_128_GCM_SHA256'', ''DHE-PSK-AES128-GCM-SHA256''),
    (''TLS_DHE_PSK_WITH_AES_256_GCM_SHA384'', ''DHE-PSK-AES256-GCM-SHA384''),
    (''TLS_RSA_PSK_WITH_AES_128_GCM_SHA256'', ''RSA-PSK-AES128-GCM-SHA256''),
    (''TLS_RSA_PSK_WITH_AES_256_GCM_SHA384'', ''RSA-PSK-AES256-GCM-SHA384''),
    (''TLS_PSK_WITH_AES_128_CBC_SHA256'', ''PSK-AES128-CBC-SHA256''),
    (''TLS_PSK_WITH_AES_256_CBC_SHA384'', ''PSK-AES256-CBC-SHA384''),
    (''TLS_PSK_WITH_NULL_SHA256'', ''PSK-NULL-SHA256''),
    (''TLS_PSK_WITH_NULL_SHA384'', ''PSK-NULL-SHA384''),
    (''TLS_DHE_PSK_WITH_AES_128_CBC_SHA256'', ''DHE-PSK-AES128-CBC-SHA256''),
    (''TLS_DHE_PSK_WITH_AES_256_CBC_SHA384'', ''DHE-PSK-AES256-CBC-SHA384''),
    (''TLS_DHE_PSK_WITH_NULL_SHA256'', ''DHE-PSK-NULL-SHA256''),
    (''TLS_DHE_PSK_WITH_NULL_SHA384'', ''DHE-PSK-NULL-SHA384''),
    (''TLS_RSA_PSK_WITH_AES_128_CBC_SHA256'', ''RSA-PSK-AES128-CBC-SHA256''),
    (''TLS_RSA_PSK_WITH_AES_256_CBC_SHA384'', ''RSA-PSK-AES256-CBC-SHA384''),
    (''TLS_RSA_PSK_WITH_NULL_SHA256'', ''RSA-PSK-NULL-SHA256''),
    (''TLS_RSA_PSK_WITH_NULL_SHA384'', ''RSA-PSK-NULL-SHA384''),
    (''TLS_ECDHE_PSK_WITH_RC4_128_SHA'', ''ECDHE-PSK-RC4-SHA''),
    (''TLS_ECDHE_PSK_WITH_3DES_EDE_CBC_SHA'', ''ECDHE-PSK-3DES-EDE-CBC-SHA''),
    (''TLS_ECDHE_PSK_WITH_AES_128_CBC_SHA'', ''ECDHE-PSK-AES128-CBC-SHA''),
    (''TLS_ECDHE_PSK_WITH_AES_256_CBC_SHA'', ''ECDHE-PSK-AES256-CBC-SHA''),
    (''TLS_ECDHE_PSK_WITH_AES_128_CBC_SHA256'', ''ECDHE-PSK-AES128-CBC-SHA256''),
    (''TLS_ECDHE_PSK_WITH_AES_256_CBC_SHA384'', ''ECDHE-PSK-AES256-CBC-SHA384''),
    (''TLS_ECDHE_PSK_WITH_NULL_SHA'', ''ECDHE-PSK-NULL-SHA''),
    (''TLS_ECDHE_PSK_WITH_NULL_SHA256'', ''ECDHE-PSK-NULL-SHA256''),
    (''TLS_ECDHE_PSK_WITH_NULL_SHA384'', ''ECDHE-PSK-NULL-SHA384''),
    (''TLS_PSK_WITH_CAMELLIA_128_CBC_SHA256'', ''PSK-CAMELLIA128-SHA256''),
    (''TLS_PSK_WITH_CAMELLIA_256_CBC_SHA384'', ''PSK-CAMELLIA256-SHA384''),
    (''TLS_DHE_PSK_WITH_CAMELLIA_128_CBC_SHA256'', ''DHE-PSK-CAMELLIA128-SHA256''),
    (''TLS_DHE_PSK_WITH_CAMELLIA_256_CBC_SHA384'', ''DHE-PSK-CAMELLIA256-SHA384''),
    (''TLS_RSA_PSK_WITH_CAMELLIA_128_CBC_SHA256'', ''RSA-PSK-CAMELLIA128-SHA256''),
    (''TLS_RSA_PSK_WITH_CAMELLIA_256_CBC_SHA384'', ''RSA-PSK-CAMELLIA256-SHA384''),
    (''TLS_ECDHE_PSK_WITH_CAMELLIA_128_CBC_SHA256'', ''ECDHE-PSK-CAMELLIA128-SHA256''),
    (''TLS_ECDHE_PSK_WITH_CAMELLIA_256_CBC_SHA384'', ''ECDHE-PSK-CAMELLIA256-SHA384''),
    (''TLS_PSK_WITH_AES_128_CCM'', ''PSK-AES128-CCM''),
    (''TLS_PSK_WITH_AES_256_CCM'', ''PSK-AES256-CCM''),
    (''TLS_DHE_PSK_WITH_AES_128_CCM'', ''DHE-PSK-AES128-CCM''),
    (''TLS_DHE_PSK_WITH_AES_256_CCM'', ''DHE-PSK-AES256-CCM''),
    (''TLS_PSK_WITH_AES_128_CCM_8'', ''PSK-AES128-CCM8''),
    (''TLS_PSK_WITH_AES_256_CCM_8'', ''PSK-AES256-CCM8''),
    (''TLS_DHE_PSK_WITH_AES_128_CCM_8'', ''DHE-PSK-AES128-CCM8''),
    (''TLS_DHE_PSK_WITH_AES_256_CCM_8'', ''DHE-PSK-AES256-CCM8''),
    (''TLS_RSA_EXPORT_WITH_RC4_40_MD5'', ''EXP-RC4-MD5''),
    (''TLS_RSA_EXPORT_WITH_RC2_CBC_40_MD5'', ''EXP-RC2-CBC-MD5''),
    (''TLS_RSA_EXPORT_WITH_DES40_CBC_SHA'', ''EXP-DES-CBC-SHA''),
    (''TLS_DH_anon_EXPORT_WITH_DES40_CBC_SHA'', ''EXP-ADH-DES-CBC-SHA''),
    (''TLS_DH_anon_EXPORT_WITH_RC4_40_MD5'', ''EXP-ADH-RC4-MD5''),
    (''TLS_DHE_RSA_EXPORT_WITH_DES40_CBC_SHA'', ''EXP-EDH-RSA-DES-CBC-SHA''),
    (''TLS_DHE_DSS_EXPORT_WITH_DES40_CBC_SHA'', ''EXP-EDH-DSS-DES-CBC-SHA''),
    (''TLS_DH_DSS_EXPORT_WITH_DES40_CBC_SHA'', ''EXP-DH-DSS-DES-CBC-SHA''),
    (''TLS_DH_RSA_EXPORT_WITH_DES40_CBC_SHA'', ''EXP-DH-RSA-DES-CBC-SHA''),
    (''TLS_KRB5_WITH_DES_CBC_SHA'', ''KRB5-DES-CBC-SHA''),
    (''TLS_KRB5_WITH_3DES_EDE_CBC_SHA'', ''KRB5-DES-CBC3-SHA''),
    (''TLS_KRB5_WITH_RC4_128_SHA'', ''KRB5-RC4-SHA''),
    (''TLS_KRB5_WITH_IDEA_CBC_SHA'', ''KRB5-IDEA-CBC-SHA''),
    (''TLS_KRB5_WITH_DES_CBC_MD5'', ''KRB5-DES-CBC-MD5''),
    (''TLS_KRB5_WITH_3DES_EDE_CBC_MD5'', ''KRB5-DES-CBC3-MD5''),
    (''TLS_KRB5_WITH_RC4_128_MD5'', ''KRB5-RC4-MD5''),
    (''TLS_KRB5_WITH_IDEA_CBC_MD5'', ''KRB5-IDEA-CBC-MD5''),
    (''TLS_KRB5_EXPORT_WITH_DES_CBC_40_SHA'', ''EXP-KRB5-DES-CBC-SHA''),
    (''TLS_KRB5_EXPORT_WITH_RC2_CBC_40_SHA'', ''EXP-KRB5-RC2-CBC-SHA''),
    (''TLS_KRB5_EXPORT_WITH_RC4_40_SHA'', ''EXP-KRB5-RC4-SHA''),
    (''TLS_KRB5_EXPORT_WITH_DES_CBC_40_MD5'', ''EXP-KRB5-DES-CBC-MD5''),
    (''TLS_KRB5_EXPORT_WITH_RC2_CBC_40_MD5'', ''EXP-KRB5-RC2-CBC-MD5''),
    (''TLS_KRB5_EXPORT_WITH_RC4_40_MD5'', ''EXP-KRB5-RC4-MD5''),
    (''TLS_SRP_SHA_WITH_3DES_EDE_CBC_SHA'', ''SRP-3DES-EDE-CBC-SHA''),
    (''TLS_SRP_SHA_RSA_WITH_3DES_EDE_CBC_SHA'', ''SRP-RSA-3DES-EDE-CBC-SHA''),
    (''TLS_SRP_SHA_DSS_WITH_3DES_EDE_CBC_SHA'', ''SRP-DSS-3DES-EDE-CBC-SHA''),
    (''TLS_SRP_SHA_WITH_AES_128_CBC_SHA'', ''SRP-AES-128-CBC-SHA''),
    (''TLS_SRP_SHA_RSA_WITH_AES_128_CBC_SHA'', ''SRP-RSA-AES-128-CBC-SHA''),
    (''TLS_SRP_SHA_DSS_WITH_AES_128_CBC_SHA'', ''SRP-DSS-AES-128-CBC-SHA''),
    (''TLS_SRP_SHA_WITH_AES_256_CBC_SHA'', ''SRP-AES-256-CBC-SHA''),
    (''TLS_SRP_SHA_RSA_WITH_AES_256_CBC_SHA'', ''SRP-RSA-AES-256-CBC-SHA''),
    (''TLS_SRP_SHA_DSS_WITH_AES_256_CBC_SHA'', ''SRP-DSS-AES-256-CBC-SHA''),
    (''TLS_ECDHE_RSA_WITH_CHACHA20_POLY1305_SHA256'', ''ECDHE-RSA-CHACHA20-POLY1305''),
    (''TLS_ECDHE_ECDSA_WITH_CHACHA20_POLY1305_SHA256'', ''ECDHE-ECDSA-CHACHA20-POLY1305''),
    (''TLS_DHE_RSA_WITH_CHACHA20_POLY1305_SHA256'', ''DHE-RSA-CHACHA20-POLY1305''),
    (''TLS_PSK_WITH_CHACHA20_POLY1305_SHA256'', ''PSK-CHACHA20-POLY1305''),
    (''TLS_ECDHE_PSK_WITH_CHACHA20_POLY1305_SHA256'', ''ECDHE-PSK-CHACHA20-POLY1305''),
    (''TLS_DHE_PSK_WITH_CHACHA20_POLY1305_SHA256'', ''DHE-PSK-CHACHA20-POLY1305''),
    (''TLS_RSA_PSK_WITH_CHACHA20_POLY1305_SHA256'', ''RSA-PSK-CHACHA20-POLY1305'')]"

definition g_standard_openssl_ciphers_map :: "(string \<times> string) list" where
  "g_standard_openssl_ciphers_map = g_standard_openssl_ciphers_map_1 @ g_standard_openssl_ciphers_map_2 @ g_standard_openssl_ciphers_map_3"

section \<open>Lookup and cipher lists\<close>

definition GetCipherByHexCode :: "int \<Rightarrow> string option" where
  "GetCipherByHexCode hexcode =
     (case map_of g_ssl_ciphers hexcode of
        Some std_name \<Rightarrow>
          (case map_of g_standard_openssl_ciphers_map std_name of
             Some name \<Rightarrow> Some name
           | None \<Rightarrow> None)
      | None \<Rightarrow> None)"

text \<open>The loop body shared by both setters: the first name is appended alone, later ones after a colon.\<close>

definition append_cipher :: "string \<Rightarrow> string \<Rightarrow> string" where
  "append_cipher strs s = (if strs = [] then strs @ s else (strs @ '':'') @ s)"

fun cipher_strs_integer :: "string \<Rightarrow> int list \<Rightarrow> string" where
  "cipher_strs_integer strs [] = strs"
| "cipher_strs_integer strs (c # cs) =
     (case GetCipherByHexCode c of
        Some s \<Rightarrow> cipher_strs_integer (append_cipher strs s) cs
      | None \<Rightarrow> cipher_strs_integer strs cs)"

definition setCipherListInteger :: "(string \<Rightarrow> int) \<Rightarrow> int list \<Rightarrow> bool" where
  "setCipherListInteger SSL_set_cipher_list ciphers = (SSL_set_cipher_list (cipher_strs_integer [] ciphers) = 1)"

fun cipher_strs_string :: "string \<Rightarrow> string list \<Rightarrow> string" where
  "cipher_strs_string strs [] = strs"
| "cipher_strs_string strs (s # ss) = cipher_strs_string (append_cipher strs s) ss"

definition setCipherListString :: "(string \<Rightarrow> int) \<Rightarrow> string list \<Rightarrow> bool" where
  "setCipherListString SSL_set_cipher_list ciphers = (SSL_set_cipher_list (cipher_strs_string [] ciphers) = 1)"

section \<open>Comparing the names\<close>

fun char_key :: "string \<Rightarrow> int" where
  "char_key [] = 0"
| "char_key (c # s) = of_char c + 2 * char_key s"

lemma char_key_chars:
    "char_key (CHR ''-'' # s) = 45 + 2 * char_key s"
    "char_key (CHR ''0'' # s) = 48 + 2 * char_key s"
    "char_key (CHR ''1'' # s) = 49 + 2 * char_key s"
    "char_key (CHR ''2'' # s) = 50 + 2 * char_key s"
    "char_key (CHR ''3'' # s) = 51 + 2 * char_key s"
    "char_key (CHR ''4'' # s) = 52 + 2 * char_key s"
    "char_key (CHR ''5'' # s) = 53 + 2 * char_key s"
    "char_key (CHR ''6'' # s) = 54 + 2 * char_key s"
    "char_key (CHR ''7'' # s) = 55 + 2 * char_key s"
    "char_key (CHR ''8'' # s) = 56 + 2 * char_key s"
    "char_key (CHR ''9'' # s) = 57 + 2 * char_key s"
    "char_key (CHR ''A'' # s) = 65 + 2 * char_key s"
    "char_key (CHR ''B'' # s) = 66 + 2 * char_key s"
    "char_key (CHR ''C'' # s) = 67 + 2 * char_key s"
    "char_key (CHR ''D'' # s) = 68 + 2 * char_key s"
    "char_key (CHR ''E'' # s) = 69 + 2 * char_key s"
    "char_key (CHR ''F'' # s) = 70 + 2 * char_key s"
    "char_key (CHR ''G'' # s) = 71 + 2 * char_key s"
    "char_key (CHR ''H'' # s) = 72 + 2 * char_key s"
    "char_key (CHR ''I'' # s) = 73 + 2 * char_key s"
    "char_key (CHR ''K'' # s) = 75 + 2 * char_key s"
    "char_key (CHR ''L'' # s) = 76 + 2 * char_key s"
    "char_key (CHR ''M'' # s) = 77 + 2 * char_key s"
    "char_key (CHR ''N'' # s) = 78 + 2 * char_key s"
    "char_key (CHR ''O'' # s) = 79 + 2 * char_key s"
    "char_key (CHR ''P'' # s) = 80 + 2 * char_key s"
    "char_key (CHR ''R'' # s) = 82 + 2 * char_key s"
    "char_key (CHR ''S'' # s) = 83 + 2 * char_key s"
    "char_key (CHR ''T'' # s) = 84 + 2 * char_key s"
    "char_key (CHR ''U'' # s) = 85 + 2 * char_key s"
    "char_key (CHR ''V'' # s) = 86 + 2 * char_key s"
    "char_key (CHR ''W'' # s) = 87 + 2 * char_key s"
    "char_key (CHR ''X'' # s) = 88 + 2 * char_key s"
    "char_key (CHR ''Y'' # s) = 89 + 2 * char_key s"
    "char_key (CHR ''Z'' # s) = 90 + 2 * char_key s"
    "char_key (CHR ''_'' # s) = 95 + 2 * char_key s"
    "char_key (CHR ''a'' # s) = 97 + 2 * char_key s"
    "char_key (CHR ''n'' # s) = 110 + 2 * char_key s"
    "char_key (CHR ''o'' # s) = 111 + 2 * char_key s"
  by simp_all

lemmas key_eval = char_key_chars char_key.simps(1) list.map fst_conv snd_conv append.simps
  arith_simps mult_zero_right add_0_right

lemmas cipher_tables = g_ssl_ciphers_def g_ssl_ciphers_1_def g_ssl_ciphers_2_def g_ssl_ciphers_3_def g_ssl_ciphers_4_def
lemmas openssl_tables = g_standard_openssl_ciphers_map_def g_standard_openssl_ciphers_map_1_def
  g_standard_openssl_ciphers_map_2_def g_standard_openssl_ciphers_map_3_def

lemma distinct_keys: "distinct (map (\<lambda>x. char_key (f x)) xs) \<Longrightarrow> distinct (map f xs)"
  by (induction xs) auto

lemma cipher_codes_distinct: "distinct (map fst g_ssl_ciphers)"
  by (simp only: cipher_tables key_eval) simp

lemma cipher_names_distinct: "distinct (map snd g_ssl_ciphers)"
  by (rule distinct_keys, simp only: cipher_tables key_eval) simp

lemma openssl_keys_distinct: "distinct (map fst g_standard_openssl_ciphers_map)"
  by (rule distinct_keys, simp only: openssl_tables key_eval) simp

text \<open>The first six entries of the second table repeat OpenSSL names under an older standard name, which
  the first table does not use.\<close>

lemma openssl_split:
  "g_standard_openssl_ciphers_map =
     take 6 g_standard_openssl_ciphers_map_1 @
     (drop 6 g_standard_openssl_ciphers_map_1 @ g_standard_openssl_ciphers_map_2 @ g_standard_openssl_ciphers_map_3)"
  by (simp only: g_standard_openssl_ciphers_map_def append_assoc [symmetric] append_take_drop_id)

lemma openssl_names_distinct:
  "distinct (map snd (drop 6 g_standard_openssl_ciphers_map_1 @ g_standard_openssl_ciphers_map_2 @
     g_standard_openssl_ciphers_map_3))"
proof (rule distinct_keys)
  have drop: "drop 6 g_standard_openssl_ciphers_map_1 = tl (tl (tl (tl (tl (tl g_standard_openssl_ciphers_map_1)))))"
    by (simp add: drop_Suc eval_nat_numeral)
  show "distinct (map (\<lambda>x. char_key (snd x)) (drop 6 g_standard_openssl_ciphers_map_1 @ g_standard_openssl_ciphers_map_2 @
      g_standard_openssl_ciphers_map_3))"
    by (simp only: drop openssl_tables key_eval list.sel) simp
qed

lemma disjoint_keys:
  "set (map (\<lambda>x. char_key (f x)) xs) \<inter> set (map (\<lambda>y. char_key (g y)) ys) = {} \<Longrightarrow>
   set (map f xs) \<inter> set (map g ys) = {}"
  by (auto simp: disjoint_iff image_iff) (metis (no_types))

lemma openssl_aliases_unused:
  "set (map snd g_ssl_ciphers) \<inter> set (map fst (take 6 g_standard_openssl_ciphers_map_1)) = {}"
proof -
  have take: "take 6 (a # b # c # d # e # f # r) = [a, b, c, d, e, f]" for a b c d e f :: "string \<times> string" and r
    by simp
  have "set (map (\<lambda>x. char_key (snd x)) g_ssl_ciphers) \<inter>
    set (map (\<lambda>x. char_key (fst x)) (take 6 g_standard_openssl_ciphers_map_1)) = {}"
    by (simp only: take cipher_tables openssl_tables key_eval) simp
  then show ?thesis
    by (rule disjoint_keys)
qed

lemma distinct_snd_inj: "distinct (map snd xs) \<Longrightarrow> (a, n) \<in> set xs \<Longrightarrow> (b, n) \<in> set xs \<Longrightarrow> a = b"
  by (induction xs) (auto simp: image_iff)

lemma GetCipher_Some:
  assumes "GetCipherByHexCode c = Some v"
  obtains n where "(c, n) \<in> set g_ssl_ciphers" "(n, v) \<in> set g_standard_openssl_ciphers_map"
  using assms by (auto simp: GetCipherByHexCode_def split: option.splits dest!: map_of_SomeD)

lemma openssl_entry_used:
  assumes "(c, n) \<in> set g_ssl_ciphers" "(n, v) \<in> set g_standard_openssl_ciphers_map"
  shows "(n, v) \<in> set (drop 6 g_standard_openssl_ciphers_map_1 @ g_standard_openssl_ciphers_map_2 @
     g_standard_openssl_ciphers_map_3)"
proof -
  have "n \<in> set (map snd g_ssl_ciphers)"
    using assms(1) by force
  then have "n \<notin> set (map fst (take 6 g_standard_openssl_ciphers_map_1))"
    using openssl_aliases_unused by blast
  then have "(n, v) \<notin> set (take 6 g_standard_openssl_ciphers_map_1)"
    by force
  then show ?thesis
    using assms(2) unfolding openssl_split by simp
qed

section \<open>The list handed to OpenSSL\<close>

fun fields_of :: "string \<Rightarrow> string list" where
  "fields_of [] = [[]]"
| "fields_of (c # s) =
     (if c = CHR '':'' then [] # fields_of s
      else case fields_of s of [] \<Rightarrow> [[c]] | f # fs \<Rightarrow> (c # f) # fs)"

definition cipher_fields :: "string \<Rightarrow> string list" where
  "cipher_fields s = (if s = [] then [] else fields_of s)"

definition plain_name :: "string \<Rightarrow> bool" where
  "plain_name s \<longleftrightarrow> s \<noteq> [] \<and> list_all (\<lambda>c. c \<noteq> CHR '':'') s"

lemma fields_of_not_Nil [simp]: "fields_of s \<noteq> []"
  by (induction s) (auto split: list.split)

lemma fields_of_plain: "list_all (\<lambda>c. c \<noteq> CHR '':'') s \<Longrightarrow> fields_of s = [s]"
  by (induction s) auto

lemma fields_of_colon:
  "list_all (\<lambda>c. c \<noteq> CHR '':'') s \<Longrightarrow> fields_of (strs @ CHR '':'' # s) = fields_of strs @ [s]"
  by (induction strs) (auto simp: fields_of_plain split: list.split)

lemma cipher_fields_append:
  "plain_name s \<Longrightarrow> cipher_fields (append_cipher strs s) = cipher_fields strs @ [s]"
  by (simp add: cipher_fields_def append_cipher_def plain_name_def fields_of_plain fields_of_colon)

lemma cipher_fields_strings:
  "list_all plain_name ss \<Longrightarrow> cipher_fields (cipher_strs_string strs ss) = cipher_fields strs @ ss"
  by (induction ss arbitrary: strs) (simp_all add: cipher_fields_append)

text \<open>The integer setter is the string setter on the names found.\<close>

lemma cipher_strs_integer_eq:
  "cipher_strs_integer strs cs = cipher_strs_string strs (List.map_filter GetCipherByHexCode cs)"
  by (induction cs arbitrary: strs) (auto simp: List.map_filter_def split: option.split)

lemma openssl_names_plain: "list_all (\<lambda>x. plain_name (snd x)) g_standard_openssl_ciphers_map"
  by (simp add: openssl_tables plain_name_def)

lemma GetCipher_plain: "GetCipherByHexCode c = Some v \<Longrightarrow> plain_name v"
  using openssl_names_plain by (elim GetCipher_Some) (auto simp: list_all_iff)

lemma found_names_plain: "list_all plain_name (List.map_filter GetCipherByHexCode cs)"
  by (auto simp: list_all_iff List.map_filter_def intro: GetCipher_plain)

section \<open>Properties\<close>

text \<open>C16: The translation of cipher suites is injective: two TLS codes with the same OpenSSL name are the
  same code, so no suite offered by a client is confused with another one.\<close>

theorem cipher_names_injective:
  assumes "GetCipherByHexCode c1 = Some v" "GetCipherByHexCode c2 = Some v"
  shows "c1 = c2"
proof -
  obtain n1 where n1: "(c1, n1) \<in> set g_ssl_ciphers" "(n1, v) \<in> set g_standard_openssl_ciphers_map"
    using assms(1) by (rule GetCipher_Some)
  obtain n2 where n2: "(c2, n2) \<in> set g_ssl_ciphers" "(n2, v) \<in> set g_standard_openssl_ciphers_map"
    using assms(2) by (rule GetCipher_Some)
  have "n1 = n2"
    using distinct_snd_inj [OF openssl_names_distinct openssl_entry_used [OF n1] openssl_entry_used [OF n2]] .
  then show ?thesis
    using distinct_snd_inj [OF cipher_names_distinct n1(1)] n2(1) by simp
qed

lemma GetCipherI:
  "(c, n) \<in> set g_ssl_ciphers \<Longrightarrow> (n, v) \<in> set g_standard_openssl_ciphers_map \<Longrightarrow> GetCipherByHexCode c = Some v"
  by (simp add: GetCipherByHexCode_def map_of_is_SomeI [OF cipher_codes_distinct]
      map_of_is_SomeI [OF openssl_keys_distinct])

lemmas nth_eval = nth_Cons_numeral nth_Cons_0 nth_Cons_Suc pred_numeral_simps numeral_One diff_numeral_special
  diff_self One_nat_def BitM.simps arith_simps diff_numeral_simps numeral_1_eq_Suc_0

lemma GetCipher_aes128: "GetCipherByHexCode 0x2F = Some ''AES128-SHA''"
proof (rule GetCipherI)
  have "g_ssl_ciphers_1 ! 46 = (0x2F, ''TLS_RSA_WITH_AES_128_CBC_SHA'')" "length g_ssl_ciphers_1 = 85"
    by (simp_all only: g_ssl_ciphers_1_def nth_eval list.size) simp
  then show "(0x2F, ''TLS_RSA_WITH_AES_128_CBC_SHA'') \<in> set g_ssl_ciphers"
    using nth_mem [of 46 g_ssl_ciphers_1] by (simp add: g_ssl_ciphers_def)
  have "g_standard_openssl_ciphers_map_1 ! 24 = (''TLS_RSA_WITH_AES_128_CBC_SHA'', ''AES128-SHA'')" "length g_standard_openssl_ciphers_map_1 = 81"
    by (simp_all only: g_standard_openssl_ciphers_map_1_def nth_eval list.size) simp
  then show "(''TLS_RSA_WITH_AES_128_CBC_SHA'', ''AES128-SHA'') \<in> set g_standard_openssl_ciphers_map"
    using nth_mem [of 24 g_standard_openssl_ciphers_map_1] by (simp add: g_standard_openssl_ciphers_map_def)
qed

theorem cipher_names_injective_witness:
  "GetCipherByHexCode 0x2F = Some ''AES128-SHA'' \<and> {c. GetCipherByHexCode c = Some ''AES128-SHA''} = {0x2F}"
proof (intro conjI set_eqI)
  show "GetCipherByHexCode 0x2F = Some ''AES128-SHA''"
    by (rule GetCipher_aes128)
  show "c \<in> {c. GetCipherByHexCode c = Some ''AES128-SHA''} \<longleftrightarrow> c \<in> {0x2F}" for c
    unfolding mem_Collect_eq singleton_iff
    by (rule iffI, erule cipher_names_injective [OF _ GetCipher_aes128], erule ssubst, rule GetCipher_aes128)
qed

text \<open>\<open>setCipherListInteger\<close> passes OpenSSL exactly the known ciphers of the given list in their order: its
  result is that of \<open>SSL_set_cipher_list\<close> on a string whose colon-separated fields are the OpenSSL names
  of the codes that have one.\<close>

theorem cipher_list_fields:
  "\<exists>strs. setCipherListInteger f cs = (f strs = 1) \<and>
     cipher_fields strs = List.map_filter GetCipherByHexCode cs"
proof (intro exI conjI)
  show "setCipherListInteger f cs = (f (cipher_strs_integer [] cs) = 1)"
    by (simp add: setCipherListInteger_def)
  show "cipher_fields (cipher_strs_integer [] cs) = List.map_filter GetCipherByHexCode cs"
    using cipher_fields_strings [OF found_names_plain, of "[]"]
    by (simp add: cipher_strs_integer_eq cipher_fields_def)
qed

end
