(* ===== verification/NattanClientHello.thy ===== *)
theory NattanClientHello
  imports CaskPrelude
begin

text \<open>
  The TLS ClientHello parser of \<open>net/ssl/ClientHelloParser.h\<close>. The parsed memory is a list of bytes, pointers
  are offsets into it, and a read or write outside is \<open>OutOfBounds\<close>. \<open>short\<close> is a 16-bit word in
  little-endian memory order and is signed when promoted; \<open>char\<close> is a signed 8-bit word. The code converts
  the header fields in place, so \<open>parse\<close> returns the changed memory too. The extension loop moves by a signed
  length and need not end: its result is an \<open>option\<close>, \<open>None\<close> when it never returns.
\<close>

section \<open>Memory\<close>

type_synonym byte = "8 word"
type_synonym short = "16 word"

definition byte_at :: "byte list \<Rightarrow> int \<Rightarrow> byte res" where
  "byte_at mem p = (if 0 \<le> p \<and> p < int (length mem) then Inr (mem ! nat p) else Inl OutOfBounds)"

definition short_at :: "byte list \<Rightarrow> int \<Rightarrow> short res" where
  "short_at mem p = rbind (byte_at mem p) (\<lambda>lo. rbind (byte_at mem (p + 1)) (\<lambda>hi. Inr (word_cat hi lo)))"

definition ntohs :: "short \<Rightarrow> short" where
  "ntohs w = word_cat (ucast w :: byte) (ucast (drop_bit 8 w) :: byte)"

definition put_short :: "int \<Rightarrow> short \<Rightarrow> byte list \<Rightarrow> byte list res" where
  "put_short p w mem =
     (if 0 \<le> p \<and> p + 1 < int (length mem)
      then Inr (mem[nat p := ucast w, nat (p + 1) := ucast (drop_bit 8 w)])
      else Inl OutOfBounds)"

text \<open>\<open>ntohs(*((short*) cur))\<close>, and the in-place conversion \<open>x->f = ntohs(x->f)\<close>.\<close>

definition net_short :: "byte list \<Rightarrow> int \<Rightarrow> short res" where
  "net_short mem p = rbind (short_at mem p) (\<lambda>w. Inr (ntohs w))"

definition swap_short :: "int \<Rightarrow> byte list \<Rightarrow> byte list res" where
  "swap_short p mem = rbind (net_short mem p) (\<lambda>w. put_short p w mem)"

section \<open>The parser\<close>

record hello =
  fVersion :: int
  fCiphers :: "int list"
  fServer :: "byte list"
  bCompleted :: bool

definition hello_init :: hello where
  "hello_init = \<lparr>fVersion = -1, fCiphers = [], fServer = [], bCompleted = False\<rparr>"

definition CONTENT_TYPE_HANDSHAKE :: byte where
  "CONTENT_TYPE_HANDSHAKE = 22"

definition sizeof_Recoder :: int where
  "sizeof_Recoder = 5"

definition sizeof_HandshakeClientHello :: int where
  "sizeof_HandshakeClientHello = 39"

text \<open>The loop over the cipher suites: \<open>n\<close> entries are left, \<open>p\<close> is the address of the next one.\<close>

fun ciphers_loop :: "nat \<Rightarrow> byte list \<Rightarrow> int \<Rightarrow> int list \<Rightarrow> int list res" where
  "ciphers_loop 0 mem p cs = Inr cs"
| "ciphers_loop (Suc n) mem p cs =
     rbind (net_short mem p) (\<lambda>c. ciphers_loop n mem (p + 2) (cs @ [uint c]))"

text \<open>\<open>std::string(cur, cur + name_length)\<close>: a negative length throws \<open>std::length_error\<close>.\<close>

definition string_at :: "byte list \<Rightarrow> int \<Rightarrow> int \<Rightarrow> byte list res" where
  "string_at mem p n =
     (if n < 0 then Inl (Panic ''length_error'')
      else if 0 \<le> p \<and> p + n \<le> int (length mem) then Inr (take (nat n) (drop (nat p) mem))
      else Inl OutOfBounds)"

text \<open>The server name extension, from behind its type and length.\<close>

definition server_name :: "byte list \<Rightarrow> int \<Rightarrow> byte list res" where
  "server_name mem cur =
     rbind (net_short mem cur) (\<lambda>list_length.
     rbind (byte_at mem (cur + 2)) (\<lambda>type.
     rbind (net_short mem (cur + 3)) (\<lambda>name_length.
       string_at mem (cur + 5) (sint name_length))))"

partial_function (option) ext_loop :: "byte list \<Rightarrow> int \<Rightarrow> int \<Rightarrow> byte list \<Rightarrow> byte list res option" where
  "ext_loop mem cur stop server =
     (if \<not> cur < stop then Some (Inr server)
      else case rbind (net_short mem cur) (\<lambda>type. rbind (net_short mem (cur + 2)) (\<lambda>len. Inr (type, len))) of
             Inl f \<Rightarrow> Some (Inl f)
           | Inr (type, len) \<Rightarrow>
               if type = 0 then Some (server_name mem (cur + 4))
               else ext_loop mem (cur + 4 + sint len) stop server)"

text \<open>Everything between the two tests for more data and the extension loop: session id, cipher suites,
  compression methods and the length of the extensions; the result is the list of ciphers and the
  position of the first extension.\<close>

definition parse_body :: "byte list \<Rightarrow> hello \<Rightarrow> (int list \<times> int) res" where
  "parse_body mem st =
     (let cur = sizeof_Recoder in
      rbind (byte_at mem (cur + 38)) (\<lambda>session_length.
      let cur = cur + sizeof_HandshakeClientHello + sint session_length in
      rbind (net_short mem cur) (\<lambda>ciphers_length.
      let cur = cur + 2; n = sint ciphers_length div 2 in
      rbind (ciphers_loop (nat n) mem cur (fCiphers st)) (\<lambda>cs.
      let cur = cur + sint ciphers_length in
      rbind (byte_at mem cur) (\<lambda>compression_length.
      let cur = cur + 1 + sint compression_length in
      rbind (net_short mem cur) (\<lambda>extension_length. Inr (cs, cur + 2)))))))"

definition parse_hello :: "byte list \<Rightarrow> nat \<Rightarrow> hello \<Rightarrow> (int \<times> byte list \<times> hello) res option" where
  "parse_hello mem len st =
     (case rbind (swap_short (sizeof_Recoder + 4) mem) (\<lambda>mem.
             rbind (parse_body mem st) (\<lambda>(cs, cur). Inr (mem, cs, cur))) of
        Inl f \<Rightarrow> Some (Inl f)
      | Inr (mem, cs, cur) \<Rightarrow>
          (case ext_loop mem cur (int len) (fServer st) of
             None \<Rightarrow> None
           | Some r \<Rightarrow> Some (rbind r (\<lambda>server.
               Inr (0, mem, st\<lparr>fCiphers := cs, fServer := server, bCompleted := True\<rparr>)))))"

definition parse :: "byte list \<Rightarrow> nat \<Rightarrow> hello \<Rightarrow> (int \<times> byte list \<times> hello) res option" where
  "parse data len st =
     (if int len < sizeof_Recoder then Some (Inr (1, data, st))
      else case rbind (swap_short 1 data) (\<lambda>mem. rbind (swap_short 3 mem) (\<lambda>mem.
                rbind (byte_at mem 0) (\<lambda>type. rbind (short_at mem 3) (\<lambda>rlen. Inr (mem, type, rlen))))) of
             Inl f \<Rightarrow> Some (Inl f)
           | Inr (mem, type, rlen) \<Rightarrow>
               if type \<noteq> CONTENT_TYPE_HANDSHAKE then Some (Inr (-1, mem, st))
               else if int len < (sint rlen + sizeof_Recoder) mod 2 ^ 64 then Some (Inr (1, mem, st))
               else parse_hello mem len st)"

definition reset :: "hello \<Rightarrow> hello" where
  "reset st = st\<lparr>bCompleted := False, fVersion := -1, fCiphers := []\<rparr>"

definition eof :: "hello \<Rightarrow> bool" where
  "eof st = bCompleted st"

definition SNI :: "hello \<Rightarrow> byte list" where
  "SNI st = fServer st"

section \<open>Reading what an encoder wrote\<close>

definition be16 :: "nat \<Rightarrow> byte list" where
  "be16 n = [word_of_nat (n div 256), word_of_nat (n mod 256)]"

lemma be16_length [simp]: "length (be16 n) = 2"
  by (simp add: be16_def)

lemma low_byte_cat: "(ucast (word_cat hi lo :: short) :: byte) = lo" for hi lo :: byte
  by (rule bit_word_eqI) (simp add: bit_simps)

lemma high_byte_cat: "(ucast (drop_bit 8 (word_cat hi lo :: short)) :: byte) = hi" for hi lo :: byte
  by (rule bit_word_eqI) (simp add: bit_simps)

lemma ntohs_cat: "ntohs (word_cat hi lo) = word_cat lo hi" for hi lo :: byte
  by (simp only: ntohs_def low_byte_cat high_byte_cat)

lemma cat_of_nat:
  assumes "n < 65536"
  shows "(word_cat (word_of_nat (n div 256) :: byte) (word_of_nat (n mod 256) :: byte) :: short) = word_of_nat n"
proof -
  have "uint (word_of_nat (n div 256) :: byte) = int (n div 256)" "uint (word_of_nat (n mod 256) :: byte) = int (n mod 256)"
    using assms by (simp_all add: unsigned_of_nat take_bit_nat_eq_self_iff less_mult_imp_div_less)
  then have "(word_cat (word_of_nat (n div 256) :: byte) (word_of_nat (n mod 256) :: byte) :: short) =
     word_of_int (256 * int (n div 256) + int (n mod 256))"
    unfolding word_cat_eq' by (simp add: concat_bit_eq push_bit_eq_mult take_bit_eq_mod)
  also have "256 * int (n div 256) + int (n mod 256) = int n"
    by (metis mult_div_mod_eq of_nat_add of_nat_mult of_nat_numeral)
  finally show ?thesis by simp
qed

lemma sint_short: "n < 32768 \<Longrightarrow> sint (word_of_nat n :: short) = int n"
  by (simp add: signed_of_nat signed_take_bit_int_eq_self)

lemma sint_byte: "n < 128 \<Longrightarrow> sint (word_of_nat n :: byte) = int n"
  by (simp add: signed_of_nat signed_take_bit_int_eq_self)

lemma uint_short: "n < 65536 \<Longrightarrow> uint (word_of_nat n :: short) = int n"
  by (simp add: unsigned_of_nat take_bit_nat_eq_self_iff)

lemma byte_at_append [simp]: "byte_at (pre @ b # post) (int (length pre)) = Inr b"
  by (simp add: byte_at_def)

lemma byte_at_append_Suc [simp]: "byte_at (pre @ a # b # post) (int (length pre) + 1) = Inr b"
  by (simp add: byte_at_def nat_add_distrib nth_append)

lemma byte_at_prefix: "p < length pre \<Longrightarrow> byte_at (pre @ post) (int p) = Inr (pre ! p)"
  by (simp add: byte_at_def nth_append)

lemma net_short_append:
  assumes "n < 65536"
  shows "net_short (pre @ be16 n @ post) (int (length pre)) = Inr (word_of_nat n)"
  using cat_of_nat [OF assms] by (simp add: net_short_def short_at_def be16_def ntohs_cat)

lemma net_short_at:
  "n < 65536 \<Longrightarrow> p = int (length pre) \<Longrightarrow> net_short (pre @ be16 n @ post) p = Inr (word_of_nat n)"
  by (simp add: net_short_append)

lemma ciphers_loop_encoded:
  assumes "\<forall>c\<in>set cs. c < 65536" "p = int (length pre)"
  shows "ciphers_loop (length cs) (pre @ concat (map be16 cs) @ post) p acc = Inr (acc @ map int cs)"
  using assms
proof (induction cs arbitrary: pre p acc)
  case (Cons c cs)
  have "net_short (pre @ be16 c @ concat (map be16 cs) @ post) p = Inr (word_of_nat c)"
    using Cons.prems by (simp add: net_short_at)
  moreover have "ciphers_loop (length cs) ((pre @ be16 c) @ concat (map be16 cs) @ post) (p + 2) (acc @ [int c]) =
      Inr ((acc @ [int c]) @ map int cs)"
    using Cons.prems by (intro Cons.IH) auto
  ultimately show ?case
    using Cons.prems by (simp add: uint_short)
qed simp

lemma concat_be16_length [simp]: "length (concat (map be16 cs)) = 2 * length cs"
  by (induction cs) auto

lemma parse_body_encoded:
  assumes h: "length h = 44" "h ! 43 = word_of_nat (length sid)" "length sid < 128" "length cmp < 128"
    and cs: "\<forall>c\<in>set cs. c < 65536" "2 * length cs < 32768"
    and mem: "mem = h @ sid @ be16 (2 * length cs) @ concat (map be16 cs) @ word_of_nat (length cmp) # cmp @ tail"
  shows "parse_body mem st =
    (let p = int (length mem - length tail) in rbind (net_short mem p) (\<lambda>_. Inr (fCiphers st @ map int cs, p + 2)))"
proof -
  let ?p1 = "h @ sid" and ?p2 = "h @ sid @ be16 (2 * length cs)"
  let ?p3 = "?p2 @ concat (map be16 cs)"
  have "byte_at mem 43 = Inr (word_of_nat (length sid))"
    using byte_at_prefix [of 43 h] h mem by simp
  moreover have "net_short mem (int (44 + length sid)) = Inr (word_of_nat (2 * length cs))"
    using net_short_at [of "2 * length cs" _ ?p1] cs h mem by simp
  moreover have "ciphers_loop (length cs) mem (int (46 + length sid)) (fCiphers st) = Inr (fCiphers st @ map int cs)"
    using ciphers_loop_encoded [OF cs(1), of _ ?p2] h mem by simp
  moreover have "byte_at mem (int (46 + length sid + 2 * length cs)) = Inr (word_of_nat (length cmp))"
    using byte_at_append [of ?p3] h mem by (simp add: add.assoc)
  moreover have "length mem - length tail = 47 + length sid + 2 * length cs + length cmp"
    using h mem by simp
  ultimately show ?thesis
    using h(3,4) sint_short [OF cs(2)]
    by (simp add: parse_body_def sizeof_Recoder_def sizeof_HandshakeClientHello_def Let_def sint_byte algebra_simps)
qed

definition ext_bytes :: "nat \<times> byte list \<Rightarrow> byte list" where
  "ext_bytes e = be16 (fst e) @ be16 (length (snd e)) @ snd e"

definition sni_body :: "byte list \<Rightarrow> byte list" where
  "sni_body name = be16 (length name + 3) @ 0 # be16 (length name) @ name"

definition other_ext :: "nat \<times> byte list \<Rightarrow> bool" where
  "other_ext e \<longleftrightarrow> 0 < fst e \<and> fst e < 65536 \<and> length (snd e) < 32768"

lemma ext_loop_other:
  assumes "other_ext e" "cur = int (length pre)" "cur < stop"
  shows "ext_loop (pre @ ext_bytes e @ post) cur stop server =
    ext_loop (pre @ ext_bytes e @ post) (int (length (pre @ ext_bytes e))) stop server"
proof -
  let ?m = "pre @ ext_bytes e @ post"
  have "net_short ?m cur = Inr (word_of_nat (fst e))"
    using net_short_at [of "fst e" cur pre] assms by (simp add: ext_bytes_def other_ext_def)
  moreover have "net_short ?m (cur + 2) = Inr (word_of_nat (length (snd e)))"
    using net_short_at [of "length (snd e)" "cur + 2" "pre @ be16 (fst e)"] assms
    by (simp add: ext_bytes_def other_ext_def)
  moreover have "(word_of_nat (fst e) :: short) \<noteq> 0"
    using assms(1) uint_short [of "fst e"] by (auto simp: other_ext_def)
  moreover have "sint (word_of_nat (length (snd e)) :: short) = int (length (snd e))"
    using assms(1) by (intro sint_short) (simp add: other_ext_def)
  ultimately show ?thesis
    using assms by (subst ext_loop.simps) (simp add: ext_bytes_def algebra_simps)
qed

lemma ext_loop_others:
  assumes "\<forall>e\<in>set es. other_ext e" "cur = int (length pre)" "int (length (pre @ concat (map ext_bytes es))) \<le> stop"
  shows "ext_loop (pre @ concat (map ext_bytes es) @ post) cur stop server =
    ext_loop (pre @ concat (map ext_bytes es) @ post) (int (length (pre @ concat (map ext_bytes es)))) stop server"
  using assms
proof (induction es arbitrary: pre cur)
  case (Cons e es)
  let ?r = "concat (map ext_bytes es) @ post"
  have "ext_loop (pre @ ext_bytes e @ ?r) cur stop server =
      ext_loop ((pre @ ext_bytes e) @ ?r) (int (length (pre @ ext_bytes e))) stop server"
    using ext_loop_other [of e cur pre stop ?r server] Cons.prems by (simp add: ext_bytes_def)
  also have "\<dots> = ext_loop ((pre @ ext_bytes e) @ ?r) (int (length ((pre @ ext_bytes e) @ concat (map ext_bytes es)))) stop server"
    using Cons.prems by (intro Cons.IH) auto
  finally show ?case by simp
qed simp

lemma ext_loop_end: "\<not> cur < stop \<Longrightarrow> ext_loop mem cur stop server = Some (Inr server)"
  by (simp add: ext_loop.simps)

lemma ext_loop_server:
  assumes "length name < 32765" "cur = int (length pre)" "cur < stop"
  shows "ext_loop (pre @ ext_bytes (0, sni_body name) @ post) cur stop server = Some (Inr name)"
proof -
  let ?m = "pre @ ext_bytes (0, sni_body name) @ post" and ?l = "length (sni_body name)"
  have l: "?l < 65536" "length name + 3 < 65536" "length name < 65536"
    using assms(1) by (simp_all add: sni_body_def)
  have "net_short ?m cur = Inr 0"
    using net_short_at [of 0 cur pre] assms by (simp add: ext_bytes_def)
  moreover have "net_short ?m (cur + 2) = Inr (word_of_nat ?l)"
    using net_short_at [OF l(1), of "cur + 2" "pre @ be16 0"] assms by (simp add: ext_bytes_def)
  moreover have "net_short ?m (cur + 4) = Inr (word_of_nat (length name + 3))"
    using net_short_at [OF l(2), of "cur + 4" "pre @ be16 0 @ be16 ?l"] assms by (simp add: ext_bytes_def sni_body_def)
  moreover have "byte_at ?m (cur + 6) = Inr 0"
    using byte_at_append [of "pre @ be16 0 @ be16 ?l @ be16 (length name + 3)"] assms
    by (simp add: ext_bytes_def sni_body_def)
  moreover have "net_short ?m (cur + 7) = Inr (word_of_nat (length name))"
    using net_short_at [OF l(3), of "cur + 7" "pre @ be16 0 @ be16 ?l @ be16 (length name + 3) @ [0]"] assms
    by (simp add: ext_bytes_def sni_body_def)
  moreover have "string_at ?m (cur + 9) (int (length name)) = Inr name"
    using assms by (simp add: string_at_def ext_bytes_def sni_body_def nat_add_distrib)
  ultimately show ?thesis
    using assms by (subst ext_loop.simps) (simp add: server_name_def sint_short add.assoc)
qed

section \<open>The header\<close>

text \<open>Converting a field in place swaps its two bytes.\<close>

lemma swap_short_eq:
  assumes "p + 1 < length mem"
  shows "swap_short (int p) mem = Inr (mem[p := mem ! (p + 1), p + 1 := mem ! p])"
proof -
  have "nat (int p + 1) = p + 1"
    by simp
  then show ?thesis
    using assms by (simp add: swap_short_def net_short_def short_at_def byte_at_def put_short_def ntohs_cat
        low_byte_cat high_byte_cat del: One_nat_def)
qed

text \<open>A ClientHello may end behind the compression methods (\<open>None\<close>), without a list of extensions.\<close>

definition ext_block :: "byte list option \<Rightarrow> byte list" where
  "ext_block e = (case e of None \<Rightarrow> [] | Some exts \<Rightarrow> be16 (length exts) @ exts)"

definition client_hello :: "nat \<Rightarrow> byte list \<Rightarrow> nat \<Rightarrow> byte list \<Rightarrow> byte list \<Rightarrow> nat list \<Rightarrow> byte list \<Rightarrow> byte list option \<Rightarrow> byte list" where
  "client_hello rv hl ver rnd sid cs cmp exts =
     (let body = 1 # hl @ be16 ver @ rnd @ word_of_nat (length sid) # sid @ be16 (2 * length cs) @ concat (map be16 cs) @
            word_of_nat (length cmp) # cmp @ ext_block exts
      in 22 # be16 rv @ be16 (length body) @ body)"

definition hello_exts :: "(nat \<times> byte list) list \<Rightarrow> (byte list \<times> byte list) option \<Rightarrow> byte list" where
  "hello_exts es sni =
     concat (map ext_bytes es) @ (case sni of None \<Rightarrow> [] | Some (name, post) \<Rightarrow> ext_bytes (0, sni_body name) @ post)"

lemma ext_loop_encoded:
  assumes "\<forall>e\<in>set es. other_ext e" "length (hello_exts es sni) < 32768" "mem = pre @ hello_exts es sni"
  shows "ext_loop mem (int (length pre)) (int (length mem)) server =
    Some (Inr (case sni of None \<Rightarrow> server | Some (name, post) \<Rightarrow> name))"
proof (cases sni)
  case None
  then show ?thesis
    using assms ext_loop_others [OF assms(1) refl, of pre "int (length mem)" "[]" server]
    by (simp add: hello_exts_def ext_loop_end)
next
  case (Some np)
  obtain name post where np: "np = (name, post)"
    by (cases np)
  let ?p = "pre @ concat (map ext_bytes es)"
  have m: "mem = ?p @ ext_bytes (0, sni_body name) @ post" "length name < 32765"
    using assms Some np by (simp_all add: hello_exts_def ext_bytes_def sni_body_def)
  have "ext_loop mem (int (length pre)) (int (length mem)) server = ext_loop mem (int (length ?p)) (int (length mem)) server"
    using ext_loop_others [OF assms(1) refl, of pre "int (length mem)" "ext_bytes (0, sni_body name) @ post"] m(1) by simp
  also have "\<dots> = Some (Inr name)"
    unfolding m(1) using m(2) by (intro ext_loop_server) (simp_all add: ext_bytes_def)
  finally show ?thesis
    using Some np by simp
qed

text \<open>The header after the two in-place conversions of \<open>parse\<close>.\<close>

definition swap_header :: "byte list \<Rightarrow> byte list" where
  "swap_header mem = mem[1 := mem ! 2, 2 := mem ! 1, 3 := mem ! 4, 4 := mem ! 3]"

lemma parse_header:
  assumes "5 \<le> length mem" "5 \<le> len"
  shows "parse mem len st =
    (let rlen = word_cat (mem ! 3) (mem ! 4) :: short
     in if mem ! 0 \<noteq> CONTENT_TYPE_HANDSHAKE then Some (Inr (-1, swap_header mem, st))
        else if int len < (sint rlen + 5) mod 2 ^ 64 then Some (Inr (1, swap_header mem, st))
        else parse_hello (swap_header mem) len st)"
proof -
  have "swap_short 1 mem = Inr (mem[1 := mem ! 2, 2 := mem ! 1])"
    using swap_short_eq [of 1 mem] assms by (simp add: numeral_2_eq_2)
  moreover have "swap_short 3 (mem[1 := mem ! 2, 2 := mem ! 1]) = Inr (swap_header mem)"
    using swap_short_eq [of 3 "mem[1 := mem ! 2, 2 := mem ! 1]"] assms by (simp add: swap_header_def)
  moreover have "byte_at (swap_header mem) 0 = Inr (mem ! 0)" "short_at (swap_header mem) 3 = Inr (word_cat (mem ! 3) (mem ! 4))"
    using assms by (auto simp add: byte_at_def short_at_def swap_header_def)
  ultimately show ?thesis
    using assms by (simp add: parse_def sizeof_Recoder_def Let_def)
qed

text \<open>The end of \<open>parse\<close>, given the result of the extension loop.\<close>

definition finish :: "byte list \<Rightarrow> int list \<Rightarrow> hello \<Rightarrow> byte list res option \<Rightarrow> (int \<times> byte list \<times> hello) res option" where
  "finish mem cs st r = map_option (\<lambda>r. rbind r (\<lambda>server.
     Inr (0, mem, st\<lparr>fCiphers := fCiphers st @ cs, fServer := server, bCompleted := True\<rparr>))) r"

definition read_exts :: "byte list \<Rightarrow> int list \<Rightarrow> hello \<Rightarrow> nat \<Rightarrow> (int \<times> byte list \<times> hello) res option" where
  "read_exts mem cs st p =
     (case net_short mem (int p) of
        Inl f \<Rightarrow> Some (Inl f)
      | Inr _ \<Rightarrow> finish mem cs st (ext_loop mem (int p + 2) (int (length mem)) (fServer st)))"

lemma parse_hello_encoded:
  assumes sizes: "length h = 44" "h ! 43 = word_of_nat (length sid)" "length sid < 128" "length cmp < 128"
    and cs: "\<forall>c\<in>set cs. c < 65536" and len: "length mem < 32768"
    and mem: "mem = h @ sid @ be16 (2 * length cs) @ concat (map be16 cs) @ word_of_nat (length cmp) # cmp @ tail"
  shows "\<exists>pre m. m = pre @ tail \<and> length m = length mem \<and> parse_hello mem (length mem) st =
    read_exts m (map int cs) st (length pre)"
proof -
  let ?h = "h[9 := h ! 10, 10 := h ! 9]"
  let ?r = "sid @ be16 (2 * length cs) @ concat (map be16 cs) @ word_of_nat (length cmp) # cmp"
  define m where "m = ?h @ ?r @ tail"
  have "swap_short 9 mem = Inr m"
    using swap_short_eq [of 9 mem] sizes mem by (simp add: m_def list_update_append nth_append)
  moreover have "parse_body m st = (let p = int (length m - length tail)
      in rbind (net_short m p) (\<lambda>_. Inr (fCiphers st @ map int cs, p + 2)))"
    using sizes cs len mem by (intro parse_body_encoded [of ?h sid cmp cs]) (simp_all add: m_def)
  moreover have l: "length m = length mem" "length m - length tail = length (?h @ ?r)"
    using mem by (simp_all add: m_def)
  ultimately have "parse_hello mem (length mem) st = read_exts m (map int cs) st (length (?h @ ?r))"
    by (simp add: parse_hello_def sizeof_Recoder_def read_exts_def finish_def Let_def split: option.split sum.split)
  moreover have "m = (?h @ ?r) @ tail"
    by (simp add: m_def)
  ultimately show ?thesis
    using l(1) by blast
qed

definition hello_sizes :: "byte list \<Rightarrow> byte list \<Rightarrow> byte list \<Rightarrow> nat list \<Rightarrow> byte list \<Rightarrow> bool" where
  "hello_sizes hl rnd sid cs cmp \<longleftrightarrow>
     length hl = 3 \<and> length rnd = 32 \<and> length sid < 128 \<and> length cmp < 128 \<and> list_all (\<lambda>c. c < 65536) cs"

lemma parse_encoded:
  assumes "hello_sizes hl rnd sid cs cmp" "mem = client_hello rv hl ver rnd sid cs cmp exts" "length mem < 32768"
  shows "\<exists>pre m. m = pre @ ext_block exts \<and> length m = length mem \<and> parse mem (length mem) st =
    read_exts m (map int cs) st (length pre)"
proof -
  let ?t = "sid @ be16 (2 * length cs) @ concat (map be16 cs) @ word_of_nat (length cmp) # cmp @ ext_block exts"
  have sz: "length hl = 3" "length rnd = 32" "length sid < 128" "length cmp < 128" "\<forall>c\<in>set cs. c < 65536"
    using assms(1) by (simp_all add: hello_sizes_def list_all_iff)
  define b where "b = length mem - 5"
  define h where "h = 22 # be16 rv @ be16 b @ 1 # hl @ be16 ver @ rnd @ [word_of_nat (length sid)]"
  have mem: "mem = h @ ?t"
    using sz assms(2) by (simp add: client_hello_def h_def b_def Let_def)
  have h: "length h = 44" "h ! 43 = word_of_nat (length sid)" "h ! 0 = CONTENT_TYPE_HANDSHAKE"
    "h ! 3 = word_of_nat (b div 256)" "h ! 4 = word_of_nat (b mod 256)"
    using sz by (simp_all add: h_def nth_append be16_def CONTENT_TYPE_HANDSHAKE_def)
  have len: "length mem = length h + length ?t"
    using mem by (metis length_append)
  then have b: "b < 32768" "5 \<le> length mem"
    using assms(3) h(1) unfolding b_def by linarith+
  have nth: "mem ! i = h ! i" if "i < 44" for i
    using mem h(1) that by (metis nth_append)
  have "sint (word_cat (word_of_nat (b div 256) :: byte) (word_of_nat (b mod 256) :: byte) :: short) = int b"
    using b by (subst cat_of_nat) (simp_all add: sint_short)
  then have "parse mem (length mem) st = parse_hello (swap_header mem) (length mem) st"
    using b h nth by (simp add: parse_header Let_def of_nat_diff b_def)
  moreover have "swap_header mem = swap_header h @ ?t"
    using h(1) nth by (subst mem) (simp add: swap_header_def list_update_append nth_append)
  moreover have "length (swap_header h) = 44" "swap_header h ! 43 = word_of_nat (length sid)"
    using h by (simp_all add: swap_header_def)
  ultimately show ?thesis
    using parse_hello_encoded [of "swap_header h" sid cmp cs "swap_header mem" "ext_block exts" st] sz assms(3) h(1) len
    by (simp add: swap_header_def)
qed

lemma parse_encoded_exts:
  assumes "hello_sizes hl rnd sid cs cmp" "mem = client_hello rv hl ver rnd sid cs cmp (Some exts)" "length mem < 32768"
  shows "\<exists>pre m. m = pre @ exts \<and> length m = length mem \<and> parse mem (length mem) st =
    finish m (map int cs) st (ext_loop m (int (length pre)) (int (length m)) (fServer st))"
proof -
  obtain pre m where "m = pre @ ext_block (Some exts)" and m: "length m = length mem"
    "parse mem (length mem) st = read_exts m (map int cs) st (length pre)"
    using parse_encoded [OF assms] by blast
  then have e: "m = pre @ be16 (length exts) @ exts"
    by (simp add: ext_block_def)
  have "length exts < 65536"
    using e m(1) assms(3) by simp
  then have "net_short m (int (length pre)) = Inr (word_of_nat (length exts))"
    using net_short_append e by blast
  then show ?thesis
    using e m by (intro exI [of _ "pre @ be16 (length exts)"] exI [of _ m] conjI)
      (simp_all add: read_exts_def add.commute)
qed

text \<open>Without extensions the parser takes the two bytes behind the record for their length.\<close>

lemma parse_encoded_none:
  assumes "hello_sizes hl rnd sid cs cmp" "mem = client_hello rv hl ver rnd sid cs cmp None" "length mem < 32768"
  shows "parse mem (length mem) st = Some (Inl OutOfBounds)"
  using parse_encoded [OF assms] by (auto simp: ext_block_def read_exts_def net_short_def short_at_def byte_at_def)

text \<open>An extension length of \<open>-4\<close> takes the loop back to the same extension.\<close>

lemma ext_loop_stuck:
  assumes "net_short mem cur = Inr t" "t \<noteq> 0" "net_short mem (cur + 2) = Inr (-4)" "cur < stop"
  shows "ext_loop mem cur stop server = None"
proof -
  have "\<not> (mem' = mem \<and> cur' = cur \<and> stop' = stop)" if "ext_loop mem' cur' stop' server' = Some y"
    for mem' cur' stop' server' y
    by (rule ext_loop.raw_induct [OF _ that, of "\<lambda>m c s v y. \<not> (m = mem \<and> c = cur \<and> s = stop)"],
        use assms in auto, blast)
  then show ?thesis
    by (cases "ext_loop mem cur stop server") blast+
qed

section \<open>Properties\<close>

text \<open>C15: The parser understands every ClientHello that has a list of extensions, and only those: on a handshake record
  below 32 KB with a session id and a list of compression methods of at most 127 bytes, it returns 0, is complete, has
  appended the cipher suites in order, and holds the server name when a server name extension is present, whatever
  other extensions come before and after it; a ClientHello without a list of extensions, which the protocol allows, makes it read
  behind the end of the record.\<close>

theorem parse_client_hello:
  assumes "hello_sizes hl rnd sid cs cmp" "mem = client_hello rv hl ver rnd sid cs cmp exts" "length mem < 32768"
  shows "(exts = None \<longrightarrow> parse mem (length mem) st = Some (Inl OutOfBounds)) \<and>
    (\<forall>es sni. (\<forall>e\<in>set es. other_ext e) \<and> exts = Some (hello_exts es sni) \<longrightarrow>
      (\<exists>mem'. parse mem (length mem) st = Some (Inr (0, mem',
        st\<lparr>fCiphers := fCiphers st @ map int cs,
           fServer := (case sni of None \<Rightarrow> fServer st | Some (name, post) \<Rightarrow> name), bCompleted := True\<rparr>))))"
proof (intro conjI allI impI)
  show "parse mem (length mem) st = Some (Inl OutOfBounds)" if "exts = None"
    using parse_encoded_none [OF assms(1) assms(2) [unfolded that] assms(3)] .
next
  fix es sni
  assume es: "(\<forall>e\<in>set es. other_ext e) \<and> exts = Some (hello_exts es sni)"
  then have c: "mem = client_hello rv hl ver rnd sid cs cmp (Some (hello_exts es sni))"
    using assms(2) by simp
  obtain pre m where m: "m = pre @ hello_exts es sni" "length m = length mem"
    "parse mem (length mem) st = finish m (map int cs) st (ext_loop m (int (length pre)) (int (length m)) (fServer st))"
    using parse_encoded_exts [OF assms(1) c assms(3)] by blast
  then have "length (hello_exts es sni) < 32768"
    using assms(3) by (metis add_lessD1 add.commute length_append)
  then show "\<exists>mem'. parse mem (length mem) st = Some (Inr (0, mem',
      st\<lparr>fCiphers := fCiphers st @ map int cs,
         fServer := (case sni of None \<Rightarrow> fServer st | Some (name, post) \<Rightarrow> name), bCompleted := True\<rparr>))"
    using ext_loop_encoded [OF _ _ m(1), of "fServer st"] es m(3) by (auto simp: finish_def)
qed

definition hello_example :: "byte list" where
  "hello_example = client_hello 0x301 [0, 0, 63] 0x303 (replicate 32 7) [] [0x2F, 0x1301] [0]
     (Some (hello_exts [(10, [1, 2])] (Some ([104, 105], [9]))))"

definition old_hello :: "byte list" where
  "old_hello = client_hello 0x301 [0, 0, 41] 0x303 (replicate 32 7) [] [0x2F] [0] None"

theorem parse_client_hello_witness:
  "length hello_example = 72 \<and>
   (\<exists>mem st. parse hello_example 72 hello_init = Some (Inr (0, mem, st)) \<and> SNI st = [104, 105] \<and> eof st \<and>
     fCiphers st = [0x2F, 0x1301]) \<and>
   length old_hello = 50 \<and> parse old_hello 50 hello_init = Some (Inl OutOfBounds)"
proof -
  have l: "length hello_example = 72" "length old_hello = 50"
    by (simp_all add: hello_example_def old_hello_def client_hello_def ext_block_def hello_exts_def ext_bytes_def sni_body_def)
  have z: "hello_sizes [0, 0, h] (replicate 32 7) [] [0x2F, 0x1301] [0]" "hello_sizes [0, 0, h] (replicate 32 7) [] [0x2F] [0]" for h
    by (simp_all add: hello_sizes_def)
  have "\<forall>e\<in>set [(10, [1, 2])]. other_ext e"
    by (simp add: other_ext_def)
  then have "\<exists>mem'. parse hello_example (length hello_example) hello_init = Some (Inr (0, mem',
      hello_init\<lparr>fCiphers := fCiphers hello_init @ map int [0x2F, 0x1301],
        fServer := (case Some ([104, 105], [9 :: byte]) of None \<Rightarrow> fServer hello_init | Some (name, post) \<Rightarrow> name),
        bCompleted := True\<rparr>))"
    using parse_client_hello [OF z(1) hello_example_def, THEN conjunct2, rule_format, OF _ conjI [OF _ refl], of hello_init] l(1)
    by simp
  moreover have "parse old_hello (length old_hello) hello_init = Some (Inl OutOfBounds)"
    using parse_client_hello [OF z(2) old_hello_def, of hello_init] l(2) by simp
  ultimately show ?thesis
    using l by (auto simp: SNI_def eof_def hello_init_def)
qed

text \<open>Some inputs keep the parser busy for ever: a ClientHello in which an extension other than the server
  name carries the length \<open>0xFFFC\<close>, that is \<open>-4\<close> as a \<open>short\<close>, after any well-formed extensions, makes
  \<open>parse\<close> not return.\<close>

theorem parse_can_loop_forever:
  assumes "hello_sizes hl rnd sid cs cmp" "\<forall>e\<in>set es. other_ext e" "0 < t" "t < 65536"
    and "mem = client_hello rv hl ver rnd sid cs cmp (Some (concat (map ext_bytes es) @ be16 t @ be16 0xFFFC @ post))"
    and "length mem < 32768"
  shows "parse mem (length mem) st = None"
proof -
  let ?x = "be16 t @ be16 0xFFFC @ post"
  obtain pre m where m: "m = pre @ concat (map ext_bytes es) @ ?x" "length m = length mem"
    "parse mem (length mem) st = finish m (map int cs) st (ext_loop m (int (length pre)) (int (length m)) (fServer st))"
    using parse_encoded_exts [OF assms(1,5,6)] by blast
  let ?p = "pre @ concat (map ext_bytes es)"
  have "net_short m (int (length ?p)) = Inr (word_of_nat t)"
    using net_short_at [OF assms(4), where pre = ?p and post = "be16 0xFFFC @ post"] m(1) by simp
  moreover have "net_short m (int (length ?p) + 2) = Inr (-4)"
    using net_short_at [where n = "0xFFFC" and p = "int (length ?p) + 2" and pre = "?p @ be16 t" and post = post] m(1) by simp
  moreover have "(word_of_nat t :: short) \<noteq> 0"
    using assms(3,4) uint_short [of t] by auto
  ultimately have "ext_loop m (int (length ?p)) (int (length m)) (fServer st) = None"
    using m(1) by (intro ext_loop_stuck) (auto simp: be16_def)
  moreover have "ext_loop m (int (length pre)) (int (length m)) (fServer st) = ext_loop m (int (length ?p)) (int (length m)) (fServer st)"
    using ext_loop_others [OF assms(2) refl, of pre "int (length m)" ?x] m(1) by simp
  ultimately show ?thesis
    using m(3) by (simp add: finish_def)
qed

theorem parse_can_loop_forever_witness:
  "parse (client_hello 0x301 [0, 0, 63] 0x303 (replicate 32 7) [] [0x2F] [0] (Some ([0, 10] @ [0xFF, 0xFC]))) 56 hello_init = None"
proof -
  let ?m = "client_hello 0x301 [0, 0, 63] 0x303 (replicate 32 7) [] [0x2F] [0] (Some (concat (map ext_bytes []) @ be16 10 @ be16 0xFFFC @ []))"
  have "length ?m = 56" "be16 10 = [0, 10]" "be16 0xFFFC = [0xFF, 0xFC]"
    by (simp_all add: client_hello_def ext_block_def be16_def)
  then show ?thesis
    using parse_can_loop_forever [where hl = "[0, 0, 63]" and rnd = "replicate 32 7" and sid = "[]" and cs = "[0x2F]" and
        cmp = "[0]" and es = "[]" and mem = ?m and rv = "0x301" and ver = "0x303" and t = 10 and post = "[]" and st = hello_init]
    by (simp add: hello_sizes_def)
qed

text \<open>A ClientHello that arrives in pieces is misread: when \<open>parse\<close> asks for more data it has already swapped
  the header fields in the buffer, so the next call on the same buffer takes the length with its
  two bytes exchanged, and asks for more again as long as less than that has arrived, however complete the
  record is.\<close>

theorem parse_again_swapped:
  assumes "5 \<le> len" "len \<le> length mem" "mem ! 0 = CONTENT_TYPE_HANDSHAKE"
    and "int len < (sint (word_cat (mem ! 3) (mem ! 4) :: short) + 5) mod 2 ^ 64"
    and "len \<le> len'" "int len' < (sint (word_cat (mem ! 4) (mem ! 3) :: short) + 5) mod 2 ^ 64"
  shows "\<exists>mem'. parse mem len st = Some (Inr (1, mem', st)) \<and>
    parse (mem' @ rest) len' st = Some (Inr (1, mem @ rest, st))"
proof -
  have mem: "5 \<le> length mem" "5 \<le> len'"
    using assms(1,2,5) by linarith+
  have sw: "swap_header (swap_header mem @ rest) = mem @ rest"
    using mem(1) by (intro nth_equalityI) (auto simp: swap_header_def nth_append nth_list_update split: if_splits)
  have "(swap_header mem @ rest) ! 0 = mem ! 0" "(swap_header mem @ rest) ! 3 = mem ! 4" "(swap_header mem @ rest) ! 4 = mem ! 3"
    using mem(1) by (auto simp: swap_header_def nth_append)
  moreover have "5 \<le> length (swap_header mem @ rest)"
    using mem(1) by (simp add: swap_header_def)
  ultimately show ?thesis
    using assms mem sw by (intro exI [of _ "swap_header mem"]) (simp add: parse_header Let_def)
qed

theorem parse_again_swapped_witness:
  "\<exists>mem'. parse (take 20 hello_example) 20 hello_init = Some (Inr (1, mem', hello_init)) \<and>
     parse (mem' @ drop 20 hello_example) 72 hello_init = Some (Inr (1, hello_example, hello_init))"
proof -
  have e: "hello_example ! 0 = 22" "hello_example ! 3 = 0" "hello_example ! 4 = 67" "length hello_example = 72"
    by (simp_all add: hello_example_def client_hello_def ext_block_def hello_exts_def ext_bytes_def sni_body_def be16_def)
  have "(word_cat (67 :: byte) (0 :: byte) :: short) = word_of_nat 17152" "sint (word_of_nat 17152 :: short) = int 17152"
    using cat_of_nat [of 17152] sint_short [of 17152] by simp_all
  then show ?thesis
    using parse_again_swapped [where len = 20 and mem = "take 20 hello_example" and len' = 72 and st = hello_init and
        rest = "drop 20 hello_example"] e
    by (simp add: CONTENT_TYPE_HANDSHAKE_def)
qed

end
