(* ===== verification/CaskHashMap.thy ===== *)
theory CaskHashMap
  imports CaskPrelude
begin

unbundle bit_operations_syntax

text \<open>
  \<open>hash_map.c\<close> and \<open>co_specs.c\<close>: the string-keyed hash map behind the coroutine-specific values. A key is the
  list of its bytes up to the terminating NUL, a value the bytes that \<open>memcpy\<close> stores. The table
  is a list of buckets; the intrusive list of a bucket is the list of its nodes in order
  (\<open>list_add_before(&h->head, ..)\<close> appends, \<open>list_delete\<close> removes; the ring lemmas of \<open>CaskList\<close> justify it).
  Hash values are 32-bit words, so \<open>key * 31 + c\<close> wraps. The name buffer of a node has 1024 bytes; a
  longer name is \<open>OutOfBounds\<close>. The capacity is doubled as a natural number: \<open>old_cap << 1\<close> leaves the
  range of \<open>int\<close> only at \<open>2^30\<close> entries.
\<close>

section \<open>Model\<close>

type_synonym byte = "8 word"
type_synonym hash_key = "32 word"

record node =
  key :: hash_key
  keyname :: "byte list"
  val :: "byte list"

record bucket =
  nodes :: "node list"
  bcount :: nat

record hash_map =
  capcity :: nat
  table :: "bucket list"
  hcount :: nat

definition HASH_MAP_DEFALUT_CAPCITY :: nat where
  "HASH_MAP_DEFALUT_CAPCITY = 16"

definition alloc_map_head :: bucket where
  "alloc_map_head = \<lparr>nodes = [], bcount = 0\<rparr>"

fun hash_loop :: "hash_key \<Rightarrow> byte list \<Rightarrow> hash_key" where
  "hash_loop k [] = k"
| "hash_loop k (c # s) = hash_loop (k * 31 + scast c) s"

definition string_hash :: "byte list \<Rightarrow> hash_key" where
  "string_hash s = hash_loop 0 s"

definition hash_map_init :: hash_map where
  "hash_map_init =
     \<lparr>capcity = HASH_MAP_DEFALUT_CAPCITY, table = replicate HASH_MAP_DEFALUT_CAPCITY alloc_map_head, hcount = 0\<rparr>"

text \<open>\<open>key & (map->capcity - 1)\<close>: the sign-extended key and the mask.\<close>

definition bucket_index :: "nat \<Rightarrow> hash_key \<Rightarrow> nat" where
  "bucket_index cap k = nat (sint k AND (int cap - 1))"

text \<open>\<open>strncmp(s, t, n) == 0\<close> on NUL-terminated strings.\<close>

fun strncmp_eq :: "nat \<Rightarrow> byte list \<Rightarrow> byte list \<Rightarrow> bool" where
  "strncmp_eq 0 s t = True"
| "strncmp_eq (Suc n) [] [] = True"
| "strncmp_eq (Suc n) (a # s) (b # t) = (a = b \<and> strncmp_eq n s t)"
| "strncmp_eq (Suc n) [] (b # t) = False"
| "strncmp_eq (Suc n) (a # s) [] = False"

definition matches :: "byte list \<Rightarrow> node \<Rightarrow> bool" where
  "matches name n \<longleftrightarrow> string_hash name = key n \<and> strncmp_eq (length name) name (keyname n)"

fun find_node :: "byte list \<Rightarrow> node list \<Rightarrow> node option" where
  "find_node name [] = None"
| "find_node name (n # ls) = (if matches name n then Some n else find_node name ls)"

definition hash_map_get :: "hash_map \<Rightarrow> byte list \<Rightarrow> byte list option" where
  "hash_map_get m name =
     (let h = table m ! bucket_index (capcity m) (string_hash name)
      in case find_node name (nodes h) of None \<Rightarrow> None | Some n \<Rightarrow> Some (val n))"

text \<open>The loop of \<open>hash_map_put\<close>: the first matching node gets the new value.\<close>

fun update_node :: "byte list \<Rightarrow> byte list \<Rightarrow> node list \<Rightarrow> node list option" where
  "update_node name v [] = None"
| "update_node name v (n # ls) =
     (if matches name n then Some (n\<lparr>val := v\<rparr> # ls) else map_option ((#) n) (update_node name v ls))"

definition bucket_add :: "nat \<Rightarrow> node \<Rightarrow> bucket list \<Rightarrow> bucket list" where
  "bucket_add i n t = t[i := \<lparr>nodes = nodes (t ! i) @ [n], bcount = bcount (t ! i) + 1\<rparr>]"

definition bucket_remove :: "nat \<Rightarrow> node \<Rightarrow> bucket list \<Rightarrow> bucket list" where
  "bucket_remove i n t = t[i := \<lparr>nodes = remove1 n (nodes (t ! i)), bcount = bcount (t ! i) - 1\<rparr>]"

text \<open>The two loops of \<open>hash_map_resize\<close>: over the nodes of bucket \<open>i\<close>, and over the old buckets.\<close>

fun rehash_bucket :: "nat \<Rightarrow> nat \<Rightarrow> node list \<Rightarrow> bucket list \<Rightarrow> bucket list" where
  "rehash_bucket cap i [] t = t"
| "rehash_bucket cap i (n # ls) t =
     (let idx = bucket_index cap (key n)
      in if idx = i then rehash_bucket cap i ls t
         else rehash_bucket cap i ls (bucket_add idx n (bucket_remove i n t)))"

definition rehash_loop :: "nat \<Rightarrow> nat \<Rightarrow> bucket list \<Rightarrow> bucket list" where
  "rehash_loop cap old t = fold (\<lambda>i t. rehash_bucket cap i (nodes (t ! i)) t) [0..<old] t"

definition hash_map_resize :: "hash_map \<Rightarrow> hash_map" where
  "hash_map_resize m =
     (let old_cap = capcity m; cap = 2 * old_cap
      in m\<lparr>capcity := cap, table := rehash_loop cap old_cap (table m @ replicate (cap - old_cap) alloc_map_head)\<rparr>)"

definition hash_map_put :: "hash_map \<Rightarrow> byte list \<Rightarrow> byte list \<Rightarrow> hash_map res" where
  "hash_map_put m name v =
     (let idx = bucket_index (capcity m) (string_hash name); h = table m ! idx
      in case update_node name v (nodes h) of
           Some ns \<Rightarrow> Inr (m\<lparr>table := (table m)[idx := h\<lparr>nodes := ns\<rparr>]\<rparr>)
         | None \<Rightarrow>
             (let m = (if 4 * hcount m \<ge> 3 * capcity m then hash_map_resize m else m);
                  idx = bucket_index (capcity m) (string_hash name)
              in if 1024 \<le> length name then Inl OutOfBounds
                 else Inr (m\<lparr>table := bucket_add idx \<lparr>key = string_hash name, keyname = name, val = v\<rparr> (table m),
                             hcount := hcount m + 1\<rparr>)))"

definition hash_map_del :: "hash_map \<Rightarrow> byte list \<Rightarrow> bool \<times> hash_map" where
  "hash_map_del m name =
     (let idx = bucket_index (capcity m) (string_hash name)
      in case find_node name (nodes (table m ! idx)) of
           None \<Rightarrow> (False, m)
         | Some n \<Rightarrow> (True, m\<lparr>table := bucket_remove idx n (table m), hcount := hcount m - 1\<rparr>))"

definition hash_map_size :: "hash_map \<Rightarrow> nat" where
  "hash_map_size m = hcount m"

definition hash_map_empty :: "hash_map \<Rightarrow> bool" where
  "hash_map_empty m = (hash_map_size m = 0)"

text \<open>\<open>hash_map_clearall\<close> from bucket \<open>i - 1\<close> down to 0.\<close>

fun clear_buckets :: "nat \<Rightarrow> hash_map \<Rightarrow> hash_map" where
  "clear_buckets 0 m = m"
| "clear_buckets (Suc i) m =
     (let h = table m ! i; n = length (nodes h)
      in clear_buckets i (m\<lparr>table := (table m)[i := \<lparr>nodes = [], bcount = bcount h - n\<rparr>], hcount := hcount m - n\<rparr>))"

definition hash_map_clear :: "hash_map \<Rightarrow> hash_map" where
  "hash_map_clear m = clear_buckets (capcity m) m"

definition hash_map_destory :: "hash_map \<Rightarrow> hash_map" where
  "hash_map_destory m = (clear_buckets (capcity m) m)\<lparr>capcity := 0, table := []\<rparr>"

text \<open>\<open>co_specs.c\<close>: the coroutine-specific values are one such map.\<close>

record co_specs =
  smap :: hash_map

definition alloc_co_specs :: co_specs where
  "alloc_co_specs = \<lparr>smap = hash_map_init\<rparr>"

definition co_specs_set :: "co_specs \<Rightarrow> byte list \<Rightarrow> byte list \<Rightarrow> co_specs res" where
  "co_specs_set s k v = rbind (hash_map_put (smap s) k v) (\<lambda>m. Inr (s\<lparr>smap := m\<rparr>))"

definition co_specs_get :: "co_specs \<Rightarrow> byte list \<Rightarrow> byte list option" where
  "co_specs_get s k = hash_map_get (smap s) k"

definition co_specs_del :: "co_specs \<Rightarrow> byte list \<Rightarrow> bool \<times> co_specs" where
  "co_specs_del s k = (let (r, m) = hash_map_del (smap s) k in (r, s\<lparr>smap := m\<rparr>))"

section \<open>Invariant and abstraction\<close>

definition hm_nodes :: "bucket list \<Rightarrow> node list" where
  "hm_nodes t = concat (map nodes t)"

definition placed :: "nat \<Rightarrow> bucket list \<Rightarrow> nat set \<Rightarrow> bool" where
  "placed cap t J \<longleftrightarrow> (\<forall>j\<in>J. j < length t \<longrightarrow> (\<forall>n\<in>set (nodes (t ! j)). bucket_index cap (key n) = j))"

definition sane :: "bucket list \<Rightarrow> bool" where
  "sane t \<longleftrightarrow> distinct (map keyname (hm_nodes t)) \<and> (\<forall>n\<in>set (hm_nodes t). key n = string_hash (keyname n)) \<and>
     (\<forall>b\<in>set t. bcount b = length (nodes b))"

definition hm_inv :: "hash_map \<Rightarrow> bool" where
  "hm_inv m \<longleftrightarrow> (\<exists>e. capcity m = 2 ^ e) \<and> length (table m) = capcity m \<and> hcount m = length (hm_nodes (table m)) \<and>
     sane (table m) \<and> placed (capcity m) (table m) UNIV"

definition hm_abs :: "hash_map \<Rightarrow> byte list \<rightharpoonup> byte list" where
  "hm_abs m = map_of (map (\<lambda>n. (keyname n, val n)) (hm_nodes (table m)))"

lemma bucket_index_less: "bucket_index (2 ^ e) k < 2 ^ e"
proof -
  have "sint k AND (int (2 ^ e) - 1) = take_bit e (sint k)"
    by (simp add: take_bit_eq_mask mask_eq_exp_minus_1)
  then show ?thesis
    by (simp add: bucket_index_def nat_less_iff)
qed

lemma hm_nodes_split:
  assumes "i < length t"
  shows "hm_nodes t = hm_nodes (take i t) @ nodes (t ! i) @ hm_nodes (drop (Suc i) t)"
proof -
  have "hm_nodes (take i t @ t ! i # drop (Suc i) t) = hm_nodes (take i t) @ nodes (t ! i) @ hm_nodes (drop (Suc i) t)"
    by (simp add: hm_nodes_def)
  then show ?thesis
    using id_take_nth_drop [OF assms] by simp
qed

lemma hm_nodes_update:
  "i < length t \<Longrightarrow> mset (hm_nodes (t[i := b])) + mset (nodes (t ! i)) = mset (hm_nodes t) + mset (nodes b)"
  using hm_nodes_split [of i t] hm_nodes_split [of i "t[i := b]"] by simp

lemma hm_nodes_nth: "i < length t \<Longrightarrow> n \<in> set (nodes (t ! i)) \<Longrightarrow> n \<in> set (hm_nodes t)"
  by (auto simp: hm_nodes_def)

lemma length_bucket_add [simp]: "length (bucket_add i n t) = length t"
  by (simp add: bucket_add_def)

lemma length_bucket_remove [simp]: "length (bucket_remove i n t) = length t"
  by (simp add: bucket_remove_def)

lemma bucket_add_mset: "i < length t \<Longrightarrow> mset (hm_nodes (bucket_add i n t)) = add_mset n (mset (hm_nodes t))"
  using hm_nodes_update [of i t "\<lparr>nodes = nodes (t ! i) @ [n], bcount = bcount (t ! i) + 1\<rparr>"]
  by (simp add: bucket_add_def)

lemma bucket_remove_mset:
  assumes "i < length t" "n \<in> set (nodes (t ! i))"
  shows "add_mset n (mset (hm_nodes (bucket_remove i n t))) = mset (hm_nodes t)"
  using hm_nodes_split [of i t] hm_nodes_split [of i "bucket_remove i n t"] assms
  by (simp add: bucket_remove_def)

lemma distinct_keynames_cong: "mset xs = mset ys \<Longrightarrow> distinct (map keyname xs) = distinct (map keyname ys)"
  by (metis mset_eq_imp_distinct_iff mset_map)

lemma distinct_nodes: "sane t \<Longrightarrow> i < length t \<Longrightarrow> distinct (nodes (t ! i))"
  using hm_nodes_split [of i t] by (auto simp: sane_def dest: distinct_map [THEN iffD1])

text \<open>Adding and removing nodes in a table that may be in the middle of a resize.\<close>

lemma bucket_add_sane:
  assumes "sane t" "i < length t" "keyname n \<notin> keyname ` set (hm_nodes t)" "key n = string_hash (keyname n)"
  shows "sane (bucket_add i n t)"
proof -
  have m: "mset (hm_nodes (bucket_add i n t)) = mset (n # hm_nodes t)"
    using bucket_add_mset [OF assms(2)] by simp
  have "distinct (map keyname (hm_nodes (bucket_add i n t)))"
    using assms distinct_keynames_cong [OF m] by (auto simp: sane_def)
  moreover have "set (hm_nodes (bucket_add i n t)) = insert n (set (hm_nodes t))"
    using m by (metis list.simps(15) set_mset_mset)
  moreover have "\<forall>b\<in>set (bucket_add i n t). bcount b = length (nodes b)"
    using assms(1,2) by (auto simp: sane_def bucket_add_def dest!: set_update_subset_insert [THEN subsetD])
  ultimately show ?thesis
    using assms by (auto simp: sane_def)
qed

lemma bucket_remove_sane:
  assumes "sane t" "i < length t" "n \<in> set (nodes (t ! i))"
  shows "sane (bucket_remove i n t)" "keyname n \<notin> keyname ` set (hm_nodes (bucket_remove i n t))"
    "set (hm_nodes t) = insert n (set (hm_nodes (bucket_remove i n t)))"
proof -
  have m: "mset (n # hm_nodes (bucket_remove i n t)) = mset (hm_nodes t)"
    using bucket_remove_mset [OF assms(2,3)] by simp
  have d: "distinct (map keyname (n # hm_nodes (bucket_remove i n t)))"
    using assms(1) distinct_keynames_cong [OF m] by (simp add: sane_def)
  show s: "set (hm_nodes t) = insert n (set (hm_nodes (bucket_remove i n t)))"
    using m by (metis list.simps(15) set_mset_mset)
  have "\<forall>b\<in>set (bucket_remove i n t). bcount b = length (nodes b)"
    using assms by (auto simp: sane_def bucket_remove_def length_remove1 dest!: set_update_subset_insert [THEN subsetD])
  then show "sane (bucket_remove i n t)"
    using d s assms(1) by (auto simp: sane_def)
  show "keyname n \<notin> keyname ` set (hm_nodes (bucket_remove i n t))"
    using d by simp
qed

lemma bucket_add_placed:
  "placed cap t J \<Longrightarrow> i < length t \<Longrightarrow> bucket_index cap (key n) = i \<Longrightarrow> placed cap (bucket_add i n t) J"
  by (auto simp: placed_def bucket_add_def nth_list_update)

lemma nodes_bucket_remove: "j < length t \<Longrightarrow> set (nodes (bucket_remove i n t ! j)) \<subseteq> set (nodes (t ! j))"
  by (cases "i = j") (auto simp: bucket_remove_def dest: set_remove1_subset [THEN subsetD])

lemma bucket_remove_placed: "placed cap t J \<Longrightarrow> placed cap (bucket_remove i n t) J"
  using nodes_bucket_remove [of _ t i n] by (fastforce simp: placed_def)

section \<open>Resizing\<close>

definition rehash_ok :: "nat \<Rightarrow> nat set \<Rightarrow> bucket list \<Rightarrow> bucket list \<Rightarrow> bool" where
  "rehash_ok cap J t0 t \<longleftrightarrow> length t = length t0 \<and> sane t \<and> placed cap t J \<and> mset (hm_nodes t) = mset (hm_nodes t0)"

lemma rehash_bucket_ok:
  assumes "rehash_ok cap J t0 t" "i < length t" "\<forall>k. bucket_index cap k < length t" "distinct ls"
    and "set ls \<subseteq> set (nodes (t ! i))" "\<forall>n\<in>set (nodes (t ! i)) - set ls. bucket_index cap (key n) = i"
  shows "rehash_ok cap (insert i J) t0 (rehash_bucket cap i ls t)"
  using assms
proof (induction ls arbitrary: t)
  case Nil
  then show ?case by (auto simp: rehash_ok_def placed_def)
next
  case (Cons n ls)
  let ?j = "bucket_index cap (key n)"
  show ?case
  proof (cases "?j = i")
    case True
    then show ?thesis
      using Cons by auto
  next
    case False
    let ?r = "bucket_remove i n t"
    let ?t = "bucket_add ?j n ?r"
    have n: "n \<in> set (nodes (t ! i))" "sane t" "distinct (nodes (t ! i))" "?j < length t"
      using Cons.prems distinct_nodes [of t i] by (auto simp: rehash_ok_def)
    note r = bucket_remove_sane [OF n(2) Cons.prems(2) n(1)]
    have "key n = string_hash (keyname n)"
      using n(1,2) hm_nodes_nth [OF Cons.prems(2)] by (auto simp: sane_def)
    then have "sane ?t"
      using r n(4) by (intro bucket_add_sane) auto
    moreover have "placed cap ?t J"
      using Cons.prems(1) n(4) by (intro bucket_add_placed bucket_remove_placed) (auto simp: rehash_ok_def)
    moreover have "mset (hm_nodes ?t) = mset (hm_nodes t)"
      using bucket_add_mset [of ?j ?r n] bucket_remove_mset [OF Cons.prems(2) n(1)] n(4) by simp
    ultimately have ok: "rehash_ok cap J t0 ?t"
      using Cons.prems(1) by (simp add: rehash_ok_def)
    have "nodes (?t ! i) = remove1 n (nodes (t ! i))"
      using False Cons.prems(2) by (simp add: bucket_add_def bucket_remove_def)
    then have "rehash_ok cap (insert i J) t0 (rehash_bucket cap i ls ?t)"
      using ok Cons.prems n(3) by (intro Cons.IH) (auto simp: set_remove1_eq)
    then show ?thesis
      using False by (simp add: Let_def)
  qed
qed

lemma rehash_loop_ok:
  assumes "rehash_ok cap {old..} t0 t" "old \<le> length t0" "\<forall>k. bucket_index cap k < length t0" "i \<le> old"
  shows "rehash_ok cap ({0..<i} \<union> {old..}) t0 (fold (\<lambda>i t. rehash_bucket cap i (nodes (t ! i)) t) [0..<i] t)"
  using assms(4)
proof (induction i)
  case (Suc i)
  let ?t = "fold (\<lambda>i t. rehash_bucket cap i (nodes (t ! i)) t) [0..<i] t"
  have ok: "rehash_ok cap ({0..<i} \<union> {old..}) t0 ?t"
    using Suc by simp
  then have "length ?t = length t0" "sane ?t"
    by (simp_all add: rehash_ok_def)
  then have "rehash_ok cap (insert i ({0..<i} \<union> {old..})) t0 (rehash_bucket cap i (nodes (?t ! i)) ?t)"
    using Suc.prems assms(2,3) ok distinct_nodes [of ?t i] by (intro rehash_bucket_ok) auto
  moreover have "insert i ({0..<i} \<union> {old..}) = {0..<Suc i} \<union> {old..}"
    by auto
  ultimately show ?case
    by simp
qed (use assms in simp)

lemma hash_map_resize_ok:
  assumes "hm_inv m"
  shows "hm_inv (hash_map_resize m)" "mset (hm_nodes (table (hash_map_resize m))) = mset (hm_nodes (table m))"
proof -
  obtain e where e: "capcity m = 2 ^ e"
    using assms by (auto simp: hm_inv_def)
  let ?cap = "2 * capcity m"
  let ?t0 = "table m @ replicate (?cap - capcity m) alloc_map_head"
  have empty: "nodes (?t0 ! j) = []" if "capcity m \<le> j" "j < length ?t0" for j
    using that assms by (simp add: nth_append alloc_map_head_def hm_inv_def)
  have "hm_nodes (replicate k alloc_map_head) = []" for k
    by (induction k) (simp_all add: hm_nodes_def alloc_map_head_def)
  then have nodes: "hm_nodes ?t0 = hm_nodes (table m)"
    by (simp add: hm_nodes_def)
  have len: "length ?t0 = ?cap"
    using assms by (simp add: hm_inv_def)
  have "sane ?t0"
    using assms nodes by (auto simp: hm_inv_def sane_def alloc_map_head_def)
  then have "rehash_ok ?cap {capcity m..} ?t0 ?t0"
    using empty by (auto simp: rehash_ok_def placed_def)
  moreover have "bucket_index ?cap k < length ?t0" for k
    using bucket_index_less [of "Suc e" k] e len by simp
  ultimately have "rehash_ok ?cap ({0..<capcity m} \<union> {capcity m..}) ?t0 (rehash_loop ?cap (capcity m) ?t0)"
    using len unfolding rehash_loop_def by (intro rehash_loop_ok) auto
  moreover have "{0..<capcity m} \<union> {capcity m..} = UNIV"
    by auto
  ultimately have ok: "rehash_ok ?cap UNIV ?t0 (rehash_loop ?cap (capcity m) ?t0)"
    by simp
  show "mset (hm_nodes (table (hash_map_resize m))) = mset (hm_nodes (table m))"
    using ok nodes by (simp add: hash_map_resize_def rehash_ok_def Let_def)
  then have "length (hm_nodes (table (hash_map_resize m))) = length (hm_nodes (table m))"
    by (metis size_mset)
  then show "hm_inv (hash_map_resize m)"
    using ok assms e len power_Suc [of 2 e] unfolding hm_inv_def hash_map_resize_def
    by (auto simp: rehash_ok_def Let_def intro!: exI [of _ "Suc e"])
qed

section \<open>Operations on the abstract map\<close>

lemma hm_abs_Some:
  assumes "hm_inv m"
  shows "hm_abs m name = Some v \<longleftrightarrow> (\<exists>n\<in>set (hm_nodes (table m)). keyname n = name \<and> val n = v)"
proof -
  have "distinct (map fst (map (\<lambda>n. (keyname n, val n)) (hm_nodes (table m))))"
    using assms by (simp add: hm_inv_def sane_def comp_def)
  then show ?thesis
    unfolding hm_abs_def by (subst map_of_eq_Some_iff) auto
qed

lemma hm_abs_dom: "dom (hm_abs m) = keyname ` set (hm_nodes (table m))"
  by (auto simp: hm_abs_def dom_map_of_conv_image_fst image_image)

lemma hm_abs_eqI:
  assumes "hm_inv m" "\<And>k v. (\<exists>n\<in>set (hm_nodes (table m)). keyname n = k \<and> val n = v) \<longleftrightarrow> f k = Some v"
  shows "hm_abs m = f"
proof
  fix k
  show "hm_abs m k = f k"
    using assms(2) [of k] hm_abs_Some [OF assms(1), of k] by (metis option.exhaust)
qed

lemma hm_abs_cong:
  assumes "hm_inv m" "hm_inv m'" "mset (hm_nodes (table m)) = mset (hm_nodes (table m'))"
  shows "hm_abs m = hm_abs m'"
  using hm_abs_Some [OF assms(2)] mset_eq_setD [OF assms(3)] by (intro hm_abs_eqI [OF assms(1)]) simp

lemma strncmp_eq_prefix: "strncmp_eq (length s) s t \<longleftrightarrow> take (length s) t = s"
proof (induction s arbitrary: t)
  case (Cons a s)
  then show ?case by (cases t) auto
qed simp

text \<open>A key \<open>fits\<close> a map when no stored key extends it and has the same hash value.\<close>

definition fits :: "hash_map \<Rightarrow> byte list \<Rightarrow> bool" where
  "fits m name \<longleftrightarrow> (\<forall>k\<in>dom (hm_abs m). string_hash k = string_hash name \<and> take (length name) k = name \<longrightarrow> k = name)"

lemma matches_eq:
  assumes "hm_inv m" "fits m name" "n \<in> set (hm_nodes (table m))"
  shows "matches name n \<longleftrightarrow> keyname n = name"
  using assms by (auto simp: matches_def strncmp_eq_prefix fits_def hm_abs_dom hm_inv_def sane_def)

lemma find_node_Some: "find_node name ls = Some n \<Longrightarrow> n \<in> set ls \<and> matches name n"
  by (induction ls) (auto split: if_splits)

lemma find_node_None: "find_node name ls = None \<longleftrightarrow> (\<forall>n\<in>set ls. \<not> matches name n)"
  by (induction ls) auto

lemma home:
  assumes "hm_inv m"
  shows "bucket_index (capcity m) k < length (table m)"
    and "n \<in> set (hm_nodes (table m)) \<Longrightarrow> n \<in> set (nodes (table m ! bucket_index (capcity m) (string_hash (keyname n))))"
proof -
  show "bucket_index (capcity m) k < length (table m)"
    using assms bucket_index_less by (auto simp: hm_inv_def)
  assume n: "n \<in> set (hm_nodes (table m))"
  then obtain j where j: "j < length (table m)" "n \<in> set (nodes (table m ! j))"
    by (auto simp: hm_nodes_def in_set_conv_nth [of _ "table m"])
  moreover have "key n = string_hash (keyname n)"
    using assms n by (auto simp: hm_inv_def sane_def)
  ultimately have "bucket_index (capcity m) (string_hash (keyname n)) = j"
    using assms unfolding hm_inv_def placed_def by (metis UNIV_I)
  then show "n \<in> set (nodes (table m ! bucket_index (capcity m) (string_hash (keyname n))))"
    using j(2) by simp
qed

lemma find_node_abs:
  assumes "hm_inv m" "fits m name"
  shows "(case find_node name (nodes (table m ! bucket_index (capcity m) (string_hash name))) of
      None \<Rightarrow> hm_abs m name = None
    | Some n \<Rightarrow> n \<in> set (hm_nodes (table m)) \<and> keyname n = name \<and> hm_abs m name = Some (val n))"
proof -
  let ?i = "bucket_index (capcity m) (string_hash name)"
  have i: "?i < length (table m)"
    using home(1) [OF assms(1)] .
  show ?thesis
  proof (cases "find_node name (nodes (table m ! ?i))")
    case None
    have "keyname n \<noteq> name" if "n \<in> set (hm_nodes (table m))" for n
    proof
      assume "keyname n = name"
      then have "n \<in> set (nodes (table m ! ?i))"
        using home(2) [OF assms(1) that] by simp
      then show False
        using None that \<open>keyname n = name\<close> matches_eq [OF assms that] by (auto simp: find_node_None)
    qed
    then have "name \<notin> dom (hm_abs m)"
      by (auto simp: hm_abs_dom)
    then show ?thesis
      using None by (simp add: domIff)
  next
    case (Some n)
    then have "n \<in> set (hm_nodes (table m))" "matches name n"
      using find_node_Some [OF Some] hm_nodes_nth [OF i] by auto
    then show ?thesis
      using Some matches_eq [OF assms] hm_abs_Some [OF assms(1)] by auto
  qed
qed

lemma hash_map_get_ok:
  assumes "hm_inv m" "fits m name"
  shows "hash_map_get m name = hm_abs m name"
  using find_node_abs [OF assms] by (simp add: hash_map_get_def Let_def split: option.splits)

lemma hash_map_del_ok:
  assumes "hm_inv m" "fits m name"
  shows "\<exists>m'. hash_map_del m name = (name \<in> dom (hm_abs m), m') \<and> hm_inv m' \<and> hm_abs m' = (hm_abs m)(name := None)"
proof (cases "find_node name (nodes (table m ! bucket_index (capcity m) (string_hash name)))")
  case None
  then show ?thesis
    using find_node_abs [OF assms] assms by (auto simp: hash_map_del_def Let_def)
next
  case (Some n)
  let ?i = "bucket_index (capcity m) (string_hash name)"
  let ?m = "m\<lparr>table := bucket_remove ?i n (table m), hcount := hcount m - 1\<rparr>"
  have n: "n \<in> set (nodes (table m ! ?i))" "n \<in> set (hm_nodes (table m))" "keyname n = name" "hm_abs m name = Some (val n)"
    using find_node_Some [OF Some] find_node_abs [OF assms] Some by auto
  have sane: "sane (table m)" and i: "?i < length (table m)"
    using assms(1) home(1) [OF assms(1)] by (auto simp: hm_inv_def)
  note r = bucket_remove_sane [OF sane i n(1)]
  have "length (hm_nodes (table m)) = Suc (length (hm_nodes (bucket_remove ?i n (table m))))"
    using bucket_remove_mset [OF i n(1)] by (metis size_add_mset size_mset)
  then have inv: "hm_inv ?m"
    using assms(1) r(1) bucket_remove_placed [of _ "table m" UNIV ?i n] by (auto simp: hm_inv_def)
  have "hm_abs ?m = (hm_abs m)(name := None)"
    using hm_abs_Some [OF assms(1)] r(2,3) n(3) by (intro hm_abs_eqI [OF inv]) (auto simp: image_iff)
  then show ?thesis
    using inv Some n(4) by (auto simp: hash_map_del_def Let_def)
qed

lemma update_node_None: "update_node name v ls = None \<longleftrightarrow> find_node name ls = None"
  by (induction ls) auto

lemma update_node_Some:
  "update_node name v ls = Some ls' \<Longrightarrow>
     \<exists>pre n post. ls = pre @ n # post \<and> ls' = pre @ n\<lparr>val := v\<rparr> # post \<and> matches name n"
proof (induction ls arbitrary: ls')
  case (Cons a ls)
  show ?case
  proof (cases "matches name a")
    case True
    then show ?thesis
      using Cons.prems by (intro exI [of _ "[]"]) auto
  next
    case False
    then obtain r where "update_node name v ls = Some r" "ls' = a # r"
      using Cons.prems by auto
    then show ?thesis
      using Cons.IH by (metis append_Cons)
  qed
qed simp

lemma put_existing:
  assumes "hm_inv m" "fits m name" "i = bucket_index (capcity m) (string_hash name)"
    and "update_node name v (nodes (table m ! i)) = Some ns" "m' = m\<lparr>table := (table m)[i := (table m ! i)\<lparr>nodes := ns\<rparr>]\<rparr>"
  shows "hm_inv m' \<and> hm_abs m' = (hm_abs m)(name \<mapsto> v)"
proof -
  obtain pre n post where split: "nodes (table m ! i) = pre @ n # post" "ns = pre @ n\<lparr>val := v\<rparr> # post" "matches name n"
    using update_node_Some [OF assms(4)] by blast
  have i: "i < length (table m)"
    using home(1) [OF assms(1)] assms(3) by simp
  then have n: "n \<in> set (hm_nodes (table m))" "keyname n = name"
    using split(1,3) hm_nodes_nth [OF i, of n] matches_eq [OF assms(1,2)] by auto
  define pre' where "pre' = hm_nodes (take i (table m)) @ pre"
  define post' where "post' = post @ hm_nodes (drop (Suc i) (table m))"
  have nodes: "hm_nodes (table m) = pre' @ n # post'" "hm_nodes (table m') = pre' @ n\<lparr>val := v\<rparr> # post'"
    using hm_nodes_split [OF i] hm_nodes_split [of i "table m'"] i split by (simp_all add: assms(5) pre'_def post'_def)
  have sane: "sane (table m)" and placed: "placed (capcity m) (table m) UNIV"
    using assms(1) by (auto simp: hm_inv_def)
  have "sane (table m')"
    using sane nodes i split by (auto simp: sane_def assms(5) dest!: set_update_subset_insert [THEN subsetD])
  moreover have "placed (capcity m) (table m') UNIV"
    using placed split i by (auto simp: placed_def assms(5) nth_list_update)
  ultimately have inv: "hm_inv m'"
    using assms(1) nodes by (auto simp: hm_inv_def assms(5))
  have names: "keyname ` set (pre' @ post') \<inter> {name} = {}"
    using sane nodes(1) n(2) by (auto simp: sane_def)
  have "hm_abs m' = (hm_abs m)(name \<mapsto> v)"
    using hm_abs_Some [OF assms(1)] names nodes n(2) by (intro hm_abs_eqI [OF inv]) (auto simp: image_iff disjoint_iff)
  then show ?thesis
    using inv by simp
qed

lemma put_new:
  assumes "hm_inv m" "name \<notin> dom (hm_abs m)" "n = \<lparr>key = string_hash name, keyname = name, val = v\<rparr>"
    and "m' = m\<lparr>table := bucket_add (bucket_index (capcity m) (string_hash name)) n (table m), hcount := hcount m + 1\<rparr>"
  shows "hm_inv m' \<and> hm_abs m' = (hm_abs m)(name \<mapsto> v)"
proof -
  let ?i = "bucket_index (capcity m) (string_hash name)"
  have i: "?i < length (table m)"
    using home(1) [OF assms(1)] .
  have mset: "mset (hm_nodes (table m')) = mset (n # hm_nodes (table m))"
    using bucket_add_mset [OF i, of n] assms(4) by simp
  have "sane (table m')"
    using assms i by (auto simp: hm_inv_def hm_abs_dom intro!: bucket_add_sane)
  moreover have "placed (capcity m) (table m') UNIV"
    using assms i by (auto simp: hm_inv_def intro!: bucket_add_placed)
  moreover have "length (hm_nodes (table m')) = Suc (length (hm_nodes (table m)))"
    using mset by (metis length_Cons size_mset)
  ultimately have inv: "hm_inv m'"
    using assms(1,4) by (auto simp: hm_inv_def)
  have "set (hm_nodes (table m')) = insert n (set (hm_nodes (table m)))"
    using mset by (metis list.simps(15) set_mset_mset)
  then have "hm_abs m' = (hm_abs m)(name \<mapsto> v)"
    using hm_abs_Some [OF assms(1)] assms(2,3) by (intro hm_abs_eqI [OF inv]) (auto simp: hm_abs_dom)
  then show ?thesis
    using inv by simp
qed

lemma hash_map_put_ok:
  assumes "hm_inv m" "fits m name" "length name < 1024"
  shows "\<exists>m'. hash_map_put m name v = Inr m' \<and> hm_inv m' \<and> hm_abs m' = (hm_abs m)(name \<mapsto> v)"
proof (cases "update_node name v (nodes (table m ! bucket_index (capcity m) (string_hash name)))")
  case (Some ns)
  then show ?thesis
    using put_existing [OF assms(1,2) refl Some refl] by (simp add: hash_map_put_def Let_def)
next
  case None
  define m1 where "m1 = (if 4 * hcount m \<ge> 3 * capcity m then hash_map_resize m else m)"
  have "name \<notin> dom (hm_abs m)"
    using find_node_abs [OF assms(1,2)] None by (simp add: update_node_None domIff)
  moreover have m1: "hm_inv m1" "hm_abs m1 = hm_abs m"
    using hash_map_resize_ok [OF assms(1)] hm_abs_cong [OF hash_map_resize_ok(1) [OF assms(1)] assms(1)] assms(1)
    by (simp_all add: m1_def)
  ultimately show ?thesis
    using put_new [OF m1(1) _ refl refl, of name v] None assms(3)
    by (simp add: hash_map_put_def Let_def m1_def [symmetric])
qed

lemma hash_map_init_ok: "hm_inv hash_map_init" "hm_abs hash_map_init = Map.empty"
proof -
  have "hm_nodes (table hash_map_init) = []"
    by (simp add: hash_map_init_def hm_nodes_def alloc_map_head_def)
  moreover have "capcity hash_map_init = 2 ^ 4"
    by (simp add: hash_map_init_def HASH_MAP_DEFALUT_CAPCITY_def)
  ultimately show "hm_inv hash_map_init" "hm_abs hash_map_init = Map.empty"
    by (simp_all add: hm_inv_def hm_abs_def sane_def placed_def)
      (auto simp: hash_map_init_def alloc_map_head_def intro: exI [of _ 4])
qed

lemma clear_buckets_ok:
  assumes "i \<le> length (table m)"
  shows "length (table (clear_buckets i m)) = length (table m) \<and> capcity (clear_buckets i m) = capcity m \<and>
    hm_nodes (table (clear_buckets i m)) = hm_nodes (drop i (table m)) \<and>
    hcount (clear_buckets i m) = hcount m - length (hm_nodes (take i (table m)))"
  using assms
proof (induction i m rule: clear_buckets.induct)
  case (2 i m)
  let ?h = "table m ! i"
  let ?m = "m\<lparr>table := (table m)[i := \<lparr>nodes = [], bcount = bcount ?h - length (nodes ?h)\<rparr>], hcount := hcount m - length (nodes ?h)\<rparr>"
  have "hm_nodes (drop i (table ?m)) = hm_nodes (drop (Suc i) (table m))"
    using 2(2) by (simp add: hm_nodes_def drop_update_cancel Cons_nth_drop_Suc [symmetric])
  moreover have "length (hm_nodes (take (Suc i) (table m))) = length (hm_nodes (take i (table m))) + length (nodes ?h)"
    using 2(2) by (simp add: take_Suc_conv_app_nth hm_nodes_def)
  ultimately show ?case
    using 2 by (simp add: Let_def)
qed (simp add: hm_nodes_def)

lemma hash_map_clear_ok:
  assumes "hm_inv m"
  shows "hash_map_empty (hash_map_clear m) \<and> hm_abs (hash_map_clear m) = Map.empty"
  using assms clear_buckets_ok [of "capcity m" m]
  by (auto simp: hm_inv_def hash_map_clear_def hash_map_empty_def hash_map_size_def hm_abs_def hm_nodes_def)

section \<open>The interface of a key-value store\<close>

datatype ('k, 'v) kv_op = Put 'k 'v | Get 'k | Del 'k

datatype 'v kv_out = Done | Found "'v option" | Deleted bool

fun kv_key :: "('k, 'v) kv_op \<Rightarrow> 'k" where
  "kv_key (Put k v) = k"
| "kv_key (Get k) = k"
| "kv_key (Del k) = k"

fun map_run :: "('k, 'v) kv_op list \<Rightarrow> ('k \<rightharpoonup> 'v) \<Rightarrow> 'v kv_out list \<times> ('k \<rightharpoonup> 'v)" where
  "map_run [] f = ([], f)"
| "map_run (Put k v # ops) f = (let (rs, g) = map_run ops (f(k \<mapsto> v)) in (Done # rs, g))"
| "map_run (Get k # ops) f = (let (rs, g) = map_run ops f in (Found (f k) # rs, g))"
| "map_run (Del k # ops) f = (let (rs, g) = map_run ops (f(k := None)) in (Deleted (k \<in> dom f) # rs, g))"

fun kv_run :: "('s \<Rightarrow> 'k \<Rightarrow> 'v \<Rightarrow> 's res) \<Rightarrow> ('s \<Rightarrow> 'k \<Rightarrow> 'v option) \<Rightarrow> ('s \<Rightarrow> 'k \<Rightarrow> bool \<times> 's) \<Rightarrow>
    ('k, 'v) kv_op list \<Rightarrow> 's \<Rightarrow> ('v kv_out list \<times> 's) res" where
  "kv_run put get del [] s = Inr ([], s)"
| "kv_run put get del (Put k v # ops) s =
     rbind (put s k v) (\<lambda>s'. rbind (kv_run put get del ops s') (\<lambda>(rs, t). Inr (Done # rs, t)))"
| "kv_run put get del (Get k # ops) s =
     rbind (kv_run put get del ops s) (\<lambda>(rs, t). Inr (Found (get s k) # rs, t))"
| "kv_run put get del (Del k # ops) s =
     (let (b, s') = del s k in rbind (kv_run put get del ops s') (\<lambda>(rs, t). Inr (Deleted b # rs, t)))"

text \<open>A store promises the behaviour of a finite map for the keys it accepts in its present state.\<close>

locale kv_store =
  fixes inv :: "'s \<Rightarrow> bool" and abs :: "'s \<Rightarrow> 'k \<rightharpoonup> 'v" and accepts :: "'s \<Rightarrow> 'k \<Rightarrow> bool"
    and put :: "'s \<Rightarrow> 'k \<Rightarrow> 'v \<Rightarrow> 's res" and get :: "'s \<Rightarrow> 'k \<Rightarrow> 'v option" and del :: "'s \<Rightarrow> 'k \<Rightarrow> bool \<times> 's"
  assumes put_law: "inv s \<Longrightarrow> accepts s k \<Longrightarrow> \<exists>s'. put s k v = Inr s' \<and> inv s' \<and> abs s' = (abs s)(k \<mapsto> v)"
    and get_law: "inv s \<Longrightarrow> accepts s k \<Longrightarrow> get s k = abs s k"
    and del_law: "inv s \<Longrightarrow> accepts s k \<Longrightarrow> \<exists>s'. del s k = (k \<in> dom (abs s), s') \<and> inv s' \<and> abs s' = (abs s)(k := None)"
begin

lemma run_refines:
  assumes "inv s" "dom (abs s) \<subseteq> K" "\<And>s k. inv s \<Longrightarrow> dom (abs s) \<subseteq> K \<Longrightarrow> k \<in> K \<Longrightarrow> accepts s k"
    and "kv_key ` set ops \<subseteq> K"
  shows "\<exists>s'. kv_run put get del ops s = Inr (fst (map_run ops (abs s)), s') \<and> inv s' \<and> abs s' = snd (map_run ops (abs s))"
  using assms(1,2,4)
proof (induction ops arbitrary: s)
  case (Cons oper ops)
  have ok: "accepts s (kv_key oper)"
    using Cons.prems assms(3) by auto
  show ?case
  proof (cases oper)
    case (Put k v)
    then obtain s' where s': "put s k v = Inr s'" "inv s'" "abs s' = (abs s)(k \<mapsto> v)"
      using put_law [OF Cons.prems(1)] ok by fastforce
    then have "dom (abs s') \<subseteq> K"
      using Cons.prems Put by auto
    then show ?thesis
      using Cons.IH [of s'] Cons.prems s' Put by (auto simp del: fun_upd_apply split: prod.split)
  next
    case (Get k)
    then show ?thesis
      using Cons.IH [of s] Cons.prems get_law [OF Cons.prems(1)] ok by (auto split: prod.split)
  next
    case (Del k)
    then obtain s' where s': "del s k = (k \<in> dom (abs s), s')" "inv s'" "abs s' = (abs s)(k := None)"
      using del_law [OF Cons.prems(1)] ok by fastforce
    then have "dom (abs s') \<subseteq> K"
      using Cons.prems(2) by auto
    then show ?thesis
      using Cons.IH [of s'] Cons.prems s' Del by (auto simp del: fun_upd_apply split: prod.split)
  qed
qed simp

end

interpretation hm: kv_store hm_inv hm_abs "\<lambda>m k. fits m k \<and> length k < 1024" hash_map_put hash_map_get hash_map_del
  by unfold_locales (simp_all add: hash_map_put_ok hash_map_get_ok hash_map_del_ok)

text \<open>The coroutine-specific values inherit the contract.\<close>

interpretation specs: kv_store "\<lambda>s. hm_inv (smap s)" "\<lambda>s. hm_abs (smap s)" "\<lambda>s k. fits (smap s) k \<and> length k < 1024"
  co_specs_set co_specs_get co_specs_del
proof unfold_locales
  fix s :: co_specs and k v
  assume s: "hm_inv (smap s)" "fits (smap s) k \<and> length k < 1024"
  show "\<exists>s'. co_specs_set s k v = Inr s' \<and> hm_inv (smap s') \<and> hm_abs (smap s') = (hm_abs (smap s))(k \<mapsto> v)"
    using hm.put_law [OF s, of v] by (auto simp: co_specs_set_def)
  show "co_specs_get s k = hm_abs (smap s) k"
    using hm.get_law [OF s] by (simp add: co_specs_get_def)
  show "\<exists>s'. co_specs_del s k = (k \<in> dom (hm_abs (smap s)), s') \<and> hm_inv (smap s') \<and> hm_abs (smap s') = (hm_abs (smap s))(k := None)"
    using hm.del_law [OF s] by (auto simp: co_specs_del_def)
qed

definition clash_free :: "byte list set \<Rightarrow> bool" where
  "clash_free K \<longleftrightarrow> (\<forall>k\<in>K. length k < 1024 \<and>
     (\<forall>k'\<in>K. string_hash k' = string_hash k \<and> take (length k) k' = k \<longrightarrow> k' = k))"

lemma clash_free_accepts: "clash_free K \<Longrightarrow> dom (hm_abs m) \<subseteq> K \<Longrightarrow> k \<in> K \<Longrightarrow> fits m k \<and> length k < 1024"
  by (auto simp: clash_free_def fits_def)

lemma hash_map_size_abs: "hm_inv m \<Longrightarrow> hash_map_size m = card (dom (hm_abs m))"
  using distinct_card [of "map keyname (hm_nodes (table m))"]
  by (simp add: hash_map_size_def hm_inv_def sane_def hm_abs_dom)

section \<open>Properties\<close>

text \<open>C14: The hash map is a finite map: every sequence of puts, gets and deletions on a new map, through any
  number of resizings, succeeds and gives the results of the same sequence on a mathematical map, and the size
  is the number of keys, provided no key is a proper prefix of another one with the same hash value
  and keys are shorter than 1024 bytes.\<close>

theorem hash_map_implements_map:
  assumes "clash_free (kv_key ` set ops)"
  shows "\<exists>m. kv_run hash_map_put hash_map_get hash_map_del ops hash_map_init = Inr (fst (map_run ops Map.empty), m) \<and>
    hash_map_size m = card (dom (snd (map_run ops Map.empty)))"
proof -
  have "\<exists>m. kv_run hash_map_put hash_map_get hash_map_del ops hash_map_init =
      Inr (fst (map_run ops (hm_abs hash_map_init)), m) \<and> hm_inv m \<and> hm_abs m = snd (map_run ops (hm_abs hash_map_init))"
    using hash_map_init_ok clash_free_accepts [OF assms]
    by (intro hm.run_refines [of _ "kv_key ` set ops"]) auto
  then show ?thesis
    using hash_map_size_abs by (auto simp: hash_map_init_ok(2))
qed

theorem hash_map_implements_map_witness:
  "\<exists>m. kv_run hash_map_put hash_map_get hash_map_del
       [Put [97] [1, 2], Put [98] [3], Get [97], Del [98], Get [98]] hash_map_init =
     Inr ([Done, Done, Found (Some [1, 2]), Deleted True, Found None], m) \<and> hash_map_size m = 1"
  using hash_map_implements_map [of "[Put [97] [1, 2], Put [98] [3], Get [97], Del [98], Get [98]]"]
  by (simp add: clash_free_def)

text \<open>Without that proviso the map answers for a key that was never stored: \<open>strncmp\<close> compares only as many
  bytes as the requested key has, so a stored key with the same hash value that extends the requested one
  is taken for it.\<close>

theorem hash_map_prefix_confusion:
  assumes "string_hash k' = string_hash k" "take (length k) k' = k" "k' \<noteq> k" "length k' < 1024"
  shows "\<exists>m. hash_map_put hash_map_init k' v = Inr m \<and> dom (hm_abs m) = {k'} \<and> hash_map_get m k = Some v"
proof -
  have "fits hash_map_init k'"
    by (simp add: fits_def hash_map_init_ok(2))
  then obtain m where m: "hash_map_put hash_map_init k' v = Inr m" "hm_inv m" "hm_abs m = [k' \<mapsto> v]"
    using hash_map_put_ok [OF hash_map_init_ok(1) _ assms(4)] hash_map_init_ok(2) by auto
  let ?ns = "nodes (table m ! bucket_index (capcity m) (string_hash k))"
  obtain n where n: "n \<in> set (hm_nodes (table m))" "keyname n = k'" "key n = string_hash k'"
    using m(2,3) hm_abs_Some [OF m(2), of k' v] by (auto simp: hm_inv_def sane_def)
  then have "n \<in> set ?ns" "matches k n"
    using home(2) [OF m(2) n(1)] assms by (auto simp: matches_def strncmp_eq_prefix)
  then obtain n' where f: "find_node k ?ns = Some n'"
    using find_node_None by (metis not_None_eq)
  then have "n' \<in> set (hm_nodes (table m))"
    using find_node_Some [OF f] hm_nodes_nth [OF home(1) [OF m(2)]] by blast
  then have "hm_abs m (keyname n') = Some (val n')"
    using hm_abs_Some [OF m(2)] by blast
  then show ?thesis
    using m f by (auto simp: hash_map_get_def Let_def split: if_splits)
qed

theorem hash_map_prefix_confusion_witness:
  "\<exists>m. hash_map_put hash_map_init [105, 100, 106, 102, 116, 113, 110, 117] [7] = Inr m \<and>
     dom (hm_abs m) = {[105, 100, 106, 102, 116, 113, 110, 117]} \<and> hash_map_get m [105, 100] = Some [7]"
  by (rule hash_map_prefix_confusion) (simp_all add: string_hash_def)

end
