(* ===== verification/CaskTimeWheel.thy ===== *)
theory CaskTimeWheel
  imports CaskPrelude
begin

text \<open>
  \<open>time_wheel.c\<close>: a ring of slots, one per tick, each with the list of the elements that time out when the
  wheel gets there. An element is in at most one slot, so \<open>list_delete\<close>, which unlinks it from
  whatever list it is in, removes it from all slots; \<open>list_add\<close> inserts behind the head of the slot. The timer
  descriptor is an argument of the constructor.
\<close>

section \<open>Model\<close>

record 'a wheel =
  slots :: "'a list list"
  wfd :: int
  wsize :: nat
  interval :: int
  loc :: nat

definition MIN_TIME_WHEEL_SIZE :: nat where
  "MIN_TIME_WHEEL_SIZE = 60"

definition MIN_TIME_WHEEL_INTERVAL :: int where
  "MIN_TIME_WHEEL_INTERVAL = 1"

definition new_time_wheel :: "int \<Rightarrow> nat \<Rightarrow> int \<Rightarrow> 'a wheel" where
  "new_time_wheel tfd sz iv =
     (let n = (if MIN_TIME_WHEEL_SIZE < sz then sz else MIN_TIME_WHEEL_SIZE)
      in \<lparr>slots = replicate n [], wfd = tfd, wsize = n,
          interval = (if iv < MIN_TIME_WHEEL_INTERVAL then MIN_TIME_WHEEL_INTERVAL else iv), loc = 0\<rparr>)"

definition wheel_rotate :: "'a wheel \<Rightarrow> 'a wheel" where
  "wheel_rotate w = w\<lparr>loc := (loc w + 1) mod wsize w\<rparr>"

definition wheel_delete_element :: "'a \<Rightarrow> 'a wheel \<Rightarrow> 'a wheel" where
  "wheel_delete_element e w = w\<lparr>slots := map (removeAll e) (slots w)\<rparr>"

definition wheel_update_element :: "'a \<Rightarrow> int \<Rightarrow> 'a wheel \<Rightarrow> 'a wheel" where
  "wheel_update_element e t w =
     (if t < 0 then w
      else let tv = (loc w + nat t + 1) mod wsize w; w = wheel_delete_element e w
           in w\<lparr>slots := (slots w)[tv := e # slots w ! tv]\<rparr>)"

definition wheel_timeout_list :: "'a wheel \<Rightarrow> 'a list" where
  "wheel_timeout_list w = slots w ! loc w"

section \<open>Invariant\<close>

definition wheel_inv :: "'a wheel \<Rightarrow> bool" where
  "wheel_inv w \<longleftrightarrow> 0 < wsize w \<and> length (slots w) = wsize w \<and> loc w < wsize w \<and> distinct (concat (slots w))"

definition armed :: "'a wheel \<Rightarrow> 'a set" where
  "armed w = set (concat (slots w))"

lemma new_time_wheel_inv: "wheel_inv (new_time_wheel tfd sz iv)" "armed (new_time_wheel tfd sz iv) = {}"
  by (auto simp: wheel_inv_def armed_def new_time_wheel_def MIN_TIME_WHEEL_SIZE_def)

lemma wheel_rotate_simps [simp]:
  "slots (wheel_rotate w) = slots w" "wsize (wheel_rotate w) = wsize w" "armed (wheel_rotate w) = armed w"
  "loc (wheel_rotate w) = (loc w + 1) mod wsize w"
  by (simp_all add: wheel_rotate_def armed_def)

lemma wheel_rotate_inv [inv_intros]: "wheel_inv w \<Longrightarrow> wheel_inv (wheel_rotate w)"
  by (auto simp: wheel_inv_def)

lemma concat_removeAll: "concat (map (removeAll e) xss) = removeAll e (concat xss)"
  by (induction xss) auto

lemma wheel_delete_simps [simp]:
  "wsize (wheel_delete_element e w) = wsize w" "loc (wheel_delete_element e w) = loc w"
  "armed (wheel_delete_element e w) = armed w - {e}"
  by (auto simp: wheel_delete_element_def armed_def concat_removeAll)

lemma wheel_delete_inv [inv_intros]: "wheel_inv w \<Longrightarrow> wheel_inv (wheel_delete_element e w)"
  by (simp add: wheel_inv_def wheel_delete_element_def concat_removeAll distinct_removeAll)

lemma mset_concat_insert:
  "i < length xss \<Longrightarrow> mset (concat (xss[i := e # xss ! i])) = add_mset e (mset (concat xss))"
proof (induction xss arbitrary: i)
  case (Cons xs xss)
  then show ?case by (cases i) auto
qed simp

lemma wheel_update_inv [inv_intros]:
  assumes "wheel_inv w"
  shows "wheel_inv (wheel_update_element e t w)"
proof (cases "t < 0")
  case False
  let ?d = "wheel_delete_element e w" and ?tv = "(loc w + nat t + 1) mod wsize w"
  have d: "wheel_inv ?d"
    by (rule wheel_delete_inv [OF assms])
  then have tv: "?tv < length (slots ?d)"
    by (auto simp: wheel_inv_def)
  have "mset (concat ((slots ?d)[?tv := e # slots ?d ! ?tv])) = mset (e # concat (slots ?d))"
    using mset_concat_insert [OF tv] by simp
  moreover have "distinct (e # concat (slots ?d))"
    using d by (auto simp: wheel_inv_def wheel_delete_element_def)
  ultimately have "distinct (concat ((slots ?d)[?tv := e # slots ?d ! ?tv]))"
    using mset_eq_imp_distinct_iff by blast
  then show ?thesis
    using d False by (simp add: wheel_update_element_def Let_def wheel_inv_def)
qed (use assms in \<open>simp add: wheel_update_element_def\<close>)

lemma wheel_update_simps [simp]:
  "wsize (wheel_update_element e t w) = wsize w" "loc (wheel_update_element e t w) = loc w"
  by (simp_all add: wheel_update_element_def Let_def)

lemma wheel_update_armed:
  assumes "wheel_inv w" "0 \<le> t"
  shows "armed (wheel_update_element e t w) = insert e (armed w)"
proof -
  let ?d = "wheel_delete_element e w" and ?tv = "(loc w + nat t + 1) mod wsize w"
  have "?tv < length (slots ?d)"
    using wheel_delete_inv [OF assms(1), of e] by (auto simp: wheel_inv_def)
  then have "set (concat ((slots ?d)[?tv := e # slots ?d ! ?tv])) = insert e (armed ?d)"
    using mset_concat_insert [of ?tv "slots ?d" e] unfolding armed_def by (metis set_mset_add_mset_insert set_mset_mset)
  then show ?thesis
    using assms(2) by (simp add: wheel_update_element_def Let_def armed_def [of "_\<lparr>slots := _\<rparr>"])
qed

section \<open>When an element times out\<close>

lemma rotate_loc: "loc ((wheel_rotate ^^ k) w) = (if k = 0 then loc w else (loc w + k) mod wsize w)"
  "slots ((wheel_rotate ^^ k) w) = slots w" "wsize ((wheel_rotate ^^ k) w) = wsize w"
  by (induction k) (auto simp: mod_Suc_eq add.assoc [symmetric] mod_simps)

lemma mod_add_cancel: "(a + k) mod n = (a + m) mod n \<longleftrightarrow> k mod n = m mod n" for a k m n :: nat
  unfolding nat_mod_eq_iff by (simp add: add.assoc)

text \<open>The position a timeout of \<open>t\<close> selects is reached after \<open>t mod n + 1\<close> steps and not before.\<close>

lemma slot_reached:
  fixes l t n :: nat
  assumes "1 \<le> k" "k \<le> n" "0 < n"
  shows "(l + k) mod n = (l + t + 1) mod n \<longleftrightarrow> k = t mod n + 1"
proof -
  have "(l + k) mod n = (l + t + 1) mod n \<longleftrightarrow> k mod n = (t + 1) mod n"
    using mod_add_cancel [of l k n "t + 1"] by (simp add: add.assoc)
  also have "\<dots> \<longleftrightarrow> k = t mod n + 1"
    using assms by (auto simp: mod_Suc le_less split: if_splits)
  finally show ?thesis .
qed

lemma in_one_slot:
  assumes "distinct (concat xss)" "i < length xss" "j < length xss" "e \<in> set (xss ! i)" "e \<in> set (xss ! j)"
  shows "i = j"
  using assms
proof (induction xss arbitrary: i j)
  case (Cons xs xss)
  show ?case
  proof (cases i; cases j)
    fix i' j' assume "i = Suc i'" "j = Suc j'"
    then show ?thesis using Cons by auto
  qed (use Cons.prems in \<open>auto simp: disjoint_iff\<close>)
qed simp

lemma slot_of_update:
  assumes "wheel_inv w" "0 \<le> t" "i < wsize w"
  shows "e \<in> set (slots (wheel_update_element e t w) ! i) \<longleftrightarrow> i = (loc w + nat t + 1) mod wsize w"
proof -
  let ?w = "wheel_update_element e t w" and ?tv = "(loc w + nat t + 1) mod wsize w"
  have inv: "wheel_inv ?w"
    by (rule wheel_update_inv [OF assms(1)])
  have tv: "?tv < wsize w" "length (slots ?w) = wsize w" "distinct (concat (slots ?w))"
    using inv assms(1) by (auto simp: wheel_inv_def)
  have l: "length (slots w) = wsize w"
    using assms(1) by (simp add: wheel_inv_def)
  have "e \<in> set (slots ?w ! ?tv)"
    using assms(2) tv(1) l by (simp add: wheel_update_element_def Let_def wheel_delete_element_def)
  then show ?thesis
    using in_one_slot [OF tv(3), of i ?tv e] tv assms(3) by auto
qed

section \<open>Properties\<close>

text \<open>The time wheel keeps time: an element set to time out after \<open>t\<close> ticks is in the list of the current
  slot for the first time after \<open>t mod size + 1\<close> rotations, so after \<open>t + 1\<close> ticks whenever \<open>t\<close> is smaller than the
  wheel, and earlier than asked for when it is not.\<close>

theorem wheel_fires:
  assumes "wheel_inv w" "0 \<le> t" "1 \<le> k" "k \<le> wsize w"
  shows "e \<in> set (wheel_timeout_list ((wheel_rotate ^^ k) (wheel_update_element e t w))) \<longleftrightarrow>
    k = nat t mod wsize w + 1"
proof -
  let ?n = "wsize w" and ?w = "wheel_update_element e t w"
  have n: "0 < ?n"
    using assms(1) by (simp add: wheel_inv_def)
  have "e \<in> set (wheel_timeout_list ((wheel_rotate ^^ k) ?w)) \<longleftrightarrow> e \<in> set (slots ?w ! ((loc w + k) mod ?n))"
    using assms(3) by (simp add: wheel_timeout_list_def rotate_loc)
  also have "\<dots> \<longleftrightarrow> (loc w + k) mod ?n = (loc w + nat t + 1) mod ?n"
    using slot_of_update [OF assms(1,2), of "(loc w + k) mod ?n"] n by simp
  also have "\<dots> \<longleftrightarrow> k = nat t mod ?n + 1"
    using assms(3,4) n by (rule slot_reached)
  finally show ?thesis .
qed

theorem wheel_fires_witness:
  "wheel_timeout_list ((wheel_rotate ^^ 4) (wheel_update_element (7 :: int) 3 (new_time_wheel 5 60 1))) \<noteq> [] \<and>
   7 \<notin> set (wheel_timeout_list ((wheel_rotate ^^ 3) (wheel_update_element (7 :: int) 3 (new_time_wheel 5 60 1))))"
proof -
  let ?w = "new_time_wheel 5 60 1 :: int wheel"
  have "wsize ?w = 60"
    by (simp add: new_time_wheel_def MIN_TIME_WHEEL_SIZE_def)
  then have "7 \<in> set (wheel_timeout_list ((wheel_rotate ^^ 4) (wheel_update_element 7 3 ?w)))"
    "7 \<notin> set (wheel_timeout_list ((wheel_rotate ^^ 3) (wheel_update_element 7 3 ?w)))"
    using wheel_fires [of ?w 3 4 7] wheel_fires [of ?w 3 3 7] new_time_wheel_inv(1) [of 5 60 1] by simp_all
  then show ?thesis
    by (metis empty_iff list.set(1))
qed

end
