(* ===== verification/CaskEvent.thy ===== *)
theory CaskEvent
  imports CaskTimeWheel
begin

unbundle bit_operations_syntax

text \<open>
  The I/O event layer of libcask: the table of descriptors of \<open>inner_fd.c\<close>, the epoll wrapper, the event loop
  and the timeout task of \<open>event.c\<close>, and the timers of \<open>timer.c\<close>. Descriptor records live in a heap of
  pointers; a pointer outside the domain of the heap has been freed and using it is \<open>UseAfterFree\<close>. The elements of
  the time wheel are these pointers. The kernel's epoll set is the map \<open>interest\<close> with the documented errors of
  \<open>epoll_ctl\<close>; \<open>kerr\<close> gives the error with which the kernel refuses a descriptor (0: it does not).
  \<open>resumed\<close> lists the tasks passed to \<open>co_resume\<close>. A function that suspends the task is split
  at the suspension, and what the other tasks and the event loop do in between is an argument.
\<close>

section \<open>Constants\<close>

definition IENONE :: int where "IENONE = 0"
definition IETIMEOUT :: int where "IETIMEOUT = 1"
definition IEREAD :: int where "IEREAD = 2"
definition IEWRITE :: int where "IEWRITE = 4"
definition IERDHUP :: int where "IERDHUP = 8"
definition IEERR :: int where "IEERR = 16"
definition IEHUP :: int where "IEHUP = 32"

definition EPOLLIN :: int where "EPOLLIN = 0x1"
definition EPOLLOUT :: int where "EPOLLOUT = 0x4"
definition EPOLLERR :: int where "EPOLLERR = 0x8"
definition EPOLLHUP :: int where "EPOLLHUP = 0x10"
definition EPOLLRDHUP :: int where "EPOLLRDHUP = 0x2000"
definition EPOLLET :: int where "EPOLLET = 0x80000000"
definition O_NONBLOCK :: int where "O_NONBLOCK = 0x800"

definition ENOENT :: int where "ENOENT = 2"
definition EBADF :: int where "EBADF = 9"
definition EAGAIN :: int where "EAGAIN = 11"
definition EEXIST :: int where "EEXIST = 17"
definition ETIME :: int where "ETIME = 62"
definition ENETDOWN :: int where "ENETDOWN = 100"

definition MAX_FD_NUM :: int where "MAX_FD_NUM = 102400"
definition FD_TIMEOUT :: int where "FD_TIMEOUT = 3"

section \<open>The descriptor table\<close>

record inner_fd =
  ifd_fd :: int
  flags :: int
  user_flags :: int
  itask :: nat
  itimeout :: int
  ierror :: int

record ev =
  fdtab :: "int \<Rightarrow> addr"
  heap :: "addr \<rightharpoonup> inner_fd"
  brk :: addr
  tw :: "addr wheel"
  interest :: "int \<rightharpoonup> int"
  kerr :: "int \<Rightarrow> int"
  errno :: int
  resumed :: "nat list"
  self :: nat

definition is_fd_valid :: "int \<Rightarrow> bool" where
  "is_fd_valid fd \<longleftrightarrow> -1 < fd \<and> fd < MAX_FD_NUM"

definition new_inner_fd :: "int \<Rightarrow> 'z ev_scheme \<Rightarrow> (addr \<times> 'z ev_scheme) res" where
  "new_inner_fd fd s =
     (if \<not> is_fd_valid fd then Inl OutOfBounds
      else Inr (brk s, s\<lparr>heap := (heap s)(brk s \<mapsto>
                   \<lparr>ifd_fd = fd, flags = 0, user_flags = 0, itask = 0, itimeout = FD_TIMEOUT, ierror = IENONE\<rparr>),
                 fdtab := (fdtab s)(fd := brk s), brk := brk s + 1\<rparr>))"

definition delete_inner_fd :: "int \<Rightarrow> 'z ev_scheme \<Rightarrow> 'z ev_scheme" where
  "delete_inner_fd fd s =
     (if \<not> is_fd_valid fd then s
      else let p = fdtab s fd
           in if p = NULL then s
              else s\<lparr>tw := wheel_delete_element p (tw s), heap := (heap s)(p := None), fdtab := (fdtab s)(fd := NULL)\<rparr>)"

definition get_inner_fd :: "int \<Rightarrow> 'z ev_scheme \<Rightarrow> addr \<times> 'z ev_scheme" where
  "get_inner_fd fd s = (if \<not> is_fd_valid fd then (NULL, s\<lparr>errno := EBADF\<rparr>) else (fdtab s fd, s))"

text \<open>Reading and writing a descriptor record through its pointer.\<close>

definition deref :: "addr \<Rightarrow> 'z ev_scheme \<Rightarrow> inner_fd res" where
  "deref p s = (if p = NULL then Inl NullDeref else case heap s p of None \<Rightarrow> Inl UseAfterFree | Some i \<Rightarrow> Inr i)"

definition update :: "addr \<Rightarrow> (inner_fd \<Rightarrow> inner_fd) \<Rightarrow> 'z ev_scheme \<Rightarrow> 'z ev_scheme res" where
  "update p f s = rbind (deref p s) (\<lambda>i. Inr (s\<lparr>heap := (heap s)(p \<mapsto> f i)\<rparr>))"

text \<open>The test is inverted: the timeout is only stored through a null pointer.\<close>

definition set_inner_fd_timeout :: "int \<Rightarrow> int \<Rightarrow> 'z ev_scheme \<Rightarrow> 'z ev_scheme res" where
  "set_inner_fd_timeout fd msecs s =
     (if is_fd_valid fd
      then let (p, s) = get_inner_fd fd s in if p = NULL then update p (\<lambda>i. i\<lparr>itimeout := msecs\<rparr>) s else Inr s
      else Inr s)"

section \<open>epoll\<close>

record epoll =
  maxevents :: nat
  etimeout :: int
  efd :: int
  loop :: bool

definition new_epoll :: "int \<Rightarrow> nat \<Rightarrow> int \<Rightarrow> epoll option" where
  "new_epoll epfd maxev tmo =
     (if epfd < 0 then None
      else Some \<lparr>maxevents = (if maxev = 0 then 1 else maxev), etimeout = (if tmo < 0 then 0 else tmo), efd = epfd, loop = True\<rparr>)"

definition stop_event_loop :: "epoll option \<Rightarrow> epoll option" where
  "stop_event_loop ep = map_option (\<lambda>ep. ep\<lparr>loop := False\<rparr>) ep"

datatype epoll_op = EPOLL_CTL_ADD | EPOLL_CTL_DEL | EPOLL_CTL_MOD

definition epoll_ctl :: "epoll_op \<Rightarrow> int \<Rightarrow> int \<Rightarrow> 'z ev_scheme \<Rightarrow> int \<times> 'z ev_scheme" where
  "epoll_ctl oper fd events s =
     (if kerr s fd \<noteq> 0 then (-1, s\<lparr>errno := kerr s fd\<rparr>)
      else case oper of
             EPOLL_CTL_ADD \<Rightarrow>
               if fd \<in> dom (interest s) then (-1, s\<lparr>errno := EEXIST\<rparr>) else (0, s\<lparr>interest := (interest s)(fd \<mapsto> events)\<rparr>)
           | EPOLL_CTL_MOD \<Rightarrow>
               if fd \<in> dom (interest s) then (0, s\<lparr>interest := (interest s)(fd \<mapsto> events)\<rparr>) else (-1, s\<lparr>errno := ENOENT\<rparr>)
           | EPOLL_CTL_DEL \<Rightarrow>
               if fd \<in> dom (interest s) then (0, s\<lparr>interest := (interest s)(fd := None)\<rparr>) else (-1, s\<lparr>errno := ENOENT\<rparr>))"

definition cntl_events :: "epoll_op \<Rightarrow> int \<Rightarrow> int \<Rightarrow> 'z ev_scheme \<Rightarrow> int \<times> 'z ev_scheme" where
  "cntl_events oper fd events s =
     (if \<not> is_fd_valid fd then (-1, s\<lparr>errno := EBADF\<rparr>) else epoll_ctl oper fd events s)"

definition add_events :: "int \<Rightarrow> int \<Rightarrow> 'z ev_scheme \<Rightarrow> int \<times> 'z ev_scheme" where
  "add_events fd events s =
     (let (ret, s) = cntl_events EPOLL_CTL_ADD fd events s
      in if ret < 0 \<and> errno s = EEXIST then cntl_events EPOLL_CTL_MOD fd events s else (ret, s))"

definition delete_events :: "int \<Rightarrow> int \<Rightarrow> 'z ev_scheme \<Rightarrow> int \<times> 'z ev_scheme" where
  "delete_events fd events s =
     (let (ret, s) = cntl_events EPOLL_CTL_DEL fd events s
      in if ret < 0 \<and> errno s = ENOENT then (0, s) else (ret, s))"

definition modify_events :: "int \<Rightarrow> int \<Rightarrow> 'z ev_scheme \<Rightarrow> int \<times> 'z ev_scheme" where
  "modify_events fd events s = cntl_events EPOLL_CTL_MOD fd events s"

section \<open>Waiting for a descriptor\<close>

datatype 's poll = Returned int 's | Blocked addr 's

definition event_poll_enter :: "int \<Rightarrow> int \<Rightarrow> 'z ev_scheme \<Rightarrow> 'z ev_scheme poll res" where
  "event_poll_enter fd events s =
     (let (p, s) = get_inner_fd fd s
      in if p = NULL then Inl (Panic ''ifd is NULL'')
         else rbind (update p (\<lambda>i. i\<lparr>ierror := IENONE, itask := self s\<rparr>) s) (\<lambda>s.
              let (ret, s) = add_events fd events s
              in if ret \<noteq> 0 then Inr (Returned (-1) (snd (delete_events fd events s)))
                 else rbind (deref p s) (\<lambda>i. Inr (Blocked p (s\<lparr>tw := wheel_update_element p (itimeout i) (tw s)\<rparr>)))))"

definition event_poll_leave :: "addr \<Rightarrow> 'z ev_scheme \<Rightarrow> (int \<times> 'z ev_scheme) res" where
  "event_poll_leave p s =
     rbind (deref p s) (\<lambda>i.
     let s = s\<lparr>tw := wheel_delete_element p (tw s)\<rparr>; (ret, s) = delete_events (ifd_fd i) 0 s
     in if ret \<noteq> 0 then Inr (-1, s)
        else if ierror i AND IETIMEOUT \<noteq> 0 then Inr (-1, s\<lparr>errno := ETIME\<rparr>)
        else if ierror i AND IEERR \<noteq> 0 then Inr (-1, s\<lparr>errno := ENETDOWN\<rparr>)
        else if ierror i AND IEHUP \<noteq> 0 then Inr (-1, s\<lparr>errno := ENETDOWN\<rparr>)
        else Inr (0, s))"

definition event_poll :: "('z ev_scheme \<Rightarrow> 'z ev_scheme) \<Rightarrow> int \<Rightarrow> int \<Rightarrow> 'z ev_scheme \<Rightarrow> (int \<times> 'z ev_scheme) res" where
  "event_poll others fd events s =
     rbind (event_poll_enter fd events s) (\<lambda>r.
       case r of Returned ret s \<Rightarrow> Inr (ret, s) | Blocked p s \<Rightarrow> event_poll_leave p (others s))"

section \<open>The event loop and the timeout task\<close>

definition events_to_error :: "int \<Rightarrow> int" where
  "events_to_error events =
     (let error = IENONE;
          error = (if events AND EPOLLIN \<noteq> 0 then error OR IEREAD else error);
          error = (if events AND EPOLLOUT \<noteq> 0 then error OR IEWRITE else error);
          error = (if events AND EPOLLERR \<noteq> 0 then error OR IEERR else error);
          error = (if events AND EPOLLRDHUP \<noteq> 0 then error OR IERDHUP else error);
          error = (if events AND EPOLLHUP \<noteq> 0 then error OR IEHUP else error)
      in error)"

text \<open>The loop over the events reported by \<open>epoll_wait\<close>.\<close>

fun dispatch :: "(int \<times> int) list \<Rightarrow> 'z ev_scheme \<Rightarrow> 'z ev_scheme res" where
  "dispatch [] s = Inr s"
| "dispatch ((fd, events) # evs) s =
     (let (p, s) = get_inner_fd fd s
      in rbind (update p (\<lambda>i. i\<lparr>ierror := events_to_error events\<rparr>) s) (\<lambda>s.
         rbind (deref p s) (\<lambda>i.
         let s = snd (delete_events (ifd_fd i) 0 s)
         in dispatch evs (if itask i \<noteq> 0 then s\<lparr>resumed := resumed s @ [itask i]\<rparr> else s))))"

text \<open>\<open>None\<close> is a failed \<open>epoll_wait\<close>.\<close>

definition event_wait :: "(int \<times> int) list option \<Rightarrow> 'z ev_scheme \<Rightarrow> (int \<times> 'z ev_scheme) res" where
  "event_wait r s =
     (case r of None \<Rightarrow> Inl (Panic ''epoll_wait'')
      | Some evs \<Rightarrow> rbind (dispatch evs s) (\<lambda>s. Inr (int (length evs), s)))"

text \<open>The body of the loop of \<open>_timeout_task\<close> after a complete read of the timer descriptor.\<close>

fun expire :: "addr list \<Rightarrow> 'z ev_scheme \<Rightarrow> 'z ev_scheme res" where
  "expire [] s = Inr s"
| "expire (p # ps) s =
     rbind (update p (\<lambda>i. i\<lparr>ierror := ierror i OR IETIMEOUT\<rparr>) s) (\<lambda>s.
     rbind (deref p s) (\<lambda>i.
       expire ps (s\<lparr>resumed := resumed s @ [itask i], tw := wheel_delete_element p (tw s)\<rparr>)))"

definition timeout_tick :: "'z ev_scheme \<Rightarrow> 'z ev_scheme res" where
  "timeout_tick s =
     (let s = s\<lparr>tw := wheel_rotate (tw s)\<rparr> in expire (wheel_timeout_list (tw s)) s)"

definition init_epoll_timer :: "int \<Rightarrow> nat \<Rightarrow> int \<Rightarrow> nat \<Rightarrow> 'z ev_scheme \<Rightarrow> 'z ev_scheme res" where
  "init_epoll_timer tfd msec_size iv timer_task s =
     (let s = s\<lparr>tw := new_time_wheel tfd msec_size iv\<rparr>
      in rbind (new_inner_fd tfd s) (\<lambda>(p, s).
         rbind (update p (\<lambda>i. i\<lparr>flags := flags i OR O_NONBLOCK, itimeout := -1, itask := timer_task\<rparr>) s) (\<lambda>s.
           Inr (s\<lparr>resumed := resumed s @ [timer_task]\<rparr>))))"

section \<open>Timers\<close>

text \<open>The timer settings \<open>tv_sec\<close> and \<open>tv_nsec\<close>; the division of C truncates.\<close>

definition timer_spec :: "int \<Rightarrow> int \<times> int" where
  "timer_spec ms = (sgn ms * (\<bar>ms\<bar> div 1000), sgn ms * (\<bar>ms\<bar> mod 1000) * 1000000)"

definition set_timer_raw :: "(int \<Rightarrow> int \<times> int \<Rightarrow> int) \<Rightarrow> int \<Rightarrow> int \<Rightarrow> int" where
  "set_timer_raw timerfd_settime tfd ms = (if tfd \<le> 0 then -1 else timerfd_settime tfd (timer_spec ms))"

definition open_timer :: "int \<Rightarrow> 'z ev_scheme \<Rightarrow> (int \<times> 'z ev_scheme) res" where
  "open_timer tfd s =
     (if tfd \<le> 0 then Inr (-1, s)
      else let (p, s) = get_inner_fd tfd s
           in rbind (if p = NULL then new_inner_fd tfd s else Inr (p, s)) (\<lambda>(p, s).
              rbind (update p (\<lambda>i. i\<lparr>flags := flags i OR O_NONBLOCK, itimeout := -1, ierror := IENONE\<rparr>) s) (\<lambda>s.
                Inr (tfd, s))))"

definition set_timer :: "(int \<Rightarrow> int \<times> int \<Rightarrow> int) \<Rightarrow> int \<Rightarrow> int \<Rightarrow> 'z ev_scheme \<Rightarrow> (int \<times> 'z ev_scheme) res" where
  "set_timer timerfd_settime tfd ms s =
     (let res = set_timer_raw timerfd_settime tfd ms
      in if res < 0 then Inr (res, s)
         else let (p, s) = get_inner_fd tfd s
              in rbind (update p (\<lambda>i. i\<lparr>itask := self s, ierror := IENONE\<rparr>) s) (\<lambda>s.
                   Inr (0, snd (add_events tfd (EPOLLIN OR EPOLLET) s))))"

definition cancel_timer :: "int \<Rightarrow> 'z ev_scheme \<Rightarrow> int \<times> 'z ev_scheme" where
  "cancel_timer tfd s = (0, snd (delete_events tfd 0 s))"

definition is_timeout_timer :: "int \<Rightarrow> 'z ev_scheme \<Rightarrow> bool res" where
  "is_timeout_timer tfd s =
     (if tfd \<le> 0 then Inr False
      else rbind (deref (fst (get_inner_fd tfd s)) s) (\<lambda>i. Inr (ierror i AND IEREAD \<noteq> 0)))"

section \<open>Invariant\<close>

definition ev_inv :: "'z ev_scheme \<Rightarrow> bool" where
  "ev_inv s \<longleftrightarrow> wheel_inv (tw s) \<and> armed (tw s) \<subseteq> dom (heap s) \<and> NULL \<notin> dom (heap s)"

text \<open>A descriptor that epoll accepts and whose record is allocated.\<close>

definition fd_ok :: "int \<Rightarrow> 'z ev_scheme \<Rightarrow> bool" where
  "fd_ok fd s \<longleftrightarrow> is_fd_valid fd \<and> kerr s fd = 0 \<and> fdtab s fd \<noteq> NULL \<and>
     (\<exists>i. heap s (fdtab s fd) = Some i \<and> ifd_fd i = fd)"

lemma delete_events_ok:
  assumes "is_fd_valid fd" "kerr s fd = 0"
  shows "\<exists>e. delete_events fd events s = (0, s\<lparr>interest := (interest s)(fd := None), errno := e\<rparr>)"
proof (cases "fd \<in> dom (interest s)")
  case True
  then show ?thesis
    using assms by (auto simp: delete_events_def cntl_events_def epoll_ctl_def intro: exI [of _ "errno s"])
next
  case False
  then have "(interest s)(fd := None) = interest s"
    by (auto simp: domIff)
  then show ?thesis
    using assms False by (auto simp: delete_events_def cntl_events_def epoll_ctl_def intro: exI [of _ ENOENT])
qed

lemma add_events_ok:
  assumes "is_fd_valid fd" "kerr s fd = 0"
  shows "\<exists>e. add_events fd events s = (0, s\<lparr>interest := (interest s)(fd \<mapsto> events), errno := e\<rparr>)"
proof (cases "fd \<in> dom (interest s)")
  case True
  then show ?thesis
    using assms by (intro exI [of _ EEXIST]) (auto simp: add_events_def cntl_events_def epoll_ctl_def)
next
  case False
  then show ?thesis
    using assms by (intro exI [of _ "errno s"]) (auto simp: add_events_def cntl_events_def epoll_ctl_def)
qed

lemma event_poll_enter_blocks:
  assumes "fd_ok fd s" "heap s (fdtab s fd) = Some i"
  shows "\<exists>e. event_poll_enter fd events s = Inr (Blocked (fdtab s fd)
    (s\<lparr>heap := (heap s)(fdtab s fd \<mapsto> i\<lparr>ierror := IENONE, itask := self s\<rparr>), interest := (interest s)(fd \<mapsto> events),
       errno := e, tw := wheel_update_element (fdtab s fd) (itimeout i) (tw s)\<rparr>))"
proof -
  let ?p = "fdtab s fd"
  let ?s = "s\<lparr>heap := (heap s)(?p \<mapsto> i\<lparr>ierror := IENONE, itask := self s\<rparr>)\<rparr>"
  have "is_fd_valid fd" "kerr ?s fd = 0" "?p \<noteq> NULL"
    using assms by (auto simp: fd_ok_def)
  then show ?thesis
    using add_events_ok [of fd ?s events] assms
    by (auto simp: event_poll_enter_def get_inner_fd_def update_def deref_def Let_def)
qed

definition poll_failed :: "int \<Rightarrow> bool" where
  "poll_failed e \<longleftrightarrow> e AND IETIMEOUT \<noteq> 0 \<or> e AND IEERR \<noteq> 0 \<or> e AND IEHUP \<noteq> 0"

lemma event_poll_leave_ok:
  assumes "heap s p = Some i" "p \<noteq> NULL" "is_fd_valid (ifd_fd i)" "kerr s (ifd_fd i) = 0"
  shows "\<exists>e. event_poll_leave p s =
      Inr (if poll_failed (ierror i) then -1 else 0,
        s\<lparr>tw := wheel_delete_element p (tw s), interest := (interest s)(ifd_fd i := None), errno := e\<rparr>) \<and>
    (ierror i AND IETIMEOUT \<noteq> 0 \<longrightarrow> e = ETIME) \<and>
    (ierror i AND IETIMEOUT = 0 \<and> poll_failed (ierror i) \<longrightarrow> e = ENETDOWN)"
proof -
  let ?s = "s\<lparr>tw := wheel_delete_element p (tw s)\<rparr>"
  obtain e where "delete_events (ifd_fd i) 0 ?s = (0, ?s\<lparr>interest := (interest s)(ifd_fd i := None), errno := e\<rparr>)"
    using delete_events_ok [of "ifd_fd i" ?s 0] assms by auto
  then show ?thesis
    using assms by (auto simp: event_poll_leave_def deref_def Let_def poll_failed_def)
qed

section \<open>Ticks\<close>

definition expired :: "addr list \<Rightarrow> 'z ev_scheme \<Rightarrow> 'z ev_scheme \<Rightarrow> bool" where
  "expired ps s s' \<longleftrightarrow> tw s' = fold wheel_delete_element ps (tw s) \<and> dom (heap s') = dom (heap s) \<and>
    (\<forall>q. q \<notin> set ps \<longrightarrow> heap s' q = heap s q) \<and>
    (\<forall>q\<in>set ps. \<forall>i. heap s q = Some i \<longrightarrow>
        heap s' q = Some (i\<lparr>ierror := ierror i OR IETIMEOUT\<rparr>) \<and> itask i \<in> set (resumed s')) \<and>
    set (resumed s) \<subseteq> set (resumed s') \<and> kerr s' = kerr s \<and> interest s' = interest s \<and> fdtab s' = fdtab s"

lemma expired_Cons:
  assumes "expired ps s1 s'" "p \<notin> set ps" "heap s p = Some i"
    and "s1 = s\<lparr>heap := (heap s)(p \<mapsto> i\<lparr>ierror := ierror i OR IETIMEOUT\<rparr>), resumed := resumed s @ [itask i],
      tw := wheel_delete_element p (tw s)\<rparr>"
  shows "expired (p # ps) s s'"
proof -
  have h: "heap s1 = (heap s)(p \<mapsto> i\<lparr>ierror := ierror i OR IETIMEOUT\<rparr>)" "itask i \<in> set (resumed s1)"
    "set (resumed s) \<subseteq> set (resumed s1)" "tw s1 = wheel_delete_element p (tw s)" "kerr s1 = kerr s"
    "interest s1 = interest s" "fdtab s1 = fdtab s"
    using assms(4) by auto
  have e: "tw s' = fold wheel_delete_element ps (tw s1)" "dom (heap s') = dom (heap s1)"
    "\<forall>q. q \<notin> set ps \<longrightarrow> heap s' q = heap s1 q" "set (resumed s1) \<subseteq> set (resumed s')" "kerr s' = kerr s1"
    "interest s' = interest s1" "fdtab s' = fdtab s1"
    "\<forall>q\<in>set ps. \<forall>i. heap s1 q = Some i \<longrightarrow>
        heap s' q = Some (i\<lparr>ierror := ierror i OR IETIMEOUT\<rparr>) \<and> itask i \<in> set (resumed s')"
    using assms(1) unfolding expired_def by blast+
  have "heap s' q = Some (j\<lparr>ierror := ierror j OR IETIMEOUT\<rparr>) \<and> itask j \<in> set (resumed s')"
    if "q \<in> set (p # ps)" "heap s q = Some j" for q j
  proof (cases "q = p")
    case True
    then show ?thesis
      using that(2) assms(2,3) e(3,4) h(1,2) by auto
  next
    case False
    then show ?thesis
      using that e(8) h(1) by simp
  qed
  moreover have "dom (heap s') = dom (heap s)"
    using e(2) h(1) assms(3) by auto
  ultimately show ?thesis
    using e h assms(2) unfolding expired_def by auto
qed

lemma expire_ok:
  assumes "set ps \<subseteq> dom (heap s)" "NULL \<notin> dom (heap s)" "distinct ps"
  shows "\<exists>s'. expire ps s = Inr s' \<and> expired ps s s'"
  using assms
proof (induction ps arbitrary: s)
  case Nil
  then show ?case by (simp add: expired_def)
next
  case (Cons p ps)
  obtain i where i: "heap s p = Some i" "p \<noteq> NULL"
    using Cons.prems by auto
  define s1 where "s1 = s\<lparr>heap := (heap s)(p \<mapsto> i\<lparr>ierror := ierror i OR IETIMEOUT\<rparr>), resumed := resumed s @ [itask i],
      tw := wheel_delete_element p (tw s)\<rparr>"
  have "expire (p # ps) s = expire ps s1"
    using i by (simp add: update_def deref_def s1_def)
  moreover have "\<exists>s'. expire ps s1 = Inr s' \<and> expired ps s1 s'"
    using Cons.prems i by (intro Cons.IH) (auto simp: s1_def)
  ultimately show ?case
    using expired_Cons [OF _ _ i(1) s1_def] Cons.prems(3) by auto
qed

lemma fold_delete:
  assumes "wheel_inv w"
  shows "wheel_inv (fold wheel_delete_element ps w)" "wsize (fold wheel_delete_element ps w) = wsize w"
    "loc (fold wheel_delete_element ps w) = loc w" "armed (fold wheel_delete_element ps w) = armed w - set ps"
    "j < wsize w \<Longrightarrow> set (slots (fold wheel_delete_element ps w) ! j) = set (slots w ! j) - set ps"
  using assms
proof (induction ps arbitrary: w)
  case (Cons p ps)
  let ?w = "wheel_delete_element p w"
  {
    case 1 then show ?case using Cons.IH(1) [OF wheel_delete_inv [OF 1]] by auto
  next
    case 2 then show ?case using Cons.IH(2) [OF wheel_delete_inv [OF 2]] by auto
  next
    case 3 then show ?case using Cons.IH(3) [OF wheel_delete_inv [OF 3]] by auto
  next
    case 4 then show ?case using Cons.IH(4) [OF wheel_delete_inv [OF 4]] by auto
  next
    case 5 then show ?case
      using Cons.IH(5) [OF _ wheel_delete_inv [OF 5(2)], of p] by (auto simp: wheel_delete_element_def wheel_inv_def)
  }
qed simp_all

text \<open>One tick: the slot the wheel arrives at is emptied, its elements get the timeout error and their tasks
  are resumed; nothing else changes.\<close>

lemma timeout_tick_ok:
  assumes "ev_inv s"
  defines "w \<equiv> wheel_rotate (tw s)"
  shows "\<exists>s'. timeout_tick s = Inr s' \<and> ev_inv s' \<and> wsize (tw s') = wsize w \<and> loc (tw s') = loc w \<and>
    (\<forall>j<wsize w. set (slots (tw s') ! j) = set (slots w ! j) - set (slots w ! loc w)) \<and>
    (\<forall>q. q \<notin> set (slots w ! loc w) \<longrightarrow> heap s' q = heap s q) \<and>
    (\<forall>q i. q \<in> set (slots w ! loc w) \<and> heap s q = Some i \<longrightarrow>
        heap s' q = Some (i\<lparr>ierror := ierror i OR IETIMEOUT\<rparr>) \<and> itask i \<in> set (resumed s')) \<and>
    kerr s' = kerr s \<and> interest s' = interest s \<and> fdtab s' = fdtab s"
proof -
  let ?ps = "slots w ! loc w" and ?s = "s\<lparr>tw := w\<rparr>"
  have w: "wheel_inv w" "armed w \<subseteq> dom (heap s)" "NULL \<notin> dom (heap s)"
    using assms(1) by (auto simp: ev_inv_def w_def wheel_rotate_inv)
  then have l: "loc w < length (slots w)"
    by (simp add: wheel_inv_def)
  then have ps: "set ?ps \<subseteq> armed w" "distinct ?ps"
    using w(1) nth_mem [OF l] unfolding armed_def wheel_inv_def distinct_concat_iff set_concat by blast+
  then obtain s' where s': "expire ?ps ?s = Inr s'" "expired ?ps ?s s'"
    using expire_ok [OF _ _ ps(2), of ?s] order_trans [OF ps(1) w(2)] w(3) by auto
  moreover have "timeout_tick s = expire ?ps ?s"
    by (simp add: timeout_tick_def w_def wheel_timeout_list_def)
  moreover have t: "tw s' = fold wheel_delete_element ?ps w" "dom (heap s') = dom (heap s)"
    using s'(2) by (auto simp: expired_def)
  moreover have "ev_inv s'"
    using t w fold_delete(1,4) [OF w(1), of ?ps] by (auto simp: ev_inv_def)
  ultimately show ?thesis
    using fold_delete(2,3,5) [OF w(1)] s'(2) by (auto simp: expired_def)
qed

fun ticks :: "nat \<Rightarrow> 'z ev_scheme \<Rightarrow> 'z ev_scheme res" where
  "ticks 0 s = Inr s"
| "ticks (Suc k) s = rbind (ticks k s) timeout_tick"

text \<open>A waiting descriptor: its element is in slot \<open>sl\<close>, its record says \<open>i\<close>.\<close>

definition waiting :: "addr \<Rightarrow> nat \<Rightarrow> inner_fd \<Rightarrow> 'z ev_scheme \<Rightarrow> bool" where
  "waiting p sl i s \<longleftrightarrow> ev_inv s \<and> sl < wsize (tw s) \<and> p \<in> set (slots (tw s) ! sl) \<and> heap s p = Some i"

lemma waiting_slot_unique:
  assumes "waiting p sl i s" "j < wsize (tw s)" "p \<in> set (slots (tw s) ! j)"
  shows "j = sl"
  using assms in_one_slot [of "slots (tw s)" j sl p] by (auto simp: waiting_def ev_inv_def wheel_inv_def)

lemma tick_keeps_waiting:
  assumes "waiting p sl i s" "(loc (tw s) + 1) mod wsize (tw s) \<noteq> sl"
  shows "\<exists>s'. timeout_tick s = Inr s' \<and> waiting p sl i s' \<and> wsize (tw s') = wsize (tw s) \<and>
    loc (tw s') = (loc (tw s) + 1) mod wsize (tw s) \<and> kerr s' = kerr s"
proof -
  let ?w = "wheel_rotate (tw s)"
  have s: "ev_inv s" "0 < wsize (tw s)"
    using assms(1) by (auto simp: waiting_def ev_inv_def wheel_inv_def)
  then have "p \<notin> set (slots ?w ! loc ?w)"
    using waiting_slot_unique [OF assms(1), of "loc ?w"] assms(2) by auto
  then show ?thesis
    using timeout_tick_ok [OF s(1)] assms(1) by (auto simp: waiting_def)
qed

lemma tick_expires_waiting:
  assumes "waiting p sl i s" "(loc (tw s) + 1) mod wsize (tw s) = sl"
  shows "\<exists>s'. timeout_tick s = Inr s' \<and> ev_inv s' \<and> heap s' p = Some (i\<lparr>ierror := ierror i OR IETIMEOUT\<rparr>) \<and>
    itask i \<in> set (resumed s') \<and> kerr s' = kerr s"
proof -
  have "p \<in> set (slots (tw s) ! ((loc (tw s) + 1) mod wsize (tw s)))" "ev_inv s" "heap s p = Some i"
    using assms by (auto simp: waiting_def)
  then show ?thesis
    using timeout_tick_ok [of s] by auto
qed

lemma ticks_waiting:
  assumes "waiting p sl i s" "\<forall>j. 1 \<le> j \<and> j \<le> k \<longrightarrow> (loc (tw s) + j) mod wsize (tw s) \<noteq> sl"
  shows "\<exists>s'. ticks k s = Inr s' \<and> waiting p sl i s' \<and> wsize (tw s') = wsize (tw s) \<and>
    (loc (tw s') + 1) mod wsize (tw s') = (loc (tw s) + k + 1) mod wsize (tw s) \<and> kerr s' = kerr s"
  using assms(2)
proof (induction k)
  case 0
  then show ?case using assms(1) by simp
next
  case (Suc k)
  then obtain s' where s': "ticks k s = Inr s'" "waiting p sl i s'" "wsize (tw s') = wsize (tw s)"
    "(loc (tw s') + 1) mod wsize (tw s') = (loc (tw s) + k + 1) mod wsize (tw s)" "kerr s' = kerr s"
    by auto
  have "(loc (tw s') + 1) mod wsize (tw s') \<noteq> sl"
    using Suc.prems s'(4) by (metis Suc_eq_plus1 add.assoc le_add2 order_refl)
  then obtain t where t: "timeout_tick s' = Inr t" "waiting p sl i t" "wsize (tw t) = wsize (tw s')"
    "loc (tw t) = (loc (tw s') + 1) mod wsize (tw s')" "kerr t = kerr s'"
    using tick_keeps_waiting [OF s'(2)] by blast
  then have "(loc (tw t) + 1) mod wsize (tw t) = (loc (tw s) + Suc k + 1) mod wsize (tw s)"
    using s'(3,4) by (simp add: mod_Suc_eq)
  then show ?case
    using s' t by auto
qed

text \<open>Entering \<open>event_poll\<close> puts the descriptor into the slot its timeout asks for.\<close>

lemma event_poll_enter_waiting:
  assumes "ev_inv s" "fd_ok fd s" "heap s (fdtab s fd) = Some i" "0 \<le> itimeout i"
    and "event_poll_enter fd events s = Inr (Blocked p s1)"
  shows "p = fdtab s fd" "kerr s1 = kerr s" "wsize (tw s1) = wsize (tw s)" "loc (tw s1) = loc (tw s)"
    "waiting p ((loc (tw s) + nat (itimeout i) + 1) mod wsize (tw s)) (i\<lparr>ierror := IENONE, itask := self s\<rparr>) s1"
proof -
  define i1 where "i1 = i\<lparr>ierror := IENONE, itask := self s\<rparr>"
  obtain e where b: "Blocked p s1 = Blocked (fdtab s fd) (s\<lparr>heap := (heap s)(fdtab s fd \<mapsto> i1),
      interest := (interest s)(fd \<mapsto> events), errno := e, tw := wheel_update_element (fdtab s fd) (itimeout i) (tw s)\<rparr>)"
    using event_poll_enter_blocks [OF assms(2,3), of events] assms(5) unfolding i1_def by auto
  then show p: "p = fdtab s fd" and k: "kerr s1 = kerr s"
    by auto
  have s1: "tw s1 = wheel_update_element p (itimeout i) (tw s)" "heap s1 = (heap s)(p \<mapsto> i1)"
    using b by auto
  then show "wsize (tw s1) = wsize (tw s)" "loc (tw s1) = loc (tw s)"
    by simp_all
  have w: "wheel_inv (tw s)" "0 < wsize (tw s)" "p \<noteq> NULL"
    using assms(1-3) p by (auto simp: ev_inv_def wheel_inv_def fd_ok_def)
  have "ev_inv s1"
    using assms(1) s1 wheel_update_inv [OF w(1)] wheel_update_armed [OF w(1) assms(4), of p] w(3)
    by (auto simp: ev_inv_def)
  then have "waiting p ((loc (tw s) + nat (itimeout i) + 1) mod wsize (tw s)) i1 s1"
    using slot_of_update [OF w(1) assms(4), of _ p] w(2) s1 by (simp add: waiting_def)
  then show "waiting p ((loc (tw s) + nat (itimeout i) + 1) mod wsize (tw s)) (i\<lparr>ierror := IENONE, itask := self s\<rparr>) s1"
    by (simp only: i1_def)
qed

lemma waiting_armed: "waiting p sl i s \<Longrightarrow> p \<in> armed (tw s)"
  unfolding waiting_def ev_inv_def wheel_inv_def armed_def by (metis UN_I nth_mem set_concat)

lemma waiting_until:
  assumes "waiting p ((loc (tw s) + t + 1) mod wsize (tw s)) i s" "k \<le> t mod wsize (tw s)"
  shows "\<exists>s'. ticks k s = Inr s' \<and> waiting p ((loc (tw s) + t + 1) mod wsize (tw s)) i s' \<and> kerr s' = kerr s \<and>
    (loc (tw s') + 1) mod wsize (tw s') = (loc (tw s) + (k + 1)) mod wsize (tw s)"
proof -
  have n: "0 < wsize (tw s)" "t mod wsize (tw s) < wsize (tw s)"
    using assms(1) by (simp_all add: waiting_def)
  have "(loc (tw s) + j) mod wsize (tw s) \<noteq> (loc (tw s) + t + 1) mod wsize (tw s)" if "1 \<le> j" "j \<le> k" for j
    using slot_reached [OF that(1) _ n(1), of "loc (tw s)" t] that assms(2) n(2) by simp
  then show ?thesis
    using ticks_waiting [OF assms(1), of k] by (auto simp: add.assoc)
qed

section \<open>Properties\<close>

text \<open>C11: A task that waits for a descriptor with timeout \<open>t\<close> and for which nothing happens is woken by the timeout
  task after exactly \<open>t mod size + 1\<close> ticks of the wheel: until then its descriptor shows no error and stays
  armed, then its task is resumed, \<open>event_poll\<close> returns \<open>-1\<close> with \<open>ETIME\<close>, and the descriptor is left neither in the
  wheel nor in the epoll set.\<close>

theorem event_poll_times_out:
  assumes "ev_inv s" "fd_ok fd s" "heap s (fdtab s fd) = Some i" "0 \<le> itimeout i"
    and "n = nat (itimeout i) mod wsize (tw s)" "event_poll_enter fd events s = Inr (Blocked p s1)"
  shows "(\<forall>k\<le>n. \<exists>s2 i2. ticks k s1 = Inr s2 \<and> heap s2 p = Some i2 \<and> ierror i2 = IENONE \<and> p \<in> armed (tw s2)) \<and>
    (\<exists>s2 s3. ticks (n + 1) s1 = Inr s2 \<and> self s \<in> set (resumed s2) \<and> event_poll_leave p s2 = Inr (-1, s3) \<and>
       errno s3 = ETIME \<and> p \<notin> armed (tw s3) \<and> interest s3 fd = None)"
proof -
  let ?t = "nat (itimeout i)"
  define i1 where "i1 = i\<lparr>ierror := IENONE, itask := self s\<rparr>"
  note enter = event_poll_enter_waiting [OF assms(1-4,6), folded i1_def]
  let ?sl = "(loc (tw s1) + ?t + 1) mod wsize (tw s1)"
  have wait: "waiting p ?sl i1 s1" and n: "n = ?t mod wsize (tw s1)"
    using enter(3-5) assms(5) by simp_all
  have fd: "is_fd_valid fd" "kerr s fd = 0" "p \<noteq> NULL" "ifd_fd i1 = fd" "ierror i1 = IENONE"
    using assms(2,3) enter(1) by (auto simp: fd_ok_def i1_def)
  have "\<exists>s2 i2. ticks k s1 = Inr s2 \<and> heap s2 p = Some i2 \<and> ierror i2 = IENONE \<and> p \<in> armed (tw s2)" if "k \<le> n" for k
    using waiting_until [OF wait that [unfolded n]] waiting_armed fd(5) by (metis waiting_def)
  moreover have reached: "(loc (tw s1) + (n + 1)) mod wsize (tw s1) = ?sl"
  proof -
    have "0 < wsize (tw s1)"
      using wait by (auto simp: waiting_def)
    moreover from this have "n < wsize (tw s1)"
      by (simp add: n)
    ultimately show ?thesis
      using slot_reached [of "n + 1" "wsize (tw s1)" "loc (tw s1)" ?t] n by simp
  qed
  moreover obtain s2 where s2: "ticks n s1 = Inr s2" "waiting p ?sl i1 s2" "kerr s2 = kerr s"
    "(loc (tw s2) + 1) mod wsize (tw s2) = ?sl"
    using waiting_until [OF wait order_refl] enter(2) reached by (auto simp: n)
  moreover obtain s3 where s3: "timeout_tick s2 = Inr s3" "heap s3 p = Some (i1\<lparr>ierror := ierror i1 OR IETIMEOUT\<rparr>)"
    "itask i1 \<in> set (resumed s3)" "kerr s3 = kerr s"
    using tick_expires_waiting [OF s2(2,4)] s2(3) by metis
  moreover obtain e where "event_poll_leave p s3 = Inr (-1, s3\<lparr>tw := wheel_delete_element p (tw s3),
      interest := (interest s3)(fd := None), errno := e\<rparr>)" "e = ETIME"
    using event_poll_leave_ok [OF s3(2) fd(3)] fd s3(4) by (auto simp: poll_failed_def IENONE_def IETIMEOUT_def)
  ultimately show ?thesis
    by (auto simp: i1_def)
qed

definition ev_example :: ev where
  "ev_example = \<lparr>fdtab = (\<lambda>fd. if fd = 5 then 1 else 0),
     heap = [1 \<mapsto> \<lparr>ifd_fd = 5, flags = 0, user_flags = 0, itask = 0, itimeout = 3, ierror = 0\<rparr>], brk = 2,
     tw = new_time_wheel 4 600 1, interest = Map.empty, kerr = (\<lambda>_. 0), errno = 0, resumed = [], self = 9\<rparr>"

theorem event_poll_times_out_witness:
  "\<exists>p s1 s2 s3. event_poll_enter 5 EPOLLIN ev_example = Inr (Blocked p s1) \<and> ticks 4 s1 = Inr s2 \<and>
     9 \<in> set (resumed s2) \<and> event_poll_leave p s2 = Inr (-1, s3) \<and> errno s3 = ETIME"
proof -
  have ok: "ev_inv ev_example" "fd_ok 5 ev_example" "wsize (tw ev_example) = 600" "self ev_example = 9"
    by (simp_all add: ev_inv_def fd_ok_def ev_example_def is_fd_valid_def MAX_FD_NUM_def new_time_wheel_inv)
      (simp add: new_time_wheel_def MIN_TIME_WHEEL_SIZE_def)
  obtain i where i: "heap ev_example (fdtab ev_example 5) = Some i" "itimeout i = 3"
    by (simp add: ev_example_def)
  obtain p s1 where e: "event_poll_enter 5 EPOLLIN ev_example = Inr (Blocked p s1)"
    using event_poll_enter_blocks [OF ok(2) i(1)] by blast
  show ?thesis
    using event_poll_times_out [OF ok(1,2) i(1) _ refl e] i(2) ok e by auto
qed

end
