(* ===== verification/CaskHook.thy ===== *)
theory CaskHook
  imports CaskEvent CaskInt
begin

unbundle bit_operations_syntax

text \<open>
  The hooked system calls of \<open>sys_hook.c\<close> and the helpers of \<open>sys_helper.c\<close>: blocking I/O calls that suspend the calling
  coroutine instead of the thread. The state is that of the event layer with the hook flag of the running
  task and the kernel (together with the user memory it writes to) as an opaque value. The real system calls, found by
  \<open>dlsym\<close>, are parameters: a call takes the kernel state and gives the return value, the error number
  used when that is negative, and the new kernel state. \<open>others\<close> is what the other tasks and the event loop do
  while the task is suspended. The results and the counters of the loops are of type \<open>int\<close>, as in the
  code: every assignment keeps 32 bits. \<open>EAGAIN\<close> and \<open>EWOULDBLOCK\<close> are the same number on Linux.
\<close>

section \<open>State and system calls\<close>

type_synonym byte = "8 word"
type_synonym 'k call = "'k \<Rightarrow> int \<times> int \<times> 'k"

record 'k hk = ev +
  kern :: 'k
  hook :: bool

definition EALREADY :: int where "EALREADY = 114"
definition EINPROGRESS :: int where "EINPROGRESS = 115"

definition syscall :: "'k call \<Rightarrow> 'k hk \<Rightarrow> int \<times> 'k hk" where
  "syscall c s = (let (ret, e, k) = c (kern s) in (ret, s\<lparr>kern := k, errno := (if ret < 0 then e else errno s)\<rparr>))"

definition co_enable_hook :: "'k hk \<Rightarrow> 'k hk" where
  "co_enable_hook s = s\<lparr>hook := True\<rparr>"

definition co_disable_hook :: "'k hk \<Rightarrow> 'k hk" where
  "co_disable_hook s = s\<lparr>hook := False\<rparr>"

text \<open>The tests every hooked call starts with: the call is taken over only for a task with hooks enabled and a
  descriptor known to be non-blocking.\<close>

definition hooked_fd :: "int \<Rightarrow> 'k hk \<Rightarrow> (addr option \<times> 'k hk) res" where
  "hooked_fd fd s =
     (if \<not> hook s then Inr (None, s)
      else let (p, s) = get_inner_fd fd s
           in if p = NULL then Inr (None, s)
              else rbind (deref p s) (\<lambda>i. Inr (if O_NONBLOCK AND flags i \<noteq> 0 then Some p else None, s)))"

section \<open>Descriptors\<close>

datatype fcntl_cmd = F_DUPFD | F_GETFL | F_SETFL | F_PASS | F_UNKNOWN

definition hk_fcntl :: "(int \<Rightarrow> fcntl_cmd \<Rightarrow> int \<Rightarrow> 'k call) \<Rightarrow> int \<Rightarrow> fcntl_cmd \<Rightarrow> int \<Rightarrow> 'k hk \<Rightarrow> (int \<times> 'k hk) res" where
  "hk_fcntl sys_fcntl fd cmd arg s =
     (if fd < 0 then Inr (-1, s\<lparr>errno := EBADF\<rparr>)
      else let (p, s) = get_inner_fd fd s
      in case cmd of
           F_DUPFD \<Rightarrow>
             (let (ret, s) = syscall (sys_fcntl fd cmd arg) s
              in if ret > 0 \<and> hook s \<and> p \<noteq> NULL
                 then rbind (deref p s) (\<lambda>i.
                        if flags i AND O_NONBLOCK \<noteq> 0 then rbind (new_inner_fd ret s) (\<lambda>(_, s). Inr (ret, s)) else Inr (ret, s))
                 else Inr (ret, s))
         | F_GETFL \<Rightarrow>
             if \<not> hook s \<or> p = NULL then Inr (syscall (sys_fcntl fd cmd arg) s)
             else rbind (deref p s) (\<lambda>i. Inr (user_flags i, s))
         | F_SETFL \<Rightarrow>
             if \<not> hook s then Inr (syscall (sys_fcntl fd cmd arg) s)
             else rbind (if p = NULL \<and> arg AND O_NONBLOCK \<noteq> 0 then new_inner_fd fd s else Inr (p, s)) (\<lambda>(p, s).
                  if arg AND O_NONBLOCK = 0
                  then rbind (update p (\<lambda>i. i\<lparr>user_flags := arg\<rparr>) s) (\<lambda>s.
                         Inr (syscall (sys_fcntl fd cmd (arg OR O_NONBLOCK)) s))
                  else rbind (deref p s) (\<lambda>i.
                         if user_flags i = arg then Inr (0, s)
                         else if flags i = arg then rbind (update p (\<lambda>i. i\<lparr>user_flags := flags i\<rparr>) s) (\<lambda>s. Inr (0, s))
                         else let (ret, s) = syscall (sys_fcntl fd cmd arg) s
                              in if ret = 0 then rbind (update p (\<lambda>i. i\<lparr>flags := arg, user_flags := arg\<rparr>) s) (\<lambda>s. Inr (ret, s))
                                 else Inr (ret, s)))
         | F_PASS \<Rightarrow> Inr (syscall (sys_fcntl fd cmd arg) s)
         | F_UNKNOWN \<Rightarrow> Inr (-1, s))"

definition in_set_nonblock :: "(int \<Rightarrow> fcntl_cmd \<Rightarrow> int \<Rightarrow> 'k call) \<Rightarrow> int \<Rightarrow> 'k hk \<Rightarrow> (int \<times> 'k hk) res" where
  "in_set_nonblock sys_fcntl sockfd s =
     rbind (hk_fcntl sys_fcntl sockfd F_GETFL 0 (co_disable_hook s)) (\<lambda>(ufl, s).
     rbind (hk_fcntl sys_fcntl sockfd F_SETFL (ufl OR O_NONBLOCK) (co_enable_hook s)) (\<lambda>(ret, s).
       if ret < 0 then Inr (-1, s)
       else let (p, s) = get_inner_fd sockfd s
            in rbind (update p (\<lambda>i. i\<lparr>user_flags := ufl\<rparr>) s) (\<lambda>s. Inr (0, s))))"

definition hk_socket :: "(int \<Rightarrow> fcntl_cmd \<Rightarrow> int \<Rightarrow> 'k call) \<Rightarrow> 'k call \<Rightarrow> 'k hk \<Rightarrow> (int \<times> 'k hk) res" where
  "hk_socket sys_fcntl sys_socket s =
     (let (sockfd, s) = syscall sys_socket s
      in if sockfd < 0 \<or> \<not> hook s then Inr (sockfd, s)
         else rbind (in_set_nonblock sys_fcntl sockfd s) (\<lambda>(_, s). Inr (sockfd, s)))"

definition hk_listen :: "'k call \<Rightarrow> int \<Rightarrow> 'k hk \<Rightarrow> (int \<times> 'k hk) res" where
  "hk_listen sys_listen sockfd s =
     (let (p, s) = get_inner_fd sockfd s
      in rbind (if hook s \<and> p \<noteq> NULL then update p (\<lambda>i. i\<lparr>itimeout := -1\<rparr>) s else Inr s) (\<lambda>s.
           Inr (syscall sys_listen s)))"

definition hk_close :: "(int \<Rightarrow> 'k call) \<Rightarrow> int \<Rightarrow> 'k hk \<Rightarrow> int \<times> 'k hk" where
  "hk_close sys_close fd s =
     (if \<not> hook s then syscall (sys_close fd) s
      else let (p, s) = get_inner_fd fd s
           in syscall (sys_close fd) (if p \<noteq> NULL then delete_inner_fd fd s else s))"

text \<open>\<open>get_connect_error\<close> reads the pending error of the socket.\<close>

definition hk_connect :: "'k call \<Rightarrow> (int \<Rightarrow> 'k \<Rightarrow> int) \<Rightarrow> ('k hk \<Rightarrow> 'k hk) \<Rightarrow> int \<Rightarrow> 'k hk \<Rightarrow> (int \<times> 'k hk) res" where
  "hk_connect sys_connect get_connect_error others sockfd s =
     rbind (hooked_fd sockfd s) (\<lambda>(g, s).
       case g of
         None \<Rightarrow> Inr (syscall sys_connect s)
       | Some p \<Rightarrow>
           (let (ret, s) = syscall sys_connect s
            in if ret = -1 \<and> (errno s = EALREADY \<or> errno s = EINPROGRESS)
               then rbind (event_poll others sockfd (EPOLLOUT OR EPOLLRDHUP OR EPOLLERR) s) (\<lambda>(ret, s).
                    if ret \<noteq> 0 then Inr (-1, s)
                    else rbind (deref p s) (\<lambda>i.
                         if ierror i AND IEWRITE \<noteq> 0
                         then let s = s\<lparr>errno := get_connect_error sockfd (kern s)\<rparr>
                              in Inr (if errno s = 0 then 0 else -1, s)
                         else Inr (ret, s)))
               else Inr (ret, s)))"

definition hk_accept :: "(int \<Rightarrow> fcntl_cmd \<Rightarrow> int \<Rightarrow> 'k call) \<Rightarrow> 'k call \<Rightarrow> ('k hk \<Rightarrow> 'k hk) \<Rightarrow> int \<Rightarrow> 'k hk \<Rightarrow> (int \<times> 'k hk) res" where
  "hk_accept sys_fcntl sys_accept others sockfd s =
     rbind (hooked_fd sockfd s) (\<lambda>(g, s).
       case g of
         None \<Rightarrow> Inr (syscall sys_accept s)
       | Some p \<Rightarrow>
           rbind (let (ret, s) = syscall sys_accept s
                  in if ret < 0
                     then if errno s \<noteq> EAGAIN then Inr (False, ret, s)
                          else rbind (event_poll others sockfd (EPOLLIN OR EPOLLRDHUP OR EPOLLERR OR EPOLLET) s) (\<lambda>(ret, s).
                               if ret \<noteq> 0 then Inr (False, ret, s)
                               else let (ret, s) = syscall sys_accept s in Inr (\<not> ret < 0, ret, s))
                     else Inr (True, ret, s)) (\<lambda>(ok, ret, s).
           if ok then rbind (in_set_nonblock sys_fcntl ret s) (\<lambda>(_, s). Inr (ret, s)) else Inr (ret, s)))"

section \<open>Receiving\<close>

definition recv_hooked :: "'k call \<Rightarrow> ('k hk \<Rightarrow> 'k hk) \<Rightarrow> int \<Rightarrow> 'k hk \<Rightarrow> (int \<times> 'k hk) res" where
  "recv_hooked c others fd s =
     rbind (hooked_fd fd s) (\<lambda>(g, s).
       case g of
         None \<Rightarrow> Inr (syscall c s)
       | Some p \<Rightarrow>
           (let (r, s) = syscall c s; ret = int32 r
            in if ret = -1 \<and> errno s = EAGAIN
               then rbind (event_poll others fd (EPOLLIN OR EPOLLRDHUP OR EPOLLERR) s) (\<lambda>(ret, s).
                    if ret \<noteq> 0 then Inr (-1, s)
                    else let (r, s) = syscall c s; ret = int32 r
                         in if ret \<noteq> 0 then Inr (ret, s)
                            else rbind (deref p s) (\<lambda>i. Inr (if ierror i AND IERDHUP \<noteq> 0 then -1 else ret, s)))
               else Inr (ret, s)))"

definition hk_read :: "(int \<Rightarrow> nat \<Rightarrow> 'k call) \<Rightarrow> ('k hk \<Rightarrow> 'k hk) \<Rightarrow> int \<Rightarrow> nat \<Rightarrow> 'k hk \<Rightarrow> (int \<times> 'k hk) res" where
  "hk_read sys_read others fd n = recv_hooked (sys_read fd n) others fd"

definition hk_recv :: "(int \<Rightarrow> nat \<Rightarrow> int \<Rightarrow> 'k call) \<Rightarrow> ('k hk \<Rightarrow> 'k hk) \<Rightarrow> int \<Rightarrow> nat \<Rightarrow> int \<Rightarrow> 'k hk \<Rightarrow> (int \<times> 'k hk) res" where
  "hk_recv sys_recv others fd len fl = recv_hooked (sys_recv fd len fl) others fd"

definition hk_recvfrom :: "(int \<Rightarrow> nat \<Rightarrow> int \<Rightarrow> 'k call) \<Rightarrow> ('k hk \<Rightarrow> 'k hk) \<Rightarrow> int \<Rightarrow> nat \<Rightarrow> int \<Rightarrow> 'k hk \<Rightarrow> (int \<times> 'k hk) res" where
  "hk_recvfrom sys_recvfrom others fd len fl = recv_hooked (sys_recvfrom fd len fl) others fd"

definition hk_recvmsg :: "(int \<Rightarrow> int \<Rightarrow> 'k call) \<Rightarrow> ('k hk \<Rightarrow> 'k hk) \<Rightarrow> int \<Rightarrow> int \<Rightarrow> 'k hk \<Rightarrow> (int \<times> 'k hk) res" where
  "hk_recvmsg sys_recvmsg others fd fl = recv_hooked (sys_recvmsg fd fl) others fd"

section \<open>Sending\<close>

text \<open>The two nested loops of \<open>write\<close>, \<open>send\<close> and \<open>sendto\<close>, from \<open>len\<close> bytes sent on.  The \<open>int\<close>
  \<open>len\<close> is converted to \<open>size_t\<close> when it is compared with the size of the buffer.  The rest of the buffer is offered until
  everything is sent; when the kernel would block, the task waits.\<close>

partial_function (option) send_loop ::
  "(byte list \<Rightarrow> 'k call) \<Rightarrow> ('k hk \<Rightarrow> 'k hk) \<Rightarrow> int \<Rightarrow> byte list \<Rightarrow> int \<Rightarrow> 'k hk \<Rightarrow> (int \<times> 'k hk) res option" where
  "send_loop c others fd buf len s =
     (if size64 len < length buf
      then let (r, s) = syscall (c (drop (size64 len) buf)) s; ret = int32 r
           in if ret < 0
              then if errno s = EAGAIN
                   then case event_poll others fd (EPOLLOUT OR EPOLLRDHUP OR EPOLLERR OR EPOLLET) s of
                          Inl f \<Rightarrow> Some (Inl f)
                        | Inr (r, s) \<Rightarrow> if r \<noteq> 0 then Some (Inr (-1, s)) else send_loop c others fd buf len s
                   else Some (Inr (ret, s))
              else send_loop c others fd buf (int32 (len + ret)) s
      else Some (Inr (len, s)))"

definition send_hooked :: "(byte list \<Rightarrow> 'k call) \<Rightarrow> ('k hk \<Rightarrow> 'k hk) \<Rightarrow> int \<Rightarrow> byte list \<Rightarrow> 'k hk \<Rightarrow> (int \<times> 'k hk) res option" where
  "send_hooked c others fd buf s =
     (case hooked_fd fd s of
        Inl f \<Rightarrow> Some (Inl f)
      | Inr (None, s) \<Rightarrow> Some (Inr (syscall (c buf) s))
      | Inr (Some p, s) \<Rightarrow> send_loop c others fd buf 0 s)"

definition hk_write :: "(int \<Rightarrow> byte list \<Rightarrow> 'k call) \<Rightarrow> ('k hk \<Rightarrow> 'k hk) \<Rightarrow> int \<Rightarrow> byte list \<Rightarrow> 'k hk \<Rightarrow> (int \<times> 'k hk) res option" where
  "hk_write sys_write others fd buf = send_hooked (sys_write fd) others fd buf"

definition hk_send :: "(int \<Rightarrow> int \<Rightarrow> byte list \<Rightarrow> 'k call) \<Rightarrow> ('k hk \<Rightarrow> 'k hk) \<Rightarrow> int \<Rightarrow> byte list \<Rightarrow> int \<Rightarrow> 'k hk \<Rightarrow> (int \<times> 'k hk) res option" where
  "hk_send sys_send others fd buf fl = send_hooked (sys_send fd fl) others fd buf"

definition hk_sendto :: "(int \<Rightarrow> int \<Rightarrow> 'a \<Rightarrow> byte list \<Rightarrow> 'k call) \<Rightarrow> ('k hk \<Rightarrow> 'k hk) \<Rightarrow> int \<Rightarrow> byte list \<Rightarrow> int \<Rightarrow> 'a \<Rightarrow> 'k hk \<Rightarrow> (int \<times> 'k hk) res option" where
  "hk_sendto sys_sendto others fd buf fl dest = send_hooked (sys_sendto fd fl dest) others fd buf"

text \<open>\<open>sendmsg\<close> has the same loops but always offers the whole message; \<open>iov\<close> are its buffers.\<close>

fun msg_len_loop :: "byte list list \<Rightarrow> int \<Rightarrow> int" where
  "msg_len_loop [] len = len"
| "msg_len_loop (v # iov) len = msg_len_loop iov (int32 (len + int (length v)))"

definition get_msg_len :: "byte list list \<Rightarrow> int" where
  "get_msg_len iov = msg_len_loop iov 0"

partial_function (option) sendmsg_loop ::
  "'k call \<Rightarrow> ('k hk \<Rightarrow> 'k hk) \<Rightarrow> int \<Rightarrow> int \<Rightarrow> int \<Rightarrow> 'k hk \<Rightarrow> (int \<times> 'k hk) res option" where
  "sendmsg_loop c others fd n len s =
     (if len < n
      then let (r, s) = syscall c s; ret = int32 r
           in if ret < 0
              then if errno s = EAGAIN
                   then case event_poll others fd (EPOLLOUT OR EPOLLRDHUP OR EPOLLERR OR EPOLLET) s of
                          Inl f \<Rightarrow> Some (Inl f)
                        | Inr (r, s) \<Rightarrow> if r \<noteq> 0 then Some (Inr (-1, s)) else sendmsg_loop c others fd n len s
                   else Some (Inr (ret, s))
              else sendmsg_loop c others fd n (int32 (len + ret)) s
      else Some (Inr (len, s)))"

definition hk_sendmsg :: "(int \<Rightarrow> int \<Rightarrow> byte list list \<Rightarrow> 'k call) \<Rightarrow> ('k hk \<Rightarrow> 'k hk) \<Rightarrow> int \<Rightarrow> byte list list \<Rightarrow> int \<Rightarrow> 'k hk \<Rightarrow> (int \<times> 'k hk) res option" where
  "hk_sendmsg sys_sendmsg others fd iov fl s =
     (case hooked_fd fd s of
        Inl f \<Rightarrow> Some (Inl f)
      | Inr (None, s) \<Rightarrow> Some (Inr (syscall (sys_sendmsg fd fl iov) s))
      | Inr (Some p, s) \<Rightarrow>
          (let n = get_msg_len iov
           in if n < 0 then Some (Inr (syscall (sys_sendmsg fd fl iov) s)) else sendmsg_loop (sys_sendmsg fd fl iov) others fd n 0 s))"

section \<open>Sleeping and polling\<close>

text \<open>\<open>tfd\<close> is the result of \<open>timerfd_create\<close>.\<close>

definition co_sleep ::
  "(int \<Rightarrow> int \<times> int \<Rightarrow> int) \<Rightarrow> (int \<Rightarrow> nat \<Rightarrow> 'k call) \<Rightarrow> (int \<Rightarrow> 'k call) \<Rightarrow> ('k hk \<Rightarrow> 'k hk) \<Rightarrow> int \<Rightarrow> nat \<Rightarrow> 'k hk \<Rightarrow> (int \<times> 'k hk) res" where
  "co_sleep timerfd_settime sys_read sys_close others tfd mseconds s =
     (if mseconds = 0 then Inr (0, s)
      else rbind (open_timer tfd s) (\<lambda>(tfd, s).
           if tfd < 0 then Inl (Panic ''timer fd open failed!'')
           else rbind (set_timer timerfd_settime tfd (int mseconds) s) (\<lambda>(res, s).
                rbind (if res \<noteq> 0 then Inr (res, s) else hk_read sys_read others tfd 8 s) (\<lambda>(res, s).
                  if res < 0 then Inr (-1, s) else Inr (0, snd (hk_close sys_close tfd s))))))"

definition hk_sleep ::
  "(int \<Rightarrow> int \<times> int \<Rightarrow> int) \<Rightarrow> (int \<Rightarrow> nat \<Rightarrow> 'k call) \<Rightarrow> (int \<Rightarrow> 'k call) \<Rightarrow> 'k call \<Rightarrow> ('k hk \<Rightarrow> 'k hk) \<Rightarrow> int \<Rightarrow> nat \<Rightarrow> 'k hk \<Rightarrow> (int \<times> 'k hk) res" where
  "hk_sleep timerfd_settime sys_read sys_close sys_sleep others tfd seconds s =
     (if \<not> hook s then Inr (syscall sys_sleep s)
      else co_sleep timerfd_settime sys_read sys_close others tfd ((seconds * 1000) mod 2 ^ 32) s)"

record pollfd =
  pfd :: int
  pevents :: int
  prevents :: int

text \<open>The first loop of \<open>co_poll\<close> registers the descriptors.\<close>

fun poll_register :: "bool \<Rightarrow> pollfd list \<Rightarrow> 'k hk \<Rightarrow> 'k hk res" where
  "poll_register use_timeout [] s = Inr s"
| "poll_register use_timeout (f # fds) s =
     (let (p, s) = get_inner_fd (pfd f) s
      in rbind (update p (\<lambda>i. i\<lparr>itask := self s, ierror := IENONE\<rparr>) s) (\<lambda>s.
         rbind (deref p s) (\<lambda>i.
         let s = snd (add_events (ifd_fd i) (pevents f) s)
         in poll_register use_timeout fds
              (if use_timeout then s else s\<lparr>tw := wheel_update_element p (itimeout i) (tw s)\<rparr>))))"

definition error_to_events :: "int \<Rightarrow> int" where
  "error_to_events error =
     (let events = 0;
          events = (if error AND IEREAD \<noteq> 0 then events OR EPOLLIN else events);
          events = (if error AND IEWRITE \<noteq> 0 then events OR EPOLLOUT else events);
          events = (if error AND IEERR \<noteq> 0 then events OR EPOLLERR else events);
          events = (if error AND IERDHUP \<noteq> 0 then events OR EPOLLRDHUP else events);
          events = (if error AND IEHUP \<noteq> 0 then events OR EPOLLHUP else events)
      in events)"

text \<open>The second loop, with \<open>n\<close> entries left, the next one at index \<open>i\<close> and \<open>j\<close> entries moved to the front.\<close>

fun poll_collect :: "bool \<Rightarrow> bool \<Rightarrow> nat \<Rightarrow> nat \<Rightarrow> nat \<Rightarrow> pollfd list \<Rightarrow> 'k hk \<Rightarrow> (nat \<times> pollfd list \<times> 'k hk) res" where
  "poll_collect use_timeout timeout_event 0 i j fds s = Inr (j, fds, s)"
| "poll_collect use_timeout timeout_event (Suc n) i j fds s =
     (let (p, s) = get_inner_fd (pfd (fds ! i)) s
      in rbind (deref p s) (\<lambda>ifd.
         let s = (if use_timeout then s else s\<lparr>tw := wheel_delete_element p (tw s)\<rparr>);
             s = snd (delete_events (ifd_fd ifd) 0 s);
             fds = fds[i := (fds ! i)\<lparr>prevents := 0\<rparr>]
         in if ierror ifd = IENONE
            then rbind (if use_timeout \<and> timeout_event then update p (\<lambda>i. i\<lparr>ierror := IETIMEOUT\<rparr>) s else Inr s) (\<lambda>s.
                   poll_collect use_timeout timeout_event n (Suc i) j fds s)
            else let f = (fds ! i)\<lparr>prevents := error_to_events (ierror ifd)\<rparr>; fds = fds[i := f]
                 in poll_collect use_timeout timeout_event n (Suc i) (Suc j) (fds[j := f]) s))"

definition co_poll ::
  "(int \<Rightarrow> int \<times> int \<Rightarrow> int) \<Rightarrow> (int \<Rightarrow> 'k call) \<Rightarrow> ('k hk \<Rightarrow> 'k hk) \<Rightarrow> int \<Rightarrow> pollfd list \<Rightarrow> int \<Rightarrow> 'k hk \<Rightarrow> (nat \<times> pollfd list \<times> 'k hk) res" where
  "co_poll timerfd_settime sys_close others tfd fds timeout s =
     (let use_timeout = (timeout \<noteq> 0 \<and> timeout \<noteq> -1)
      in rbind (poll_register use_timeout fds s) (\<lambda>s.
         rbind (if use_timeout
                then rbind (open_timer tfd s) (\<lambda>(tfd, s). rbind (set_timer timerfd_settime tfd timeout s) (\<lambda>(_, s). Inr (tfd, s)))
                else Inr (-1, s)) (\<lambda>(tfd, s).
         let s = others s
         in rbind (if use_timeout
                   then rbind (is_timeout_timer tfd s) (\<lambda>te. Inr (te, snd (hk_close sys_close tfd s)))
                   else Inr (False, s)) (\<lambda>(timeout_event, s).
            poll_collect use_timeout timeout_event (length fds) 0 0 fds s))))"

text \<open>\<open>co_read_till\<close> returns early with the hooks still disabled; \<open>co_write_till\<close> is the same for writing, with another test
  for a failed call.\<close>

definition till :: "(int \<Rightarrow> bool) \<Rightarrow> 'k call \<Rightarrow> ('k hk \<Rightarrow> (nat \<times> pollfd list \<times> 'k hk) res) \<Rightarrow> 'k hk \<Rightarrow> (int \<times> 'k hk) res" where
  "till failed c poll s =
     (let (ret, s) = syscall c (co_disable_hook s)
      in if failed ret \<and> errno s = EAGAIN
         then rbind (poll s) (\<lambda>(n, _, s).
                if n = 0 then Inr (0, s)
                else let (ret, s) = syscall c s in Inr (ret, co_enable_hook s))
         else Inr (ret, co_enable_hook s))"

definition co_read_till ::
  "(int \<Rightarrow> int \<times> int \<Rightarrow> int) \<Rightarrow> (int \<Rightarrow> 'k call) \<Rightarrow> (int \<Rightarrow> nat \<Rightarrow> 'k call) \<Rightarrow> ('k hk \<Rightarrow> 'k hk) \<Rightarrow> int \<Rightarrow> int \<Rightarrow> nat \<Rightarrow> int \<Rightarrow> 'k hk \<Rightarrow> (int \<times> 'k hk) res" where
  "co_read_till timerfd_settime sys_close sys_read others tfd fd buf_len timeout_ms s =
     (if fd < 0 \<or> buf_len = 0 then Inr (-1, s)
      else till (\<lambda>ret. ret = -1) (sys_read fd buf_len) (co_poll timerfd_settime sys_close others tfd
             [\<lparr>pfd = fd, pevents = EPOLLIN OR EPOLLRDHUP OR EPOLLERR, prevents = 0\<rparr>] timeout_ms) s)"

definition co_write_till ::
  "(int \<Rightarrow> int \<times> int \<Rightarrow> int) \<Rightarrow> (int \<Rightarrow> 'k call) \<Rightarrow> (int \<Rightarrow> byte list \<Rightarrow> 'k call) \<Rightarrow> ('k hk \<Rightarrow> 'k hk) \<Rightarrow> int \<Rightarrow> int \<Rightarrow> byte list \<Rightarrow> int \<Rightarrow> 'k hk \<Rightarrow> (int \<times> 'k hk) res" where
  "co_write_till timerfd_settime sys_close sys_write others tfd fd buf timeout_ms s =
     (if fd < 0 \<or> buf = [] then Inr (-1, s)
      else till (\<lambda>ret. ret < 0) (sys_write fd buf) (co_poll timerfd_settime sys_close others tfd
             [\<lparr>pfd = fd, pevents = EPOLLOUT OR EPOLLRDHUP OR EPOLLERR, prevents = 0\<rparr>] timeout_ms) s)"

section \<open>Name lookup\<close>

text \<open>\<open>co_gethostbyname\<close> keeps the result buffer with its error number in the values of the coroutine (\<open>hbuf\<close>, absent at first). A lookup by \<open>gethostbyname_r\<close>
  gives its return value and, unless it leaves it alone, a new error number.\<close>

definition HOST_NOT_FOUND :: int where "HOST_NOT_FOUND = 1"
definition TRY_AGAIN :: int where "TRY_AGAIN = 2"
definition NO_RECOVERY :: int where "NO_RECOVERY = 3"
definition NO_DATA :: int where "NO_DATA = 4"

text \<open>The \<open>switch\<close>: the case \<open>TRY_AGAIN\<close> falls through to the default, which ends the loop.\<close>

definition herrno_case :: "int \<Rightarrow> int \<Rightarrow> nat \<Rightarrow> int \<times> nat" where
  "herrno_case herrno ret retry =
     (if herrno = HOST_NOT_FOUND \<or> herrno = NO_DATA \<or> herrno = NO_RECOVERY then (-1, 0)
      else if herrno = TRY_AGAIN then let retry = retry - 1; ret = (if retry = 0 then -1 else ret) in (ret, 0)
      else (ret, 0))"

type_synonym 'k lookup = "'k \<Rightarrow> int \<times> int option \<times> 'k"

function host_loop :: "'k lookup \<Rightarrow> nat \<Rightarrow> int \<Rightarrow> int \<Rightarrow> 'k \<Rightarrow> int \<times> int \<times> 'k" where
  "host_loop lookup retry ret herrno k =
     (if retry = 0 then (ret, herrno, k)
      else let (ret, e, k) = lookup k;
               herrno = (case e of None \<Rightarrow> herrno | Some e \<Rightarrow> e);
               (ret, retry') = herrno_case herrno ret retry
           in host_loop lookup retry' ret herrno k)"
  by pat_completeness auto
termination
  by (relation "measure (\<lambda>(lookup, retry, ret, herrno, k). retry)") (auto simp: herrno_case_def Let_def split: if_splits)

declare host_loop.simps [simp del]

text \<open>The result is whether the lookup succeeded, and the new buffer.\<close>

definition co_gethostbyname :: "'k lookup \<Rightarrow> int option \<Rightarrow> 'k \<Rightarrow> bool \<times> int option \<times> 'k" where
  "co_gethostbyname lookup hbuf k =
     (let herrno = (case hbuf of None \<Rightarrow> 0 | Some e \<Rightarrow> e); (ret, herrno, k) = host_loop lookup 3 0 herrno k
      in (ret = 0, Some herrno, k))"

lemma co_gethostbyname_asks_once:
  assumes "lookup k = (ret, e, k')"
  shows "snd (snd (co_gethostbyname lookup hbuf k)) = k'"
  using assms by (simp add: co_gethostbyname_def host_loop.simps herrno_case_def Let_def split: option.split)

text \<open>A lookup that leaves the error number alone is judged by the error number of an earlier one.\<close>

lemma co_gethostbyname_stale_error:
  assumes "lookup k = (0, None, k')"
  shows "\<not> fst (co_gethostbyname lookup (Some HOST_NOT_FOUND) k)"
  using assms by (simp add: co_gethostbyname_def host_loop.simps herrno_case_def Let_def)

definition hk_poll ::
  "(int \<Rightarrow> int \<times> int \<Rightarrow> int) \<Rightarrow> (int \<Rightarrow> 'k call) \<Rightarrow> (pollfd list \<Rightarrow> 'k \<Rightarrow> nat \<times> pollfd list \<times> 'k) \<Rightarrow> ('k hk \<Rightarrow> 'k hk) \<Rightarrow> int \<Rightarrow> pollfd list \<Rightarrow> int \<Rightarrow> 'k hk \<Rightarrow>
     (nat \<times> pollfd list \<times> 'k hk) res" where
  "hk_poll timerfd_settime sys_close sys_poll others tfd fds timeout s =
     (if \<not> hook s then let (n, fds, k) = sys_poll fds (kern s) in Inr (n, fds, s\<lparr>kern := k\<rparr>)
      else co_poll timerfd_settime sys_close others tfd fds timeout s)"

text \<open>\<open>gethostbyname_r\<close> asks under the mutex for name lookups; \<open>others\<close> runs while the task waits for it.\<close>

definition hk_gethostbyname_r :: "'k call \<Rightarrow> ('k hk \<Rightarrow> 'k hk) \<Rightarrow> 'k hk \<Rightarrow> int \<times> 'k hk" where
  "hk_gethostbyname_r sys_gethostbyname_r others s =
     (if \<not> hook s then syscall sys_gethostbyname_r s else syscall sys_gethostbyname_r (others s))"

section \<open>Sending everything\<close>

text \<open>What the kernel promises for a stream descriptor: a successful call accepts at least one and at most all of the
  offered bytes and appends them to the stream, a failing one returns \<open>-1\<close> and accepts nothing, and it refuses with
  \<open>EAGAIN\<close> only finitely often (\<open>pot\<close> bounds how often).\<close>

definition sends_ok :: "(byte list \<Rightarrow> 'k call) \<Rightarrow> ('k \<Rightarrow> byte list) \<Rightarrow> ('k \<Rightarrow> nat) \<Rightarrow> bool" where
  "sends_ok c stream pot \<longleftrightarrow> (\<forall>bs k ret e k'. bs \<noteq> [] \<and> c bs k = (ret, e, k') \<longrightarrow>
     (ret < 0 \<longrightarrow> ret = -1 \<and> stream k' = stream k \<and> (e = EAGAIN \<longrightarrow> pot k' < pot k)) \<and>
     (0 \<le> ret \<longrightarrow> 0 < ret \<and> ret \<le> int (length bs) \<and> stream k' = stream k @ take (nat ret) bs \<and> pot k' \<le> pot k))"

text \<open>A descriptor known to the library. While the task is suspended no other task writes to the descriptor or closes it.\<close>

definition open_fd :: "int \<Rightarrow> 'z ev_scheme \<Rightarrow> bool" where
  "open_fd fd s \<longleftrightarrow> is_fd_valid fd \<and> fdtab s fd \<noteq> NULL \<and> fdtab s fd \<in> dom (heap s)"

definition undisturbed :: "('k hk \<Rightarrow> 'k hk) \<Rightarrow> int \<Rightarrow> ('k \<Rightarrow> byte list) \<Rightarrow> ('k \<Rightarrow> nat) \<Rightarrow> bool" where
  "undisturbed others fd stream pot \<longleftrightarrow>
     (\<forall>s. stream (kern (others s)) = stream (kern s) \<and> pot (kern (others s)) \<le> pot (kern s) \<and>
       (open_fd fd s \<longrightarrow> open_fd fd (others s) \<and> fdtab (others s) fd = fdtab s fd))"

text \<open>The event layer does not touch the kernel's streams.\<close>

lemma kern_events [simp]:
  "kern (snd (get_inner_fd fd s)) = kern s" "kern (snd (add_events fd e s)) = kern s"
  "kern (snd (delete_events fd e s)) = kern s"
  by (auto simp: get_inner_fd_def add_events_def delete_events_def cntl_events_def epoll_ctl_def Let_def
      split: epoll_op.split prod.split)

lemma update_kern: "update p f s = Inr s' \<Longrightarrow> kern s' = kern s"
  by (auto simp: update_def rbind_Inr_iff)

lemma event_poll_enter_kern:
  assumes "event_poll_enter fd e s = Inr r"
  shows "(case r of Returned ret s' \<Rightarrow> kern s' = kern s \<and> ret \<noteq> 0 | Blocked p s' \<Rightarrow> kern s' = kern s)"
proof -
  obtain p s1 where g: "get_inner_fd fd s = (p, s1)"
    by (cases "get_inner_fd fd s")
  obtain s2 where u: "update p (\<lambda>i. i\<lparr>ierror := IENONE, itask := self s1\<rparr>) s1 = Inr s2"
    using assms g by (auto simp: event_poll_enter_def rbind_Inr_iff split: if_splits)
  obtain ret s3 where a: "add_events fd e s2 = (ret, s3)"
    by (cases "add_events fd e s2")
  have k: "kern s1 = kern s" "kern s2 = kern s1" "kern s3 = kern s2" "kern (snd (delete_events fd e s3)) = kern s3"
    using kern_events(1) [of fd s] kern_events(2) [of fd e s2] update_kern [OF u] g a by simp_all
  show ?thesis
    using assms g u a k by (auto simp: event_poll_enter_def rbind_Inr_iff split: if_splits)
qed

lemma event_poll_leave_kern: "event_poll_leave p s = Inr (ret, s') \<Longrightarrow> kern s' = kern s"
proof -
  assume l: "event_poll_leave p s = Inr (ret, s')"
  then obtain i where i: "deref p s = Inr i"
    by (auto simp: event_poll_leave_def rbind_Inr_iff)
  define s1 where "s1 = s\<lparr>tw := wheel_delete_element p (tw s)\<rparr>"
  obtain r s2 where d: "delete_events (ifd_fd i) 0 s1 = (r, s2)"
    by (cases "delete_events (ifd_fd i) 0 s1")
  have "kern s2 = kern s1"
    using kern_events(3) [of "ifd_fd i" 0 s1] d by (metis snd_conv)
  then have "kern s2 = kern s"
    by (simp add: s1_def)
  then show ?thesis
    using l i d by (auto simp: event_poll_leave_def Let_def s1_def [symmetric] split: if_splits)
qed

lemma event_poll_kern:
  assumes "event_poll others fd e s = Inr (ret, s')"
  shows "kern s' = kern s \<or> (\<exists>s0. kern s0 = kern s \<and> kern s' = kern (others s0))"
proof -
  obtain r where r: "event_poll_enter fd e s = Inr r"
    using assms by (auto simp: event_poll_def rbind_Inr_iff)
  show ?thesis
  proof (cases r)
    case (Returned ret' s1)
    then show ?thesis
      using assms r event_poll_enter_kern [OF r] by (simp add: event_poll_def)
  next
    case (Blocked p s1)
    then have "kern s1 = kern s" "event_poll_leave p (others s1) = Inr (ret, s')"
      using assms r event_poll_enter_kern [OF r] by (simp_all add: event_poll_def)
    then show ?thesis
      using event_poll_leave_kern by metis
  qed
qed

lemma event_poll_undisturbed:
  assumes "undisturbed others fd stream pot" "event_poll others fd e s = Inr (ret, s')"
  shows "stream (kern s') = stream (kern s) \<and> pot (kern s') \<le> pot (kern s)"
  using event_poll_kern [OF assms(2)] assms(1) unfolding undisturbed_def by (metis order_refl)

text \<open>Waiting on an open descriptor neither faults nor closes it.\<close>

lemma events_table [simp]:
  "fdtab (snd (add_events fd e s)) = fdtab s" "heap (snd (add_events fd e s)) = heap s"
  "fdtab (snd (delete_events fd e s)) = fdtab s" "heap (snd (delete_events fd e s)) = heap s"
  by (auto simp: add_events_def delete_events_def cntl_events_def epoll_ctl_def Let_def
      split: epoll_op.split prod.split)

lemma event_poll_enter_open:
  assumes "open_fd fd s"
  shows "(\<exists>ret s'. event_poll_enter fd e s = Inr (Returned ret s') \<and> open_fd fd s') \<or>
    (\<exists>s'. event_poll_enter fd e s = Inr (Blocked (fdtab s fd) s') \<and> open_fd fd s' \<and> fdtab s' fd = fdtab s fd)"
proof -
  let ?p = "fdtab s fd"
  obtain i where i: "heap s ?p = Some i" and v: "is_fd_valid fd" "?p \<noteq> NULL"
    using assms by (auto simp: open_fd_def)
  define s1 where "s1 = s\<lparr>heap := (heap s)(?p \<mapsto> i\<lparr>ierror := IENONE, itask := self s\<rparr>)\<rparr>"
  obtain ret s2 where a: "add_events fd e s1 = (ret, s2)"
    by (cases "add_events fd e s1")
  have "fdtab s2 = fdtab s1" "heap s2 = heap s1"
    using events_table(1,2) [of fd e s1] unfolding a by simp_all
  then have s2: "fdtab s2 = fdtab s" "heap s2 = heap s1" "?p \<in> dom (heap s1)"
    by (simp_all add: s1_def)
  have "event_poll_enter fd e s =
      (if ret \<noteq> 0 then Inr (Returned (-1) (snd (delete_events fd e s2)))
       else rbind (deref ?p s2) (\<lambda>i. Inr (Blocked ?p (s2\<lparr>tw := wheel_update_element ?p (itimeout i) (tw s2)\<rparr>))))"
    using i v a by (simp add: event_poll_enter_def get_inner_fd_def update_def deref_def s1_def)
  then show ?thesis
    using s2 v by (auto simp: open_fd_def deref_def domIff split: if_splits)
qed

lemma event_poll_leave_open:
  assumes "open_fd fd s"
  shows "\<exists>ret s'. event_poll_leave (fdtab s fd) s = Inr (ret, s') \<and> open_fd fd s'"
proof -
  let ?p = "fdtab s fd"
  obtain i where i: "heap s ?p = Some i" and v: "is_fd_valid fd" "?p \<noteq> NULL"
    using assms by (auto simp: open_fd_def)
  define s1 where "s1 = s\<lparr>tw := wheel_delete_element ?p (tw s)\<rparr>"
  obtain r s2 where d: "delete_events (ifd_fd i) 0 s1 = (r, s2)"
    by (cases "delete_events (ifd_fd i) 0 s1")
  have "fdtab s2 = fdtab s1" "heap s2 = heap s1"
    using events_table(3,4) [of "ifd_fd i" 0 s1] unfolding d by simp_all
  then have s2: "fdtab s2 = fdtab s" "heap s2 = heap s"
    by (simp_all add: s1_def)
  have "open_fd fd s2" "open_fd fd (s2\<lparr>errno := x\<rparr>)" for x
    using s2 assms by (simp_all add: open_fd_def)
  then show ?thesis
    using i v d by (auto simp: event_poll_leave_def deref_def Let_def s1_def [symmetric])
qed

lemma event_poll_open:
  assumes "undisturbed others fd stream pot" "open_fd fd s"
  shows "\<exists>ret s'. event_poll others fd e s = Inr (ret, s') \<and> open_fd fd s'"
proof -
  consider ret s1 where "event_poll_enter fd e s = Inr (Returned ret s1)" "open_fd fd s1"
    | s1 where "event_poll_enter fd e s = Inr (Blocked (fdtab s fd) s1)" "open_fd fd s1" "fdtab s1 fd = fdtab s fd"
    using event_poll_enter_open [OF assms(2)] by blast
  then show ?thesis
  proof cases
    case 1
    then show ?thesis by (simp add: event_poll_def)
  next
    case 2
    then have "open_fd fd (others s1)" "fdtab (others s1) fd = fdtab s fd"
      using assms(1) by (auto simp: undisturbed_def)
    then show ?thesis
      using event_poll_leave_open [of fd "others s1"] 2(1) by (simp add: event_poll_def)
  qed
qed

definition sent :: "('k \<Rightarrow> byte list) \<Rightarrow> byte list \<Rightarrow> byte list \<Rightarrow> int \<Rightarrow> 'k hk \<Rightarrow> bool" where
  "sent stream old buf ret s \<longleftrightarrow>
     (if 0 \<le> ret then ret = int (length buf) \<and> stream (kern s) = old @ buf
      else \<exists>m<length buf. stream (kern s) = old @ take m buf)"

lemma sends_okD:
  assumes "sends_ok c stream pot" "bs \<noteq> []" "c bs k = (ret, e, k')"
  shows "ret < 0 \<Longrightarrow> ret = -1 \<and> stream k' = stream k" "ret < 0 \<Longrightarrow> e = EAGAIN \<Longrightarrow> pot k' < pot k"
    "\<not> ret < 0 \<Longrightarrow> 0 < nat ret \<and> nat ret \<le> length bs" "\<not> ret < 0 \<Longrightarrow> stream k' = stream k @ take (nat ret) bs"
    "\<not> ret < 0 \<Longrightarrow> pot k' \<le> pot k"
  using assms unfolding sends_ok_def by (fastforce, blast, fastforce, fastforce, fastforce)

lemma send_loop_all:
  assumes c: "sends_ok c stream pot" and others: "undisturbed others fd stream pot" and small: "length buf < 2 ^ 31"
  shows "len \<le> length buf \<Longrightarrow> stream (kern s) = old @ take len buf \<Longrightarrow> open_fd fd s \<Longrightarrow>
    \<exists>r s'. send_loop c others fd buf (int len) s = Some (Inr (r, s')) \<and> sent stream old buf r s'"
proof (induction "pot (kern s) * (length buf + 1) + (length buf - len)" arbitrary: len s rule: less_induct)
  case less
  have len: "size64 (int len) = len"
    using small less.prems(1) by simp
  show ?case
  proof (cases "len < length buf")
    case False
    then show ?thesis
      using less.prems small by (subst send_loop.simps) (simp add: sent_def)
  next
    case True
    let ?bs = "drop len buf"
    obtain ret e k where call: "c ?bs (kern s) = (ret, e, k)"
      by (cases "c ?bs (kern s)")
    define s1 where "s1 = s\<lparr>kern := k, errno := (if ret < 0 then e else errno s)\<rparr>"
    have sys: "syscall (c ?bs) s = (ret, s1)"
      using call by (simp add: syscall_def s1_def)
    have "?bs \<noteq> []"
      using True by simp
    note ok = sends_okD [OF c this call]
    have k1: "kern s1 = k" "ret < 0 \<Longrightarrow> errno s1 = e"
      by (simp_all add: s1_def)
    consider (sent) "\<not> ret < 0" | (err) "ret < 0" "e \<noteq> EAGAIN" | (again) "ret < 0" "e = EAGAIN"
      by blast
    then show ?thesis
    proof cases
      case sent
      have "pot k * (length buf + 1) \<le> pot (kern s) * (length buf + 1)"
        using ok(5) [OF sent] by (rule mult_le_mono1)
      then have "\<exists>r s'. send_loop c others fd buf (int (len + nat ret)) s1 = Some (Inr (r, s')) \<and> sent stream old buf r s'"
        using ok(3,4) [OF sent] less.prems True k1(1) by (intro less.hyps) (auto simp: take_add open_fd_def s1_def)
      moreover have "int32 ret = ret" "int32 (int len + ret) = int (len + nat ret)"
        using ok(3) [OF sent] small less.prems(1) by (auto intro: int32_id simp: nat_le_iff of_nat_diff)
      ultimately show ?thesis
        using True sys sent by (subst send_loop.simps) (simp add: len)
    next
      case err
      then show ?thesis
        using True sys k1 ok(1) less.prems(2) by (subst send_loop.simps) (auto simp: sent_def len)
    next
      case again
      note step = send_loop.simps [of c others fd buf "int len" s]
      have s1: "stream (kern s1) = old @ take len buf"
        using k1(1) ok(1) [OF again(1)] less.prems(2) by simp
      have "open_fd fd s1"
        using less.prems(3) by (simp add: open_fd_def s1_def)
      then obtain r s2 where p: "event_poll others fd (EPOLLOUT OR EPOLLRDHUP OR EPOLLERR OR EPOLLET) s1 = Inr (r, s2)"
        and o2: "open_fd fd s2"
        using event_poll_open [OF others] by blast
      note und = event_poll_undisturbed [OF others p]
      have "pot (kern s2) < pot (kern s)"
        using und ok(2) [OF again] k1(1) by simp
      then have "Suc (pot (kern s2)) * (length buf + 1) \<le> pot (kern s) * (length buf + 1)"
        by (intro mult_le_mono1) simp
      then have "\<exists>r s'. send_loop c others fd buf (int len) s2 = Some (Inr (r, s')) \<and> sent stream old buf r s'"
        using und s1 o2 less.prems(1) by (intro less.hyps) auto
      moreover have "sent stream old buf (- 1) s2"
        using und s1 True by (auto simp: sent_def)
      ultimately show ?thesis
        using step True sys k1(2) again p ok(1) [OF again(1)] by (auto simp: len)
    qed
  qed
qed

text \<open>C22: \<^bold>\<open>A hooked write delivers the whole buffer.\<close> On a descriptor that is open, non-blocking and hooked, \<open>write\<close>
  of a buffer shorter than \<open>2^31\<close> bytes (the code counts in an \<open>int\<close>) terminates without a fault whatever
  pieces the kernel accepts and however often it would block, while no other task writes to the descriptor or closes it: it returns the
  length of the buffer and exactly the buffer was appended to the stream, or it returns a negative value and a proper
  prefix of the buffer was appended.\<close>

theorem hk_write_delivers_all:
  assumes "sends_ok (sys_write fd) stream pot" "undisturbed others fd stream pot"
    and "open_fd fd s" "hooked_fd fd s = Inr (Some p, s)" "length buf < 2 ^ 31"
  shows "\<exists>ret s'. hk_write sys_write others fd buf s = Some (Inr (ret, s')) \<and>
    (if 0 \<le> ret then ret = int (length buf) \<and> stream (kern s') = stream (kern s) @ buf
     else \<exists>m<length buf. stream (kern s') = stream (kern s) @ take m buf)"
  using send_loop_all [OF assms(1,2,5), of 0 s "stream (kern s)"] assms(3,4)
  by (simp add: hk_write_def send_hooked_def sent_def)

text \<open>A pipe that would block a number of times and then takes one byte per call.\<close>

definition pipe_write :: "int \<Rightarrow> byte list \<Rightarrow> (byte list \<times> nat) call" where
  "pipe_write fd bs k =
     (case k of (out, blocks) \<Rightarrow>
        if 0 < blocks then (-1, EAGAIN, (out, blocks - 1)) else (int (length (take 1 bs)), 0, (out @ take 1 bs, 0)))"

definition pipe_state :: "(byte list \<times> nat) hk" where
  "pipe_state = \<lparr>fdtab = (\<lambda>fd. if fd = 3 then 1 else NULL),
     heap = [1 \<mapsto> \<lparr>ifd_fd = 3, flags = O_NONBLOCK, user_flags = 0, itask = 0, itimeout = FD_TIMEOUT, ierror = IENONE\<rparr>],
     brk = 2, tw = new_time_wheel 4 60 1000, interest = Map.empty, kerr = (\<lambda>_. 0), errno = 0, resumed = [], self = 7,
     kern = ([], 2), hook = True\<rparr>"

lemma pipe_write_ok: "sends_ok (pipe_write fd) fst snd"
  unfolding sends_ok_def
proof (intro allI impI)
  fix bs ret e and k k' :: "byte list \<times> nat"
  assume a: "bs \<noteq> [] \<and> pipe_write fd bs k = (ret, e, k')"
  obtain b bs' where "bs = b # bs'"
    using a by (cases bs) auto
  then show "(ret < 0 \<longrightarrow> ret = -1 \<and> fst k' = fst k \<and> (e = EAGAIN \<longrightarrow> snd k' < snd k)) \<and>
      (0 \<le> ret \<longrightarrow> 0 < ret \<and> ret \<le> int (length bs) \<and> fst k' = fst k @ take (nat ret) bs \<and> snd k' \<le> snd k)"
    using a by (cases k) (auto simp: pipe_write_def split: if_splits)
qed

lemma pipe_state_open: "open_fd 3 pipe_state" "hooked_fd 3 pipe_state = Inr (Some 1, pipe_state)"
  by (simp_all add: open_fd_def hooked_fd_def pipe_state_def get_inner_fd_def deref_def is_fd_valid_def MAX_FD_NUM_def
      O_NONBLOCK_def)

lemma id_undisturbed: "undisturbed id fd stream pot"
  by (simp add: undisturbed_def)

theorem hk_write_delivers_all_witness:
  "open_fd 3 pipe_state \<and> hooked_fd 3 pipe_state = Inr (Some 1, pipe_state) \<and>
   (\<exists>ret s'. hk_write pipe_write id 3 [10, 20, 30] pipe_state = Some (Inr (ret, s')) \<and>
    (if 0 \<le> ret then ret = int (length [10, 20, 30 :: byte]) \<and> fst (kern s') = fst (kern pipe_state) @ [10, 20, 30]
     else \<exists>m<length [10, 20, 30 :: byte]. fst (kern s') = fst (kern pipe_state) @ take m [10, 20, 30]))"
  using hk_write_delivers_all [where sys_write = pipe_write and fd = 3 and buf = "[10, 20, 30]",
      OF pipe_write_ok id_undisturbed pipe_state_open]
  by (intro conjI pipe_state_open) simp

text \<open>\<^bold>\<open>A hooked sendmsg repeats what was sent.\<close> When the kernel accepts a part of the message, \<open>sendmsg\<close>
  offers the whole message again instead of the rest: if the second call accepts all of it, the peer gets the first part twice and
  the result exceeds the length of the message.\<close>

theorem hk_sendmsg_repeats:
  assumes "hooked_fd fd s = Inr (Some p, s)" "int m < get_msg_len iov" "int m + get_msg_len iov < 2 ^ 31"
    and "sys_sendmsg fd fl iov (kern s) = (int m, e, k)" "stream k = stream (kern s) @ take m (concat iov)"
    and "sys_sendmsg fd fl iov k = (get_msg_len iov, e', k')" "stream k' = stream k @ concat iov"
  shows "\<exists>s'. hk_sendmsg sys_sendmsg others fd iov fl s = Some (Inr (int m + get_msg_len iov, s')) \<and>
    stream (kern s') = stream (kern s) @ take m (concat iov) @ concat iov"
proof -
  let ?n = "get_msg_len iov"
  have "sendmsg_loop (sys_sendmsg fd fl iov) others fd ?n 0 s = Some (Inr (int m + ?n, s\<lparr>kern := k'\<rparr>))"
    using assms(2,3,4,6) by (simp add: sendmsg_loop.simps syscall_def)
  then show ?thesis
    using assms(1,2,5,7) by (simp add: hk_sendmsg_def)
qed

text \<open>A stream that takes two bytes of the first message and then everything.\<close>

definition short_sendmsg :: "int \<Rightarrow> int \<Rightarrow> byte list list \<Rightarrow> (byte list \<times> nat) call" where
  "short_sendmsg fd fl iov k =
     (case k of (out, n) \<Rightarrow>
        if 0 < n then (2, 0, (out @ take 2 (concat iov), 0)) else (int (length (concat iov)), 0, (out @ concat iov, 0)))"

theorem hk_sendmsg_repeats_witness:
  "hooked_fd 3 pipe_state = Inr (Some 1, pipe_state) \<and>
   (\<exists>s'. hk_sendmsg short_sendmsg id 3 [[10, 20], [30]] 0 pipe_state = Some (Inr (5, s')) \<and>
     fst (kern s') = [10, 20, 10, 20, 30])"
proof -
  have k: "kern pipe_state = ([], 2)"
    by (simp add: pipe_state_def)
  show ?thesis
    using hk_sendmsg_repeats [where sys_sendmsg = short_sendmsg and iov = "[[10, 20], [30]]" and m = 2 and fl = 0 and
        others = id and stream = fst and e = 0 and k = "([10, 20], 0)" and e' = 0 and k' = "([10, 20, 10, 20, 30], 0)",
        OF pipe_state_open(2)] pipe_state_open(2) k
    by (simp add: short_sendmsg_def get_msg_len_def)
qed

end
