(* ===== verification/NattanTyped.thy ===== *)
theory NattanTyped
  imports NattanBuffer
begin

unbundle bit_operations_syntax

text \<open>
  The fixed-width readers and writers of \<open>core/Buffer.h\<close>: a \<open>short\<close>, \<open>int\<close> or \<open>long\<close> is copied byte by byte, least
  significant byte first (the code copies the bytes of a local variable, the machines it is built for are little-endian). A
  reader that finds too few bytes leaves the rest of its local variable as it was: \<open>junk\<close> stands for the indeterminate
  initial value of that variable.
\<close>

section \<open>Model\<close>

fun le_bytes :: "nat \<Rightarrow> 'a::len word \<Rightarrow> byte list" where
  "le_bytes 0 w = []"
| "le_bytes (Suc n) w = ucast w # le_bytes n (drop_bit 8 w)"

fun le_word :: "byte list \<Rightarrow> 'a::len word" where
  "le_word [] = 0"
| "le_word (b # bs) = ucast b OR push_bit 8 (le_word bs)"

definition read_var :: "byte list \<Rightarrow> buffer \<Rightarrow> (byte list \<times> buffer) res" where
  "read_var junk b = rbind (buf_read (length junk) b) (\<lambda>(out, b). Inr (out @ drop (length out) junk, b))"

definition readChar :: "byte \<Rightarrow> buffer \<Rightarrow> (byte \<times> buffer) res" where
  "readChar junk b = rbind (read_var [junk] b) (\<lambda>(out, b). Inr (le_word out, b))"

definition readShort :: "16 word \<Rightarrow> buffer \<Rightarrow> (16 word \<times> buffer) res" where
  "readShort junk b = rbind (read_var (le_bytes 2 junk) b) (\<lambda>(out, b). Inr (le_word out, b))"

definition readInt :: "32 word \<Rightarrow> buffer \<Rightarrow> (32 word \<times> buffer) res" where
  "readInt junk b = rbind (read_var (le_bytes 4 junk) b) (\<lambda>(out, b). Inr (le_word out, b))"

text \<open>\<open>readlong\<close> reads into an \<open>int\<close> and converts.\<close>

definition readlong :: "32 word \<Rightarrow> buffer \<Rightarrow> (64 word \<times> buffer) res" where
  "readlong junk b = rbind (read_var (le_bytes 4 junk) b) (\<lambda>(out, b). Inr (scast (le_word out :: 32 word), b))"

definition writeChar :: "byte \<Rightarrow> buffer \<Rightarrow> buffer res option" where
  "writeChar c b = buf_write [c] b"

definition writeShort :: "16 word \<Rightarrow> buffer \<Rightarrow> buffer res option" where
  "writeShort s b = buf_write (le_bytes 2 s) b"

definition writeInt :: "32 word \<Rightarrow> buffer \<Rightarrow> buffer res option" where
  "writeInt i b = buf_write (le_bytes 4 i) b"

definition writeLong :: "64 word \<Rightarrow> buffer \<Rightarrow> buffer res option" where
  "writeLong l b = buf_write (le_bytes 8 l) b"

section \<open>Bytes of a word\<close>

lemma length_le_bytes [simp]: "length (le_bytes n w) = n"
  by (induction n w rule: le_bytes.induct) auto

lemma le_word_bytes: "(le_word (le_bytes n w) :: 'a::len word) = ucast (take_bit (8 * n) (w :: 'b::len word))"
proof (induction n arbitrary: w)
  case 0
  then show ?case by simp
next
  case (Suc n)
  show ?case
    by (rule bit_word_eqI) (auto simp: Suc bit_simps)
qed

lemma take_le_bytes: "m \<le> n \<Longrightarrow> take m (le_bytes n w) = le_bytes m w"
proof (induction n arbitrary: m w)
  case (Suc n)
  then show ?case by (cases m) auto
qed simp

lemma read_var_bytes:
  assumes "buf_inv b" "length junk \<le> length (bytes b)"
  shows "\<exists>b'. read_var junk b = Inr (take (length junk) (bytes b), b') \<and> buf_inv b' \<and> bytes b' = drop (length junk) (bytes b)"
  using buf_read_bytes [OF assms(1), of "length junk"] assms(2) by (auto simp: read_var_def)

text \<open>Room for one more value.\<close>

definition has_room :: "nat \<Rightarrow> buffer \<Rightarrow> bool" where
  "has_room n b \<longleftrightarrow> buf_inv b \<and> 96 \<le> length (fData b) \<and> length (bytes b) + n + 16 < length (fData b) \<and> length (bytes b) + n < limit div 4"

lemma has_room_write:
  assumes "has_room (length xs) b"
  shows "\<exists>b'. buf_write xs b = Some (Inr b') \<and> buf_inv b' \<and> bytes b' = bytes b @ xs \<and> length (fData b') = length (fData b)"
proof -
  have "length (bytes b) = fWriteIdx b - fReadIdx b"
    using assms bytes_length by (simp add: has_room_def)
  then obtain b1 where b1: "makeSpace (length xs) b = Some b1" "made (length xs) b b1" "length (fData b1) = length (fData b)"
    using makeSpace_keeps [of b "length xs"] assms by (auto simp: has_room_def)
  then show ?thesis
    using copy_in_bytes [OF b1(2)] by (auto simp: buf_write_def)
qed

section \<open>The Data interface\<close>

text \<open>The contract of \<open>core/Data.h\<close>, which buffers, temporary files and message bodies implement: \<open>read\<close> takes bytes from the
  front of the contents, \<open>write\<close> appends, whenever the object \<open>accepts\<close> the bytes, and both return the number of bytes.\<close>

locale data_stream =
  fixes contents :: "'s \<Rightarrow> byte list"
    and inv :: "'s \<Rightarrow> bool"
    and accepts :: "byte list \<Rightarrow> 's \<Rightarrow> bool"
    and fetch :: "nat \<Rightarrow> 's \<Rightarrow> (int \<times> byte list \<times> 's) res"
    and store :: "byte list \<Rightarrow> 's \<Rightarrow> (int \<times> 's) res option"
  assumes read_takes: "inv d \<Longrightarrow> \<exists>d'. fetch n d = Inr (int (length (take n (contents d))), take n (contents d), d') \<and>
      inv d' \<and> contents d' = drop n (contents d)"
    and write_appends: "inv d \<Longrightarrow> accepts xs d \<Longrightarrow> \<exists>d'. store xs d = Some (Inr (int (length xs), d')) \<and>
      inv d' \<and> contents d' = contents d @ xs"
begin

lemma write_then_read:
  assumes "inv d" "accepts xs d"
  shows "\<exists>d1 d2. store xs d = Some (Inr (int (length xs), d1)) \<and>
    fetch n d1 = Inr (int (length (take n (contents d @ xs))), take n (contents d @ xs), d2) \<and>
    inv d2 \<and> contents d2 = drop n (contents d @ xs)"
proof -
  obtain d1 where w: "store xs d = Some (Inr (int (length xs), d1))" "inv d1" "contents d1 = contents d @ xs"
    using write_appends [OF assms] by blast
  then show ?thesis
    using read_takes [OF w(2), of n] unfolding w(3) by blast
qed

lemma read_back:
  assumes "inv d" "accepts xs d"
  shows "\<exists>d1 d2 d3. store xs d = Some (Inr (int (length xs), d1)) \<and>
    fetch (length (contents d)) d1 = Inr (int (length (contents d)), contents d, d2) \<and>
    fetch (length xs) d2 = Inr (int (length xs), xs, d3) \<and> inv d3 \<and> contents d3 = []"
proof -
  obtain d1 d2 where w: "store xs d = Some (Inr (int (length xs), d1))"
    "fetch (length (contents d)) d1 = Inr (int (length (contents d)), contents d, d2)" "inv d2" "contents d2 = xs"
    using write_then_read [OF assms, of "length (contents d)"] by auto
  then show ?thesis
    using read_takes [OF w(3), of "length xs"] by auto
qed

end

definition data_read :: "nat \<Rightarrow> buffer \<Rightarrow> (int \<times> byte list \<times> buffer) res" where
  "data_read n b = rbind (buf_read n b) (\<lambda>(out, b). Inr (int (length out), out, b))"

definition data_write :: "byte list \<Rightarrow> buffer \<Rightarrow> (int \<times> buffer) res option" where
  "data_write xs b = map_option (\<lambda>r. rbind r (\<lambda>b. Inr (int (length xs), b))) (buf_write xs b)"

text \<open>A write the buffer can take.\<close>

definition write_ok :: "byte list \<Rightarrow> buffer \<Rightarrow> bool" where
  "write_ok xs b \<longleftrightarrow> 96 \<le> length (fData b) \<and> length (bytes b) + length xs < limit div 4 \<and>
     (length (fData b) < length (bytes b) + length xs + 8 \<or> fWriteIdx b + 24 \<le> length (fData b) \<or>
      length (bytes b) + length xs + 16 < length (fData b))"

interpretation buffer: data_stream bytes buf_inv write_ok data_read data_write
proof
  show "\<exists>d'. data_read n d = Inr (int (length (take n (bytes d))), take n (bytes d), d') \<and> buf_inv d' \<and> bytes d' = drop n (bytes d)"
    if "buf_inv d" for d n
    using buf_read_bytes [OF that, of n] by (auto simp: data_read_def)
  show "\<exists>d'. data_write xs d = Some (Inr (int (length xs), d')) \<and> buf_inv d' \<and> bytes d' = bytes d @ xs"
    if "buf_inv d" "write_ok xs d" for d xs
    using buf_write_bytes [OF that(1), of xs] that(2) by (auto simp: data_write_def write_ok_def)
qed

section \<open>Properties\<close>

text \<open>\<^bold>\<open>Integers come back.\<close> After \<open>writeInt\<close> into a well-formed buffer that can take four more bytes, the integer is read back unchanged
  by \<open>readInt\<close> once the bytes that were in the buffer before have been read, and nothing is left.\<close>

theorem writeInt_readInt:
  assumes "buf_inv b" "write_ok (le_bytes 4 x) b"
  shows "\<exists>b1 b2 b3. writeInt x b = Some (Inr b1) \<and> buf_read (length (bytes b)) b1 = Inr (bytes b, b2) \<and>
    readInt junk b2 = Inr (x, b3) \<and> bytes b3 = []"
proof -
  obtain b1 b2 b3 where "data_write (le_bytes 4 x) b = Some (Inr (4, b1))"
    "data_read (length (bytes b)) b1 = Inr (int (length (bytes b)), bytes b, b2)"
    "data_read 4 b2 = Inr (4, le_bytes 4 x, b3)" "bytes b3 = []"
    using buffer.read_back [OF assms] by auto
  then have "buf_write (le_bytes 4 x) b = Some (Inr b1)" "buf_read (length (bytes b)) b1 = Inr (bytes b, b2)"
    "buf_read 4 b2 = Inr (le_bytes 4 x, b3)" "bytes b3 = []"
    by (auto simp: data_write_def data_read_def rbind_Inr_iff)
  then show ?thesis
    by (auto simp: writeInt_def readInt_def read_var_def le_word_bytes take_bit_word_eq_self)
qed

lemma Buffer_1024: "buf_inv (Buffer 1024)" "bytes (Buffer 1024) = []" "has_room 100 (Buffer 1024)" "length (fData (Buffer 1024)) = 1024"
  by (simp_all add: has_room_def Buffer_def buf_inv_def kBufferPrefixed_def limit_def bytes_def)

theorem writeInt_readInt_witness:
  "\<exists>b1 b2. writeInt (- 7) (Buffer 1024) = Some (Inr b1) \<and> buf_read 0 b1 = Inr ([], b2) \<and> (\<exists>b3. readInt 0 b2 = Inr (- 7, b3) \<and> bytes b3 = [])"
proof -
  have "write_ok (le_bytes 4 (- 7 :: 32 word)) (Buffer 1024)"
    by (simp add: write_ok_def Buffer_1024(2,4) limit_def)
  from writeInt_readInt [OF Buffer_1024(1) this, of 0] show ?thesis
    unfolding Buffer_1024(2) by auto
qed

text \<open>\<^bold>\<open>A long does not come back.\<close> \<open>readlong\<close> after \<open>writeLong\<close> on an empty well-formed buffer with room returns the low 32 bits
  of the value, sign-extended, and leaves the four high bytes unread in the buffer.\<close>

theorem writeLong_readlong_half:
  assumes "has_room 8 b" "bytes b = []"
  shows "\<exists>b1 b2. writeLong x b = Some (Inr b1) \<and> readlong junk b1 = Inr (scast (ucast x :: 32 word), b2) \<and>
    bytes b2 = le_bytes 4 (drop_bit 32 x)"
proof -
  obtain b1 where b1: "writeLong x b = Some (Inr b1)" "buf_inv b1" "bytes b1 = le_bytes 8 x"
    using has_room_write [of "le_bytes 8 x" b] assms by (auto simp: writeLong_def)
  obtain b2 where b2: "read_var (le_bytes 4 junk) b1 = Inr (le_bytes 4 x, b2)" "bytes b2 = drop 4 (le_bytes 8 x)"
    using read_var_bytes [OF b1(2), of "le_bytes 4 junk"] by (auto simp: b1(3) take_le_bytes)
  have "drop 4 (le_bytes 8 x) = le_bytes 4 (drop_bit 32 x)"
    by (simp add: eval_nat_numeral drop_bit_drop_bit)
  moreover have "(le_word (le_bytes 4 x) :: 32 word) = ucast x"
    unfolding le_word_bytes by (rule bit_word_eqI) (auto simp: bit_simps)
  ultimately show ?thesis
    using b1(1) b2 by (auto simp: readlong_def)
qed

theorem writeLong_readlong_half_witness:
  "\<exists>b1 b2. writeLong 0x1FFFFFFFF (Buffer 1024) = Some (Inr b1) \<and> readlong 0 b1 = Inr (- 1, b2) \<and> bytes b2 = [1, 0, 0, 0]"
proof -
  have r: "has_room 8 (Buffer 1024)"
    using Buffer_1024(3,4) by (simp add: has_room_def Buffer_1024(2))
  have "scast (ucast (0x1FFFFFFFF :: 64 word) :: 32 word) = (- 1 :: 64 word)" "le_bytes 4 (drop_bit 32 (0x1FFFFFFFF :: 64 word)) = [1, 0, 0, 0]"
    by code_simp+
  then show ?thesis
    using writeLong_readlong_half [OF r Buffer_1024(2), of "0x1FFFFFFFF" 0] by simp
qed

end
