(* ===== verification/NattanFile.thy ===== *)
theory NattanFile
  imports NattanTyped CaskInt
begin

text \<open>
  Files (\<open>core/File.h\<close>) and the temporary data of \<open>core/TempFile.h\<close>, which stays in a buffer up to a limit and
  then moves to a file. The kernel is a parameter: \<open>posix\<close> collects the calls the code makes, as functions on an opaque kernel
  state, and \<open>posix_ok\<close> states what their documentation promises. A concrete file system serves the witnesses only. Writers other than the
  file system are a parameter too, as in the buffer.
\<close>

section \<open>Calls of the kernel\<close>

text \<open>The combinations of flags the code opens files with, and the operations of \<open>flock\<close>. A call of \<open>flock\<close> that blocks is \<open>None\<close>.\<close>

datatype open_flags = O_RDONLY | O_RDONLY_CREAT | O_WRONLY_CREAT_APPEND | O_RDWR_CREAT

datatype flock_op = LOCK_EX | LOCK_EX_NB | LOCK_UN

record 'k posix =
  p_access :: "string \<Rightarrow> 'k \<Rightarrow> bool"
  p_open :: "string \<Rightarrow> open_flags \<Rightarrow> 'k \<Rightarrow> int \<times> 'k"
  p_close :: "int \<Rightarrow> 'k \<Rightarrow> int \<times> 'k"
  p_seek_set :: "int \<Rightarrow> int \<Rightarrow> 'k \<Rightarrow> int \<times> 'k"
  p_seek_end :: "int \<Rightarrow> 'k \<Rightarrow> int \<times> 'k"
  p_read :: "int \<Rightarrow> nat \<Rightarrow> 'k \<Rightarrow> int \<times> byte list \<times> 'k"
  p_write :: "int \<Rightarrow> byte list \<Rightarrow> 'k \<Rightarrow> int \<times> 'k"
  p_unlink :: "string \<Rightarrow> 'k \<Rightarrow> int \<times> 'k"
  p_flock :: "int \<Rightarrow> flock_op \<Rightarrow> 'k \<Rightarrow> (int \<times> 'k) option"

section \<open>File\<close>

record file_t =
  fFullName :: string
  fReadFd :: int
  fWriteFd :: int
  fLockFd :: int
  fLocked :: bool
  fLabelLength :: int

definition File :: "string \<Rightarrow> file_t" where
  "File fileName = \<lparr>fFullName = fileName, fReadFd = -1, fWriteFd = -1, fLockFd = -1, fLocked = False, fLabelLength = -1\<rparr>"

definition kFileBufferSize :: nat where
  "kFileBufferSize = 4096"

definition existed :: "'k posix \<Rightarrow> file_t \<Rightarrow> 'k \<Rightarrow> bool" where
  "existed K f s = p_access K (fFullName f) s"

definition flength :: "'k posix \<Rightarrow> file_t \<Rightarrow> 'k \<Rightarrow> nat \<times> 'k" where
  "flength K f s =
     (if \<not> existed K f s then (0, s)
      else let (fd, s) = p_open K (fFullName f) O_RDONLY s; (offset, s) = p_seek_end K fd s; (_, s) = p_close K fd s
           in (nat (if offset < 0 then 0 else offset), s))"

definition closeRead :: "'k posix \<Rightarrow> file_t \<Rightarrow> 'k \<Rightarrow> int \<times> 'k" where
  "closeRead K f s = p_close K (fReadFd f) s"

definition closeWrite :: "'k posix \<Rightarrow> file_t \<Rightarrow> 'k \<Rightarrow> int \<times> 'k" where
  "closeWrite K f s = p_close K (fWriteFd f) s"

definition closeLock :: "'k posix \<Rightarrow> file_t \<Rightarrow> 'k \<Rightarrow> int \<times> 'k" where
  "closeLock K f s = p_close K (fLockFd f) s"

text \<open>The destructor.\<close>

definition close_file :: "'k posix \<Rightarrow> file_t \<Rightarrow> 'k \<Rightarrow> 'k" where
  "close_file K f s = snd (closeLock K f (snd (closeWrite K f (snd (closeRead K f s)))))"

definition openRead :: "'k posix \<Rightarrow> int \<Rightarrow> file_t \<Rightarrow> 'k \<Rightarrow> bool \<times> file_t \<times> 'k" where
  "openRead K offset f s =
     (if fReadFd f > 0 \<and> offset = -1 then (True, f, s)
      else let (f, s) = (if fReadFd f \<le> 0 then let (fd, s) = p_open K (fFullName f) O_RDONLY_CREAT s in (f\<lparr>fReadFd := fd\<rparr>, s) else (f, s))
           in if fReadFd f \<le> 0 then (False, f, s)
              else if offset \<ge> 0
                   then let (r, s) = p_seek_set K (fReadFd f) offset s
                        in if r < 0 then (False, f, snd (closeRead K f s)) else (True, f, s)
                   else (True, f, s))"

definition openWrite :: "'k posix \<Rightarrow> file_t \<Rightarrow> 'k \<Rightarrow> bool \<times> file_t \<times> 'k" where
  "openWrite K f s =
     (if fWriteFd f > 0 then (True, f, s)
      else let (fd, s) = p_open K (fFullName f) O_WRONLY_CREAT_APPEND s in (fd > 0, f\<lparr>fWriteFd := fd\<rparr>, s))"

definition openLock :: "'k posix \<Rightarrow> file_t \<Rightarrow> 'k \<Rightarrow> bool \<times> file_t \<times> 'k" where
  "openLock K f s =
     (if fLockFd f > 0 then (True, f, s)
      else let (fd, s) = p_open K (fFullName f) O_RDWR_CREAT s in (fd > 0, f\<lparr>fLockFd := fd\<rparr>, s))"

definition file_lock :: "'k posix \<Rightarrow> file_t \<Rightarrow> 'k \<Rightarrow> (bool \<times> file_t \<times> 'k) option" where
  "file_lock K f s =
     (case p_flock K (fLockFd f) LOCK_EX s of
        None \<Rightarrow> None
      | Some (r, s) \<Rightarrow> Some (r = 0, if r = 0 then f\<lparr>fLocked := True\<rparr> else f, s))"

text \<open>\<open>tryLock\<close> takes the lock but always reports failure.\<close>

definition file_tryLock :: "'k posix \<Rightarrow> file_t \<Rightarrow> 'k \<Rightarrow> (bool \<times> file_t \<times> 'k) option" where
  "file_tryLock K f s =
     (case p_flock K (fLockFd f) LOCK_EX_NB s of
        None \<Rightarrow> None
      | Some (r, s) \<Rightarrow> Some (False, if r = 0 then f\<lparr>fLocked := True\<rparr> else f, s))"

definition file_unlock :: "'k posix \<Rightarrow> file_t \<Rightarrow> 'k \<Rightarrow> (bool \<times> file_t \<times> 'k) option" where
  "file_unlock K f s =
     (case p_flock K (fLockFd f) LOCK_UN s of
        None \<Rightarrow> None
      | Some (r, s) \<Rightarrow> Some (r = 0, if r = 0 then f\<lparr>fLocked := False\<rparr> else f, s))"

definition setLabelLength :: "int \<Rightarrow> file_t \<Rightarrow> int \<times> file_t" where
  "setLabelLength len f = (len, f\<lparr>fLabelLength := len\<rparr>)"

definition file_read :: "'k posix \<Rightarrow> nat \<Rightarrow> file_t \<Rightarrow> 'k \<Rightarrow> int \<times> byte list \<times> file_t \<times> 'k" where
  "file_read K n f s =
     (let (_, f, s) = openRead K (-1) f s; (r, out, s) = p_read K (fReadFd f) n s in (r, out, f, s))"

definition readRange :: "'k posix \<Rightarrow> nat \<Rightarrow> nat \<Rightarrow> nat \<Rightarrow> file_t \<Rightarrow> 'k \<Rightarrow> int \<times> byte list \<times> file_t \<times> 'k" where
  "readRange K buf_len offset len f s =
     (let (_, f, s) = openRead K (-1) f s; (pos, s) = p_seek_set K (fReadFd f) (int offset) s; rs = int32 pos
      in if rs < 0 then (rs, [], f, s)
         else let (n, out, s) = p_read K (fReadFd f) (min buf_len len) s in (int32 n, out, f, s))"

definition file_append :: "'k posix \<Rightarrow> byte list \<Rightarrow> file_t \<Rightarrow> 'k \<Rightarrow> int \<times> file_t \<times> 'k" where
  "file_append K bs f s =
     (let (_, f, s) = openWrite K f s
      in if fWriteFd f < 0 then (-1, f, s) else let (n, s) = p_write K (fWriteFd f) bs s in (int32 n, f, s))"

definition file_write :: "'k posix \<Rightarrow> byte list \<Rightarrow> file_t \<Rightarrow> 'k \<Rightarrow> int \<times> file_t \<times> 'k" where
  "file_write K bs f s = file_append K bs f s"

definition file_unlink :: "'k posix \<Rightarrow> file_t \<Rightarrow> 'k \<Rightarrow> int \<times> 'k" where
  "file_unlink K f s = p_unlink K (fFullName f) s"

text \<open>The inner loop of \<open>sendTo\<close> pushes one block; \<open>False\<close> is a failed write.\<close>

partial_function (option) push_loop :: "('w \<Rightarrow> byte list \<Rightarrow> int \<times> 'w) \<Rightarrow> byte list \<Rightarrow> 'w \<Rightarrow> (bool \<times> 'w) option" where
  "push_loop wr p w =
     (if p = [] then Some (True, w)
      else let (n, w) = wr w p; res = int32 n in if res < 0 then Some (False, w) else push_loop wr (drop (nat res) p) w)"

partial_function (option) file_send_loop ::
  "'k posix \<Rightarrow> ('w \<Rightarrow> byte list \<Rightarrow> int \<times> 'w) \<Rightarrow> int \<Rightarrow> file_t \<Rightarrow> 'k \<Rightarrow> 'w \<Rightarrow> (int \<times> file_t \<times> 'k \<times> 'w) option" where
  "file_send_loop K wr len f s w =
     (let (n, out, f, s) = file_read K kFileBufferSize f s; cnt = int32 n
      in if cnt > 0
         then case push_loop wr out w of
                None \<Rightarrow> None
              | Some (ok, w) \<Rightarrow> if ok then file_send_loop K wr (int32 (len + cnt)) f s w else Some (-1, f, s, w)
         else Some (if cnt < 0 then -1 else len, f, s, w))"

text \<open>\<open>sendTo(w, len)\<close>, with \<open>all\<close> bytes sent.\<close>

partial_function (option) file_send_range ::
  "'k posix \<Rightarrow> ('w \<Rightarrow> byte list \<Rightarrow> int \<times> 'w) \<Rightarrow> nat \<Rightarrow> int \<Rightarrow> file_t \<Rightarrow> 'k \<Rightarrow> 'w \<Rightarrow> (int \<times> file_t \<times> 'k \<times> 'w) option" where
  "file_send_range K wr len all f s w =
     (let want = min (size64 (int len - all)) kFileBufferSize
      in if want > 0
         then let (n, out, f, s) = file_read K want f s; cnt = int32 n
              in if cnt > 0
                 then case push_loop wr out w of
                        None \<Rightarrow> None
                      | Some (ok, w) \<Rightarrow> if ok then file_send_range K wr len (int32 (all + cnt)) f s w else Some (-1, f, s, w)
                 else Some (if cnt < 0 then -1 else int len, f, s, w)
         else Some (int len, f, s, w))"

definition file_sendTo :: "'k posix \<Rightarrow> ('w \<Rightarrow> byte list \<Rightarrow> int \<times> 'w) \<Rightarrow> file_t \<Rightarrow> 'k \<Rightarrow> 'w \<Rightarrow> (int \<times> file_t \<times> 'k \<times> 'w) option" where
  "file_sendTo K wr f s w =
     (if fLabelLength f > 0 then file_send_range K wr (nat (fLabelLength f)) 0 f s w else file_send_loop K wr 0 f s w)"

section \<open>Temporary data\<close>

datatype tempfile_mode = TEMPFILE_BUFFER | TEMPFILE_FILE

record tempfile =
  fMode :: tempfile_mode
  fBuf :: buffer
  fFile :: file_t
  kMemoryLimit :: nat

definition kTempFileDir :: string where
  "kTempFileDir = ''/tmp/''"

definition TempFile :: "'k posix \<Rightarrow> string \<Rightarrow> nat \<Rightarrow> 'k \<Rightarrow> tempfile \<times> 'k" where
  "TempFile K tmp_file lim s =
     (let (_, f, s) = openRead K (-1) (File (kTempFileDir @ tmp_file)) s; (_, f, s) = openWrite K f s
      in (\<lparr>fMode = TEMPFILE_BUFFER, fBuf = Buffer 4096, fFile = f, kMemoryLimit = lim\<rparr>, s))"

partial_function (option) dump_loop :: "'k posix \<Rightarrow> buffer \<Rightarrow> file_t \<Rightarrow> 'k \<Rightarrow> (buffer \<times> file_t \<times> 'k) res option" where
  "dump_loop K b f s =
     (if blength b > 0
      then case buf_read 4096 b of
             Inl e \<Rightarrow> Some (Inl e)
           | Inr (out, b) \<Rightarrow> let (_, f, s) = file_write K out f s in dump_loop K b f s
      else Some (Inr (b, f, s)))"

definition dumpToFile :: "'k posix \<Rightarrow> tempfile \<Rightarrow> 'k \<Rightarrow> (tempfile \<times> 'k) res option" where
  "dumpToFile K t s =
     map_option (\<lambda>r. rbind r (\<lambda>(b, f, s). Inr (t\<lparr>fBuf := b, fFile := f, fMode := TEMPFILE_FILE\<rparr>, s))) (dump_loop K (fBuf t) (fFile t) s)"

definition setDiskMode :: "'k posix \<Rightarrow> tempfile \<Rightarrow> 'k \<Rightarrow> (tempfile \<times> 'k) res option" where
  "setDiskMode K t s = dumpToFile K t s"

definition setMemoryMode :: "tempfile \<Rightarrow> tempfile" where
  "setMemoryMode t = t\<lparr>fMode := TEMPFILE_BUFFER\<rparr>"

definition temp_length :: "'k posix \<Rightarrow> tempfile \<Rightarrow> 'k \<Rightarrow> nat \<times> 'k" where
  "temp_length K t s = (case fMode t of TEMPFILE_BUFFER \<Rightarrow> (blength (fBuf t), s) | TEMPFILE_FILE \<Rightarrow> flength K (fFile t) s)"

definition temp_read :: "'k posix \<Rightarrow> nat \<Rightarrow> tempfile \<Rightarrow> 'k \<Rightarrow> (int \<times> byte list \<times> tempfile \<times> 'k) res" where
  "temp_read K n t s =
     (case fMode t of
        TEMPFILE_BUFFER \<Rightarrow> rbind (buf_read n (fBuf t)) (\<lambda>(out, b). Inr (int (length out), out, t\<lparr>fBuf := b\<rparr>, s))
      | TEMPFILE_FILE \<Rightarrow> let (r, out, f, s) = file_read K n (fFile t) s in Inr (r, out, t\<lparr>fFile := f\<rparr>, s))"

partial_function (option) temp_write :: "'k posix \<Rightarrow> byte list \<Rightarrow> tempfile \<Rightarrow> 'k \<Rightarrow> (int \<times> tempfile \<times> 'k) res option" where
  "temp_write K bs t s =
     (case fMode t of
        TEMPFILE_BUFFER \<Rightarrow>
          if blength (fBuf t) + length bs > kMemoryLimit t
          then case dumpToFile K t s of
                 None \<Rightarrow> None
               | Some (Inl e) \<Rightarrow> Some (Inl e)
               | Some (Inr (t, s)) \<Rightarrow> temp_write K bs t s
          else map_option (\<lambda>r. rbind r (\<lambda>b. Inr (int (length bs), t\<lparr>fBuf := b\<rparr>, s))) (buf_write bs (fBuf t))
      | TEMPFILE_FILE \<Rightarrow> let (r, f, s) = file_write K bs (fFile t) s in Some (Inr (r, t\<lparr>fFile := f\<rparr>, s)))"

definition temp_sendTo :: "'k posix \<Rightarrow> ('w \<Rightarrow> byte list \<Rightarrow> int \<times> 'w) \<Rightarrow> tempfile \<Rightarrow> 'k \<Rightarrow> 'w \<Rightarrow> (int \<times> tempfile \<times> 'k \<times> 'w) option" where
  "temp_sendTo K wr t s w =
     (case fMode t of
        TEMPFILE_BUFFER \<Rightarrow> map_option (\<lambda>(r, w). (r, t, s, w)) (sendTo wr (fBuf t) w)
      | TEMPFILE_FILE \<Rightarrow> map_option (\<lambda>(r, f, s, w). (r, t\<lparr>fFile := f\<rparr>, s, w)) (file_sendTo K wr (fFile t) s w))"

definition temp_clear :: "'k posix \<Rightarrow> tempfile \<Rightarrow> 'k \<Rightarrow> tempfile \<times> 'k" where
  "temp_clear K t s =
     (let (_, s) = file_unlink K (fFile t) s in (t\<lparr>fBuf := clear (fBuf t), fMode := TEMPFILE_BUFFER\<rparr>, s))"

text \<open>The destructor: the file is unlinked, then the members are destroyed.\<close>

definition temp_destroy :: "'k posix \<Rightarrow> tempfile \<Rightarrow> 'k \<Rightarrow> 'k" where
  "temp_destroy K t s = close_file K (fFile t) (snd (file_unlink K (fFile t) s))"

section \<open>What the kernel promises\<close>

text \<open>What can be observed of a kernel state: the file and the offset a descriptor leads to, whether it was opened for reading or with \<open>O_APPEND\<close>,
  the contents of the files, a number of bytes for which there is room, and the names in use.\<close>

record 'k fs_view =
  fd_at :: "'k \<Rightarrow> int \<rightharpoonup> nat \<times> nat"
  reads :: "'k \<Rightarrow> int \<Rightarrow> bool"
  appends :: "'k \<Rightarrow> int \<Rightarrow> bool"
  content :: "'k \<Rightarrow> nat \<Rightarrow> byte list"
  space :: "'k \<Rightarrow> nat"
  linked :: "'k \<Rightarrow> string \<Rightarrow> bool"

text \<open>The most one \<open>read\<close> or \<open>write\<close> of Linux transfers.\<close>

definition MAX_RW_COUNT :: nat where
  "MAX_RW_COUNT = 0x7FFFF000"

text \<open>\<open>read\<close> of a regular file returns what is there, up to the number of bytes asked for, and moves the offset; \<open>write\<close> through
  \<open>O_APPEND\<close> appends everything as long as there is room; \<open>unlink\<close> removes at most the name and leaves open files alone.\<close>

definition read_ok :: "'k posix \<Rightarrow> 'k fs_view \<Rightarrow> bool" where
  "read_ok K V \<longleftrightarrow> (\<forall>s fd n i off. fd_at V s fd = Some (i, off) \<and> reads V s fd \<and> length (content V s i) \<le> MAX_RW_COUNT \<longrightarrow>
     (\<exists>s'. p_read K fd n s = (int (length (take n (drop off (content V s i)))), take n (drop off (content V s i)), s') \<and>
       fd_at V s' = (fd_at V s)(fd \<mapsto> (i, off + length (take n (drop off (content V s i))))) \<and> reads V s' = reads V s \<and> appends V s' = appends V s \<and>
       content V s' = content V s \<and> space V s' = space V s \<and> linked V s' = linked V s))"

definition append_ok :: "'k posix \<Rightarrow> 'k fs_view \<Rightarrow> bool" where
  "append_ok K V \<longleftrightarrow> (\<forall>s fd bs i off. fd_at V s fd = Some (i, off) \<and> appends V s fd \<and> length bs \<le> MAX_RW_COUNT \<and> length bs \<le> space V s \<longrightarrow>
     (\<exists>s'. p_write K fd bs s = (int (length bs), s') \<and>
       fd_at V s' = (fd_at V s)(fd \<mapsto> (i, length (content V s i @ bs))) \<and> reads V s' = reads V s \<and> appends V s' = appends V s \<and>
       content V s' = (content V s)(i := content V s i @ bs) \<and> space V s \<le> space V s' + length bs \<and> linked V s' = linked V s))"

definition unlink_ok :: "'k posix \<Rightarrow> 'k fs_view \<Rightarrow> bool" where
  "unlink_ok K V \<longleftrightarrow> (\<forall>s n r s'. p_unlink K n s = (r, s') \<longrightarrow>
     fd_at V s' = fd_at V s \<and> reads V s' = reads V s \<and> appends V s' = appends V s \<and> content V s' = content V s \<and> space V s \<le> space V s' \<and>
     linked V s' = (if r = 0 then (linked V s)(n := False) else linked V s))"

definition posix_ok :: "'k posix \<Rightarrow> 'k fs_view \<Rightarrow> bool" where
  "posix_ok K V \<longleftrightarrow> (\<forall>n s. p_access K n s = linked V s n) \<and> read_ok K V \<and> append_ok K V \<and> unlink_ok K V"

section \<open>Pending data\<close>

text \<open>The unread data, and the well-formed states: both descriptors lead to the same file, whose size one call can transfer, and the file
  holds no unread data while the buffer is in use.\<close>

definition pending :: "'k fs_view \<Rightarrow> tempfile \<Rightarrow> 'k \<Rightarrow> byte list" where
  "pending V t s =
     (case fMode t of
        TEMPFILE_BUFFER \<Rightarrow> bytes (fBuf t)
      | TEMPFILE_FILE \<Rightarrow> (case fd_at V s (fReadFd (fFile t)) of None \<Rightarrow> [] | Some (i, off) \<Rightarrow> drop off (content V s i)))"

definition file_open :: "'k fs_view \<Rightarrow> file_t \<Rightarrow> nat \<Rightarrow> nat \<Rightarrow> 'k \<Rightarrow> bool" where
  "file_open V f i off s \<longleftrightarrow> 0 < fReadFd f \<and> 0 < fWriteFd f \<and> fReadFd f \<noteq> fWriteFd f \<and> fd_at V s (fReadFd f) = Some (i, off) \<and>
     reads V s (fReadFd f) \<and> (\<exists>o'. fd_at V s (fWriteFd f) = Some (i, o')) \<and> appends V s (fWriteFd f) \<and> off \<le> length (content V s i) \<and>
     length (content V s i) \<le> MAX_RW_COUNT"

definition temp_inv :: "'k posix \<Rightarrow> 'k fs_view \<Rightarrow> tempfile \<Rightarrow> 'k \<Rightarrow> bool" where
  "temp_inv K V t s \<longleftrightarrow> posix_ok K V \<and> buf_inv (fBuf t) \<and> (\<exists>i off. file_open V (fFile t) i off s \<and>
     (fMode t = TEMPFILE_BUFFER \<longrightarrow> off = length (content V s i)))"

text \<open>Room for \<open>n\<close> more bytes, on the disk and below the size one call can transfer.\<close>

definition file_room :: "'k fs_view \<Rightarrow> nat \<Rightarrow> nat \<Rightarrow> 'k \<Rightarrow> bool" where
  "file_room V i n s \<longleftrightarrow> n \<le> space V s \<and> length (content V s i) + n \<le> MAX_RW_COUNT"

lemma file_open_write:
  assumes "posix_ok K V" "file_open V f i off s" "file_room V i (length bs) s"
  shows "\<exists>s'. file_write K bs f s = (int (length bs), f, s') \<and> file_open V f i off s' \<and> content V s' i = content V s i @ bs \<and>
    space V s \<le> space V s' + length bs \<and> linked V s' = linked V s"
proof -
  have b: "length bs \<le> MAX_RW_COUNT" "length bs \<le> space V s"
    using assms(3) by (simp_all add: file_room_def)
  then have "int32 (int (length bs)) = int (length bs)"
    by (simp add: MAX_RW_COUNT_def)
  moreover obtain o' where "fd_at V s (fWriteFd f) = Some (i, o')" "appends V s (fWriteFd f)"
    using assms(2) by (auto simp: file_open_def)
  then obtain s' where s': "p_write K (fWriteFd f) bs s = (int (length bs), s')"
    "fd_at V s' = (fd_at V s)(fWriteFd f \<mapsto> (i, length (content V s i @ bs)))" "reads V s' = reads V s" "appends V s' = appends V s"
    "content V s' = (content V s)(i := content V s i @ bs)" "space V s \<le> space V s' + length bs" "linked V s' = linked V s"
    using assms(1) b unfolding posix_ok_def append_ok_def by blast
  ultimately have "file_write K bs f s = (int (length bs), f, s')"
    using assms(2) by (simp add: file_write_def file_append_def openWrite_def file_open_def)
  moreover have "file_open V f i off s'"
    using s' assms(2,3) by (simp add: file_open_def file_room_def)
  ultimately show ?thesis
    using s' by auto
qed

lemma file_open_read:
  assumes "posix_ok K V" "file_open V f i off s"
  shows "\<exists>s'. file_read K n f s = (int (length (take n (drop off (content V s i)))), take n (drop off (content V s i)), f, s') \<and>
    file_open V f i (off + length (take n (drop off (content V s i)))) s' \<and> content V s' = content V s"
proof -
  let ?out = "take n (drop off (content V s i))"
  have "fd_at V s (fReadFd f) = Some (i, off)" "reads V s (fReadFd f)" "length (content V s i) \<le> MAX_RW_COUNT"
    using assms(2) by (simp_all add: file_open_def)
  then obtain s' where s': "p_read K (fReadFd f) n s = (int (length ?out), ?out, s')"
    "fd_at V s' = (fd_at V s)(fReadFd f \<mapsto> (i, off + length ?out))" "reads V s' = reads V s" "appends V s' = appends V s" "content V s' = content V s"
    using assms(1) unfolding posix_ok_def read_ok_def by blast
  then have "file_read K n f s = (int (length ?out), ?out, f, s')"
    using assms(2) by (simp add: file_read_def openRead_def file_open_def)
  moreover have "file_open V f i (off + length ?out) s'"
    using s' assms(2) by (auto simp: file_open_def)
  ultimately show ?thesis
    using s'(5) by blast
qed

text \<open>Writing a part leaves room for the rest.\<close>

lemma file_room_after:
  assumes "file_room V i (m + n) s" "content V s' i = content V s i @ bs" "length bs = m" "space V s \<le> space V s' + m"
  shows "file_room V i n s'"
  using assms by (simp add: file_room_def)

lemma dump_loop_all:
  assumes "posix_ok K V" "buf_inv b" "file_open V f i off s" "file_room V i (length (bytes b) + n) s"
  shows "\<exists>b' s'. dump_loop K b f s = Some (Inr (b', f, s')) \<and> buf_inv b' \<and> bytes b' = [] \<and> file_open V f i off s' \<and>
    content V s' i = content V s i @ bytes b \<and> file_room V i n s' \<and> linked V s' = linked V s"
  using assms(2-)
proof (induction "length (bytes b)" arbitrary: b s rule: less_induct)
  case less
  have len: "blength b = length (bytes b)"
    using bytes_length [OF less.prems(1)] buf_inv_sizes(2) [OF less.prems(1)] by simp
  show ?case
  proof (cases "bytes b = []")
    case True
    then show ?thesis
      using less.prems len by (subst dump_loop.simps) simp
  next
    case False
    let ?out = "take 4096 (bytes b)"
    obtain b1 where r: "buf_read 4096 b = Inr (?out, b1)" "buf_inv b1" "bytes b1 = drop 4096 (bytes b)"
      using buf_read_bytes [OF less.prems(1)] by blast
    have l: "length (bytes b) = length ?out + length (bytes b1)"
      using r(3) by simp
    have "file_room V i (length ?out) s"
      using less.prems(3) l unfolding file_room_def by linarith
    then obtain s1 where w: "file_write K ?out f s = (int (length ?out), f, s1)" "file_open V f i off s1"
      "content V s1 i = content V s i @ ?out" "space V s \<le> space V s1 + length ?out" "linked V s1 = linked V s"
      using file_open_write [OF assms(1) less.prems(2)] by blast
    have e: "length ?out + (length (bytes b1) + n) = length (bytes b) + n"
      using l by linarith
    have "file_room V i (length ?out + (length (bytes b1) + n)) s"
      unfolding e by (rule less.prems(3))
    then have "file_room V i (length (bytes b1) + n) s1"
      by (rule file_room_after [OF _ w(3) refl w(4)])
    moreover have "length (bytes b1) < length (bytes b)"
      using r(3) False by simp
    ultimately obtain b' s' where "dump_loop K b1 f s1 = Some (Inr (b', f, s'))" "buf_inv b'" "bytes b' = []" "file_open V f i off s'"
      "content V s' i = content V s1 i @ bytes b1" "file_room V i n s'" "linked V s' = linked V s1"
      using less.hyps [of b1 s1] r(2) w(2) by blast
    moreover have "dump_loop K b f s = dump_loop K b1 f s1"
      using False len r(1) w(1) by (subst dump_loop.simps) simp
    moreover have "content V s1 i @ bytes b1 = content V s i @ bytes b"
      using w(3) r(3) by simp
    ultimately show ?thesis
      using w(5) by metis
  qed
qed

lemma temp_write_file:
  assumes "posix_ok K V" "fMode t = TEMPFILE_FILE" "file_open V (fFile t) i off s" "file_room V i (length xs) s"
  shows "\<exists>s'. temp_write K xs t s = Some (Inr (int (length xs), t, s')) \<and> file_open V (fFile t) i off s' \<and>
    content V s' i = content V s i @ xs \<and> linked V s' = linked V s"
  using file_open_write [OF assms(1,3,4)] assms(2) by (subst temp_write.simps) auto

text \<open>Writing past the limit moves the buffered data to the file and appends the new data there.\<close>

lemma temp_write_spill:
  assumes K: "posix_ok K V" and b: "buf_inv (fBuf t)" "fMode t = TEMPFILE_BUFFER" "file_open V (fFile t) i off s"
    and room: "file_room V i (length (bytes (fBuf t)) + length xs) s" "kMemoryLimit t < length (bytes (fBuf t)) + length xs"
  shows "\<exists>t' s'. temp_write K xs t s = Some (Inr (int (length xs), t', s')) \<and> buf_inv (fBuf t') \<and> fMode t' = TEMPFILE_FILE \<and>
    fFile t' = fFile t \<and> file_open V (fFile t) i off s' \<and> content V s' i = content V s i @ bytes (fBuf t) @ xs \<and> linked V s' = linked V s"
proof -
  obtain b' s1 where d: "dump_loop K (fBuf t) (fFile t) s = Some (Inr (b', fFile t, s1))" "buf_inv b'" "file_open V (fFile t) i off s1"
    "content V s1 i = content V s i @ bytes (fBuf t)" "file_room V i (length xs) s1" "linked V s1 = linked V s"
    using dump_loop_all [OF K b(1,3) room(1)] by auto
  let ?t = "t\<lparr>fBuf := b', fFile := fFile t, fMode := TEMPFILE_FILE\<rparr>"
  have "blength (fBuf t) = length (bytes (fBuf t))"
    using bytes_length [OF b(1)] buf_inv_sizes(2) [OF b(1)] by simp
  then have e: "temp_write K xs t s = temp_write K xs ?t s1"
    using b(2) room(2) d(1) by (subst temp_write.simps) (simp add: dumpToFile_def)
  have "fMode ?t = TEMPFILE_FILE" "file_open V (fFile ?t) i off s1"
    using d by simp_all
  from temp_write_file [OF K this d(5)] show ?thesis
    using e d by auto
qed

text \<open>The writes temporary data accepts: the disk and the file have room for the unread data, and the buffer can take what stays in memory.\<close>

definition temp_accepts :: "'k fs_view \<Rightarrow> byte list \<Rightarrow> tempfile \<times> 'k \<Rightarrow> bool" where
  "temp_accepts V xs d \<longleftrightarrow>
     (case d of (t, s) \<Rightarrow>
        (case fd_at V s (fReadFd (fFile t)) of None \<Rightarrow> False
         | Some (i, off) \<Rightarrow> file_room V i (length (bytes (fBuf t)) + length xs) s) \<and>
        (fMode t = TEMPFILE_BUFFER \<and> length (bytes (fBuf t)) + length xs \<le> kMemoryLimit t \<longrightarrow> write_ok xs (fBuf t)))"

lemma temp_write_pending:
  assumes inv: "temp_inv K V t s" and acc: "temp_accepts V xs (t, s)"
  shows "\<exists>t' s'. temp_write K xs t s = Some (Inr (int (length xs), t', s')) \<and> temp_inv K V t' s' \<and> pending V t' s' = pending V t s @ xs"
proof -
  obtain i off where K: "posix_ok K V" and f: "file_open V (fFile t) i off s"
    "fMode t = TEMPFILE_BUFFER \<longrightarrow> off = length (content V s i)" and b: "buf_inv (fBuf t)"
    using inv by (auto simp: temp_inv_def)
  have room: "file_room V i (length (bytes (fBuf t)) + length xs) s"
    using acc f(1) by (simp add: temp_accepts_def file_open_def)
  have len: "blength (fBuf t) = length (bytes (fBuf t))"
    using bytes_length [OF b] buf_inv_sizes(2) [OF b] by simp
  consider (disk) "fMode t = TEMPFILE_FILE"
    | (spill) "fMode t = TEMPFILE_BUFFER" "kMemoryLimit t < length (bytes (fBuf t)) + length xs"
    | (mem) "fMode t = TEMPFILE_BUFFER" "length (bytes (fBuf t)) + length xs \<le> kMemoryLimit t"
    by (cases "fMode t") force+
  then show ?thesis
  proof cases
    case disk
    have "file_room V i (length xs) s"
      using room by (simp add: file_room_def)
    then show ?thesis
      using temp_write_file [OF K disk f(1), of xs] K b f(1) disk by (auto simp: temp_inv_def pending_def file_open_def)
  next
    case spill
    then obtain t' s' where w: "temp_write K xs t s = Some (Inr (int (length xs), t', s'))" "buf_inv (fBuf t')"
      "fMode t' = TEMPFILE_FILE" "fFile t' = fFile t" "file_open V (fFile t) i off s'" "content V s' i = content V s i @ bytes (fBuf t) @ xs"
      using temp_write_spill [OF K b spill(1) f(1) room spill(2)] by blast
    have "temp_inv K V t' s'"
      using w K unfolding temp_inv_def by auto
    moreover have "pending V t' s' = pending V t s @ xs"
      using w f(2) spill(1) by (simp add: pending_def file_open_def)
    ultimately show ?thesis
      using w(1) by blast
  next
    case mem
    have "write_ok xs (fBuf t)"
      using acc mem by (simp add: temp_accepts_def)
    then obtain b' where "buf_write xs (fBuf t) = Some (Inr b')" "buf_inv b'" "bytes b' = bytes (fBuf t) @ xs"
      using buf_write_bytes [OF b] by (auto simp: write_ok_def)
    then show ?thesis
      using mem len f K by (subst temp_write.simps) (auto simp: temp_inv_def pending_def)
  qed
qed

lemma temp_read_pending:
  assumes "temp_inv K V t s"
  shows "\<exists>t' s'. temp_read K n t s = Inr (int (length (take n (pending V t s))), take n (pending V t s), t', s') \<and>
    temp_inv K V t' s' \<and> pending V t' s' = drop n (pending V t s)"
proof -
  obtain i off where K: "posix_ok K V" and f: "file_open V (fFile t) i off s"
    "fMode t = TEMPFILE_BUFFER \<longrightarrow> off = length (content V s i)" and b: "buf_inv (fBuf t)"
    using assms by (auto simp: temp_inv_def)
  show ?thesis
  proof (cases "fMode t")
    case TEMPFILE_BUFFER
    obtain b' where "buf_read n (fBuf t) = Inr (take n (bytes (fBuf t)), b')" "buf_inv b'" "bytes b' = drop n (bytes (fBuf t))"
      using buf_read_bytes [OF b] by blast
    then show ?thesis
      using TEMPFILE_BUFFER f K by (auto simp: temp_read_def pending_def temp_inv_def)
  next
    case TEMPFILE_FILE
    let ?out = "take n (drop off (content V s i))"
    obtain s' where r: "file_read K n (fFile t) s = (int (length ?out), ?out, fFile t, s')"
      "file_open V (fFile t) i (off + length ?out) s'" "content V s' = content V s"
      using file_open_read [OF K f(1)] by blast
    have p: "pending V t s = drop off (content V s i)" "pending V t s' = drop (off + length ?out) (content V s i)"
      using TEMPFILE_FILE f(1) r(2,3) by (simp_all add: pending_def file_open_def)
    have "drop (off + length ?out) (content V s i) = drop n (drop off (content V s i))"
      by (auto simp: min_def add.commute)
    moreover have "temp_inv K V t s'"
      using K b r(2) TEMPFILE_FILE by (auto simp: temp_inv_def)
    moreover have "temp_read K n t s = Inr (int (length ?out), ?out, t, s')"
      using TEMPFILE_FILE r(1) by (simp add: temp_read_def)
    ultimately show ?thesis
      using p by auto
  qed
qed

text \<open>Temporary data implements the \<open>Data\<close> interface on every kernel that keeps its promises.\<close>

interpretation tempfile: data_stream "\<lambda>(t, s). pending V t s" "\<lambda>(t, s). temp_inv K V t s" "temp_accepts V"
  "\<lambda>n (t, s). temp_read K n t s" "\<lambda>xs (t, s). temp_write K xs t s" for K :: "'k posix" and V
proof
  show "\<exists>d'. (case d of (t, s) \<Rightarrow> temp_read K n t s) =
      Inr (int (length (take n (case d of (t, s) \<Rightarrow> pending V t s))), take n (case d of (t, s) \<Rightarrow> pending V t s), d') \<and>
      (case d' of (t, s) \<Rightarrow> temp_inv K V t s) \<and> (case d' of (t, s) \<Rightarrow> pending V t s) = drop n (case d of (t, s) \<Rightarrow> pending V t s)"
    if "case d of (t, s) \<Rightarrow> temp_inv K V t s" for d n
    using temp_read_pending [of K V "fst d" "snd d" n] that by (cases d) auto
  show "\<exists>d'. (case d of (t, s) \<Rightarrow> temp_write K xs t s) = Some (Inr (int (length xs), d')) \<and>
      (case d' of (t, s) \<Rightarrow> temp_inv K V t s) \<and> (case d' of (t, s) \<Rightarrow> pending V t s) = (case d of (t, s) \<Rightarrow> pending V t s) @ xs"
    if "case d of (t, s) \<Rightarrow> temp_inv K V t s" "temp_accepts V xs d" for d xs
    using temp_write_pending [of K V "fst d" "snd d" xs] that by (cases d) auto
qed

section \<open>A file system for the witnesses\<close>

text \<open>A small file system on which every promise holds: names, the contents they lead to (which live on while a descriptor is open), open
  descriptors with their flags and offsets, the free space of the disk, the names the process may not open, and the holders of \<open>flock\<close>
  locks. Descriptor numbers are not reused.\<close>

record os =
  names :: "string \<rightharpoonup> nat"
  inodes :: "nat \<Rightarrow> byte list"
  fds :: "int \<rightharpoonup> nat \<times> nat"
  fd_flags :: "int \<Rightarrow> open_flags"
  nfd :: int
  nino :: nat
  room :: nat
  deny :: "string \<Rightarrow> bool"
  flocks :: "nat \<rightharpoonup> int"

definition sys_open :: "string \<Rightarrow> open_flags \<Rightarrow> os \<Rightarrow> int \<times> os" where
  "sys_open n fl s =
     (if deny s n then (-1, s)
      else case names s n of
             Some i \<Rightarrow> (nfd s, s\<lparr>fds := (fds s)(nfd s \<mapsto> (i, 0)), fd_flags := (fd_flags s)(nfd s := fl), nfd := nfd s + 1\<rparr>)
           | None \<Rightarrow> if fl = O_RDONLY then (-1, s)
                     else (nfd s, s\<lparr>names := (names s)(n \<mapsto> nino s), inodes := (inodes s)(nino s := []), nino := nino s + 1,
                                    fds := (fds s)(nfd s \<mapsto> (nino s, 0)), fd_flags := (fd_flags s)(nfd s := fl), nfd := nfd s + 1\<rparr>))"

definition sys_close :: "int \<Rightarrow> os \<Rightarrow> int \<times> os" where
  "sys_close fd s =
     (if fds s fd = None then (-1, s)
      else (0, s\<lparr>fds := (fds s)(fd := None), flocks := (\<lambda>i. if flocks s i = Some fd then None else flocks s i)\<rparr>))"

definition sys_seek_set :: "int \<Rightarrow> int \<Rightarrow> os \<Rightarrow> int \<times> os" where
  "sys_seek_set fd off s =
     (case fds s fd of
        None \<Rightarrow> (-1, s)
      | Some (i, _) \<Rightarrow> if off < 0 then (-1, s) else (off, s\<lparr>fds := (fds s)(fd \<mapsto> (i, nat off))\<rparr>))"

definition sys_seek_end :: "int \<Rightarrow> os \<Rightarrow> int \<times> os" where
  "sys_seek_end fd s =
     (case fds s fd of
        None \<Rightarrow> (-1, s)
      | Some (i, _) \<Rightarrow> (int (length (inodes s i)), s\<lparr>fds := (fds s)(fd \<mapsto> (i, length (inodes s i)))\<rparr>))"

definition sys_read :: "int \<Rightarrow> nat \<Rightarrow> os \<Rightarrow> int \<times> byte list \<times> os" where
  "sys_read fd n s =
     (case fds s fd of
        None \<Rightarrow> (-1, [], s)
      | Some (i, off) \<Rightarrow>
          if fd_flags s fd = O_WRONLY_CREAT_APPEND then (-1, [], s)
          else let out = take n (drop off (inodes s i)) in (int (length out), out, s\<lparr>fds := (fds s)(fd \<mapsto> (i, off + length out))\<rparr>))"

definition sys_append :: "int \<Rightarrow> byte list \<Rightarrow> os \<Rightarrow> int \<times> os" where
  "sys_append fd bs s =
     (case fds s fd of
        None \<Rightarrow> (-1, s)
      | Some (i, _) \<Rightarrow>
          let k = min (length bs) (room s)
          in if fd_flags s fd \<noteq> O_WRONLY_CREAT_APPEND \<or> bs \<noteq> [] \<and> k = 0 then (-1, s)
             else (int k, s\<lparr>inodes := (inodes s)(i := inodes s i @ take k bs), room := room s - k,
                            fds := (fds s)(fd \<mapsto> (i, length (inodes s i @ take k bs)))\<rparr>))"

definition sys_unlink :: "string \<Rightarrow> os \<Rightarrow> int \<times> os" where
  "sys_unlink n s = (if names s n = None then (-1, s) else (0, s\<lparr>names := (names s)(n := None)\<rparr>))"

definition sys_flock :: "int \<Rightarrow> flock_op \<Rightarrow> os \<Rightarrow> (int \<times> os) option" where
  "sys_flock fd op s =
     (case fds s fd of
        None \<Rightarrow> Some (-1, s)
      | Some (i, _) \<Rightarrow>
          if op = LOCK_UN then Some (0, if flocks s i = Some fd then s\<lparr>flocks := (flocks s)(i := None)\<rparr> else s)
          else if flocks s i = None \<or> flocks s i = Some fd then Some (0, s\<lparr>flocks := (flocks s)(i \<mapsto> fd)\<rparr>)
          else if op = LOCK_EX_NB then Some (-1, s) else None)"

definition os_kernel :: "os posix" where
  "os_kernel = \<lparr>p_access = (\<lambda>n s. names s n \<noteq> None), p_open = sys_open, p_close = sys_close, p_seek_set = sys_seek_set, p_seek_end = sys_seek_end,
     p_read = sys_read, p_write = sys_append, p_unlink = sys_unlink, p_flock = sys_flock\<rparr>"

definition os_view :: "os fs_view" where
  "os_view = \<lparr>fd_at = fds, reads = (\<lambda>s fd. fd_flags s fd \<noteq> O_WRONLY_CREAT_APPEND), appends = (\<lambda>s fd. fd_flags s fd = O_WRONLY_CREAT_APPEND),
     content = inodes, space = room, linked = (\<lambda>s n. names s n \<noteq> None)\<rparr>"

lemma os_posix_ok: "posix_ok os_kernel os_view"
proof -
  have "read_ok os_kernel os_view"
    by (auto simp: read_ok_def os_kernel_def os_view_def sys_read_def Let_def)
  moreover have "append_ok os_kernel os_view"
    by (auto simp: append_ok_def os_kernel_def os_view_def sys_append_def Let_def min_absorb1)
  moreover have "unlink_ok os_kernel os_view"
    by (auto simp: unlink_ok_def os_kernel_def os_view_def sys_unlink_def fun_eq_iff)
  ultimately show ?thesis
    by (simp add: posix_ok_def os_kernel_def os_view_def)
qed

definition empty_os :: os where
  "empty_os = \<lparr>names = Map.empty, inodes = (\<lambda>_. []), fds = Map.empty, fd_flags = (\<lambda>_. O_RDONLY), nfd = 3, nino = 0, room = 1000,
     deny = (\<lambda>_. False), flocks = Map.empty\<rparr>"

text \<open>A temporary file with a memory limit of four bytes.\<close>

definition temp0 :: "tempfile \<times> os" where
  "temp0 = TempFile os_kernel ''x'' 4 empty_os"

lemma temp0_fields:
  "fBuf (fst temp0) = Buffer 4096" "fMode (fst temp0) = TEMPFILE_BUFFER" "kMemoryLimit (fst temp0) = 4"
  "fFile (fst temp0) = (File ''/tmp/x'')\<lparr>fReadFd := 3, fWriteFd := 4\<rparr>" "fds (snd temp0) = [3 \<mapsto> (0, 0), 4 \<mapsto> (0, 0)]"
  "fd_flags (snd temp0) 3 = O_RDONLY_CREAT" "fd_flags (snd temp0) 4 = O_WRONLY_CREAT_APPEND"
  "inodes (snd temp0) = (\<lambda>_. [])" "room (snd temp0) = 1000"
  by (simp_all add: temp0_def TempFile_def openRead_def openWrite_def File_def sys_open_def os_kernel_def empty_os_def kTempFileDir_def fun_eq_iff)

lemma Buffer_4096: "buf_inv (Buffer 4096)" "bytes (Buffer 4096) = []" "length (fData (Buffer 4096)) = 4096" "fWriteIdx (Buffer 4096) = 8"
  by (simp_all add: Buffer_def buf_inv_def kBufferPrefixed_def limit_def bytes_def)

lemma temp0_inv: "temp_inv os_kernel os_view (fst temp0) (snd temp0)" "pending os_view (fst temp0) (snd temp0) = []"
proof -
  have "file_open os_view (fFile (fst temp0)) 0 0 (snd temp0)" "content os_view (snd temp0) 0 = []"
    by (simp_all add: file_open_def temp0_fields os_view_def File_def)
  then have "\<exists>i off. file_open os_view (fFile (fst temp0)) i off (snd temp0) \<and> off = length (content os_view (snd temp0) i)"
    by (intro exI [of _ 0]) simp
  then show "temp_inv os_kernel os_view (fst temp0) (snd temp0)"
    using os_posix_ok unfolding temp_inv_def by (auto simp: temp0_fields(1) Buffer_4096)
qed (simp add: pending_def temp0_fields Buffer_4096)

section \<open>Properties\<close>

text \<open>C24: \<^bold>\<open>Temporary data is a byte stream.\<close> On every kernel whose \<open>read\<close>, \<open>write\<close>, \<open>unlink\<close> and \<open>access\<close> do what is documented
  (\<open>posix_ok\<close>), from a well-formed state, a write of temporary data for which there is room on the disk and in a file of at most
  \<open>0x7FFFF000\<close> bytes, and which the buffer can take or which goes to the file, accepts all its bytes and appends them to the unread data,
  whether the data stays in memory, moves to the file or already is there; a following read of \<open>n\<close> bytes returns the first \<open>n\<close> bytes of the
  unread data and leaves the rest.\<close>

theorem tempfile_is_stream:
  assumes "temp_inv K V t s" "temp_accepts V xs (t, s)"
  shows "\<exists>t1 s1 t2 s2. temp_write K xs t s = Some (Inr (int (length xs), t1, s1)) \<and>
    temp_read K n t1 s1 = Inr (int (length (take n (pending V t s @ xs))), take n (pending V t s @ xs), t2, s2) \<and>
    temp_inv K V t2 s2 \<and> pending V t2 s2 = drop n (pending V t s @ xs)"
  using tempfile.write_then_read [of K V "(t, s)" xs n] assms by auto

theorem tempfile_is_stream_witness:
  "temp_inv os_kernel os_view (fst temp0) (snd temp0) \<and>
   (\<exists>t1 s1 t2 s2. temp_write os_kernel [1, 2, 3, 4, 5, 6] (fst temp0) (snd temp0) = Some (Inr (6, t1, s1)) \<and>
     temp_read os_kernel 4 t1 s1 = Inr (4, [1, 2, 3, 4], t2, s2) \<and> pending os_view t2 s2 = [5, 6])"
proof -
  have "temp_accepts os_view [1, 2, 3, 4, 5, 6] (fst temp0, snd temp0)"
    by (simp add: temp_accepts_def split_beta temp0_fields Buffer_4096 file_room_def os_view_def File_def MAX_RW_COUNT_def)
  from tempfile_is_stream [OF temp0_inv(1) this, of 4] show ?thesis
    using temp0_inv by simp blast
qed

text \<open>\<^bold>\<open>Clearing temporary data keeps what was in the file.\<close> When the unread data is in the file, \<open>clear\<close> unlinks the name but leaves
  the descriptors and their offsets: if the next data exceeds the memory limit, reading returns the old data before the new,
  although \<open>length\<close> reports zero for the rest of the object's life.\<close>

theorem tempfile_clear_keeps_old_data:
  assumes "temp_inv K V t s" "fMode t = TEMPFILE_FILE" "temp_clear K t s = (t0, s0)" "fst (p_unlink K (fFullName (fFile t)) s) = 0"
    and "kMemoryLimit t < length xs" "fd_at V s (fReadFd (fFile t)) = Some (i, off)" "file_room V i (length xs) s"
  shows "\<exists>t1 s1 t2 s2. temp_write K xs t0 s0 = Some (Inr (int (length xs), t1, s1)) \<and> temp_length K t1 s1 = (0, s1) \<and>
    temp_read K n t1 s1 = Inr (int (length (take n (pending V t s @ xs))), take n (pending V t s @ xs), t2, s2)"
proof -
  have K: "posix_ok K V" and f: "file_open V (fFile t) i off s" and b: "buf_inv (fBuf t)"
    using assms(1,6) by (auto simp: temp_inv_def file_open_def)
  have t0: "t0 = t\<lparr>fBuf := clear (fBuf t), fMode := TEMPFILE_BUFFER\<rparr>" and u: "p_unlink K (fFullName (fFile t)) s = (0, s0)"
    using assms(3,4) by (auto simp: temp_clear_def file_unlink_def split: prod.splits)
  then have s0: "\<not> linked V s0 (fFullName (fFile t))" "content V s0 = content V s" "fd_at V s0 = fd_at V s" "reads V s0 = reads V s"
    "appends V s0 = appends V s" "space V s \<le> space V s0"
    using K unfolding posix_ok_def unlink_ok_def by fastforce+
  have c: "buf_inv (fBuf t0)" "bytes (fBuf t0) = []"
    using b by (auto simp: t0 clear_def buf_inv_def bytes_def kBufferPrefixed_def)
  have "file_open V (fFile t0) i off s0" "file_room V i (length (bytes (fBuf t0)) + length xs) s0"
    using f s0 assms(7) c by (simp_all add: file_open_def file_room_def t0)
  then obtain t1 s1 where w: "temp_write K xs t0 s0 = Some (Inr (int (length xs), t1, s1))" "buf_inv (fBuf t1)" "fMode t1 = TEMPFILE_FILE"
    "fFile t1 = fFile t" "file_open V (fFile t) i off s1" "content V s1 i = content V s i @ xs" "linked V s1 = linked V s0"
    using temp_write_spill [OF K c(1), of i off s0 xs] c assms(5) s0 by (auto simp: t0)
  have "temp_inv K V t1 s1"
    using w K unfolding temp_inv_def by auto
  moreover have "pending V t1 s1 = pending V t s @ xs"
    using w f assms(2) by (simp add: pending_def file_open_def)
  moreover have "temp_length K t1 s1 = (0, s1)"
    using w s0(1) K by (simp add: temp_length_def flength_def existed_def posix_ok_def)
  ultimately show ?thesis
    using w(1) temp_read_pending [of K V t1 s1 n] by auto
qed

text \<open>The temporary file above with \<open>[1, 2]\<close> in the file.\<close>

definition temp_old :: "tempfile \<times> os" where
  "temp_old = ((fst temp0)\<lparr>fMode := TEMPFILE_FILE\<rparr>, (snd temp0)\<lparr>inodes := (\<lambda>_. [1, 2])\<rparr>)"

theorem tempfile_clear_keeps_old_data_witness:
  "pending os_view (fst temp_old) (snd temp_old) = [1, 2] \<and>
   (\<exists>t0 s0 t1 s1 t2 s2. temp_clear os_kernel (fst temp_old) (snd temp_old) = (t0, s0) \<and>
     temp_write os_kernel [7, 7, 7, 7, 7] t0 s0 = Some (Inr (5, t1, s1)) \<and>
     temp_length os_kernel t1 s1 = (0, s1) \<and> temp_read os_kernel 3 t1 s1 = Inr (3, [1, 2, 7], t2, s2))"
proof -
  have v: "file_open os_view (fFile (fst temp_old)) 0 0 (snd temp_old)"
    by (simp add: temp_old_def file_open_def temp0_fields os_view_def File_def MAX_RW_COUNT_def)
  then have o: "temp_inv os_kernel os_view (fst temp_old) (snd temp_old)" "pending os_view (fst temp_old) (snd temp_old) = [1, 2]"
    "fMode (fst temp_old) = TEMPFILE_FILE" "kMemoryLimit (fst temp_old) = 4"
    using os_posix_ok by (auto simp: temp_old_def temp_inv_def temp0_fields Buffer_4096 pending_def os_view_def File_def)
  have "fst (p_unlink os_kernel (fFullName (fFile (fst temp_old))) (snd temp_old)) = 0"
    by (simp add: temp_old_def temp0_def TempFile_def openRead_def openWrite_def File_def sys_open_def os_kernel_def empty_os_def
        kTempFileDir_def sys_unlink_def)
  moreover obtain t0 s0 where c: "temp_clear os_kernel (fst temp_old) (snd temp_old) = (t0, s0)"
    by (cases "temp_clear os_kernel (fst temp_old) (snd temp_old)")
  moreover have "fd_at os_view (snd temp_old) (fReadFd (fFile (fst temp_old))) = Some (0, 0)" "file_room os_view 0 (length [7, 7, 7, 7, 7 :: byte]) (snd temp_old)"
    by (simp_all add: temp_old_def temp0_fields os_view_def File_def file_room_def MAX_RW_COUNT_def)
  ultimately show ?thesis
    using tempfile_clear_keeps_old_data [OF o(1,3) c, of "[7, 7, 7, 7, 7]" 0 0 3] o c by (simp add: numeral_3_eq_3)
qed

end
