(* ===== verification/NattanHttp.thy ===== *)
theory NattanHttp
  imports NattanFile "HOL-Library.List_Lexorder"
begin

text \<open>
  HTTP messages: \<open>proto/http/HttpHeader.h\<close>, \<open>HttpBody.h\<close>, \<open>HttpParser.h\<close> and \<open>HttpConnection.h\<close>. Strings are byte lists; a
  \<open>std::map\<close> of strings is an association list in increasing order of the keys, the order of its iterator. The parser
  of the \<open>http-parser\<close> library and its tables of method and status names are parameters: \<open>exec\<close> is \<open>http_parser_execute\<close>, which calls
  the handlers below and returns the number of bytes parsed. A peer is a state with its \<open>read\<close> and \<open>write\<close>. \<open>None\<close> is a loop
  that does not end, as in the buffer.
\<close>

section \<open>Header\<close>

type_synonym str = "byte list"

definition ascii :: "string \<Rightarrow> str" where
  "ascii s = map of_char s"

datatype http_type = HTTP_REQUEST | HTTP_RESPONSE

definition HTTP_VERSION_STR :: "str list" where
  "HTTP_VERSION_STR = [ascii ''HTTP/0.9'', ascii ''HTTP/1.0'', ascii ''HTTP/1.1'']"

definition HTTP_10 :: nat where "HTTP_10 = 1"
definition HTTP_11 :: nat where "HTTP_11 = 2"

record http_header =
  version :: nat
  hmethod :: int
  status_code :: int
  uri :: str
  status_desc :: str
  hbuffer :: buffer
  htype :: http_type
  kHeaderLimitSize :: nat
  fHeaders :: "(str \<times> str) list"

text \<open>The constructor leaves \<open>method\<close> and \<open>status_code\<close> uninitialised; here they start as zero and are not read before they
  are set.\<close>

definition HttpHeader :: "http_type \<Rightarrow> nat \<Rightarrow> http_header" where
  "HttpHeader t limit_size =
     \<lparr>version = HTTP_11, hmethod = 0, status_code = 0, uri = [], status_desc = [], hbuffer = Buffer limit_size, htype = t,
      kHeaderLimitSize = limit_size, fHeaders = []\<rparr>"

definition header_length :: "http_header \<Rightarrow> nat" where
  "header_length h = blength (hbuffer h)"

definition header_read :: "nat \<Rightarrow> http_header \<Rightarrow> (byte list \<times> http_header) res" where
  "header_read n h = rbind (buf_read n (hbuffer h)) (\<lambda>(out, b). Inr (out, h\<lparr>hbuffer := b\<rparr>))"

definition header_write :: "byte list \<Rightarrow> http_header \<Rightarrow> http_header res option" where
  "header_write bs h = map_option (\<lambda>r. rbind r (\<lambda>b. Inr (h\<lparr>hbuffer := b\<rparr>))) (buf_write bs (hbuffer h))"

text \<open>The peer reads straight into the space behind the write index, then \<open>fill\<close> moves the index.\<close>

definition recv_into :: "byte list \<Rightarrow> buffer \<Rightarrow> buffer res" where
  "recv_into out b = rbind (copy_in out b) (\<lambda>b'. Inr (fill None (length out) (b'\<lparr>fWriteIdx := fWriteIdx b\<rparr>)))"

definition header_recvFrom :: "('r \<Rightarrow> nat \<Rightarrow> int \<times> byte list \<times> 'r) \<Rightarrow> http_header \<Rightarrow> 'r \<Rightarrow> (int \<times> http_header \<times> 'r) res" where
  "header_recvFrom rd h r =
     (let (res, out, r) = rd r (right (hbuffer h))
      in if res > 0 then rbind (recv_into out (hbuffer h)) (\<lambda>b. Inr (res, h\<lparr>hbuffer := b\<rparr>, r)) else Inr (res, h, r))"

fun map_put :: "str \<Rightarrow> str \<Rightarrow> (str \<times> str) list \<Rightarrow> (str \<times> str) list" where
  "map_put k v [] = [(k, v)]"
| "map_put k v ((k', v') # m) =
     (if k = k' then (k, v) # m else if k < k' then (k, v) # (k', v') # m else (k', v') # map_put k v m)"

definition getHeader :: "str \<Rightarrow> http_header \<Rightarrow> str option" where
  "getHeader k h = map_of (fHeaders h) k"

definition setHeader :: "str \<Rightarrow> str \<Rightarrow> http_header \<Rightarrow> http_header" where
  "setHeader k v h = (if k = [] \<or> v = [] then h else h\<lparr>fHeaders := map_put k v (fHeaders h)\<rparr>)"

text \<open>\<open>std::to_string\<close>.\<close>

fun digits :: "nat \<Rightarrow> string" where
  "digits n = (if n < 10 then [char_of (48 + n)] else digits (n div 10) @ [char_of (48 + n mod 10)])"

declare digits.simps [simp del]

definition int_string :: "int \<Rightarrow> str" where
  "int_string i = ascii (if i < 0 then CHR ''-'' # digits (nat (- i)) else digits (nat i))"

text \<open>A sequence of writes to the buffer.\<close>

fun write_all :: "byte list list \<Rightarrow> buffer \<Rightarrow> buffer res option" where
  "write_all [] b = Some (Inr b)"
| "write_all (x # xs) b =
     (case buf_write x b of None \<Rightarrow> None | Some (Inl f) \<Rightarrow> Some (Inl f) | Some (Inr b) \<Rightarrow> write_all xs b)"

definition CR :: byte where "CR = 13"
definition LF :: byte where "LF = 10"
definition SP :: byte where "SP = 32"
definition COLON :: byte where "COLON = 58"

definition start_line :: "(int \<Rightarrow> str) \<Rightarrow> http_header \<Rightarrow> byte list list" where
  "start_line method_str h =
     (let v = HTTP_VERSION_STR ! version h
      in case htype h of
           HTTP_REQUEST \<Rightarrow> [method_str (hmethod h), [SP], uri h, [SP], v, [CR], [LF]]
         | HTTP_RESPONSE \<Rightarrow> [v, [SP], int_string (status_code h), [SP], status_desc h, [CR], [LF]])"

fun header_lines :: "(str \<times> str) list \<Rightarrow> byte list list" where
  "header_lines [] = []"
| "header_lines ((k, v) # m) = [k, [COLON], [SP], v, [CR], [LF]] @ header_lines m"

definition dumpToBuffer :: "(int \<Rightarrow> str) \<Rightarrow> (int \<Rightarrow> str) \<Rightarrow> http_header \<Rightarrow> (bool \<times> http_header) res option" where
  "dumpToBuffer method_str status_str h =
     (if version h \<ge> length HTTP_VERSION_STR then Some (Inl BadIndex)
      else let h = (if htype h = HTTP_RESPONSE \<and> status_desc h = [] then h\<lparr>status_desc := status_str (status_code h)\<rparr> else h)
           in map_option (\<lambda>r. rbind r (\<lambda>b. Inr (\<not> blength b > kHeaderLimitSize h, h\<lparr>hbuffer := b\<rparr>)))
                (write_all (start_line method_str h @ header_lines (fHeaders h) @ [[CR], [LF]]) (clear (hbuffer h))))"

definition header_sendTo ::
  "(int \<Rightarrow> str) \<Rightarrow> (int \<Rightarrow> str) \<Rightarrow> ('w \<Rightarrow> byte list \<Rightarrow> int \<times> 'w) \<Rightarrow> http_header \<Rightarrow> 'w \<Rightarrow> (int \<times> http_header \<times> 'w) res option" where
  "header_sendTo method_str status_str wr h w =
     (case dumpToBuffer method_str status_str h of
        None \<Rightarrow> None
      | Some (Inl f) \<Rightarrow> Some (Inl f)
      | Some (Inr (_, h)) \<Rightarrow> map_option (\<lambda>(r, w). Inr (r, h, w)) (sendTo wr (hbuffer h) w))"

definition exceedLimit :: "http_header \<Rightarrow> bool" where
  "exceedLimit h \<longleftrightarrow> blength (hbuffer h) > kHeaderLimitSize h"

definition header_reset :: "http_header \<Rightarrow> http_header" where
  "header_reset h = h\<lparr>hbuffer := clear (hbuffer h), fHeaders := []\<rparr>"

section \<open>Body\<close>

datatype httpbody_mode = HTTPBODY_TEMP | HTTPBODY_DISK

record http_body =
  bData :: tempfile
  pFile :: "file_t option"
  bMode :: httpbody_mode

definition HttpBody :: "'k posix \<Rightarrow> string \<Rightarrow> nat \<Rightarrow> 'k \<Rightarrow> http_body \<times> 'k" where
  "HttpBody K uuid memory_limit s =
     (let (t, s) = TempFile K uuid memory_limit s in (\<lparr>bData = t, pFile = None, bMode = HTTPBODY_TEMP\<rparr>, s))"

definition disk_file :: "http_body \<Rightarrow> file_t res" where
  "disk_file b = (case pFile b of None \<Rightarrow> Inl NullDeref | Some f \<Rightarrow> Inr f)"

definition body_length :: "'k posix \<Rightarrow> http_body \<Rightarrow> 'k \<Rightarrow> (nat \<times> 'k) res" where
  "body_length K b s =
     (case bMode b of
        HTTPBODY_DISK \<Rightarrow> rbind (disk_file b) (\<lambda>f. Inr (flength K f s))
      | HTTPBODY_TEMP \<Rightarrow> Inr (temp_length K (bData b) s))"

definition body_read :: "'k posix \<Rightarrow> nat \<Rightarrow> http_body \<Rightarrow> 'k \<Rightarrow> (int \<times> byte list \<times> http_body \<times> 'k) res" where
  "body_read K n b s =
     (case bMode b of
        HTTPBODY_DISK \<Rightarrow> rbind (disk_file b) (\<lambda>f. let (r, out, f, s) = file_read K n f s in Inr (r, out, b\<lparr>pFile := Some f\<rparr>, s))
      | HTTPBODY_TEMP \<Rightarrow> rbind (temp_read K n (bData b) s) (\<lambda>(r, out, t, s). Inr (r, out, b\<lparr>bData := t\<rparr>, s)))"

definition body_write :: "'k posix \<Rightarrow> byte list \<Rightarrow> http_body \<Rightarrow> 'k \<Rightarrow> (int \<times> http_body \<times> 'k) res option" where
  "body_write K bs b s =
     (case bMode b of
        HTTPBODY_DISK \<Rightarrow> Some (rbind (disk_file b) (\<lambda>f. let (r, f, s) = file_write K bs f s in Inr (r, b\<lparr>pFile := Some f\<rparr>, s)))
      | HTTPBODY_TEMP \<Rightarrow> map_option (\<lambda>r. rbind r (\<lambda>(r, t, s). Inr (r, b\<lparr>bData := t\<rparr>, s))) (temp_write K bs (bData b) s))"

definition body_sendTo ::
  "'k posix \<Rightarrow> ('w \<Rightarrow> byte list \<Rightarrow> int \<times> 'w) \<Rightarrow> http_body \<Rightarrow> 'k \<Rightarrow> 'w \<Rightarrow> (int \<times> http_body \<times> 'k \<times> 'w) res option" where
  "body_sendTo K wr b s w =
     (case body_length K b s of
        Inl e \<Rightarrow> Some (Inl e)
      | Inr (n, s) \<Rightarrow>
          if n = 0 then Some (Inr (0, b, s, w))
          else case (case bMode b of
                       HTTPBODY_DISK \<Rightarrow>
                         (case disk_file b of
                            Inl e \<Rightarrow> Some (Inl e)
                          | Inr f \<Rightarrow> map_option (\<lambda>(r, f, s, w). Inr (r, b\<lparr>pFile := Some f\<rparr>, s, w)) (file_sendTo K wr f s w))
                     | HTTPBODY_TEMP \<Rightarrow> map_option (\<lambda>(r, t, s, w). Inr (r, b\<lparr>bData := t\<rparr>, s, w)) (temp_sendTo K wr (bData b) s w)) of
                 None \<Rightarrow> None
               | Some (Inl e) \<Rightarrow> Some (Inl e)
               | Some (Inr (ret, b, s, w)) \<Rightarrow>
                   if ret < 0 then Some (Inr (ret, b, s, w))
                   else let (r, w) = wr w [CR, LF] in Some (Inr (if r < 0 then -1 else ret, b, s, w)))"

text \<open>\<open>dumpAsFile\<close> copies the body to a file in blocks of 64 KiB; a write that accepts nothing ends the inner loop silently.\<close>

partial_function (option) file_push :: "'k posix \<Rightarrow> byte list \<Rightarrow> file_t \<Rightarrow> 'k \<Rightarrow> (bool \<times> file_t \<times> 'k) option" where
  "file_push K p f s =
     (if p = [] then Some (True, f, s)
      else let (cnt, f, s) = file_write K p f s
           in if cnt > 0 then file_push K (drop (nat cnt) p) f s else Some (\<not> cnt < 0, f, s))"

partial_function (option) dump_as_loop :: "'k posix \<Rightarrow> http_body \<Rightarrow> file_t \<Rightarrow> 'k \<Rightarrow> (bool \<times> http_body \<times> file_t \<times> 'k) res option" where
  "dump_as_loop K b f s =
     (case body_read K 65536 b s of
        Inl e \<Rightarrow> Some (Inl e)
      | Inr (n, out, b, s) \<Rightarrow>
          let ret = int32 n in
          if ret > 0
          then case file_push K out f s of
                 None \<Rightarrow> None
               | Some (ok, f, s) \<Rightarrow> if ok then dump_as_loop K b f s else Some (Inr (False, b, f, s))
          else Some (Inr (\<not> ret < 0, b, f, s)))"

definition dumpAsFile :: "'k posix \<Rightarrow> http_body \<Rightarrow> file_t \<Rightarrow> 'k \<Rightarrow> (int \<times> http_body \<times> file_t \<times> 'k) res option" where
  "dumpAsFile K b f s =
     (case body_length K b s of
        Inl e \<Rightarrow> Some (Inl e)
      | Inr (len, s) \<Rightarrow>
          map_option (\<lambda>r. rbind r (\<lambda>(ok, b, f, s). Inr (if ok then int len else -1, b, f, s))) (dump_as_loop K b f s))"

definition useFile :: "file_t option \<Rightarrow> http_body \<Rightarrow> http_body" where
  "useFile f b = b\<lparr>pFile := f, bMode := HTTPBODY_DISK\<rparr>"

definition useFilename :: "string \<Rightarrow> http_body \<Rightarrow> http_body" where
  "useFilename filename b = b\<lparr>pFile := Some (File filename), bMode := HTTPBODY_DISK\<rparr>"

definition getFile :: "http_body \<Rightarrow> file_t option" where
  "getFile b = (if bMode b = HTTPBODY_DISK then pFile b else None)"

definition body_reset :: "'k posix \<Rightarrow> http_body \<Rightarrow> 'k \<Rightarrow> http_body \<times> 'k" where
  "body_reset K b s = (let (t, s) = temp_clear K (bData b) s in (b\<lparr>pFile := None, bData := t, bMode := HTTPBODY_TEMP\<rparr>, s))"

section \<open>Parser\<close>

record 'p http_parser =
  header :: http_header
  body :: http_body
  bEndOfMessage :: bool
  bHeadRequest :: bool
  bKeepalive :: bool
  bHeadersCompleted :: bool
  bInited :: bool
  fHeaderKey :: str
  fParser :: 'p

text \<open>The callbacks of the library with what they find in its parser: method, status code, major and minor version and the result of
  \<open>http_should_keep_alive\<close>.\<close>

datatype event =
    OnMessageBegin
  | OnMessageComplete
  | OnHeadersComplete int int nat nat bool
  | OnUrl str
  | OnStatus str
  | OnHeaderField str
  | OnHeaderValue str
  | OnBody str

definition on_headers_complete :: "int \<Rightarrow> int \<Rightarrow> nat \<Rightarrow> nat \<Rightarrow> bool \<Rightarrow> 'p http_parser \<Rightarrow> int \<times> 'p http_parser" where
  "on_headers_complete m code major minor keep p =
     (let h = header p;
          h = (if htype h = HTTP_REQUEST then h\<lparr>hmethod := m\<rparr> else h\<lparr>status_code := code\<rparr>);
          h = (if \<not> (major > 0 \<and> minor > 0) then h\<lparr>version := HTTP_10\<rparr> else h);
          p = p\<lparr>header := h, bKeepalive := keep, bHeadersCompleted := True\<rparr>
      in (if htype h = HTTP_RESPONSE \<and> bHeadRequest p then 1 else 0, p))"

fun handle :: "'k posix \<Rightarrow> event \<Rightarrow> 'p http_parser \<Rightarrow> 'k \<Rightarrow> (int \<times> 'p http_parser \<times> 'k) res option" where
  "handle K OnMessageBegin p s = Some (Inr (0, p, s))"
| "handle K OnMessageComplete p s = Some (Inr (0, p\<lparr>bEndOfMessage := True\<rparr>, s))"
| "handle K (OnHeadersComplete m code major minor keep) p s =
     (let (r, p) = on_headers_complete m code major minor keep p in Some (Inr (r, p, s)))"
| "handle K (OnUrl u) p s = Some (Inr (0, p\<lparr>header := (header p)\<lparr>uri := u\<rparr>\<rparr>, s))"
| "handle K (OnStatus d) p s = Some (Inr (0, p\<lparr>header := (header p)\<lparr>status_desc := d\<rparr>\<rparr>, s))"
| "handle K (OnHeaderField k) p s = Some (Inr (0, p\<lparr>fHeaderKey := k\<rparr>, s))"
| "handle K (OnHeaderValue v) p s = Some (Inr (0, p\<lparr>header := setHeader (fHeaderKey p) v (header p)\<rparr>, s))"
| "handle K (OnBody d) p s =
     map_option (\<lambda>r. rbind r (\<lambda>(_, b, s). Inr (0, p\<lparr>body := b\<rparr>, s))) (body_write K d (body p) s)"

definition parser_init :: "(http_type \<Rightarrow> 'p) \<Rightarrow> 'p http_parser \<Rightarrow> 'p http_parser" where
  "parser_init pinit p =
     p\<lparr>fParser := pinit (htype (header p)), bHeadersCompleted := False, bKeepalive := False, bEndOfMessage := False, bInited := True\<rparr>"

type_synonym ('p, 'k) exec =
  "(event \<Rightarrow> 'p http_parser \<Rightarrow> 'k \<Rightarrow> (int \<times> 'p http_parser \<times> 'k) res option) \<Rightarrow> byte list \<Rightarrow> 'p http_parser \<Rightarrow> 'k \<Rightarrow>
     (int \<times> 'p http_parser \<times> 'k) res option"

definition http_parse :: "'k posix \<Rightarrow> (http_type \<Rightarrow> 'p) \<Rightarrow> ('p, 'k) exec \<Rightarrow> byte list \<Rightarrow> 'p http_parser \<Rightarrow> 'k \<Rightarrow> (int \<times> 'p http_parser \<times> 'k) res option" where
  "http_parse K pinit exec buf p s = exec (handle K) buf (if \<not> bInited p then parser_init pinit p else p) s"

definition message_sendTo ::
  "'k posix \<Rightarrow> (int \<Rightarrow> str) \<Rightarrow> (int \<Rightarrow> str) \<Rightarrow> ('w \<Rightarrow> byte list \<Rightarrow> int \<times> 'w) \<Rightarrow> 'p http_parser \<Rightarrow> 'k \<Rightarrow> 'w \<Rightarrow> (int \<times> 'p http_parser \<times> 'k \<times> 'w) res option" where
  "message_sendTo K method_str status_str wr p s w =
     (case header_sendTo method_str status_str wr (header p) w of
        None \<Rightarrow> None
      | Some (Inl e) \<Rightarrow> Some (Inl e)
      | Some (Inr (res, h, w)) \<Rightarrow>
          if res < 0 then Some (Inr (res, p\<lparr>header := h\<rparr>, s, w))
          else map_option (\<lambda>r. rbind r (\<lambda>(ret, b, s, w). Inr (if ret < 0 then ret else res + ret, p\<lparr>header := h, body := b\<rparr>, s, w)))
                 (body_sendTo K wr (body p) s w))"

definition getHost :: "'p http_parser \<Rightarrow> str option" where
  "getHost p = getHeader (ascii ''Host'') (header p)"

definition setHost :: "str option \<Rightarrow> 'p http_parser \<Rightarrow> 'p http_parser" where
  "setHost hostname p =
     (case hostname of None \<Rightarrow> p | Some n \<Rightarrow> p\<lparr>header := setHeader (ascii ''Host'') n (header p)\<rparr>)"

definition setHeadRequest :: "'p http_parser \<Rightarrow> 'p http_parser" where
  "setHeadRequest p = p\<lparr>bHeadRequest := True\<rparr>"

definition parser_reset :: "'k posix \<Rightarrow> 'p http_parser \<Rightarrow> 'k \<Rightarrow> 'p http_parser \<times> 'k" where
  "parser_reset K p s =
     (let (b, s) = body_reset K (body p) s
      in (p\<lparr>bEndOfMessage := False, bHeadersCompleted := False, bHeadRequest := False, bKeepalive := False, bInited := False,
            header := header_reset (header p), body := b, fHeaderKey := []\<rparr>, s))"

section \<open>Connection\<close>

partial_function (option) conn_recv_loop ::
  "'k posix \<Rightarrow> (http_type \<Rightarrow> 'p) \<Rightarrow> ('p, 'k) exec \<Rightarrow> ('r \<Rightarrow> nat \<Rightarrow> int \<times> byte list \<times> 'r) \<Rightarrow> buffer \<Rightarrow> 'p http_parser \<Rightarrow> 'k \<Rightarrow> 'r \<Rightarrow>
     (bool \<times> buffer \<times> 'p http_parser \<times> 'k \<times> 'r) res option" where
  "conn_recv_loop K pinit exec rd b p s r =
     (if bEndOfMessage p then Some (Inr (True, b, p, s, r))
      else let (n, out, r) = rd r (right b)
           in if n \<le> 0 then Some (Inr (False, b, p, s, r))
              else case recv_into out b of
                     Inl e \<Rightarrow> Some (Inl e)
                   | Inr b \<Rightarrow>
                       (case http_parse K pinit exec (bytes b) p s of
                          None \<Rightarrow> None
                        | Some (Inl e) \<Rightarrow> Some (Inl e)
                        | Some (Inr (k, p, s)) \<Rightarrow>
                            if k \<le> 0 then Some (Inr (False, b, p, s, r))
                            else conn_recv_loop K pinit exec rd (snd (shrink (nat k) b)) p s r))"

definition conn_recv ::
  "'k posix \<Rightarrow> (http_type \<Rightarrow> 'p) \<Rightarrow> ('p, 'k) exec \<Rightarrow> ('r \<Rightarrow> nat \<Rightarrow> int \<times> byte list \<times> 'r) \<Rightarrow> buffer \<Rightarrow> 'p http_parser \<Rightarrow> 'k \<Rightarrow> 'r \<Rightarrow>
     (bool \<times> buffer \<times> 'p http_parser \<times> 'k \<times> 'r) res option" where
  "conn_recv K pinit exec rd b p s r = conn_recv_loop K pinit exec rd (clear b) p s r"

section \<open>Header fields\<close>

lemma map_of_put [simp]: "map_of (map_put k v m) = (map_of m)(k \<mapsto> v)"
  by (induction k v m rule: map_put.induct) auto

lemma set_map_put: "fst ` set (map_put k v m) = insert k (fst ` set m)"
  by (induction k v m rule: map_put.induct) auto

lemma map_put_sorted: "sorted_wrt (<) (map fst m) \<Longrightarrow> sorted_wrt (<) (map fst (map_put k v m))"
  by (induction k v m rule: map_put.induct) (auto simp: set_map_put image_iff [symmetric] dest: order.strict_trans)

definition put_all :: "(str \<times> str) list \<Rightarrow> (str \<times> str) list \<Rightarrow> (str \<times> str) list" where
  "put_all hs m = fold (\<lambda>(k, v). map_put k v) hs m"

lemma put_all_simps [simp]: "put_all [] m = m" "put_all ((k, v) # hs) m = put_all hs (map_put k v m)"
  by (simp_all add: put_all_def)

lemma put_all_map: "map_of (put_all hs m) = map_of m ++ map_of (rev hs)"
  by (induction hs arbitrary: m) (auto simp: map_add_def fun_eq_iff split: option.split)

lemma put_all_sorted: "sorted_wrt (<) (map fst m) \<Longrightarrow> sorted_wrt (<) (map fst (put_all hs m))"
  by (induction hs arbitrary: m) (auto simp: map_put_sorted)

definition wire_size :: "(str \<times> str) list \<Rightarrow> nat" where
  "wire_size m = length (concat (header_lines m))"

lemma wire_size_simps [simp]: "wire_size [] = 0" "wire_size ((k, v) # m) = length k + length v + 4 + wire_size m"
  by (simp_all add: wire_size_def)

lemma wire_size_put: "wire_size (map_put k v m) \<le> length k + length v + 4 + wire_size m"
  by (induction k v m rule: map_put.induct) auto

lemma wire_size_put_all: "wire_size (put_all hs m) \<le> wire_size hs + wire_size m"
proof (induction hs arbitrary: m)
  case (Cons kv hs)
  obtain k v where kv: "kv = (k, v)"
    by (cases kv)
  show ?case
    using Cons [of "map_put k v m"] wire_size_put [of k v m] by (simp add: kv)
qed simp

section \<open>Writing the header\<close>

lemma write_all_ok:
  assumes "has_room (length (concat xs)) b"
  shows "\<exists>b'. write_all xs b = Some (Inr b') \<and> buf_inv b' \<and> bytes b' = bytes b @ concat xs"
  using assms
proof (induction xs arbitrary: b)
  case Nil
  then show ?case by (simp add: has_room_def)
next
  case (Cons x xs)
  have "has_room (length x) b"
    using Cons.prems by (simp add: has_room_def)
  then obtain b1 where b1: "buf_write x b = Some (Inr b1)" "buf_inv b1" "bytes b1 = bytes b @ x" "length (fData b1) = length (fData b)"
    using has_room_write by blast
  have "has_room (length (concat xs)) b1"
    using Cons.prems b1 by (simp add: has_room_def)
  then show ?case
    using Cons.IH [of b1] b1 by auto
qed

lemma clear_room:
  assumes "buf_inv b" "96 \<le> length (fData b)" "n + 16 < length (fData b)" "n < limit div 4"
  shows "has_room n (clear b)" "bytes (clear b) = []"
  using assms by (auto simp: has_room_def clear_def bytes_def buf_inv_def kBufferPrefixed_def)

lemma concat_header_lines:
  "concat (header_lines m) = concat (map (\<lambda>(k, v). k @ [COLON, SP] @ v @ [CR, LF]) m)"
  by (induction m rule: header_lines.induct) auto

text \<open>The bytes of a request header.\<close>

definition request_bytes :: "str \<Rightarrow> str \<Rightarrow> str \<Rightarrow> (str \<times> str) list \<Rightarrow> byte list" where
  "request_bytes m u v hs =
     m @ [SP] @ u @ [SP] @ v @ [CR, LF] @ concat (map (\<lambda>(k, v). k @ [COLON, SP] @ v @ [CR, LF]) hs) @ [CR, LF]"

lemma dump_request:
  assumes h: "htype h = HTTP_REQUEST" "version h < 3" and b: "buf_inv (hbuffer h)" "96 \<le> length (fData (hbuffer h))"
    and r: "r = request_bytes (method_str (hmethod h)) (uri h) (HTTP_VERSION_STR ! version h) (fHeaders h)"
    and n: "length r + 16 < length (fData (hbuffer h))" "length r < limit div 4" "length r \<le> kHeaderLimitSize h"
  shows "\<exists>h'. dumpToBuffer method_str status_str h = Some (Inr (True, h')) \<and> bytes (hbuffer h') = r"
proof -
  let ?xs = "start_line method_str h @ header_lines (fHeaders h) @ [[CR], [LF]]"
  have x: "concat ?xs = r"
    by (simp add: r request_bytes_def start_line_def h concat_header_lines)
  have "has_room (length (concat ?xs)) (clear (hbuffer h))"
    unfolding x by (rule clear_room(1) [OF b n(1,2)])
  then obtain b' where b': "write_all ?xs (clear (hbuffer h)) = Some (Inr b')" "buf_inv b'" "bytes b' = r"
    using write_all_ok clear_room(2) [OF b n(1,2)] x by fastforce
  have "blength b' = length r"
    using bytes_length [OF b'(2)] buf_inv_sizes(2) [OF b'(2)] b'(3) by simp
  then show ?thesis
    using b' h n(3) by (simp add: dumpToBuffer_def HTTP_VERSION_STR_def)
qed

section \<open>Callbacks\<close>

text \<open>The library calls the handlers in the order of the events.\<close>

fun deliver :: "'k posix \<Rightarrow> event list \<Rightarrow> 'p http_parser \<Rightarrow> 'k \<Rightarrow> ('p http_parser \<times> 'k) res option" where
  "deliver K [] p s = Some (Inr (p, s))"
| "deliver K (e # es) p s =
     (case handle K e p s of None \<Rightarrow> None | Some (Inl f) \<Rightarrow> Some (Inl f) | Some (Inr (_, p, s)) \<Rightarrow> deliver K es p s)"

fun field_events :: "(str \<times> str) list \<Rightarrow> event list" where
  "field_events [] = []"
| "field_events ((k, v) # hs) = OnHeaderField k # OnHeaderValue v # field_events hs"

lemma deliver_fields:
  assumes "\<forall>(k, v)\<in>set hs. k \<noteq> [] \<and> v \<noteq> []"
  shows "\<exists>key. deliver K (field_events hs @ es) p s =
    deliver K es (p\<lparr>header := (header p)\<lparr>fHeaders := put_all hs (fHeaders (header p))\<rparr>, fHeaderKey := key\<rparr>) s"
  using assms
proof (induction hs arbitrary: p)
  case Nil
  show ?case by (intro exI [of _ "fHeaderKey p"]) simp
next
  case (Cons kv hs)
  obtain k v where kv: "kv = (k, v)" "k \<noteq> []" "v \<noteq> []"
    using Cons.prems by (cases kv) auto
  let ?p = "p\<lparr>fHeaderKey := k, header := (header p)\<lparr>fHeaders := map_put k v (fHeaders (header p))\<rparr>\<rparr>"
  have "deliver K (field_events (kv # hs) @ es) p s = deliver K (field_events hs @ es) ?p s"
    using kv by (simp add: setHeader_def)
  moreover obtain key where "deliver K (field_events hs @ es) ?p s =
      deliver K es (?p\<lparr>header := (header ?p)\<lparr>fHeaders := put_all hs (fHeaders (header ?p))\<rparr>, fHeaderKey := key\<rparr>) s"
    using Cons.IH [of ?p] Cons.prems by auto
  ultimately show ?case
    using kv(1) by (intro exI [of _ key]) simp
qed

text \<open>A body that is not bound to a file of its own is a \<open>Data\<close> object, as the temporary data it keeps.\<close>

definition body_inv :: "'k posix \<Rightarrow> 'k fs_view \<Rightarrow> http_body \<times> 'k \<Rightarrow> bool" where
  "body_inv K V d \<longleftrightarrow> (case d of (b, s) \<Rightarrow> bMode b = HTTPBODY_TEMP \<and> temp_inv K V (bData b) s)"

interpretation body: data_stream "\<lambda>(b, s). pending V (bData b) s" "body_inv K V" "\<lambda>xs (b, s). temp_accepts V xs (bData b, s)"
  "\<lambda>n (b, s). body_read K n b s" "\<lambda>xs (b, s). body_write K xs b s" for K :: "'k posix" and V
proof
  show "\<exists>d'. (case d of (b, s) \<Rightarrow> body_read K n b s) =
      Inr (int (length (take n (case d of (b, s) \<Rightarrow> pending V (bData b) s))), take n (case d of (b, s) \<Rightarrow> pending V (bData b) s), d') \<and>
      body_inv K V d' \<and> (case d' of (b, s) \<Rightarrow> pending V (bData b) s) = drop n (case d of (b, s) \<Rightarrow> pending V (bData b) s)"
    if "body_inv K V d" for d n
    using temp_read_pending [of K V "bData (fst d)" "snd d" n] that by (cases d) (auto simp: body_inv_def body_read_def)
  show "\<exists>d'. (case d of (b, s) \<Rightarrow> body_write K xs b s) = Some (Inr (int (length xs), d')) \<and> body_inv K V d' \<and>
      (case d' of (b, s) \<Rightarrow> pending V (bData b) s) = (case d of (b, s) \<Rightarrow> pending V (bData b) s) @ xs"
    if "body_inv K V d" "case d of (b, s) \<Rightarrow> temp_accepts V xs (bData b, s)" for d xs
    using temp_write_pending [of K V "bData (fst d)" "snd d" xs] that
    by (cases d) (auto simp: body_inv_def body_write_def temp_accepts_def)
qed

lemma body_collects:
  assumes "bMode (body p) = HTTPBODY_TEMP" "temp_inv K V (bData (body p)) s" "temp_accepts V d (bData (body p), s)"
  shows "\<exists>p' s'. handle K (OnBody d) p s = Some (Inr (0, p', s')) \<and> header p' = header p \<and>
    pending V (bData (body p')) s' = pending V (bData (body p)) s @ d"
  using body.write_appends [of K V "(body p, s)" d] assms by (auto simp: body_inv_def)

section \<open>Properties\<close>

text \<open>C23: \<^bold>\<open>A parsed request is written again with its header fields sorted and repeated names merged.\<close> When the library reports
  the target, the header fields \<open>hs\<close> (with non-empty names and values), and the end of the header of an HTTP/1.1 request to a fresh
  parser whose buffer has room for it, the parser holds each name once, with the last value reported for it, in increasing order of the names
  (the \<open>std::map\<close> of the code; earlier values of a repeated name are gone and the order of arrival is not kept), and \<open>dumpToBuffer\<close>
  stays inside the buffer and produces exactly the request line with the reported target, one line for each name in that order and
  the empty line.\<close>

theorem http_request_forwarded:
  assumes h: "htype (header p) = HTTP_REQUEST" "version (header p) = HTTP_11" "fHeaders (header p) = []"
    and b: "buf_inv (hbuffer (header p))" "96 \<le> length (fData (hbuffer (header p)))" "length (fData (hbuffer (header p))) < limit div 4"
    and hs: "\<forall>(k, v)\<in>set hs. k \<noteq> [] \<and> v \<noteq> []"
    and n: "length (request_bytes (method_str m) u (ascii ''HTTP/1.1'') hs) + 16 < length (fData (hbuffer (header p)))"
      "length (fData (hbuffer (header p))) \<le> kHeaderLimitSize (header p)"
  shows "\<exists>p' h'. deliver K (OnMessageBegin # OnUrl u # field_events hs @ [OnHeadersComplete m code 1 1 keep]) p s = Some (Inr (p', s)) \<and>
    (\<forall>k. getHeader k (header p') = map_of (rev hs) k) \<and> sorted_wrt (<) (map fst (fHeaders (header p'))) \<and>
    dumpToBuffer method_str status_str (header p') = Some (Inr (True, h')) \<and>
    bytes (hbuffer h') = request_bytes (method_str m) u (ascii ''HTTP/1.1'') (fHeaders (header p'))"
proof -
  define H where "H = (header p)\<lparr>uri := u, fHeaders := put_all hs [], hmethod := m\<rparr>"
  let ?p = "p\<lparr>header := (header p)\<lparr>uri := u\<rparr>\<rparr>" and ?es = "[OnHeadersComplete m code 1 1 keep]"
  obtain key where key: "deliver K (field_events hs @ ?es) ?p s =
      deliver K ?es (?p\<lparr>header := (header ?p)\<lparr>fHeaders := put_all hs (fHeaders (header ?p))\<rparr>, fHeaderKey := key\<rparr>) s"
    using deliver_fields [OF hs, of K ?es ?p s] by blast
  obtain p' where p': "deliver K (OnMessageBegin # OnUrl u # field_events hs @ ?es) p s = Some (Inr (p', s))" "header p' = H"
    using key h by (simp add: on_headers_complete_def Let_def H_def)
  define r where "r = request_bytes (method_str (hmethod H)) (uri H) (HTTP_VERSION_STR ! version H) (fHeaders H)"
  have v: "HTTP_VERSION_STR ! version H = ascii ''HTTP/1.1''"
    by (simp add: H_def h HTTP_11_def HTTP_VERSION_STR_def)
  have len: "length (request_bytes x u y m') = length x + length u + length y + 6 + wire_size m'" for x y m'
    by (simp add: request_bytes_def wire_size_def concat_header_lines)
  have "length r \<le> length (request_bytes (method_str m) u (ascii ''HTTP/1.1'') hs)"
    unfolding r_def v using wire_size_put_all [of hs "[]"] by (simp add: H_def len)
  then have "\<exists>h'. dumpToBuffer method_str status_str H = Some (Inr (True, h')) \<and> bytes (hbuffer h') = r"
    using h b n by (intro dump_request [where h = H and r = r and method_str = method_str]) (rule r_def | simp add: H_def HTTP_11_def)+
  moreover have "r = request_bytes (method_str m) u (ascii ''HTTP/1.1'') (fHeaders H)"
    unfolding r_def v by (simp add: H_def)
  moreover have "getHeader k H = map_of (rev hs) k" for k
    by (simp add: getHeader_def H_def put_all_map)
  moreover have "sorted_wrt (<) (map fst (fHeaders H))"
    by (simp add: H_def put_all_sorted)
  ultimately show ?thesis
    using p' by auto
qed

text \<open>A parser for requests with a header limit of 1024 bytes, on the empty file system.\<close>

definition parser0 :: "unit http_parser" where
  "parser0 = \<lparr>header = HttpHeader HTTP_REQUEST 1024, body = fst (HttpBody os_kernel ''b'' 4 empty_os), bEndOfMessage = False, bHeadRequest = False,
     bKeepalive = False, bHeadersCompleted = False, bInited = True, fHeaderKey = [], fParser = ()\<rparr>"

lemma parser0_fields:
  "htype (header parser0) = HTTP_REQUEST" "version (header parser0) = HTTP_11" "fHeaders (header parser0) = []"
  "hbuffer (header parser0) = Buffer 1024" "kHeaderLimitSize (header parser0) = 1024"
  by (simp_all add: parser0_def HttpHeader_def)

theorem http_request_forwarded_witness:
  "\<exists>p' h'. deliver os_kernel [OnMessageBegin, OnUrl (ascii ''/''), OnHeaderField (ascii ''Host''), OnHeaderValue (ascii ''a''), OnHeadersComplete 1 0 1 1 True] parser0 empty_os
      = Some (Inr (p', empty_os)) \<and>
    dumpToBuffer (\<lambda>_. ascii ''GET'') (\<lambda>_. []) (header p') = Some (Inr (True, h')) \<and> getHeader (ascii ''Host'') (header p') = Some (ascii ''a'')"
proof -
  have n: "length (request_bytes (ascii ''GET'') (ascii ''/'') (ascii ''HTTP/1.1'') [(ascii ''Host'', ascii ''a'')]) + 16 < 1024"
    "(1024 :: nat) < limit div 4" "\<forall>(k, v)\<in>set [(ascii ''Host'', ascii ''a'')]. k \<noteq> [] \<and> v \<noteq> []"
    by (simp_all add: request_bytes_def ascii_def limit_def)
  show ?thesis
    using http_request_forwarded [where K = os_kernel and p = parser0 and hs = "[(ascii ''Host'', ascii ''a'')]" and m = 1 and u = "ascii ''/''" and
        method_str = "\<lambda>_. ascii ''GET''" and status_str = "\<lambda>_. []" and s = empty_os and code = 0 and keep = True] n
    by (auto simp: parser0_fields Buffer_1024)
qed

text \<open>\<^bold>\<open>A value that arrives in pieces is cut.\<close> The library may report a header value in several pieces, when it is split
  over two reads. The parser then keeps only the last non-empty piece: after the pieces \<open>vs\<close> and a non-empty last piece \<open>v\<close> of the field
  \<open>k\<close>, the value of \<open>k\<close> is \<open>v\<close> instead of the whole, and all other fields are as before.\<close>

theorem http_value_pieces_lost:
  assumes "k \<noteq> []" "v \<noteq> []"
  shows "\<exists>p'. deliver K (OnHeaderField k # map OnHeaderValue vs @ [OnHeaderValue v]) p s = Some (Inr (p', s)) \<and>
    getHeader k (header p') = Some v \<and> (\<forall>k'. k' \<noteq> k \<longrightarrow> getHeader k' (header p') = getHeader k' (header p))"
proof -
  have "\<exists>p'. deliver K (map OnHeaderValue vs @ [OnHeaderValue v]) q s = Some (Inr (p', s)) \<and>
      getHeader k (header p') = Some v \<and> (\<forall>k'. k' \<noteq> k \<longrightarrow> getHeader k' (header p') = getHeader k' (header q))"
    if "fHeaderKey q = k" for q :: "'a http_parser"
    using that
  proof (induction vs arbitrary: q)
    case Nil
    then show ?case using assms by (simp add: setHeader_def getHeader_def)
  next
    case (Cons w vs)
    then show ?case
      using Cons.IH [of "q\<lparr>header := setHeader k w (header q)\<rparr>"] by (auto simp: setHeader_def getHeader_def)
  qed
  from this [of "p\<lparr>fHeaderKey := k\<rparr>"] show ?thesis
    by simp
qed

theorem http_value_pieces_lost_witness:
  "\<exists>p'. deliver os_kernel [OnHeaderField (ascii ''Host''), OnHeaderValue (ascii ''exam''), OnHeaderValue (ascii ''ple'')] parser0 empty_os = Some (Inr (p', empty_os)) \<and>
    getHeader (ascii ''Host'') (header p') = Some (ascii ''ple'')"
  using http_value_pieces_lost [where K = os_kernel, of "ascii ''Host''" "ascii ''ple''" "[ascii ''exam'']" parser0 empty_os] by (auto simp: ascii_def)

end
