(* ===== verification/CaskSem.thy ===== *)
theory CaskSem
  imports CaskAtomic
begin

text \<open>
  The coroutine semaphore of \<open>co_sem.c\<close>: an atomic counter, a wait list and a spin lock around the list. A task runs from one
  atomic operation or critical section to the next. A critical section reads the counter once and then works on the list, which
  no other task can touch, so it is one step; \<open>co_sem_try_wait\<close> changes the counter once more before it unlocks, so there the
  lock is kept over two steps (\<open>held\<close>). \<open>co_resume\<close> lets a parked task go on with the loop of \<open>co_sem_wait\<close>. The wait list is
  the sequence of tasks on the ring. \<open>passed\<close>, \<open>posted\<close> and \<open>parks\<close> count the successful waits, the posts and the times a
  task was parked; no step depends on them.
\<close>

section \<open>Model\<close>

datatype spc =
    SIdle
  | WDec | WCrit | Parked          \<comment> \<open>\<open>co_sem_wait\<close>\<close>
  | TDec | TCrit | TUndo           \<comment> \<open>\<open>co_sem_try_wait\<close>\<close>
  | PInc | PCrit | PResume nat     \<comment> \<open>\<open>co_sem_post\<close>\<close>

record co_sem =
  sem :: atomic_t
  wait_list :: "nat list"
  held :: bool
  pcs :: "nat \<Rightarrow> spc"
  passed :: nat
  posted :: nat
  parks :: nat

definition co_sem_init :: "cint \<Rightarrow> co_sem" where
  "co_sem_init n = \<lparr>sem = \<lparr>v = n\<rparr>, wait_list = [], held = False, pcs = (\<lambda>_. SIdle), passed = 0, posted = 0, parks = 0\<rparr>"

definition at :: "nat \<Rightarrow> spc \<Rightarrow> co_sem \<Rightarrow> co_sem" where
  "at t pc s = s\<lparr>pcs := (pcs s)(t := pc)\<rparr>"

definition acquired :: "nat \<Rightarrow> co_sem \<Rightarrow> co_sem" where
  "acquired t s = at t SIdle (s\<lparr>passed := passed s + 1\<rparr>)"

fun co_sem_wait :: "nat \<Rightarrow> spc \<Rightarrow> co_sem \<Rightarrow> co_sem" where
  "co_sem_wait t WDec s =
     (let (neg, m) = atomic_dec_and_negative (sem s); s = s\<lparr>sem := m\<rparr> in if neg then at t WCrit s else acquired t s)"
| "co_sem_wait t WCrit s =
     (if held s then s
      else if 0 \<le>s atomic_get (sem s) then acquired t s
      else at t Parked (s\<lparr>wait_list := wait_list s @ [t], parks := parks s + 1\<rparr>))"
| "co_sem_wait t pc s = s"

fun co_sem_try_wait :: "nat \<Rightarrow> spc \<Rightarrow> co_sem \<Rightarrow> co_sem" where
  "co_sem_try_wait t TDec s =
     (let (neg, m) = atomic_dec_and_negative (sem s); s = s\<lparr>sem := m\<rparr> in if neg then at t TCrit s else acquired t s)"
| "co_sem_try_wait t TCrit s =
     (if held s then s
      else if 0 \<le>s atomic_get (sem s) then acquired t s
      else at t TUndo (s\<lparr>held := True\<rparr>))"
| "co_sem_try_wait t TUndo s = at t SIdle (s\<lparr>sem := atomic_inc (sem s), held := False\<rparr>)"
| "co_sem_try_wait t pc s = s"

definition sem_resume :: "nat \<Rightarrow> co_sem \<Rightarrow> co_sem" where
  "sem_resume t s = (if pcs s t = Parked then at t WDec s else s)"

fun co_sem_post :: "nat \<Rightarrow> spc \<Rightarrow> co_sem \<Rightarrow> co_sem" where
  "co_sem_post t PInc s =
     (let (neg, m) = atomic_inc_and_negative (sem s); s = s\<lparr>sem := m, posted := posted s + 1\<rparr>
      in at t (if neg then PCrit else SIdle) s)"
| "co_sem_post t PCrit s =
     (if held s then s
      else if 0 \<le>s atomic_get (sem s) then at t SIdle s
      else case wait_list s of [] \<Rightarrow> at t SIdle s | w # ws \<Rightarrow> at t (PResume w) (s\<lparr>wait_list := ws\<rparr>))"
| "co_sem_post t (PResume w) s = sem_resume w (at t SIdle s)"
| "co_sem_post t pc s = s"

text \<open>An idle task may call one of the operations; a task inside an operation makes its next step.\<close>

datatype act = Wait | TryWait | Post | Go

definition sem_step :: "nat \<times> act \<Rightarrow> co_sem \<Rightarrow> co_sem" where
  "sem_step ta s =
     (case ta of (t, a) \<Rightarrow>
        if pcs s t = SIdle
        then case a of Wait \<Rightarrow> at t WDec s | TryWait \<Rightarrow> at t TDec s | Post \<Rightarrow> at t PInc s | Go \<Rightarrow> s
        else co_sem_post t (pcs s t) (co_sem_try_wait t (pcs s t) (co_sem_wait t (pcs s t) s)))"

definition sem_run :: "(nat \<times> act) list \<Rightarrow> co_sem \<Rightarrow> co_sem" where
  "sem_run sched s = fold sem_step sched s"

section \<open>The value of the counter\<close>

definition pending :: "spc \<Rightarrow> bool" where
  "pending pc \<longleftrightarrow> pc = WCrit \<or> pc = TCrit \<or> pc = TUndo"

definition waiting :: "co_sem \<Rightarrow> nat set" where
  "waiting s = {t. pending (pcs s t)}"

text \<open>The counter is the initial value plus the posts minus all decrements that were not taken back: those of the tasks that passed, of
  the tasks in between, and one for each time a task was parked.\<close>

definition sem_value :: "int \<Rightarrow> co_sem \<Rightarrow> int" where
  "sem_value n s = n + int (posted s) - int (passed s) - int (parks s) - int (card (waiting s))"

definition sem_inv :: "int \<Rightarrow> nat \<Rightarrow> co_sem \<Rightarrow> bool" where
  "sem_inv n k s \<longleftrightarrow> finite (waiting s) \<and> v (sem s) = word_of_int (sem_value n s) \<and>
     posted s \<le> k \<and> passed s + parks s + card (waiting s) \<le> k \<and> int (passed s) \<le> n + int (posted s)"

lemma waiting_at: "waiting (at t pc s) = (if pending pc then insert t (waiting s) else waiting s - {t})"
  by (auto simp: waiting_def at_def)

lemma at_fields [simp]:
  "sem (at t pc s) = sem s" "wait_list (at t pc s) = wait_list s" "held (at t pc s) = held s" "passed (at t pc s) = passed s"
  "posted (at t pc s) = posted s" "parks (at t pc s) = parks s" "pcs (at t pc s) = (pcs s)(t := pc)"
  by (simp_all add: at_def)

lemma waiting_update [simp]:
  "waiting (s\<lparr>sem := x\<rparr>) = waiting s" "waiting (s\<lparr>passed := a\<rparr>) = waiting s" "waiting (s\<lparr>posted := b\<rparr>) = waiting s"
  "waiting (s\<lparr>parks := c\<rparr>) = waiting s" "waiting (s\<lparr>wait_list := l\<rparr>) = waiting s" "waiting (s\<lparr>held := h\<rparr>) = waiting s"
  by (simp_all add: waiting_def)

lemma sem_init_inv: "0 \<le> n \<Longrightarrow> sem_inv n 0 (co_sem_init (word_of_int n))"
  by (simp add: sem_inv_def sem_value_def co_sem_init_def waiting_def pending_def)

text \<open>With fewer than \<open>2^31\<close> steps the counter does not wrap.\<close>

lemma sem_inv_range:
  assumes "sem_inv n k s" "0 \<le> n" "n + int k + 1 < 2 ^ 31"
  shows "- (2 ^ 31) < sem_value n s" "sem_value n s + 1 < 2 ^ 31"
  using assms by (auto simp: sem_inv_def sem_value_def)

lemma sem_inv_dec:
  assumes "sem_inv n k s" "0 \<le> n" "n + int k + 1 < 2 ^ 31"
  shows "atomic_dec_and_negative (sem s) = (sem_value n s - 1 < 0, \<lparr>v = word_of_int (sem_value n s - 1)\<rparr>)"
proof -
  have "v (sem s) - 1 = word_of_int (sem_value n s - 1)"
    using assms(1) by (simp add: sem_inv_def)
  then show ?thesis
    using word_of_int_sless(1) [of "sem_value n s - 1"] sem_inv_range [OF assms] by (simp add: atomic_dec_and_negative_def)
qed

lemma sem_inv_inc:
  assumes "sem_inv n k s" "0 \<le> n" "n + int k + 1 < 2 ^ 31"
  shows "atomic_inc_and_negative (sem s) = (sem_value n s + 1 < 0, \<lparr>v = word_of_int (sem_value n s + 1)\<rparr>)"
    "atomic_inc (sem s) = \<lparr>v = word_of_int (sem_value n s + 1)\<rparr>"
proof -
  have "v (sem s) + 1 = word_of_int (sem_value n s + 1)"
    using assms(1) by (simp add: sem_inv_def)
  then show "atomic_inc_and_negative (sem s) = (sem_value n s + 1 < 0, \<lparr>v = word_of_int (sem_value n s + 1)\<rparr>)"
    "atomic_inc (sem s) = \<lparr>v = word_of_int (sem_value n s + 1)\<rparr>"
    using word_of_int_sless(1) [of "sem_value n s + 1"] sem_inv_range [OF assms]
    by (simp_all add: atomic_inc_and_negative_def atomic_inc_def)
qed

lemma sem_inv_get:
  assumes "sem_inv n k s" "0 \<le> n" "n + int k + 1 < 2 ^ 31"
  shows "(0 \<le>s atomic_get (sem s)) = (0 \<le> sem_value n s)"
  using word_of_int_sless(2) [of "sem_value n s"] sem_inv_range [OF assms] assms(1) by (simp add: atomic_get_def sem_inv_def)

section \<open>Every step keeps the invariant\<close>

lemma sem_inv_Suc: "sem_inv n k s \<Longrightarrow> sem_inv n (Suc k) s"
  by (auto simp: sem_inv_def)

text \<open>Steps that leave the counter and the counts alone.\<close>

lemma sem_inv_move:
  assumes "sem_inv n k s" "waiting s' = waiting s" "sem s' = sem s" "passed s' = passed s" "posted s' = posted s" "parks s' = parks s"
  shows "sem_inv n (Suc k) s'"
  using assms by (auto simp: sem_inv_def sem_value_def)

lemma sem_inv_enter:
  assumes "sem_inv n k s" "0 \<le> n" "n + int k + 1 < 2 ^ 31" "t \<notin> waiting s" "pending pc"
    and "atomic_dec_and_negative (sem s) = (neg, m)"
  shows "sem_inv n (Suc k) (let s = s\<lparr>sem := m\<rparr> in if neg then at t pc s else acquired t s)"
proof -
  have d: "neg = (sem_value n s - 1 < 0)" "m = \<lparr>v = word_of_int (sem_value n s - 1)\<rparr>"
    using sem_inv_dec [OF assms(1-3)] assms(6) by simp_all
  have f: "finite (waiting s)" "posted s \<le> k" "passed s + parks s + card (waiting s) \<le> k" "int (passed s) \<le> n + int (posted s)"
    using assms(1) by (simp_all add: sem_inv_def)
  show ?thesis
  proof (cases neg)
    case True
    have "sem_value n (at t pc (s\<lparr>sem := m\<rparr>)) = sem_value n s - 1"
      using assms(4,5) f(1) by (simp add: sem_value_def waiting_at)
    then show ?thesis
      using True f assms(4,5) by (simp add: sem_inv_def waiting_at d(2))
  next
    case False
    have w: "waiting (acquired t (s\<lparr>sem := m\<rparr>)) = waiting s"
      using assms(4) by (simp add: acquired_def waiting_at pending_def)
    have x: "sem_value n (acquired t (s\<lparr>sem := m\<rparr>)) = sem_value n s - 1"
      unfolding sem_value_def w by (simp add: acquired_def)
    have "int (passed s) + 1 \<le> n + int (posted s)"
      using False d(1) by (simp add: sem_value_def)
    then have "sem_inv n (Suc k) (acquired t (s\<lparr>sem := m\<rparr>))"
      using f unfolding sem_inv_def w x by (simp add: acquired_def d(2))
    then show ?thesis
      using False by simp
  qed
qed

lemma sem_inv_leave:
  assumes "sem_inv n k s" "t \<in> waiting s"
  shows "0 \<le> sem_value n s \<Longrightarrow> sem_inv n (Suc k) (acquired t s)"
    "sem_inv n (Suc k) (at t Parked (s\<lparr>wait_list := ws, parks := parks s + 1\<rparr>))"
    "sem_inv n (Suc k) (at t SIdle (s\<lparr>sem := \<lparr>v = word_of_int (sem_value n s + 1)\<rparr>, held := h\<rparr>))"
proof -
  have c: "finite (waiting s)" "card (waiting s) = Suc (card (waiting s - {t}))"
    using assms card.remove [of "waiting s" t] by (auto simp: sem_inv_def)
  show "0 \<le> sem_value n s \<Longrightarrow> sem_inv n (Suc k) (acquired t s)"
    using assms(1) c by (auto simp: sem_inv_def sem_value_def acquired_def waiting_at pending_def)
  show "sem_inv n (Suc k) (at t Parked (s\<lparr>wait_list := ws, parks := parks s + 1\<rparr>))"
    using assms(1) c by (auto simp: sem_inv_def sem_value_def waiting_at pending_def)
  show "sem_inv n (Suc k) (at t SIdle (s\<lparr>sem := \<lparr>v = word_of_int (sem_value n s + 1)\<rparr>, held := h\<rparr>))"
    using assms(1) c by (auto simp: sem_inv_def sem_value_def waiting_at pending_def)
qed

lemma sem_inv_post:
  assumes "sem_inv n k s" "0 \<le> n" "n + int k + 1 < 2 ^ 31" "t \<notin> waiting s" "\<not> pending pc"
    and "atomic_inc_and_negative (sem s) = (neg, m)"
  shows "sem_inv n (Suc k) (at t pc (s\<lparr>sem := m, posted := posted s + 1\<rparr>))"
proof -
  have m: "m = \<lparr>v = word_of_int (sem_value n s + 1)\<rparr>"
    using sem_inv_inc(1) [OF assms(1-3)] assms(6) by simp
  show ?thesis
    using assms(1,4,5) unfolding m by (auto simp: sem_inv_def sem_value_def waiting_at algebra_simps)
qed

lemma waiting_pcs: "t \<in> waiting s \<longleftrightarrow> pending (pcs s t)"
  by (simp add: waiting_def)

lemma sem_step_inv:
  assumes inv: "sem_inv n k s" and n: "0 \<le> n" "n + int k + 1 < 2 ^ 31"
  shows "sem_inv n (Suc k) (sem_step (t, a) s)"
proof (cases "pcs s t")
  case SIdle
  then have "t \<notin> waiting s"
    by (simp add: waiting_pcs pending_def)
  then show ?thesis
    using SIdle by (cases a) (auto simp: sem_step_def waiting_at pending_def sem_inv_Suc [OF inv] intro!: sem_inv_move [OF inv])
next
  case WDec
  then show ?thesis
    using sem_inv_enter [OF inv n, of t WCrit] by (simp add: sem_step_def waiting_pcs pending_def split: prod.split)
next
  case WCrit
  then have "t \<in> waiting s"
    by (simp add: waiting_pcs pending_def)
  then show ?thesis
    using WCrit sem_inv_leave [OF inv] sem_inv_get [OF inv n] sem_inv_Suc [OF inv] by (simp add: sem_step_def)
next
  case Parked
  then show ?thesis
    by (simp add: sem_step_def sem_inv_Suc [OF inv])
next
  case TDec
  then show ?thesis
    using sem_inv_enter [OF inv n, of t TCrit] by (simp add: sem_step_def waiting_pcs pending_def split: prod.split)
next
  case TCrit
  then have t: "t \<in> waiting s"
    by (simp add: waiting_pcs pending_def)
  have "sem_inv n (Suc k) (at t TUndo (s\<lparr>held := True\<rparr>))"
    using t by (intro sem_inv_move [OF inv]) (auto simp: waiting_at pending_def)
  then show ?thesis
    using TCrit t sem_inv_leave(1) [OF inv] sem_inv_get [OF inv n] sem_inv_Suc [OF inv] by (simp add: sem_step_def)
next
  case TUndo
  then have "t \<in> waiting s"
    by (simp add: waiting_pcs pending_def)
  then show ?thesis
    using TUndo sem_inv_leave(3) [OF inv, of t False] sem_inv_inc(2) [OF inv n] by (simp add: sem_step_def)
next
  case PInc
  then show ?thesis
    using sem_inv_post [OF inv n, of t] by (auto simp: sem_step_def waiting_pcs pending_def split: prod.split)
next
  case PCrit
  then have "t \<notin> waiting s"
    by (simp add: waiting_pcs pending_def)
  then show ?thesis
    using PCrit by (auto simp: sem_step_def waiting_at pending_def sem_inv_Suc [OF inv] split: list.split intro!: sem_inv_move [OF inv])
next
  case (PResume w)
  then have "t \<notin> waiting s"
    by (simp add: waiting_pcs pending_def)
  then show ?thesis
    using PResume
    by (auto simp: sem_step_def sem_resume_def waiting_at pending_def waiting_pcs intro!: sem_inv_move [OF inv])
qed

lemma sem_run_inv:
  assumes "sem_inv n k s" "0 \<le> n" "n + int (k + length sched) + 1 < 2 ^ 31"
  shows "sem_inv n (k + length sched) (sem_run sched s)"
  using assms
proof (induction sched arbitrary: k s)
  case Nil
  then show ?case by (simp add: sem_run_def)
next
  case (Cons ta sched)
  have "sem_inv n (Suc k) (sem_step ta s)"
    using sem_step_inv [of n k s "fst ta" "snd ta"] Cons.prems by simp
  then show ?case
    using Cons.IH [of "Suc k" "sem_step ta s"] Cons.prems by (simp add: sem_run_def)
qed

section \<open>Properties\<close>

text \<open>C18: \<^bold>\<open>The semaphore never lets too many tasks through.\<close> From a semaphore initialised with \<open>n\<close>, in every interleaving of fewer than
  \<open>2^31 - n\<close> steps of any number of tasks that wait, try to wait and post, the number of successful waits is at most \<open>n\<close> plus the number of
  posts.\<close>

theorem sem_never_exceeds:
  assumes "n + length sched + 1 < 2 ^ 31"
  shows "passed (sem_run sched (co_sem_init (word_of_nat n))) \<le> n + posted (sem_run sched (co_sem_init (word_of_nat n)))"
proof -
  have "sem_inv (int n) 0 (co_sem_init (word_of_nat n))"
    using sem_init_inv [of "int n"] by simp
  then have "sem_inv (int n) (0 + length sched) (sem_run sched (co_sem_init (word_of_nat n)))"
    using assms by (intro sem_run_inv) auto
  then show ?thesis
    by (simp add: sem_inv_def)
qed

theorem sem_never_exceeds_witness:
  "1 + length [(0, Wait), (1, Wait), (0, Go), (1, Go), (1, Go), (2, Post), (2, Go)] + 1 < (2 ^ 31 :: nat) \<and>
   passed (sem_run [(0, Wait), (1, Wait), (0, Go), (1, Go), (1, Go), (2, Post), (2, Go)] (co_sem_init (word_of_nat 1))) \<le>
     1 + posted (sem_run [(0, Wait), (1, Wait), (0, Go), (1, Go), (1, Go), (2, Post), (2, Go)] (co_sem_init (word_of_nat 1)))"
  using sem_never_exceeds [of 1 "[(0, Wait), (1, Wait), (0, Go), (1, Go), (1, Go), (2, Post), (2, Go)]"] by simp

text \<open>The state with the parked task, and what posts keep of it.\<close>

definition parked0 :: "nat \<Rightarrow> co_sem" where
  "parked0 w = sem_run [(w, Wait), (w, Go), (w, Go)] (co_sem_init 0)"

definition lone :: "nat \<Rightarrow> nat \<Rightarrow> co_sem \<Rightarrow> bool" where
  "lone w k s \<longleftrightarrow> pcs s w = Parked \<and> (\<forall>t. t \<noteq> w \<longrightarrow> pcs s t = SIdle \<or> pcs s t = PInc) \<and>
     v (sem s) = word_of_int (int (posted s) - 1) \<and> posted s \<le> k"

lemma parked0_lone: "lone w 0 (parked0 w)"
  by (simp add: parked0_def lone_def sem_run_def sem_step_def co_sem_init_def atomic_dec_and_negative_def atomic_get_def at_def
      word_sless_alt word_sle_eq)

lemma lone_step:
  assumes "lone w k s" "t \<noteq> w" "a = Post \<or> a = Go" "int k + 1 < 2 ^ 31"
  shows "lone w (Suc k) (sem_step (t, a) s)"
proof (cases "pcs s t = PInc")
  case True
  have "v (sem s) + 1 = word_of_int (int (posted s))"
    using assms(1) by (simp add: lone_def)
  moreover have "\<not> (word_of_int (int (posted s)) :: cint) <s 0"
    using word_of_int_sless(1) [of "int (posted s)"] assms(1,4) by (simp add: lone_def)
  ultimately show ?thesis
    using True assms by (auto simp: sem_step_def atomic_inc_and_negative_def lone_def)
next
  case False
  then have "pcs s t = SIdle"
    using assms(1,2) by (auto simp: lone_def)
  then show ?thesis
    using assms by (auto simp: sem_step_def lone_def) metis
qed

lemma lone_run:
  assumes "lone w k s" "\<forall>(t, a)\<in>set sched. t \<noteq> w \<and> (a = Post \<or> a = Go)" "int (k + length sched) + 1 < 2 ^ 31"
  shows "lone w (k + length sched) (sem_run sched s)"
  using assms
proof (induction sched arbitrary: k s)
  case Nil
  then show ?case by (simp add: sem_run_def)
next
  case (Cons ta sched)
  have "lone w (Suc k) (sem_step ta s)"
    using lone_step [of w k s "fst ta" "snd ta"] Cons.prems by auto
  then show ?case
    using Cons.IH [of "Suc k" "sem_step ta s"] Cons.prems by (simp add: sem_run_def)
qed

text \<open>\<^bold>\<open>A post does not wake the only waiter.\<close> When a task waits on a semaphore with value 0 and is parked, no number of posts by
  other tasks (below \<open>2^31\<close> steps) ever resumes it: a post that finds the counter at \<open>-1\<close> makes it 0 and takes that
  to mean that nobody waits.\<close>

theorem sem_lone_waiter_never_woken:
  assumes "\<forall>(t, a)\<in>set sched. t \<noteq> w \<and> (a = Post \<or> a = Go)" "int (length sched) + 1 < 2 ^ 31"
  shows "pcs (sem_run sched (sem_run [(w, Wait), (w, Go), (w, Go)] (co_sem_init 0))) w = Parked"
  using lone_run [OF parked0_lone assms(1)] assms(2) by (simp add: lone_def parked0_def)

theorem sem_lone_waiter_never_woken_witness:
  "pcs (sem_run [(1, Post), (1, Go), (2, Post), (2, Go)] (sem_run [(0, Wait), (0, Go), (0, Go)] (co_sem_init 0))) 0 = Parked"
  using sem_lone_waiter_never_woken [of "[(1, Post), (1, Go), (2, Post), (2, Go)]" 0] by simp

end
