(* ===== verification/CaskBitMap.thy ===== *)
theory CaskBitMap
  imports CaskPrelude
begin

unbundle bit_operations_syntax

text \<open>
  The bit map of \<open>bit_map.c\<close>: a set of small numbers, one bit each. \<open>None\<close> is a null pointer to the map, on which every operation returns its error
  value. The loop that computes the size keeps \<open>base = BIT_MAP_BASE << count\<close>.
\<close>

section \<open>Model\<close>

type_synonym byte = "8 word"

record bit_map =
  bmap :: "byte list"
  bsize :: nat

definition BIT_MAP_BASE :: nat where
  "BIT_MAP_BASE = 8"

function bit_map_size_loop :: "nat \<Rightarrow> nat \<Rightarrow> nat" where
  "bit_map_size_loop cnt max_num =
     (if BIT_MAP_BASE * 2 ^ (cnt + 1) < max_num then bit_map_size_loop (cnt + 1) max_num else cnt)"
  by pat_completeness auto
termination
proof (relation "measure (\<lambda>(cnt, max_num). max_num - cnt)")
  fix cnt max_num :: nat
  assume "BIT_MAP_BASE * 2 ^ (cnt + 1) < max_num"
  moreover have "cnt < 2 ^ cnt"
    by (rule less_exp)
  moreover have "(2::nat) ^ cnt \<le> BIT_MAP_BASE * 2 ^ (cnt + 1)"
    by (simp add: BIT_MAP_BASE_def)
  ultimately have "cnt < max_num"
    by linarith
  then show "((cnt + 1, max_num), (cnt, max_num)) \<in> measure (\<lambda>(cnt, max_num). max_num - cnt)"
    by simp
qed simp

declare bit_map_size_loop.simps [simp del]

definition get_bit_map_size :: "nat \<Rightarrow> nat" where
  "get_bit_map_size max_num = bit_map_size_loop 0 max_num"

definition bit_map_init :: "nat \<Rightarrow> bit_map" where
  "bit_map_init max_num = (let n = get_bit_map_size max_num in \<lparr>bmap = replicate n 0, bsize = n\<rparr>)"

definition bit_map_change :: "(byte \<Rightarrow> byte \<Rightarrow> byte) \<Rightarrow> nat \<Rightarrow> bit_map option \<Rightarrow> int \<times> bit_map option" where
  "bit_map_change f num m =
     (case m of
        None \<Rightarrow> (-1, None)
      | Some m \<Rightarrow>
          if num \<ge> BIT_MAP_BASE * bsize m then (-1, Some m)
          else let idx = num div BIT_MAP_BASE; loc = num mod BIT_MAP_BASE
               in (0, Some (m\<lparr>bmap := (bmap m)[idx := f (bmap m ! idx) (push_bit loc 1)]\<rparr>)))"

definition bit_map_set :: "nat \<Rightarrow> bit_map option \<Rightarrow> int \<times> bit_map option" where
  "bit_map_set = bit_map_change (\<lambda>c b. c OR b)"

definition bit_map_unset :: "nat \<Rightarrow> bit_map option \<Rightarrow> int \<times> bit_map option" where
  "bit_map_unset = bit_map_change (\<lambda>c b. c AND NOT b)"

definition bit_map_get :: "nat \<Rightarrow> bit_map option \<Rightarrow> int" where
  "bit_map_get num m =
     (case m of
        None \<Rightarrow> -1
      | Some m \<Rightarrow>
          if num \<ge> BIT_MAP_BASE * bsize m then -1
          else uint (bmap m ! (num div BIT_MAP_BASE) AND push_bit (num mod BIT_MAP_BASE) 1))"

text \<open>The subtraction wraps for an empty map.\<close>

definition bit_map_get_max_num :: "bit_map option \<Rightarrow> nat" where
  "bit_map_get_max_num m = (case m of None \<Rightarrow> 0 | Some m \<Rightarrow> (bsize m * BIT_MAP_BASE + 2 ^ 32 - 1) mod 2 ^ 32)"

definition bit_map_clear :: "bit_map option \<Rightarrow> bit_map option" where
  "bit_map_clear m = map_option (\<lambda>m. m\<lparr>bmap := replicate (bsize m) 0\<rparr>) m"

definition bit_map_destory :: "bit_map option \<Rightarrow> bit_map option" where
  "bit_map_destory m = map_option (\<lambda>m. m\<lparr>bmap := [], bsize := 0\<rparr>) m"

section \<open>The set of a map\<close>

definition bit_map_inv :: "bit_map \<Rightarrow> bool" where
  "bit_map_inv m \<longleftrightarrow> length (bmap m) = bsize m"

definition numbers :: "bit_map \<Rightarrow> nat set" where
  "numbers m = {n. n < 8 * bsize m \<and> bit (bmap m ! (n div 8)) (n mod 8)}"

lemma bit_map_change_numbers:
  assumes "bit_map_inv m" "num < 8 * bsize m"
    and f: "\<And>c j. j < 8 \<Longrightarrow> bit (f c (push_bit (num mod 8) 1)) j = (if j = num mod 8 then x else bit c j)"
  shows "\<exists>m'. bit_map_change f num (Some m) = (0, Some m') \<and> bit_map_inv m' \<and> bsize m' = bsize m \<and>
    numbers m' = (if x then insert num (numbers m) else numbers m - {num})"
proof -
  let ?i = "num div 8" and ?l = "num mod 8"
  define m' where "m' = m\<lparr>bmap := (bmap m)[?i := f (bmap m ! ?i) (push_bit ?l 1)]\<rparr>"
  have i: "?i < length (bmap m)"
    using assms(1,2) by (simp add: bit_map_inv_def less_mult_imp_div_less mult.commute)
  have "bit (bmap m' ! (k div 8)) (k mod 8) = (if k = num then x else bit (bmap m ! (k div 8)) (k mod 8))" for k
  proof (cases "k div 8 = ?i")
    case True
    then have "k mod 8 = ?l \<longleftrightarrow> k = num"
      by (metis mod_mult_div_eq)
    then show ?thesis
      using True i f [of "k mod 8" "bmap m ! ?i"] by (simp add: m'_def)
  next
    case False
    then show ?thesis
      by (auto simp: m'_def)
  qed
  then have "numbers m' = (if x then insert num (numbers m) else numbers m - {num})"
    using assms(2) by (auto simp: numbers_def m'_def)
  moreover have "bit_map_change f num (Some m) = (0, Some m')"
    using assms(2) by (simp add: bit_map_change_def BIT_MAP_BASE_def m'_def Let_def)
  ultimately show ?thesis
    using assms(1) by (auto simp: bit_map_inv_def m'_def)
qed

lemma bit_map_get_numbers:
  assumes "num < 8 * bsize m"
  shows "bit_map_get num (Some m) \<noteq> 0 \<longleftrightarrow> num \<in> numbers m"
proof -
  let ?c = "bmap m ! (num div 8)" and ?l = "num mod 8"
  have "?c AND push_bit ?l 1 \<noteq> 0 \<longleftrightarrow> bit ?c ?l"
    by (simp add: push_bit_eq_mult and_exp_eq_0_iff_not_bit)
  then show ?thesis
    using assms by (simp add: bit_map_get_def BIT_MAP_BASE_def numbers_def uint_0_iff)
qed

section \<open>Properties\<close>

text \<open>C20: \<^bold>\<open>The bit map is a set of numbers.\<close> On a well-formed map and for numbers within it, \<open>bit_map_set\<close> adds the number, \<open>bit_map_unset\<close>
  removes it, both succeed and keep the map well-formed, and \<open>bit_map_get\<close> is non-zero exactly for the members; a number outside changes nothing
  and is reported with -1.\<close>

theorem bit_map_implements_set:
  assumes "bit_map_inv m"
  shows "if num < 8 * bsize m
    then (\<exists>m'. bit_map_set num (Some m) = (0, Some m') \<and> bit_map_inv m' \<and> numbers m' = insert num (numbers m)) \<and>
      (\<exists>m'. bit_map_unset num (Some m) = (0, Some m') \<and> bit_map_inv m' \<and> numbers m' = numbers m - {num}) \<and>
      (bit_map_get num (Some m) \<noteq> 0) = (num \<in> numbers m)
    else bit_map_set num (Some m) = (-1, Some m) \<and> bit_map_unset num (Some m) = (-1, Some m) \<and> bit_map_get num (Some m) = -1"
proof (cases "num < 8 * bsize m")
  case True
  have "\<exists>m'. bit_map_set num (Some m) = (0, Some m') \<and> bit_map_inv m' \<and> numbers m' = insert num (numbers m)"
  proof -
    have "bit (c OR push_bit (num mod 8) 1) j = (if j = num mod 8 then True else bit c j)" if "j < 8" for c :: byte and j
      using that by (auto simp: bit_simps)
    from bit_map_change_numbers [OF assms True, of "\<lambda>c b. c OR b", OF this] show ?thesis
      by (auto simp: bit_map_set_def)
  qed
  moreover have "\<exists>m'. bit_map_unset num (Some m) = (0, Some m') \<and> bit_map_inv m' \<and> numbers m' = numbers m - {num}"
  proof -
    have "bit (c AND NOT (push_bit (num mod 8) 1)) j = (if j = num mod 8 then False else bit c j)" if "j < 8" for c :: byte and j
      using that by (auto simp: bit_simps)
    from bit_map_change_numbers [OF assms True, of "\<lambda>c b. c AND NOT b", OF this] show ?thesis
      by (auto simp: bit_map_unset_def)
  qed
  ultimately show ?thesis
    using True bit_map_get_numbers by simp
next
  case False
  then show ?thesis
    by (simp add: bit_map_set_def bit_map_unset_def bit_map_change_def bit_map_get_def BIT_MAP_BASE_def)
qed

theorem bit_map_implements_set_witness:
  "bit_map_inv \<lparr>bmap = [0, 4], bsize = 2\<rparr> \<and> (\<exists>m'. bit_map_set 3 (Some \<lparr>bmap = [0, 4], bsize = 2\<rparr>) = (0, Some m') \<and> numbers m' = insert 3 (numbers \<lparr>bmap = [0, 4], bsize = 2\<rparr>))"
  using bit_map_implements_set [of "\<lparr>bmap = [0, 4], bsize = 2\<rparr>" 3] by (auto simp: bit_map_inv_def)

lemma bit_map_size_small: "8 * cnt \<le> max_num \<Longrightarrow> 8 * bit_map_size_loop cnt max_num \<le> max_num"
proof (induction cnt max_num rule: bit_map_size_loop.induct)
  case (1 cnt max_num)
  show ?case
  proof (cases "BIT_MAP_BASE * 2 ^ (cnt + 1) < max_num")
    case True
    have "cnt + 1 < 2 ^ (cnt + 1)"
      by (rule less_exp)
    then have "8 * (cnt + 1) \<le> max_num"
      using True by (simp add: BIT_MAP_BASE_def)
    then show ?thesis
      using 1 True by (subst bit_map_size_loop.simps) simp
  next
    case False
    then show ?thesis
      using 1 by (subst bit_map_size_loop.simps) simp
  qed
qed

text \<open>\<^bold>\<open>A new bit map cannot hold the number it was made for.\<close> \<open>get_bit_map_size\<close> returns how often the base is doubled instead of how many
  bytes are needed: a map made for numbers up to \<open>max_num\<close> refuses \<open>max_num\<close>, and it has no room at all when \<open>max_num\<close> is at most 16.\<close>

theorem bit_map_too_small:
  "bit_map_set max_num (Some (bit_map_init max_num)) = (-1, Some (bit_map_init max_num)) \<and>
   (\<forall>k\<le>16. numbers (bit_map_init k) = {} \<and> (\<forall>num. fst (bit_map_set num (Some (bit_map_init k))) = -1))"
proof -
  have "8 * get_bit_map_size max_num \<le> max_num"
    unfolding get_bit_map_size_def by (rule bit_map_size_small) simp
  moreover have "get_bit_map_size k = 0" if "k \<le> 16" for k
    using that by (simp add: get_bit_map_size_def bit_map_size_loop.simps BIT_MAP_BASE_def)
  ultimately show ?thesis
    by (simp add: bit_map_set_def bit_map_change_def bit_map_init_def BIT_MAP_BASE_def Let_def numbers_def)
qed

theorem bit_map_too_small_witness:
  "fst (bit_map_set 5 (Some (bit_map_init 16))) = -1"
  using bit_map_too_small [of 16] by auto

end
