(* ===== verification/NattanChan.thy ===== *)
theory NattanChan
  imports NattanRing
begin

text \<open>
  The channel of \<open>sync/Chan.h\<close>: the ring buffer shared between coroutines under a \<open>TaskMutex\<close> with the conditions \<open>notFull\<close> and \<open>notEmpty\<close>.
  A step is one task running from one switch point to the next: at the \<open>LockGuard\<close>, inside the critical section up to the next wait or
  the return, and at the end of a wait, where the task takes the mutex again. A condition is the set of tasks on its wait list;
  \<open>signalAll\<close> empties it. The timer of \<open>waitTill\<close> takes a task off the list, because resuming a task moves its link to the run
  queue. \<open>sent\<close> and \<open>got\<close> record the messages sent and received.
\<close>

section \<open>Model\<close>

datatype 'a tpc =
    TIdle
  | SendLock 'a | SendTest 'a | SendWait 'a                          \<comment> \<open>\<open>send\<close>\<close>
  | SendTillLock 'a | SendTillTest 'a | SendTillWait 'a | SendTillAgain 'a   \<comment> \<open>\<open>sendTill\<close>\<close>
  | RecvLock | RecvTest | RecvWait                                   \<comment> \<open>\<open>recv\<close>\<close>
  | RecvTillLock | RecvTillTest | RecvTillWait | RecvTillAgain       \<comment> \<open>\<open>recvTill\<close>\<close>

record 'a nchan =
  messages :: "'a ring"
  closed :: bool
  owner :: "nat option"
  waitFull :: "nat set"
  waitEmpty :: "nat set"
  tpc :: "nat \<Rightarrow> 'a tpc"
  sent :: "'a list"
  got :: "'a list"

definition Chan :: "'a \<Rightarrow> size_type \<Rightarrow> 'a nchan" where
  "Chan dflt cap =
     \<lparr>messages = ring_new dflt cap, closed = False, owner = None, waitFull = {}, waitEmpty = {}, tpc = (\<lambda>_. TIdle), sent = [], got = []\<rparr>"

definition upto :: "nat \<Rightarrow> 'a tpc \<Rightarrow> 'a nchan \<Rightarrow> 'a nchan" where
  "upto t l s = s\<lparr>tpc := (tpc s)(t := l)\<rparr>"

definition guard_lock :: "nat \<Rightarrow> 'a tpc \<Rightarrow> 'a nchan \<Rightarrow> 'a nchan option" where
  "guard_lock t l s = (if owner s = None then Some (upto t l (s\<lparr>owner := Some t\<rparr>)) else None)"

definition guard_unlock :: "nat \<Rightarrow> 'a nchan \<Rightarrow> 'a nchan" where
  "guard_unlock t s = upto t TIdle (s\<lparr>owner := None\<rparr>)"

definition nchan_enqueue :: "'a \<Rightarrow> 'a nchan \<Rightarrow> 'a nchan" where
  "nchan_enqueue e s = s\<lparr>messages := enqueue e (messages s), waitEmpty := {}, sent := sent s @ [e]\<rparr>"

definition nchan_dequeue :: "'a nchan \<Rightarrow> 'a nchan" where
  "nchan_dequeue s = (let (e, r) = dequeue (messages s) in s\<lparr>messages := r, waitFull := {}, got := got s @ [e]\<rparr>)"

definition wait_notFull :: "nat \<Rightarrow> 'a tpc \<Rightarrow> 'a nchan \<Rightarrow> 'a nchan" where
  "wait_notFull t l s = upto t l (s\<lparr>owner := None, waitFull := insert t (waitFull s)\<rparr>)"

definition wait_notEmpty :: "nat \<Rightarrow> 'a tpc \<Rightarrow> 'a nchan \<Rightarrow> 'a nchan" where
  "wait_notEmpty t l s = upto t l (s\<lparr>owner := None, waitEmpty := insert t (waitEmpty s)\<rparr>)"

definition nchan_send :: "nat \<Rightarrow> 'a \<Rightarrow> 'a nchan \<Rightarrow> 'a nchan" where
  "nchan_send t msg s =
     (if isFull (messages s) then wait_notFull t (SendWait msg) s else guard_unlock t (nchan_enqueue msg s))"

definition nchan_recv :: "nat \<Rightarrow> 'a nchan \<Rightarrow> 'a nchan" where
  "nchan_recv t s =
     (if isEmpty (messages s) then wait_notEmpty t RecvWait s else guard_unlock t (nchan_dequeue s))"

text \<open>The timed operations wait at most once; \<open>again\<close> is the test after the wait.\<close>

definition nchan_sendTill :: "nat \<Rightarrow> 'a \<Rightarrow> bool \<Rightarrow> 'a nchan \<Rightarrow> 'a nchan" where
  "nchan_sendTill t msg again s =
     (if isFull (messages s)
      then if again then guard_unlock t s else wait_notFull t (SendTillWait msg) s
      else guard_unlock t (nchan_enqueue msg s))"

definition nchan_recvTill :: "nat \<Rightarrow> bool \<Rightarrow> 'a nchan \<Rightarrow> 'a nchan" where
  "nchan_recvTill t again s =
     (if isEmpty (messages s)
      then if again then guard_unlock t s else wait_notEmpty t RecvTillWait s
      else guard_unlock t (nchan_dequeue s))"

text \<open>\<open>close\<close> resets the indices without the lock and wakes nobody.\<close>

definition nchan_close :: "'a nchan \<Rightarrow> 'a nchan" where
  "nchan_close s = s\<lparr>messages := (messages s)\<lparr>qcount := 0, putIndex := 0, takeIndex := 0\<rparr>, closed := True\<rparr>"

definition nchan_run :: "nat \<Rightarrow> 'a nchan \<Rightarrow> 'a nchan option" where
  "nchan_run t s =
     (case tpc s t of
        TIdle \<Rightarrow> None
      | SendLock m \<Rightarrow> guard_lock t (SendTest m) s
      | SendTest m \<Rightarrow> Some (nchan_send t m s)
      | SendWait m \<Rightarrow> if t \<in> waitFull s then None else guard_lock t (SendTest m) s
      | SendTillLock m \<Rightarrow> guard_lock t (SendTillTest m) s
      | SendTillTest m \<Rightarrow> Some (nchan_sendTill t m False s)
      | SendTillWait m \<Rightarrow> if t \<in> waitFull s then None else guard_lock t (SendTillAgain m) s
      | SendTillAgain m \<Rightarrow> Some (nchan_sendTill t m True s)
      | RecvLock \<Rightarrow> guard_lock t RecvTest s
      | RecvTest \<Rightarrow> Some (nchan_recv t s)
      | RecvWait \<Rightarrow> if t \<in> waitEmpty s then None else guard_lock t RecvTest s
      | RecvTillLock \<Rightarrow> guard_lock t RecvTillTest s
      | RecvTillTest \<Rightarrow> Some (nchan_recvTill t False s)
      | RecvTillWait \<Rightarrow> if t \<in> waitEmpty s then None else guard_lock t RecvTillAgain s
      | RecvTillAgain \<Rightarrow> Some (nchan_recvTill t True s))"

fun calls :: "'a tpc \<Rightarrow> bool" where
  "calls (SendLock m) = True"
| "calls (SendTillLock m) = True"
| "calls RecvLock = True"
| "calls RecvTillLock = True"
| "calls _ = False"

inductive nchan_step :: "'a nchan \<Rightarrow> 'a nchan \<Rightarrow> bool" where
  call: "tpc s t = TIdle \<Longrightarrow> calls l \<Longrightarrow> nchan_step s (upto t l s)"
| run: "nchan_run t s = Some s' \<Longrightarrow> nchan_step s s'"
| sendTimeout: "tpc s t = SendTillWait m \<Longrightarrow> nchan_step s (s\<lparr>waitFull := waitFull s - {t}\<rparr>)"
| recvTimeout: "tpc s t = RecvTillWait \<Longrightarrow> nchan_step s (s\<lparr>waitEmpty := waitEmpty s - {t}\<rparr>)"

inductive nchan_reach :: "'a nchan \<Rightarrow> 'a nchan \<Rightarrow> bool" for s where
  refl: "nchan_reach s s"
| step: "nchan_reach s s1 \<Longrightarrow> nchan_step s1 s2 \<Longrightarrow> nchan_reach s s2"

section \<open>Invariant\<close>

fun holds :: "'a tpc \<Rightarrow> bool" where
  "holds (SendTest m) = True"
| "holds (SendTillTest m) = True"
| "holds (SendTillAgain m) = True"
| "holds RecvTest = True"
| "holds RecvTillTest = True"
| "holds RecvTillAgain = True"
| "holds _ = False"

definition nchan_inv :: "'a nchan \<Rightarrow> bool" where
  "nchan_inv s \<longleftrightarrow> ring_inv (messages s) \<and> sent s = got s @ contents (messages s) \<and>
     (\<forall>t. holds (tpc s t) \<longrightarrow> owner s = Some t) \<and>
     (waitFull s \<noteq> {} \<longrightarrow> isFull (messages s)) \<and> (waitEmpty s \<noteq> {} \<longrightarrow> isEmpty (messages s))"

lemma Chan_inv: "nchan_inv (Chan d c)"
  by (simp add: nchan_inv_def Chan_def ring_new_inv)

lemma upto_inv: "nchan_inv s \<Longrightarrow> \<not> holds l \<Longrightarrow> nchan_inv (upto t l s)"
  by (auto simp: nchan_inv_def upto_def)

lemma guard_lock_inv: "nchan_inv s \<Longrightarrow> guard_lock t l s = Some s' \<Longrightarrow> nchan_inv s'"
  by (auto simp: nchan_inv_def guard_lock_def upto_def split: if_splits)

text \<open>Only the task in the critical section leaves it.\<close>

lemma leave_inv:
  assumes inv: "nchan_inv s" and t: "holds (tpc s t)" "\<not> holds l"
    and w: "A \<noteq> {} \<longrightarrow> isFull (messages s)" "B \<noteq> {} \<longrightarrow> isEmpty (messages s)"
  shows "nchan_inv (upto t l (s\<lparr>owner := None, waitFull := A, waitEmpty := B\<rparr>))"
proof -
  have "owner s = Some t"
    using inv t(1) by (simp add: nchan_inv_def)
  then have "\<not> holds (tpc s u)" if "u \<noteq> t" for u
    using inv that by (auto simp: nchan_inv_def)
  then show ?thesis
    using inv t w by (auto simp: nchan_inv_def upto_def)
qed

lemma waits_inv:
  "nchan_inv s \<Longrightarrow> waitFull s \<noteq> {} \<longrightarrow> isFull (messages s)" "nchan_inv s \<Longrightarrow> waitEmpty s \<noteq> {} \<longrightarrow> isEmpty (messages s)"
  by (simp_all add: nchan_inv_def)

lemma guard_unlock_inv: "nchan_inv s \<Longrightarrow> holds (tpc s t) \<Longrightarrow> nchan_inv (guard_unlock t s)"
  using leave_inv [of s t TIdle "waitFull s" "waitEmpty s"] waits_inv [of s] by (simp add: guard_unlock_def)

lemma wait_notFull_inv:
  "nchan_inv s \<Longrightarrow> holds (tpc s t) \<Longrightarrow> \<not> holds l \<Longrightarrow> isFull (messages s) \<Longrightarrow> nchan_inv (wait_notFull t l s)"
  using leave_inv [of s t l "insert t (waitFull s)" "waitEmpty s"] waits_inv [of s] by (simp add: wait_notFull_def)

lemma wait_notEmpty_inv:
  "nchan_inv s \<Longrightarrow> holds (tpc s t) \<Longrightarrow> \<not> holds l \<Longrightarrow> isEmpty (messages s) \<Longrightarrow> nchan_inv (wait_notEmpty t l s)"
  using leave_inv [of s t l "waitFull s" "insert t (waitEmpty s)"] waits_inv [of s] by (simp add: wait_notEmpty_def)

lemma nchan_enqueue_inv: "nchan_inv s \<Longrightarrow> \<not> isFull (messages s) \<Longrightarrow> nchan_inv (nchan_enqueue e s)"
  using ring_fifo.enq_law [of "messages s" e] by (auto simp: nchan_inv_def nchan_enqueue_def)

lemma nchan_dequeue_inv:
  assumes "nchan_inv s" "\<not> isEmpty (messages s)" shows "nchan_inv (nchan_dequeue s)"
proof -
  obtain e r where d: "dequeue (messages s) = (e, r)" by (cases "dequeue (messages s)")
  show ?thesis
    using assms ring_fifo.deq_law [OF _ _ d] d by (auto simp: nchan_inv_def nchan_dequeue_def)
qed

lemma queue_tpc [simp]: "tpc (nchan_enqueue e s) = tpc s" "tpc (nchan_dequeue s) = tpc s"
  by (simp_all add: nchan_enqueue_def nchan_dequeue_def split: prod.splits)

lemmas nchan_intros = guard_lock_inv guard_unlock_inv wait_notFull_inv wait_notEmpty_inv nchan_enqueue_inv nchan_dequeue_inv

lemmas nchan_ops = nchan_send_def nchan_recv_def nchan_sendTill_def nchan_recvTill_def

lemma nchan_run_inv: "nchan_inv s \<Longrightarrow> nchan_run t s = Some s' \<Longrightarrow> nchan_inv s'"
  by (cases "tpc s t") (auto simp: nchan_run_def nchan_ops split: if_splits intro: nchan_intros)

lemma nchan_step_inv: "nchan_step s s' \<Longrightarrow> nchan_inv s \<Longrightarrow> nchan_inv s'"
proof (induction rule: nchan_step.induct)
  case (call s t l)
  then show ?case by (cases l) (auto intro: upto_inv)
next
  case (run t s s')
  then show ?case using nchan_run_inv by blast
qed (auto simp: nchan_inv_def)

lemma nchan_reach_inv: "nchan_reach s s' \<Longrightarrow> nchan_inv s \<Longrightarrow> nchan_inv s'"
  by (induction rule: nchan_reach.induct) (auto dest: nchan_step_inv)

lemma nchan_run_cap: "nchan_run t s = Some s' \<Longrightarrow> qcapcity (messages s') = qcapcity (messages s)"
  by (cases "tpc s t")
    (auto simp: nchan_run_def nchan_ops guard_lock_def guard_unlock_def wait_notFull_def wait_notEmpty_def upto_def
      nchan_enqueue_def nchan_dequeue_def enqueue_def dequeue_def Let_def split: if_splits)

lemma nchan_reach_cap: "nchan_reach (Chan d c) s \<Longrightarrow> qcapcity (messages s) = c"
proof (induction rule: nchan_reach.induct)
  case (step s1 s2)
  from step.hyps(2) step.IH show ?case
    by (cases rule: nchan_step.cases) (auto simp: upto_def nchan_run_cap)
qed (simp add: Chan_def ring_new_def)

section \<open>Properties\<close>

text \<open>C17: \<^bold>\<open>The channel delivers in order and loses no wake-up.\<close> For every capacity and every interleaving of tasks that send and receive, with or
  without a time limit, as long as the channel is not closed: the messages received so far followed by those in the buffer are exactly the messages
  sent so far, the buffer never holds more than the capacity, a task is on the list of \<open>notFull\<close> only while the buffer is full, and on the list of
  \<open>notEmpty\<close> only while it is empty.\<close>

theorem nchan_fifo:
  assumes "nchan_reach (Chan dflt cap) s"
  shows "sent s = got s @ contents (messages s) \<and> length (contents (messages s)) \<le> unat cap \<and>
    (waitFull s \<noteq> {} \<longrightarrow> isFull (messages s)) \<and> (waitEmpty s \<noteq> {} \<longrightarrow> isEmpty (messages s))"
proof -
  have i: "nchan_inv s"
    by (rule nchan_reach_inv [OF assms Chan_inv])
  then have "length (contents (messages s)) \<le> unat cap"
    using ring_fifo.bounded [of "messages s"] nchan_reach_cap [OF assms] by (simp add: nchan_inv_def)
  then show ?thesis
    using i by (simp add: nchan_inv_def)
qed

text \<open>Task 1 sends 5 into a channel with one slot.\<close>

lemma nchan_example:
  "\<exists>s. nchan_reach (Chan 0 1) s \<and> sent s = [5 :: nat] \<and> isFull (messages s)"
proof -
  define s1 where "s1 = upto 1 (SendLock 5) (Chan (0 :: nat) 1)"
  define s2 where "s2 = upto 1 (SendTest 5) (s1\<lparr>owner := Some 1\<rparr>)"
  define s3 where "s3 = guard_unlock 1 (nchan_enqueue 5 s2)"
  note d = s1_def s2_def s3_def upto_def Chan_def guard_lock_def guard_unlock_def nchan_enqueue_def enqueue_def ring_new_def
  have "nchan_reach (Chan 0 1) s1"
    by (rule nchan_reach.step [OF nchan_reach.refl]) (simp add: s1_def nchan_step.call Chan_def)
  moreover have "nchan_step s1 s2"
    by (rule nchan_step.run [of 1]) (simp add: nchan_run_def d)
  moreover have "nchan_step s2 s3"
    by (rule nchan_step.run [of 1]) (simp add: nchan_run_def nchan_send_def isFull_def d)
  ultimately have "nchan_reach (Chan 0 1) s3"
    by (blast intro: nchan_reach.step)
  moreover have "sent s3 = [5] \<and> isFull (messages s3)"
    by (simp add: d isFull_def Let_def)
  ultimately show ?thesis by blast
qed

theorem nchan_fifo_witness:
  "\<exists>s. nchan_reach (Chan 0 1) s \<and> sent s = [5 :: nat] \<and> sent s = got s @ contents (messages s) \<and> length (contents (messages s)) \<le> 1"
  using nchan_example nchan_fifo [of 0 1] by fastforce

text \<open>After \<open>close\<close> a sender on the list of \<open>notFull\<close> stays there although the buffer is empty.\<close>

lemma nchan_close_strands_sender:
  assumes "t \<in> waitFull s" "0 < qcapcity (messages s)"
  shows "t \<in> waitFull (nchan_close s) \<and> \<not> isFull (messages (nchan_close s)) \<and> contents (messages (nchan_close s)) = []"
  using assms by (auto simp: nchan_close_def isFull_def contents_def)

end
