(* ===== verification/CaskInterleave.thy ===== *)
theory CaskInterleave
  imports CaskPrelude
begin

text \<open>
  Interleaved calls: a numbered call is at a control point of type \<open>'pc\<close>, all calls share a state \<open>'s\<close>, and \<open>exec t p s\<close>
  is the next atomic step of call \<open>t\<close> at control point \<open>p\<close>, \<open>None\<close> while it is blocked.  A schedule is
  the list of the calls that move.  The locale \<open>drain\<close> is the contract of a system that runs out of work: under its
  invariant every step of a call lowers the rank of its control point and, as long as some call has not reached rank
  \<open>0\<close>, some call can move.  Then no schedule is longer than the sum of the ranks and every schedule that
  cannot be extended has brought every call to its end.
\<close>

section \<open>Systems of calls\<close>

type_synonym ('pc, 's) sys = "(nat \<Rightarrow> 'pc) \<times> 's"

type_synonym ('pc, 's) exec = "nat \<Rightarrow> 'pc \<Rightarrow> 's \<Rightarrow> ('pc \<times> 's) option"

definition sys_step :: "('pc, 's) exec \<Rightarrow> nat \<Rightarrow> ('pc, 's) sys \<Rightarrow> ('pc, 's) sys option" where
  "sys_step exec t \<sigma> =
     (case exec t (fst \<sigma> t) (snd \<sigma>) of
        None \<Rightarrow> None
      | Some (p, s) \<Rightarrow> Some ((fst \<sigma>)(t := p), s))"

fun sys_run :: "('pc, 's) exec \<Rightarrow> nat list \<Rightarrow> ('pc, 's) sys \<Rightarrow> ('pc, 's) sys option" where
  "sys_run exec [] \<sigma> = Some \<sigma>"
| "sys_run exec (t # ts) \<sigma> =
     (case sys_step exec t \<sigma> of None \<Rightarrow> None | Some \<sigma>' \<Rightarrow> sys_run exec ts \<sigma>')"

definition sys_stuck :: "('pc, 's) exec \<Rightarrow> ('pc, 's) sys \<Rightarrow> bool" where
  "sys_stuck exec \<sigma> \<longleftrightarrow> (\<forall>t. sys_step exec t \<sigma> = None)"

lemma sys_run_append:
  "sys_run exec (ts @ us) \<sigma> = (case sys_run exec ts \<sigma> of None \<Rightarrow> None | Some \<sigma>' \<Rightarrow> sys_run exec us \<sigma>')"
  by (induction ts arbitrary: \<sigma>) (auto split: option.splits)

lemma sys_step_iff:
  "sys_step exec t \<sigma> = Some \<sigma>' \<longleftrightarrow>
     (\<exists>p s. exec t (fst \<sigma> t) (snd \<sigma>) = Some (p, s) \<and> \<sigma>' = ((fst \<sigma>)(t := p), s))"
  by (auto simp: sys_step_def split: option.splits)

lemma sys_step_None: "sys_step exec t \<sigma> = None \<longleftrightarrow> exec t (fst \<sigma> t) (snd \<sigma>) = None"
  by (auto simp: sys_step_def split: option.splits)

lemma sys_run_inv:
  assumes "sys_run exec ts \<sigma> = Some \<sigma>'" "P \<sigma>"
    and "\<And>t \<sigma> \<sigma>'. P \<sigma> \<Longrightarrow> sys_step exec t \<sigma> = Some \<sigma>' \<Longrightarrow> P \<sigma>'"
  shows "P \<sigma>'"
  using assms(1,2) by (induction ts arbitrary: \<sigma>) (auto split: option.splits dest: assms(3))

section \<open>Draining\<close>

definition rank_sum :: "('pc \<Rightarrow> nat) \<Rightarrow> ('pc, 's) sys \<Rightarrow> nat" where
  "rank_sum rank \<sigma> = (\<Sum>t | rank (fst \<sigma> t) \<noteq> 0. rank (fst \<sigma> t))"

lemma rank_sum_step:
  assumes fin: "finite {t. rank (fst \<sigma> t) \<noteq> 0}" and less: "rank p < rank (fst \<sigma> t)"
  shows "rank_sum rank ((fst \<sigma>)(t := p), s) < rank_sum rank \<sigma>"
proof -
  let ?A = "{t. rank (fst \<sigma> t) \<noteq> 0}" and ?f = "\<lambda>u. rank (((fst \<sigma>)(t := p)) u)"
  have t: "t \<in> ?A" using less by simp
  have "rank_sum rank ((fst \<sigma>)(t := p), s) = sum ?f {u. ?f u \<noteq> 0}"
    by (simp add: rank_sum_def)
  also have "\<dots> = sum ?f ?A"
    using fin t by (intro sum.mono_neutral_left) (auto split: if_splits)
  also have "\<dots> < sum (\<lambda>u. rank (fst \<sigma> u)) ?A"
    using fin t less by (intro sum_strict_mono_ex1) auto
  finally show ?thesis by (simp add: rank_sum_def)
qed

locale drain =
  fixes exec :: "('pc, 's) exec"
    and inv :: "('pc, 's) sys \<Rightarrow> bool"
    and rank :: "'pc \<Rightarrow> nat"
  assumes finite_active: "inv \<sigma> \<Longrightarrow> finite {t. rank (fst \<sigma> t) \<noteq> 0}"
    and step_inv: "inv \<sigma> \<Longrightarrow> sys_step exec t \<sigma> = Some \<sigma>' \<Longrightarrow> inv \<sigma>'"
    and step_rank: "inv \<sigma> \<Longrightarrow> exec t (fst \<sigma> t) (snd \<sigma>) = Some (p, s) \<Longrightarrow> rank p < rank (fst \<sigma> t)"
    and progress: "inv \<sigma> \<Longrightarrow> rank (fst \<sigma> t) \<noteq> 0 \<Longrightarrow> \<not> sys_stuck exec \<sigma>"
begin

lemma run_inv: "sys_run exec ts \<sigma> = Some \<sigma>' \<Longrightarrow> inv \<sigma> \<Longrightarrow> inv \<sigma>'"
  by (rule sys_run_inv [where P = inv]) (auto intro: step_inv)

lemma run_rank:
  "sys_run exec ts \<sigma> = Some \<sigma>' \<Longrightarrow> inv \<sigma> \<Longrightarrow> length ts + rank_sum rank \<sigma>' \<le> rank_sum rank \<sigma>"
proof (induction ts arbitrary: \<sigma>)
  case (Cons t ts)
  then obtain \<sigma>1 where s: "sys_step exec t \<sigma> = Some \<sigma>1" "sys_run exec ts \<sigma>1 = Some \<sigma>'"
    by (auto split: option.splits)
  then obtain p s where e: "exec t (fst \<sigma> t) (snd \<sigma>) = Some (p, s)" "\<sigma>1 = ((fst \<sigma>)(t := p), s)"
    by (auto simp: sys_step_iff)
  then have "rank_sum rank \<sigma>1 < rank_sum rank \<sigma>"
    using rank_sum_step [OF finite_active [OF Cons.prems(2)] step_rank [OF Cons.prems(2) e(1)]] by simp
  moreover have "length ts + rank_sum rank \<sigma>' \<le> rank_sum rank \<sigma>1"
    using Cons.IH s(2) step_inv [OF Cons.prems(2) s(1)] by blast
  ultimately show ?case by simp
qed simp

lemma stuck_final: "sys_run exec ts \<sigma> = Some \<sigma>' \<Longrightarrow> inv \<sigma> \<Longrightarrow> sys_stuck exec \<sigma>' \<Longrightarrow> rank (fst \<sigma>' t) = 0"
  using progress run_inv by blast

lemma completes: "inv \<sigma> \<Longrightarrow> \<exists>ts \<sigma>'. sys_run exec ts \<sigma> = Some \<sigma>' \<and> (\<forall>t. rank (fst \<sigma>' t) = 0)"
proof (induction "rank_sum rank \<sigma>" arbitrary: \<sigma> rule: less_induct)
  case less
  show ?case
  proof (cases "\<forall>t. rank (fst \<sigma> t) = 0")
    case True
    then show ?thesis by (intro exI [of _ "[]"]) simp
  next
    case False
    then have "\<not> sys_stuck exec \<sigma>"
      using progress [OF less.prems] by blast
    then obtain t \<sigma>1 where s: "sys_step exec t \<sigma> = Some \<sigma>1"
      by (auto simp: sys_stuck_def)
    then have r: "sys_run exec [t] \<sigma> = Some \<sigma>1" by simp
    then have "rank_sum rank \<sigma>1 < rank_sum rank \<sigma>"
      using run_rank less.prems by fastforce
    then obtain ts \<sigma>' where "sys_run exec ts \<sigma>1 = Some \<sigma>'" "\<forall>t. rank (fst \<sigma>' t) = 0"
      using less.hyps step_inv [OF less.prems s] by blast
    with s show ?thesis by (intro exI [of _ "t # ts"] exI [of _ \<sigma>']) simp
  qed
qed

end

end
