(* ===== verification/NattanUUID.thy ===== *)
theory NattanUUID
  imports CaskInterleave "HOL-Library.Signed_Division"
begin

unbundle bit_operations_syntax

text \<open>
  \<open>util/UUID.h\<close>: 64-bit identifiers made of a millisecond time stamp, the thread id and a sequence
  number.  \<open>long\<close> is the 64-bit word, \<open>int\<close> the 32-bit word; the thread id is an \<open>int\<close>, so it is
  shifted at 32 bits and sign-extended afterwards.  The clock is the list of the readings the
  successive calls of \<open>gettimeofday\<close> deliver; a loop that waits for the clock returns \<open>None\<close> when
  the readings are used up.
\<close>

section \<open>Model\<close>

record timeval =
  tv_sec :: "64 word"
  tv_usec :: "64 word"

type_synonym clock = "timeval list"

record uuid_st =
  LAST_TIME_STAMP :: "64 word"
  SEQUENCE :: "32 word"

definition uuid_init :: uuid_st where
  "uuid_init = \<lparr>LAST_TIME_STAMP = - 1, SEQUENCE = 0\<rparr>"

definition SEQUENCE_MASK :: "32 word" where
  "SEQUENCE_MASK = push_bit 13 1 - 1"

definition tv_millis :: "timeval \<Rightarrow> 64 word" where
  "tv_millis tv = tv_sec tv * 1000 + word_of_int (sint (tv_usec tv) sdiv 1000)"

fun getTimeStamp :: "clock \<Rightarrow> (64 word \<times> clock) option" where
  "getTimeStamp [] = None"
| "getTimeStamp (tv # c) = Some (tv_millis tv, c)"

text \<open>The loop reads the clock once before it tests, and again as long as the reading is not later
  than the last time stamp (a comparison of signed numbers).\<close>

fun tillNextMillis :: "64 word \<Rightarrow> clock \<Rightarrow> (64 word \<times> clock) option" where
  "tillNextMillis lastTimestamp [] = None"
| "tillNextMillis lastTimestamp (tv # c) =
     (if tv_millis tv \<le>s lastTimestamp then tillNextMillis lastTimestamp c else Some (tv_millis tv, c))"

definition uuid_pack :: "64 word \<Rightarrow> 32 word \<Rightarrow> 32 word \<Rightarrow> 64 word" where
  "uuid_pack current tid sq = push_bit 22 current OR scast (push_bit 12 tid) OR scast sq"

definition uuid_get :: "32 word \<Rightarrow> uuid_st \<Rightarrow> clock \<Rightarrow> (64 word \<times> uuid_st \<times> clock) option" where
  "uuid_get tid s c =
     (case getTimeStamp c of
        None \<Rightarrow> None
      | Some (now, c1) \<Rightarrow>
          (if now = LAST_TIME_STAMP s
           then let sq = (SEQUENCE s + 1) AND SEQUENCE_MASK in
                (case (if sq = 0 then tillNextMillis now c1 else Some (now, c1)) of
                   None \<Rightarrow> None
                 | Some (current, c2) \<Rightarrow>
                     Some (uuid_pack current tid sq,
                           \<lparr>LAST_TIME_STAMP = current, SEQUENCE = sq\<rparr>, c2))
           else Some (uuid_pack now tid 0, \<lparr>LAST_TIME_STAMP = now, SEQUENCE = 0\<rparr>, c1)))"

text \<open>Calls that do not overlap, each by the thread of the given id.\<close>

fun uuid_gets :: "32 word list \<Rightarrow> uuid_st \<Rightarrow> clock \<Rightarrow> (64 word list \<times> uuid_st \<times> clock) option" where
  "uuid_gets [] s c = Some ([], s, c)"
| "uuid_gets (tid # tids) s c =
     (case uuid_get tid s c of
        None \<Rightarrow> None
      | Some (i, s1, c1) \<Rightarrow>
          (case uuid_gets tids s1 c1 of
             None \<Rightarrow> None
           | Some (is, s2, c2) \<Rightarrow> Some (i # is, s2, c2)))"

section \<open>The fields of an identifier\<close>

lemma or_disjoint_add:
  fixes r :: int
  assumes "0 \<le> r" "r < 2 ^ n"
  shows "push_bit n t OR r = t * 2 ^ n + r"
proof -
  have r: "take_bit n r = r"
    using assms by (simp add: take_bit_int_eq_self)
  have "push_bit n t AND r = 0"
    by (subst r [symmetric]) (auto intro!: bit_eqI simp: bit_simps)
  then have "push_bit n t OR r = push_bit n t + r"
    by (simp add: disjunctive_add_eq_or)
  then show ?thesis
    by (simp add: push_bit_eq_mult)
qed

lemma SEQUENCE_MASK_mask: "SEQUENCE_MASK = mask 13"
  by (simp add: SEQUENCE_MASK_def mask_eq_exp_minus_1 push_bit_eq_mult)

lemma seq_step: "q AND SEQUENCE_MASK = take_bit 13 q"
  by (simp add: SEQUENCE_MASK_mask take_bit_eq_mask)

lemma uint_seq_step:
  assumes "q < (2 :: 32 word) ^ 13"
  shows "uint (take_bit 13 (q + 1)) = (uint q + 1) mod 2 ^ 13"
proof -
  have q: "uint q < 2 ^ 13" using assms by (simp add: word_less_def)
  have "uint (q + 1) = uint q + 1"
    using q by (simp add: uint_word_ariths)
  then show ?thesis
    by (simp add: take_bit_eq_mod uint_mod_distrib)
qed

lemma uint_scast_small:
  assumes "uint (w :: 32 word) < 2 ^ 31"
  shows "uint (scast w :: 64 word) = uint w"
proof -
  have "0 \<le> uint w" by simp
  then have "- (2 ^ 31) \<le> uint w" by (rule order_trans [rotated]) simp
  then have "sint w = uint w"
    using assms by (simp add: sint_uint signed_take_bit_int_eq_self)
  then show ?thesis
    using assms by (simp add: scast_eq unsigned_ucast_eq take_bit_int_eq_self)
qed

text \<open>With a thread id below \<open>1024\<close> and a sequence number of 13 bits, the identifier is the time
  stamp shifted by 22 bits, plus the remaining 22 bits of thread id and sequence number.\<close>

lemma uuid_pack_value:
  assumes t: "uint t < 2 ^ 41" and i: "uint tid < 2 ^ 10" and q: "uint q < 2 ^ 13"
  shows "uint (uuid_pack t tid q) = uint t * 2 ^ 22 + (push_bit 12 (uint tid) OR uint q)"
proof -
  have pt: "uint (push_bit 12 tid) = push_bit 12 (uint tid)"
    using i by (simp add: push_bit_eq_mult uint_word_ariths)
  have bt: "push_bit 12 (uint tid) < 2 ^ 22" "0 \<le> push_bit 12 (uint tid)"
    using i by (simp_all add: push_bit_eq_mult)
  have st: "uint (scast (push_bit 12 tid) :: 64 word) = push_bit 12 (uint tid)"
    using bt by (subst uint_scast_small) (simp_all add: pt)
  have sq: "uint (scast q :: 64 word) = uint q"
    using q by (subst uint_scast_small) simp_all
  have r: "push_bit 12 (uint tid) OR uint q < 2 ^ 22" "0 \<le> push_bit 12 (uint tid) OR uint q"
    using OR_upper [OF bt(2), of 22 "uint q"] bt q by simp_all
  have "uint (push_bit 22 t) = push_bit 22 (uint t)"
    using t by (simp add: push_bit_eq_mult uint_word_ariths)
  then show ?thesis
    using r by (simp add: uuid_pack_def unsigned_or_eq st sq or_disjoint_add or.assoc)
qed

lemma uuid_pack_even:
  assumes "uint t < 2 ^ 41" "uint tid < 2 ^ 10" "even (uint tid)" "uint q < 2 ^ 13"
  shows "uint (uuid_pack t tid q) = uint t * 2 ^ 22 + uint tid * 2 ^ 12 + uint q"
proof -
  obtain h where h: "uint tid = 2 * h" using assms(3) by (rule evenE)
  have "push_bit 12 (uint tid) = push_bit 13 h"
    by (simp add: h push_bit_eq_mult)
  then have "push_bit 12 (uint tid) OR uint q = uint tid * 2 ^ 12 + uint q"
    using assms(4) by (simp add: or_disjoint_add h)
  then show ?thesis using assms by (simp add: uuid_pack_value)
qed

section \<open>Identifiers of one thread\<close>

text \<open>A clock that never runs backwards, from the time \<open>m\<close> on, and stays below \<open>2 ^ 41\<close> milliseconds
  (the year 2039).\<close>

fun clock_from :: "int \<Rightarrow> clock \<Rightarrow> bool" where
  "clock_from m [] = True"
| "clock_from m (tv # c) \<longleftrightarrow>
     m \<le> uint (tv_millis tv) \<and> uint (tv_millis tv) < 2 ^ 41 \<and> clock_from (uint (tv_millis tv)) c"

definition uuid_ok :: "int \<Rightarrow> uuid_st \<Rightarrow> bool" where
  "uuid_ok m s \<longleftrightarrow>
     uint (SEQUENCE s) < 2 ^ 13 \<and> 0 \<le> m \<and> m < 2 ^ 41 \<and>
     (LAST_TIME_STAMP s = - 1 \<or> uint (LAST_TIME_STAMP s) = m)"

lemma sint_small: "uint (w :: 64 word) < 2 ^ 41 \<Longrightarrow> sint w = uint w"
proof -
  assume w: "uint w < 2 ^ 41"
  have "0 \<le> uint w" by simp
  then have "- (2 ^ 63) \<le> uint w" by (rule order_trans [rotated]) simp
  then show ?thesis using w by (simp add: sint_uint signed_take_bit_int_eq_self)
qed

lemma tillNextMillis_later:
  assumes "tillNextMillis l c = Some (t, c')" "clock_from m c" "uint l < 2 ^ 41"
  shows "uint l < uint t \<and> uint t < 2 ^ 41 \<and> clock_from (uint t) c'"
  using assms
  by (induction l c arbitrary: m rule: tillNextMillis.induct)
    (auto simp: word_sle_eq sint_small split: if_splits)

text \<open>One call: the new time stamp and sequence number are later than the old ones, in this order.\<close>

lemma uuid_get_step:
  assumes get: "uuid_get tid s c = Some (i, s', c')" and ok: "uuid_ok m s" and c: "clock_from m c"
  shows "i = uuid_pack (LAST_TIME_STAMP s') tid (SEQUENCE s') \<and>
         uuid_ok (uint (LAST_TIME_STAMP s')) s' \<and> clock_from (uint (LAST_TIME_STAMP s')) c' \<and>
         LAST_TIME_STAMP s' \<noteq> - 1 \<and>
         (LAST_TIME_STAMP s = - 1 \<or>
          uint (LAST_TIME_STAMP s) < uint (LAST_TIME_STAMP s') \<or>
          LAST_TIME_STAMP s' = LAST_TIME_STAMP s \<and> uint (SEQUENCE s) < uint (SEQUENCE s'))"
proof -
  obtain tv c1 where cc: "c = tv # c1"
    using get by (cases c) (auto simp: uuid_get_def)
  let ?now = "tv_millis tv" and ?q = "take_bit 13 (SEQUENCE s + 1)"
  have now: "m \<le> uint ?now" "uint ?now < 2 ^ 41" "clock_from (uint ?now) c1"
    using c by (simp_all add: cc)
  have big: "uint t < 2 ^ 41 \<Longrightarrow> t \<noteq> - 1" for t :: "64 word"
    by (auto simp: unsigned_minus_1_eq_mask mask_eq_exp_minus_1)
  have q: "uint ?q = (uint (SEQUENCE s) + 1) mod 2 ^ 13"
    using ok by (intro uint_seq_step) (simp add: uuid_ok_def word_less_def)
  have q13: "uint ?q < 2 ^ 13" unfolding q by simp
  have small: "0 \<le> uint ?now" by simp
  show ?thesis
  proof (cases "?now = LAST_TIME_STAMP s")
    case False
    then have "uint ?now \<noteq> uint (LAST_TIME_STAMP s)" by (simp add: word_uint_eq_iff)
    with False get ok now show ?thesis
      by (auto simp: uuid_get_def cc uuid_ok_def big)
  next
    case same: True
    show ?thesis
    proof (cases "?q = 0")
      case True
      then obtain t where t: "tillNextMillis ?now c1 = Some (t, c')" "i = uuid_pack t tid ?q"
          "s' = \<lparr>LAST_TIME_STAMP = t, SEQUENCE = ?q\<rparr>"
        using get same by (auto simp: uuid_get_def cc seq_step Let_def split: option.splits)
      have "uint ?now < uint t \<and> uint t < 2 ^ 41 \<and> clock_from (uint t) c'"
        using t(1) now(3,2) by (rule tillNextMillis_later)
      with t(2,3) True same show ?thesis by (simp add: uuid_ok_def big)
    next
      case False
      then have "uint ?q \<noteq> 0" by (metis uint_0_iff)
      then have "uint ?q = uint (SEQUENCE s) + 1"
        using ok unfolding q uuid_ok_def by (smt (verit) mod_pos_pos_trivial mod_self uint_nonnegative)
      with get same False now q13 show ?thesis
        by (auto simp: uuid_get_def cc seq_step Let_def uuid_ok_def big)
    qed
  qed
qed

text \<open>The time stamp and the sequence number in one number, of a state and of an identifier.\<close>

definition uuid_order :: "uuid_st \<Rightarrow> int" where
  "uuid_order s = uint (LAST_TIME_STAMP s) * 2 ^ 13 + uint (SEQUENCE s)"

definition id_order :: "64 word \<Rightarrow> int" where
  "id_order i = (uint i div 2 ^ 22) * 2 ^ 13 + uint i mod 2 ^ 13"

lemma id_order_pack:
  assumes "uint t < 2 ^ 41" "uint tid < 2 ^ 10" "even (uint tid)" "uint q < 2 ^ 13"
  shows "id_order (uuid_pack t tid q) = uint t * 2 ^ 13 + uint q"
proof -
  obtain h where h: "uint tid = 2 * h" using assms(3) by (rule evenE)
  have u: "uint (uuid_pack t tid q) = uint t * 4194304 + (h * 8192 + uint q)"
    using uuid_pack_even [OF assms] h by simp
  have r: "0 \<le> h * 8192 + uint q" "h * 8192 + uint q < 4194304"
    using assms(2,4) h uint_nonnegative [of tid] by simp_all
  have "uint (uuid_pack t tid q) div 4194304 = uint t"
    unfolding u using r by simp
  moreover have m: "uint (uuid_pack t tid q) = uint q + (uint t * 512 + h) * 8192"
    unfolding u by simp
  have "uint (uuid_pack t tid q) mod 8192 = uint q"
    unfolding m mod_mult_self1 using assms(4) by simp
  ultimately show ?thesis
    by (simp add: id_order_def)
qed

lemma lex_less:
  fixes t q t' q' k :: int
  assumes "0 \<le> q" "q < k" "0 \<le> q'" "q' < k"
  shows "t * k + q < t' * k + q' \<longleftrightarrow> t < t' \<or> t = t' \<and> q < q'"
proof (cases t t' rule: linorder_cases)
  case less
  then have "(t + 1) * k \<le> t' * k"
    using assms(1,2) by (intro mult_right_mono) auto
  then show ?thesis
    using less assms unfolding distrib_right by auto
next
  case greater
  then have "(t' + 1) * k \<le> t * k"
    using assms(1,2) by (intro mult_right_mono) auto
  then show ?thesis
    using greater assms unfolding distrib_right by auto
qed simp

lemma uuid_order_less:
  assumes "uint (LAST_TIME_STAMP s) < uint (LAST_TIME_STAMP s') \<or>
      LAST_TIME_STAMP s' = LAST_TIME_STAMP s \<and> uint (SEQUENCE s) < uint (SEQUENCE s')"
    and "uuid_ok m s" "uuid_ok m' s'"
  shows "uuid_order s < uuid_order s'"
  using assms unfolding uuid_order_def by (subst lex_less) (auto simp: uuid_ok_def)

definition tid_ok :: "32 word \<Rightarrow> bool" where
  "tid_ok tid \<longleftrightarrow> uint tid < 1024 \<and> even (uint tid)"

lemma uuid_gets_order:
  assumes "uuid_gets tids s c = Some (is, s', c')" "uuid_ok m s" "clock_from m c" "\<forall>tid\<in>set tids. tid_ok tid"
  shows "sorted_wrt (<) (map id_order is) \<and> (LAST_TIME_STAMP s \<noteq> - 1 \<longrightarrow> (\<forall>i\<in>set is. uuid_order s < id_order i)) \<and>
    list_all2 (\<lambda>tid i. \<exists>t q. uint t < 2 ^ 41 \<and> uint q < 2 ^ 13 \<and> i = uuid_pack t tid q) tids is"
  using assms
proof (induction tids arbitrary: s c "is" m)
  case (Cons tid tids)
  then obtain i s1 c1 js where g: "uuid_get tid s c = Some (i, s1, c1)"
      "uuid_gets tids s1 c1 = Some (js, s', c')" "is = i # js"
    by (auto split: option.splits)
  note st = uuid_get_step [OF g(1) Cons.prems(2,3)]
  have ih: "sorted_wrt (<) (map id_order js)" "\<forall>j\<in>set js. uuid_order s1 < id_order j"
    "list_all2 (\<lambda>tid i. \<exists>t q. uint t < 2 ^ 41 \<and> uint q < 2 ^ 13 \<and> i = uuid_pack t tid q) tids js"
    using Cons.IH [OF g(2), of "uint (LAST_TIME_STAMP s1)"] Cons.prems(4) st by auto
  have "LAST_TIME_STAMP s \<noteq> - 1 \<Longrightarrow> uuid_order s < uuid_order s1"
    using st Cons.prems(2) by (blast intro: uuid_order_less)
  moreover have t: "uint (LAST_TIME_STAMP s1) < 2 ^ 41" "uint (SEQUENCE s1) < 2 ^ 13" "i = uuid_pack (LAST_TIME_STAMP s1) tid (SEQUENCE s1)"
    using st by (simp_all add: uuid_ok_def)
  moreover have "id_order i = uuid_order s1"
    using t Cons.prems(4) by (simp add: id_order_pack tid_ok_def uuid_order_def)
  ultimately show ?case using ih by (fastforce simp: g(3))
qed simp

lemma id_order_same_thread:
  assumes "tid_ok tid" "uint t < 2 ^ 41" "uint q < 2 ^ 13" "uint t' < 2 ^ 41" "uint q' < 2 ^ 13"
    and "id_order (uuid_pack t tid q) < id_order (uuid_pack t' tid q')"
  shows "uint (uuid_pack t tid q) < uint (uuid_pack t' tid q')"
proof -
  have o: "id_order (uuid_pack t tid q) = uint t * 2 ^ 13 + uint q" "id_order (uuid_pack t' tid q') = uint t' * 2 ^ 13 + uint q'"
    using assms(1-5) by (intro id_order_pack; simp add: tid_ok_def)+
  have "uint t < uint t' \<or> uint t = uint t' \<and> uint q < uint q'"
    using assms(6) unfolding o by (subst (asm) lex_less) (use assms(3,5) in simp_all)
  moreover have "uint q < 2 ^ 22" "uint q' < 2 ^ 22"
    using assms(3,5) by simp_all
  ultimately have "uint t * 2 ^ 22 + uint q < uint t' * 2 ^ 22 + uint q'"
    by (subst lex_less) simp_all
  moreover have "uint (uuid_pack t tid q) = uint t * 2 ^ 22 + uint tid * 2 ^ 12 + uint q"
    "uint (uuid_pack t' tid q') = uint t' * 2 ^ 22 + uint tid * 2 ^ 12 + uint q'"
    using assms(1-5) by (intro uuid_pack_even; simp add: tid_ok_def)+
  ultimately show ?thesis
    by linarith
qed

lemma same_thread_sorted:
  assumes "sorted_wrt (<) (map id_order is)" "tid_ok tid"
    and "\<forall>i\<in>set is. \<exists>t q. uint t < 2 ^ 41 \<and> uint q < 2 ^ 13 \<and> i = uuid_pack t tid q"
  shows "sorted_wrt (<) (map uint is)"
  using assms
proof (induction "is")
  case (Cons i "is")
  have "uint i < uint j" if j: "j \<in> set is" for j
  proof -
    obtain t q where "uint t < 2 ^ 41" "uint q < 2 ^ 13" "i = uuid_pack t tid q"
      using Cons.prems(3) by auto
    moreover obtain t' q' where "uint t' < 2 ^ 41" "uint q' < 2 ^ 13" "j = uuid_pack t' tid q'"
      using Cons.prems(3) j by auto
    moreover have "id_order i < id_order j"
      using Cons.prems(1) j by simp
    ultimately show ?thesis
      using id_order_same_thread [OF Cons.prems(2)] by blast
  qed
  with Cons show ?case by simp
qed simp

text \<open>C35: no identifier is given out twice by calls that do not overlap: when the calls that share the two counters run one after the other,
  starting from the initial counters, by threads whose ids are even and below 1024, and the clock does not run backwards and stays
  below \<open>2 ^ 41\<close> milliseconds (the year 2039), the identifiers are distinct, and those of a single thread are strictly increasing, also
  across the 13-bit overflow of the sequence number, where the call waits for the next millisecond.\<close>

theorem uuid_increasing:
  assumes "uuid_gets tids uuid_init c = Some (is, s', c')" "clock_from 0 c" "\<forall>tid\<in>set tids. tid_ok tid"
  shows "distinct is \<and> (set tids \<subseteq> {tid} \<longrightarrow> sorted_wrt (<) (map uint is))"
proof -
  have o: "sorted_wrt (<) (map id_order is)"
    "list_all2 (\<lambda>tid i. \<exists>t q. uint t < 2 ^ 41 \<and> uint q < 2 ^ 13 \<and> i = uuid_pack t tid q) tids is"
    using uuid_gets_order [OF assms(1) _ assms(2,3)] by (simp_all add: uuid_ok_def uuid_init_def)
  have "distinct is"
    using o(1) distinct_map [of id_order "is"] by (simp add: strict_sorted_iff)
  moreover have "sorted_wrt (<) (map uint is)" if s: "set tids \<subseteq> {tid}"
  proof (cases "tids = []")
    case True
    then show ?thesis using o(2) by simp
  next
    case False
    then have "tid_ok tid" using s assms(3) by (metis list.set_intros(1) neq_Nil_conv singletonD subsetD)
    moreover have "\<forall>i\<in>set is. \<exists>t q. uint t < 2 ^ 41 \<and> uint q < 2 ^ 13 \<and> i = uuid_pack t tid q"
      using o(2) s by (auto simp: list_all2_conv_all_nth in_set_conv_nth subset_iff) blast
    ultimately show ?thesis
      using o(1) same_thread_sorted by blast
  qed
  ultimately show ?thesis by blast
qed

text \<open>Witness: two identifiers of two threads in one millisecond and one in the next.\<close>

definition uuid_demo :: clock where
  "uuid_demo = [\<lparr>tv_sec = 5, tv_usec = 7000\<rparr>, \<lparr>tv_sec = 5, tv_usec = 7999\<rparr>,
                \<lparr>tv_sec = 5, tv_usec = 8000\<rparr>]"

theorem uuid_increasing_witness:
  "\<exists>is s' c'. uuid_gets [6, 8, 6] uuid_init uuid_demo = Some (is, s', c') \<and> length is = 3 \<and> distinct is"
proof -
  have run: "uuid_gets [6, 8, 6] uuid_init uuid_demo =
      Some ([21000904704, 21000912897, 21005099008], \<lparr>LAST_TIME_STAMP = 5008, SEQUENCE = 0\<rparr>, [])"
    by code_simp
  have "clock_from 0 uuid_demo" by code_simp
  moreover have "\<forall>tid\<in>set [6, 8, 6]. tid_ok tid" by (simp add: tid_ok_def)
  ultimately have "distinct [21000904704, 21000912897, 21005099008 :: 64 word]"
    using uuid_increasing [OF run] by blast
  then show ?thesis using run by (metis length_Cons list.size(3) numeral_3_eq_3)
qed

section \<open>Odd thread ids\<close>

text \<open>The sequence number has 13 bits but the thread id starts at bit 12: when the thread id is odd,
  bit 12 of the sequence number is lost.\<close>

lemma uuid_pack_odd:
  assumes t: "uint t < 2 ^ 41" and tid: "uint tid < 2 ^ 10" "odd (uint tid)" and q: "uint q < 2 ^ 12"
  shows "uuid_pack t tid (q + 2 ^ 12) = uuid_pack t tid q"
proof -
  have uq: "uint (q + 4096) = uint q + 4096"
    using q by (simp add: uint_word_ariths)
  have "uint q + 2 ^ 12 = push_bit 12 1 OR uint q"
    using q or_disjoint_add [of "uint q" 12 1] by simp
  then have "push_bit 12 (uint tid) OR (uint q + 2 ^ 12) = push_bit 12 (uint tid OR 1) OR uint q"
    by (simp add: push_bit_or or.assoc)
  also have "uint tid OR 1 = uint tid"
    using tid(2) by (simp add: or_one_eq)
  finally show ?thesis
    using t tid(1) q by (simp add: word_uint_eq_iff uuid_pack_value uq)
qed

lemma uuid_get_same_millis:
  assumes "Suc k < 2 ^ 13"
  shows "uuid_get tid \<lparr>LAST_TIME_STAMP = tv_millis tv, SEQUENCE = word_of_nat k\<rparr> (tv # c) =
         Some (uuid_pack (tv_millis tv) tid (word_of_nat (Suc k)),
               \<lparr>LAST_TIME_STAMP = tv_millis tv, SEQUENCE = word_of_nat (Suc k)\<rparr>, c)"
proof -
  have u: "unat (word_of_nat (Suc k) :: 32 word) = Suc k"
    using assms by (simp add: unat_of_nat take_bit_nat_eq_self del: of_nat_Suc)
  have "take_bit 13 (word_of_nat (Suc k) :: 32 word) = word_of_nat (Suc k)"
    using assms by (simp add: word_unat_eq_iff unsigned_take_bit_eq u take_bit_nat_eq_self del: of_nat_Suc)
  moreover have "(word_of_nat (Suc k) :: 32 word) \<noteq> 0"
    by (metis u unat_0 nat.distinct(1))
  ultimately show ?thesis
    by (simp add: uuid_get_def seq_step Let_def add.commute)
qed

lemma uuid_gets_same_millis:
  assumes "k + n < 2 ^ 13"
  shows "\<exists>s'. uuid_gets (replicate n tid) \<lparr>LAST_TIME_STAMP = tv_millis tv, SEQUENCE = word_of_nat k\<rparr> (replicate n tv) =
         Some (map (\<lambda>j. uuid_pack (tv_millis tv) tid (word_of_nat j)) [Suc k..<Suc (k + n)], s', [])"
  using assms
proof (induction n arbitrary: k)
  case (Suc n)
  then obtain s' where
    "uuid_gets (replicate n tid) \<lparr>LAST_TIME_STAMP = tv_millis tv, SEQUENCE = word_of_nat (Suc k)\<rparr> (replicate n tv) =
     Some (map (\<lambda>j. uuid_pack (tv_millis tv) tid (word_of_nat j)) [Suc (Suc k)..<Suc (Suc k + n)], s', [])"
    using Suc.IH [of "Suc k"] by auto
  then show ?case
    using Suc.prems by (simp add: uuid_get_same_millis upt_rec del: of_nat_Suc)
qed simp

text \<open>a thread with an odd id gets an identifier a second time when it asks for more than 4096
  identifiers within one millisecond: bit 12 of the 13-bit sequence number falls on the lowest bit of
  the thread id.\<close>

theorem uuid_odd_repeats:
  assumes "uint tid < 1024" "odd (uint tid)" "uint (tv_millis tv) < 2 ^ 41"
  shows "\<exists>is s'. uuid_gets (replicate 4097 tid) uuid_init (replicate 4097 tv) = Some (is, s', []) \<and>
                 length is = 4097 \<and> is ! 4096 = is ! 0"
proof -
  let ?t = "tv_millis tv" and ?id = "\<lambda>j. uuid_pack (tv_millis tv) tid (word_of_nat j)"
  have 1: "uuid_get tid uuid_init (tv # c) = Some (?id 0, \<lparr>LAST_TIME_STAMP = ?t, SEQUENCE = word_of_nat 0\<rparr>, c)"
    for c
    using assms(3) by (auto simp: uuid_get_def uuid_init_def unsigned_minus_1_eq_mask mask_eq_exp_minus_1)
  obtain s' where 2: "uuid_gets (replicate 4096 tid) \<lparr>LAST_TIME_STAMP = ?t, SEQUENCE = word_of_nat 0\<rparr> (replicate 4096 tv) =
      Some (map ?id [1..<4097], s', [])"
    using uuid_gets_same_millis [of 0 4096 tid tv] by auto
  have "uuid_gets (replicate (Suc 4096) tid) uuid_init (replicate (Suc 4096) tv) = Some (?id 0 # map ?id [1..<4097], s', [])"
    by (simp only: uuid_gets.simps(2) replicate_Suc 1 2 option.case prod.case)
  moreover have "?id 4096 = ?id 0"
    using uuid_pack_odd [of ?t tid 0] assms by simp
  ultimately show ?thesis by simp
qed

text \<open>Witness.\<close>

theorem uuid_odd_repeats_witness:
  "\<exists>is s'. uuid_gets (replicate 4097 7) uuid_init (replicate 4097 \<lparr>tv_sec = 5, tv_usec = 7000\<rparr>) = Some (is, s', []) \<and>
           length is = 4097 \<and> is ! 4096 = is ! 0"
proof -
  have "uint (tv_millis \<lparr>tv_sec = 5, tv_usec = 7000\<rparr>) < 2 ^ 41" by code_simp
  then show ?thesis by (intro uuid_odd_repeats) simp_all
qed

section \<open>Overlapping calls\<close>

text \<open>The same call in its single accesses to the two counters, which no lock protects.  A call is a number, \<open>tid\<close> gives the thread that
  makes it; the threads share the counters and the clock.\<close>

datatype ipc =
    IClock                      \<comment> \<open>at \<open>getTimeStamp\<close>\<close>
  | ITest "64 word"             \<comment> \<open>at the comparison with \<open>LAST_TIME_STAMP\<close>\<close>
  | IInc "64 word" | IZero "64 word" | ITill "64 word" | IReset "64 word"
  | IStamp "64 word"            \<comment> \<open>at the store of \<open>LAST_TIME_STAMP\<close>\<close>
  | IPack "64 word" | IDone "64 word"

fun uuid_exec :: "(nat \<Rightarrow> 32 word) \<Rightarrow> (ipc, uuid_st \<times> clock) exec" where
  "uuid_exec tid t IClock (s, c) = (case getTimeStamp c of None \<Rightarrow> None | Some (now, c) \<Rightarrow> Some (ITest now, s, c))"
| "uuid_exec tid t (ITest now) (s, c) = Some (if now = LAST_TIME_STAMP s then IInc now else IReset now, s, c)"
| "uuid_exec tid t (IInc now) (s, c) = Some (IZero now, s\<lparr>SEQUENCE := (SEQUENCE s + 1) AND SEQUENCE_MASK\<rparr>, c)"
| "uuid_exec tid t (IZero now) (s, c) = Some (if SEQUENCE s = 0 then ITill now else IStamp now, s, c)"
| "uuid_exec tid t (ITill lst) (s, c) =
     (case getTimeStamp c of
        None \<Rightarrow> None
      | Some (current, c) \<Rightarrow> Some (if current \<le>s lst then ITill lst else IStamp current, s, c))"
| "uuid_exec tid t (IReset now) (s, c) = Some (IStamp now, s\<lparr>SEQUENCE := 0\<rparr>, c)"
| "uuid_exec tid t (IStamp current) (s, c) = Some (IPack current, s\<lparr>LAST_TIME_STAMP := current\<rparr>, c)"
| "uuid_exec tid t (IPack current) (s, c) = Some (IDone (uuid_pack current (tid t) (SEQUENCE s)), s, c)"
| "uuid_exec tid t (IDone i) (s, c) = None"

text \<open>A call that nothing interrupts is \<open>uuid_get\<close>.\<close>

lemma uuid_exec_till:
  "tillNextMillis l c = Some (t', c') \<Longrightarrow>
   \<exists>k. sys_run (uuid_exec tid) (replicate k t) (p(t := ITill l), s, c) = Some (p(t := IStamp t'), s, c')"
proof (induction l c rule: tillNextMillis.induct)
  case (2 l tv c)
  show ?case
  proof (cases "tv_millis tv \<le>s l")
    case True
    then have "tillNextMillis l c = Some (t', c')"
      using 2(2) by simp
    then obtain k where "sys_run (uuid_exec tid) (replicate k t) (p(t := ITill l), s, c) = Some (p(t := IStamp t'), s, c')"
      using 2(1) True by blast
    then show ?thesis
      using True by (intro exI [of _ "Suc k"]) (simp add: sys_step_def fun_upd_same del: fun_upd_apply)
  next
    case False
    then show ?thesis
      using 2(2) by (intro exI [of _ 1]) (simp add: sys_step_def fun_upd_same del: fun_upd_apply)
  qed
qed simp

lemma counters_stored [simp]: "s\<lparr>SEQUENCE := q, LAST_TIME_STAMP := u\<rparr> = \<lparr>LAST_TIME_STAMP = u, SEQUENCE = q\<rparr>"
  by (cases s) simp

lemma uuid_exec_alone:
  assumes "uuid_get (tid t) s c = Some (i, s', c')"
  shows "\<exists>k. sys_run (uuid_exec tid) (replicate k t) (p(t := IClock), s, c) = Some (p(t := IDone i), s', c')"
proof -
  obtain tv c1 where cc: "c = tv # c1"
    using assms by (cases c) (auto simp: uuid_get_def)
  let ?now = "tv_millis tv" and ?q = "(SEQUENCE s + 1) AND SEQUENCE_MASK" and ?r = "sys_run (uuid_exec tid)"
  have fin: "?r (replicate 2 t) (p(t := IStamp u), s1, c2) =
      Some (p(t := IDone (uuid_pack u (tid t) (SEQUENCE s1))), s1\<lparr>LAST_TIME_STAMP := u\<rparr>, c2)" for u s1 c2
    by (simp add: numeral_2_eq_2 sys_step_def)
  have app: "?r (replicate m t @ replicate n t) \<sigma> = Some \<sigma>' \<Longrightarrow> \<exists>k. ?r (replicate k t) \<sigma> = Some \<sigma>'" for m n \<sigma> \<sigma>'
    by (metis replicate_add)
  show ?thesis
  proof (cases "?now = LAST_TIME_STAMP s")
    case False
    have "?r (replicate 3 t) (p(t := IClock), s, c) = Some (p(t := IStamp ?now), s\<lparr>SEQUENCE := 0\<rparr>, c1)"
      using False by (simp add: numeral_3_eq_3 sys_step_def cc)
    then have "?r (replicate 3 t @ replicate 2 t) (p(t := IClock), s, c) = Some (p(t := IDone i), s', c')"
      using assms False unfolding sys_run_append by (simp add: fin uuid_get_def cc)
    then show ?thesis by (rule app)
  next
    case True
    have pre: "?r (replicate 4 t) (p(t := IClock), s, c) =
        Some (p(t := if ?q = 0 then ITill ?now else IStamp ?now), s\<lparr>SEQUENCE := ?q\<rparr>, c1)"
      using True by (simp add: eval_nat_numeral sys_step_def cc)
    show ?thesis
    proof (cases "?q = 0")
      case z: True
      then obtain u where u: "tillNextMillis ?now c1 = Some (u, c')" "i = uuid_pack u (tid t) ?q"
          "s' = \<lparr>LAST_TIME_STAMP = u, SEQUENCE = ?q\<rparr>"
        using assms True by (auto simp: uuid_get_def cc Let_def split: option.splits)
      obtain k where "?r (replicate k t) (p(t := ITill ?now), s\<lparr>SEQUENCE := ?q\<rparr>, c1) = Some (p(t := IStamp u), s\<lparr>SEQUENCE := ?q\<rparr>, c')"
        using uuid_exec_till [OF u(1)] by blast
      then have "?r (replicate 4 t @ replicate k t) (p(t := IClock), s, c) = Some (p(t := IStamp u), s\<lparr>SEQUENCE := ?q\<rparr>, c')"
        unfolding sys_run_append pre using z by simp
      then have "?r (replicate (4 + k) t @ replicate 2 t) (p(t := IClock), s, c) = Some (p(t := IDone i), s', c')"
        unfolding sys_run_append replicate_add by (simp add: fin u(2,3))
      then show ?thesis by (rule app)
    next
      case nz: False
      then have "?r (replicate 4 t @ replicate 2 t) (p(t := IClock), s, c) = Some (p(t := IDone i), s', c')"
        using assms True unfolding sys_run_append pre by (simp add: fin uuid_get_def cc Let_def)
      then show ?thesis by (rule app)
    qed
  qed
qed

text \<open>When calls overlap an identifier can be given out twice: call \<open>1\<close>, of another thread, reads the clock before call \<open>0\<close> and
  stores its older time stamp afterwards, so that the next call of the first thread, still in the millisecond of call \<open>0\<close>, starts the sequence again.\<close>

lemma uuid_overlap_repeats:
  assumes "tv_millis old \<noteq> tv_millis new" "tv_millis old \<noteq> - 1" "tv_millis new \<noteq> - 1" "tid 2 = tid 0"
  shows "\<exists>\<sigma>. sys_run (uuid_exec tid) ([1, 0, 0, 0, 0, 0, 1, 1, 1, 1] @ [2, 2, 2, 2, 2]) (\<lambda>_. IClock, uuid_init, [old, new, new]) = Some \<sigma> \<and>
    fst \<sigma> 0 = IDone (uuid_pack (tv_millis new) (tid 0) 0) \<and> fst \<sigma> 2 = fst \<sigma> 0"
  using assms by (simp add: sys_step_def uuid_init_def)

end
