(* ===== verification/NattanConfig.thy ===== *)
theory NattanConfig
  imports CaskPrelude "HOL-Library.List_Lexorder" "HOL-Library.Char_ord"
begin

text \<open>
  \<open>core/ConfigParser.cpp\<close>: an INI reader.  A \<open>std::map\<close> is the list of its pairs in the order of the
  keys; \<open>insert\<close> keeps the value a key already has.  \<open>std::string\<close> orders by unsigned characters, which
  is the lexicographic order used here; \<open>line[idx]\<close> at the end of a string is the character \<open>0\<close>.  A
  file is given by the functions \<open>accessible\<close> (what \<open>access(F_OK)\<close> answers) and \<open>content\<close> (its text, when it
  can be opened for reading).
\<close>

section \<open>Ordered maps\<close>

fun map_insert :: "'k::linorder \<Rightarrow> 'v \<Rightarrow> ('k \<times> 'v) list \<Rightarrow> ('k \<times> 'v) list" where
  "map_insert k v [] = [(k, v)]"
| "map_insert k v ((k', v') # m) =
     (if k < k' then (k, v) # (k', v') # m
      else if k = k' then (k', v') # m
      else (k', v') # map_insert k v m)"

definition map_sorted :: "('k::linorder \<times> 'v) list \<Rightarrow> bool" where
  "map_sorted m = sorted_wrt (<) (map fst m)"

section \<open>Model of ConfigParser\<close>

datatype line_type = SECTION | COMMENT | KEYVAL | ERRLINE

definition SECTB :: char where "SECTB = CHR ''[''"
definition SECTE :: char where "SECTE = CHR '']''"
definition COMTB :: char where "COMTB = CHR ''#''"
definition KEYB :: char where "KEYB = CHR ''=''"
definition NL :: char where "NL = CHR 0x0A"

definition char_at :: "string \<Rightarrow> nat \<Rightarrow> char" where
  "char_at line i = (if i < length line then line ! i else CHR 0x00)"

text \<open>\<open>substr(pos, n)\<close>; a negative count converts to a huge \<open>size_t\<close>.\<close>

definition substr :: "string \<Rightarrow> nat \<Rightarrow> int \<Rightarrow> string" where
  "substr s pos n = (if n < 0 then drop pos s else take (nat n) (drop pos s))"

text \<open>The three loops of \<open>decideLineType\<close>: is the line blank, the section header, the \<open>key=value\<close> pair.\<close>

function blank_from :: "string \<Rightarrow> nat \<Rightarrow> bool" where
  "blank_from line idx =
     (if char_at line idx \<noteq> CHR '' '' \<or> length line \<le> idx then length line \<le> idx
      else blank_from line (idx + 1))"
  by pat_completeness auto
termination by (relation "measure (\<lambda>(line, idx). length line - idx)") auto

function sect_from :: "string \<Rightarrow> nat \<Rightarrow> line_type \<times> string" where
  "sect_from line idx =
     (if char_at line idx = SECTB \<or> length line \<le> idx
      then if length line \<le> idx \<and> char_at line idx \<noteq> SECTB then (ERRLINE, '''')
           else (SECTION, substr line 1 (int (length line) - 2))
      else sect_from line (idx + 1))"
  by pat_completeness auto
termination by (relation "measure (\<lambda>(line, idx). length line - idx)") auto

function keyval_from :: "string \<Rightarrow> nat \<Rightarrow> line_type \<times> string" where
  "keyval_from line idx =
     (if char_at line idx = KEYB \<or> length line \<le> idx
      then if length line \<le> idx \<and> char_at line idx \<noteq> KEYB then (ERRLINE, '''')
           else (KEYVAL, line)
      else keyval_from line (idx + 1))"
  by pat_completeness auto
termination by (relation "measure (\<lambda>(line, idx). length line - idx)") auto

declare blank_from.simps [simp del] sect_from.simps [simp del] keyval_from.simps [simp del]

definition decideLineType :: "string \<Rightarrow> line_type \<times> string" where
  "decideLineType line =
     (let emptyLine = blank_from line 0; lst = char_at line 0 in
      if lst = SECTB then sect_from line 0
      else if lst = COMTB then (COMMENT, '''')
      else if emptyLine then (ERRLINE, '''')
      else keyval_from line 0)"

text \<open>The search of \<open>=\<close> in \<open>loadConfig2Map\<close> has no bound of its own.\<close>

function find_eq :: "string \<Rightarrow> nat \<Rightarrow> nat res" where
  "find_eq content idx =
     (if length content \<le> idx then Inl OutOfBounds
      else if content ! idx = KEYB then Inr idx
      else find_eq content (idx + 1))"
  by pat_completeness auto
termination by (relation "measure (\<lambda>(content, idx). length content - idx)") auto

declare find_eq.simps [simp del]

type_synonym kv_map = "(string \<times> string) list"
type_synonym config_map = "(string \<times> kv_map) list"

record load_st =
  l_section :: string
  l_kvMap :: kv_map
  l_isSameSec :: bool
  l_is1stSec :: bool
  l_configMap :: config_map

fun load_lines :: "string list \<Rightarrow> load_st \<Rightarrow> load_st res" where
  "load_lines [] s = Inr s"
| "load_lines (line # ls) s =
     (case decideLineType line of
        (SECTION, content) \<Rightarrow>
          load_lines ls
            ((if l_is1stSec s then s\<lparr>l_is1stSec := False\<rparr>
              else s\<lparr>l_isSameSec := False,
                     l_configMap := map_insert (l_section s) (l_kvMap s) (l_configMap s),
                     l_kvMap := []\<rparr>)\<lparr>l_section := content\<rparr>)
      | (KEYVAL, content) \<Rightarrow>
          (case find_eq content 0 of
             Inl f \<Rightarrow> Inl f
           | Inr idx \<Rightarrow>
               load_lines ls
                 (s\<lparr>l_kvMap := map_insert (take idx content) (drop (idx + 1) content) (l_kvMap s)\<rparr>))
      | (_, content) \<Rightarrow> load_lines ls s)"

text \<open>\<open>getline\<close> until it fails: a last line without a newline counts when it is not empty.\<close>

fun getlines :: "string \<Rightarrow> string \<Rightarrow> string list" where
  "getlines acc [] = (if acc = [] then [] else [rev acc])"
| "getlines acc (c # cs) = (if c = NL then rev acc # getlines [] cs else getlines (c # acc) cs)"

text \<open>A file that cannot be opened yields no line.\<close>

definition loadConfig2Map :: "string option \<Rightarrow> config_map \<Rightarrow> config_map res" where
  "loadConfig2Map text configMap =
     rbind (load_lines (case text of None \<Rightarrow> [] | Some t \<Rightarrow> getlines [] t)
              \<lparr>l_section = '''', l_kvMap = [], l_isSameSec = True, l_is1stSec = True,
               l_configMap = configMap\<rparr>)
       (\<lambda>s. Inr (map_insert (l_section s) (l_kvMap s) (l_configMap s)))"

record config_parser =
  filename :: string
  isFileExisted :: bool
  isRefreshed :: bool
  configMap :: config_map

definition ConfigParser_init :: config_parser where
  "ConfigParser_init = \<lparr>filename = '''', isFileExisted = False, isRefreshed = False, configMap = []\<rparr>"

definition config_load ::
    "(string \<Rightarrow> bool) \<Rightarrow> (string \<Rightarrow> string option) \<Rightarrow> string \<Rightarrow> config_parser \<Rightarrow> config_parser res" where
  "config_load accessible content f p =
     (if \<not> accessible f then Inr (p\<lparr>isFileExisted := False\<rparr>)
      else rbind (loadConfig2Map (content f) [])
             (\<lambda>m. Inr (p\<lparr>filename := f, configMap := m\<rparr>)))"

definition config_reload :: "(string \<Rightarrow> string option) \<Rightarrow> config_parser \<Rightarrow> (int \<times> config_parser) res" where
  "config_reload content p =
     rbind (loadConfig2Map (content (filename p)) []) (\<lambda>m. Inr (0, p\<lparr>configMap := m\<rparr>))"

definition getValueByKey :: "config_parser \<Rightarrow> string \<Rightarrow> string \<Rightarrow> string" where
  "getValueByKey p section key =
     (case map_of (configMap p) section of
        Some m \<Rightarrow> (case map_of m key of Some v \<Rightarrow> v | None \<Rightarrow> '''')
      | None \<Rightarrow> '''')"

text \<open>\<open>getAllKey\<close>: the text written to \<open>std::cout\<close>.\<close>

definition getAllKey :: "config_parser \<Rightarrow> string" where
  "getAllKey p =
     concat (map (\<lambda>(sec, m). ''[ '' @ sec @ '' ]'' @ [NL] @
                    concat (map (\<lambda>(k, v). k @ ''='' @ v @ [NL]) m)) (configMap p))"

section \<open>Ordered maps hold the first value of each key\<close>

lemma fst_map_insert: "fst ` set (map_insert k v m) = insert k (fst ` set m)"
  by (induction k v m rule: map_insert.induct) auto

lemma map_sorted_insert [inv_intros]: "map_sorted m \<Longrightarrow> map_sorted (map_insert k v m)"
  unfolding map_sorted_def
proof (induction k v m rule: map_insert.induct)
  case (2 k v k' v' m)
  then show ?case
    using fst_map_insert [of k v m] by (auto simp flip: image_set)
qed simp

lemma map_of_insert:
  "map_sorted m \<Longrightarrow> map_of (map_insert k v m) = [k \<mapsto> v] ++ map_of m"
  unfolding map_sorted_def
proof (induction k v m rule: map_insert.induct)
  case (2 k v k' v' m)
  have "k < k' \<Longrightarrow> map_of m k = None"
    using 2 by (auto simp: map_of_eq_None_iff)
  then show ?case using 2 by (auto simp: map_add_def fun_eq_iff split: option.splits)
qed (simp add: map_add_def fun_eq_iff)

definition map_inserts :: "('k::linorder \<times> 'v) list \<Rightarrow> ('k \<times> 'v) list \<Rightarrow> ('k \<times> 'v) list" where
  "map_inserts xs m = fold (\<lambda>(k, v). map_insert k v) xs m"

lemma map_inserts_simps [simp]:
  "map_inserts [] m = m"
  "map_inserts ((k, v) # xs) m = map_inserts xs (map_insert k v m)"
  "map_inserts (xs @ ys) m = map_inserts ys (map_inserts xs m)"
  by (simp_all add: map_inserts_def)

lemma map_sorted_inserts: "map_sorted m \<Longrightarrow> map_sorted (map_inserts xs m)"
  by (induction xs arbitrary: m) (auto simp: map_sorted_insert)

lemma map_of_inserts: "map_sorted m \<Longrightarrow> map_of (map_inserts xs m) = map_of xs ++ map_of m"
proof (induction xs arbitrary: m)
  case (Cons x xs)
  then show ?case
    by (cases x) (auto simp: map_sorted_insert map_of_insert map_add_def fun_eq_iff split: option.splits)
qed simp

lemma set_map_insert: "set (map_insert k v m) \<subseteq> insert (k, v) (set m)"
  by (induction k v m rule: map_insert.induct) auto

section \<open>The kind of a line\<close>

lemma blank_from_iff: "blank_from line i \<longleftrightarrow> (\<forall>c\<in>set (drop i line). c = CHR '' '')"
proof (induction line i rule: blank_from.induct)
  case (1 line i)
  show ?case
  proof (cases "i < length line")
    case True
    then show ?thesis
      using 1 by (subst blank_from.simps) (auto simp: char_at_def drop_nth_Cons)
  qed (subst blank_from.simps, simp)
qed

lemma keyval_from_eq:
  "keyval_from line i = (if KEYB \<in> set (drop i line) then (KEYVAL, line) else (ERRLINE, ''''))"
proof (induction line i rule: keyval_from.induct)
  case (1 line i)
  show ?case
  proof (cases "i < length line")
    case True
    then show ?thesis
      using 1 by (subst keyval_from.simps) (auto simp: char_at_def drop_nth_Cons)
  qed (subst keyval_from.simps, simp add: char_at_def KEYB_def)
qed

lemma decideLineType_eq:
  "decideLineType line =
     (if line \<noteq> [] \<and> hd line = SECTB then (SECTION, butlast (tl line))
      else if line \<noteq> [] \<and> hd line = COMTB then (COMMENT, '''')
      else if KEYB \<in> set line then (KEYVAL, line)
      else (ERRLINE, ''''))"
proof -
  have "char_at line 0 = SECTB \<longleftrightarrow> line \<noteq> [] \<and> hd line = SECTB"
    "char_at line 0 = COMTB \<longleftrightarrow> line \<noteq> [] \<and> hd line = COMTB"
    by (cases line; simp add: char_at_def SECTB_def COMTB_def)+
  moreover have "substr line 1 (int (length line) - 2) = butlast (tl line)"
  proof (cases "length line < 2")
    case True
    then show ?thesis by (cases line) (auto simp: substr_def)
  next
    case False
    then show ?thesis
      by (simp add: substr_def butlast_conv_take drop_Suc nat_diff_distrib numeral_2_eq_2)
  qed
  ultimately show ?thesis
    by (auto simp: decideLineType_def Let_def blank_from_iff keyval_from_eq sect_from.simps [of line 0] KEYB_def)
qed

lemma find_eq_at:
  "i \<le> length k \<Longrightarrow> KEYB \<notin> set k \<Longrightarrow> find_eq (k @ KEYB # v) i = Inr (length k)"
proof (induction "length k - i" arbitrary: i)
  case 0
  then show ?case by (subst find_eq.simps) (simp add: nth_append)
next
  case (Suc n)
  then have i: "i < length k" by simp
  then have "k ! i \<noteq> KEYB" using Suc.prems(2) nth_mem by metis
  with i Suc show ?case by (subst find_eq.simps) (simp add: nth_append)
qed

section \<open>Loading\<close>

definition key_ok :: "string \<Rightarrow> bool" where
  "key_ok k \<longleftrightarrow> KEYB \<notin> set k \<and> NL \<notin> set k \<and> (k = [] \<or> hd k \<noteq> SECTB \<and> hd k \<noteq> COMTB)"

definition kv_ok :: "string \<times> string \<Rightarrow> bool" where
  "kv_ok kv \<longleftrightarrow> key_ok (fst kv) \<and> NL \<notin> set (snd kv)"

definition kv_line :: "string \<times> string \<Rightarrow> string" where
  "kv_line kv = fst kv @ KEYB # snd kv"

definition sec_lines :: "string \<times> kv_map \<Rightarrow> string list" where
  "sec_lines s = (SECTB # fst s @ [SECTE]) # map kv_line (snd s)"

definition sec_ok :: "string \<times> kv_map \<Rightarrow> bool" where
  "sec_ok s \<longleftrightarrow> NL \<notin> set (fst s) \<and> (\<forall>kv\<in>set (snd s). kv_ok kv)"

definition unlines :: "string list \<Rightarrow> string" where
  "unlines ls = concat (map (\<lambda>l. l @ [NL]) ls)"

lemma getlines_append: "NL \<notin> set l \<Longrightarrow> getlines acc (l @ NL # t) = (rev acc @ l) # getlines [] t"
  by (induction l arbitrary: acc) auto

lemma getlines_unlines: "\<forall>l\<in>set ls. NL \<notin> set l \<Longrightarrow> getlines [] (unlines ls) = ls"
  by (induction ls) (auto simp: unlines_def getlines_append)

lemma getlines_no_NL: "NL \<notin> set acc \<Longrightarrow> l \<in> set (getlines acc t) \<Longrightarrow> NL \<notin> set l"
  by (induction acc t rule: getlines.induct) (auto split: if_splits)

lemma decide_kv_line: "key_ok (fst kv) \<Longrightarrow> decideLineType (kv_line kv) = (KEYVAL, kv_line kv)"
  by (cases "fst kv")
    (auto simp: decideLineType_eq kv_line_def key_ok_def KEYB_def SECTB_def COMTB_def)

lemma load_kv_lines:
  "\<forall>kv\<in>set kvs. kv_ok kv \<Longrightarrow>
   load_lines (map kv_line kvs @ ls) s = load_lines ls (s\<lparr>l_kvMap := map_inserts kvs (l_kvMap s)\<rparr>)"
proof (induction kvs arbitrary: s)
  case (Cons kv kvs)
  have "find_eq (kv_line kv) 0 = Inr (length (fst kv))"
    using Cons.prems by (simp add: kv_line_def kv_ok_def key_ok_def find_eq_at)
  moreover have "decideLineType (kv_line kv) = (KEYVAL, kv_line kv)"
    using Cons.prems by (simp add: kv_ok_def decide_kv_line)
  ultimately show ?case
    using Cons by (cases kv) (simp add: kv_line_def)
qed simp

abbreviation l_finish :: "load_st \<Rightarrow> config_map" where
  "l_finish s \<equiv> map_insert (l_section s) (l_kvMap s) (l_configMap s)"

definition sec_map :: "string \<times> kv_map \<Rightarrow> string \<times> kv_map" where
  "sec_map s = (fst s, map_inserts (snd s) [])"

lemma load_section:
  assumes "sec_ok sc" "\<not> l_is1stSec s"
  shows "load_lines (sec_lines sc @ ls) s =
    load_lines ls (s\<lparr>l_isSameSec := False, l_configMap := l_finish s,
                     l_section := fst sc, l_kvMap := snd (sec_map sc)\<rparr>)"
  using assms by (simp add: sec_lines_def decideLineType_eq load_kv_lines sec_ok_def sec_map_def)

lemma load_sections:
  assumes "\<forall>sc\<in>set ss. sec_ok sc" "\<not> l_is1stSec s"
  shows "\<exists>s'. load_lines (concat (map sec_lines ss)) s = Inr s' \<and>
              l_finish s' = map_inserts (map sec_map ss) (l_finish s)"
  using assms
proof (induction ss arbitrary: s)
  case (Cons sc ss)
  let ?s = "s\<lparr>l_isSameSec := False, l_configMap := l_finish s,
              l_section := fst sc, l_kvMap := snd (sec_map sc)\<rparr>"
  have "load_lines (concat (map sec_lines (sc # ss))) s = load_lines (concat (map sec_lines ss)) ?s"
    using Cons.prems by (simp add: load_section)
  moreover have "map_inserts (map sec_map (sc # ss)) (l_finish s) = map_inserts (map sec_map ss) (l_finish ?s)"
    by (simp add: sec_map_def)
  ultimately show ?case using Cons.IH [of ?s] Cons.prems by simp
qed simp

text \<open>The value a list of sections gives to a key: the first section of that name, the first pair with
  that key, and the empty string when there is none.\<close>

definition sections_value :: "(string \<times> kv_map) list \<Rightarrow> string \<Rightarrow> string \<Rightarrow> string" where
  "sections_value ss sec k =
     (case map_of ss sec of
        Some m \<Rightarrow> (case map_of m k of Some v \<Rightarrow> v | None \<Rightarrow> '''')
      | None \<Rightarrow> '''')"

lemma map_of_sec_maps: "map_of (map sec_map ss) sec = map_option (\<lambda>kvs. map_inserts kvs []) (map_of ss sec)"
  by (induction ss) (auto simp: sec_map_def)

lemma map_sorted_Nil [simp]: "map_sorted []"
  by (simp add: map_sorted_def)

lemma loaded_sections_value:
  assumes "configMap p = map_inserts (map sec_map ss) []"
  shows "getValueByKey p sec k = sections_value ss sec k"
proof -
  have m: "map_of (map_inserts kvs []) = map_of kvs" for kvs :: kv_map
    using map_of_inserts [of "[]" kvs] by simp
  have "map_of (configMap p) = map_of (map sec_map ss)"
    using map_of_inserts [of "[]" "map sec_map ss"] by (simp add: assms)
  then show ?thesis
    by (cases "map_of ss sec") (simp_all add: getValueByKey_def sections_value_def map_of_sec_maps m)
qed

text \<open>A file: pairs before the first header, then sections.\<close>

definition config_text :: "kv_map \<Rightarrow> (string \<times> kv_map) list \<Rightarrow> string" where
  "config_text pre ss = unlines (map kv_line pre @ concat (map sec_lines ss))"

fun config_sections :: "kv_map \<Rightarrow> (string \<times> kv_map) list \<Rightarrow> (string \<times> kv_map) list" where
  "config_sections pre [] = [('''', pre)]"
| "config_sections pre ((n, kvs) # ss) = (n, pre @ kvs) # ss"

lemma config_text_lines:
  assumes "\<forall>kv\<in>set pre. kv_ok kv" "\<forall>sc\<in>set ss. sec_ok sc"
  shows "getlines [] (config_text pre ss) = map kv_line pre @ concat (map sec_lines ss)"
  unfolding config_text_def using assms
  by (intro getlines_unlines)
    (fastforce simp: kv_line_def sec_lines_def kv_ok_def key_ok_def sec_ok_def NL_def KEYB_def SECTB_def SECTE_def)

lemma loadConfig2Map_sections:
  assumes pre: "\<forall>kv\<in>set pre. kv_ok kv" and ss: "\<forall>sc\<in>set ss. sec_ok sc"
  shows "loadConfig2Map (Some (config_text pre ss)) [] =
         Inr (map_inserts (map sec_map (config_sections pre ss)) [])"
proof (cases ss)
  case Nil
  then show ?thesis
    using load_kv_lines [OF pre, of "[]"]
    by (simp add: loadConfig2Map_def config_text_lines [OF pre, of "[]", simplified] sec_map_def)
next
  case (Cons sc rest)
  obtain n kvs where sc: "sc = (n, kvs)" by (cases sc)
  let ?s = "\<lparr>l_section = n, l_kvMap = map_inserts kvs (map_inserts pre []), l_isSameSec = True,
             l_is1stSec = False, l_configMap = []\<rparr>"
  have "load_lines (map kv_line pre @ sec_lines sc @ concat (map sec_lines rest))
      \<lparr>l_section = '''', l_kvMap = [], l_isSameSec = True, l_is1stSec = True, l_configMap = []\<rparr> =
      load_lines (concat (map sec_lines rest)) ?s"
    using pre ss by (simp add: load_kv_lines Cons sc sec_ok_def sec_lines_def decideLineType_eq)
  moreover obtain s' where "load_lines (concat (map sec_lines rest)) ?s = Inr s'"
      "l_finish s' = map_inserts (map sec_map rest) (l_finish ?s)"
    using load_sections [of rest ?s] ss by (auto simp: Cons)
  ultimately show ?thesis
    using config_text_lines [OF pre ss] by (simp add: loadConfig2Map_def Cons sc sec_map_def)
qed

section \<open>What a file says\<close>

text \<open>The lines of a text, and what a line is: a header when it begins with \<open>[\<close>, whose name is the rest without its last character,
  whatever that is; otherwise, unless it begins with \<open>#\<close>, a pair when it contains \<open>=\<close>, cut at the first one; every other line says nothing.
  The result is the pairs ahead of the first header and the sections in the order of their headers.\<close>

function file_lines :: "string \<Rightarrow> string list" where
  "file_lines t = (if t = [] then [] else takeWhile (\<lambda>c. c \<noteq> NL) t # file_lines (drop 1 (dropWhile (\<lambda>c. c \<noteq> NL) t)))"
  by pat_completeness auto
termination
  by (relation "measure length") (auto simp: neq_Nil_conv less_Suc_eq_le intro: order_trans [OF diff_le_self length_dropWhile_le])

declare file_lines.simps [simp del]

definition is_header :: "string \<Rightarrow> bool" where
  "is_header l \<longleftrightarrow> l \<noteq> [] \<and> hd l = CHR ''[''"

definition is_pair :: "string \<Rightarrow> bool" where
  "is_pair l \<longleftrightarrow> hd l \<noteq> CHR ''#'' \<and> CHR ''='' \<in> set l"

definition pair_of :: "string \<Rightarrow> string \<times> string" where
  "pair_of l = (takeWhile (\<lambda>c. c \<noteq> CHR ''='') l, tl (dropWhile (\<lambda>c. c \<noteq> CHR ''='') l))"

fun split_sections :: "string list \<Rightarrow> kv_map \<times> (string \<times> kv_map) list" where
  "split_sections [] = ([], [])"
| "split_sections (l # ls) =
     (case split_sections ls of (kvs, ss) \<Rightarrow>
        if is_header l then ([], (butlast (tl l), kvs) # ss)
        else if is_pair l then (pair_of l # kvs, ss) else (kvs, ss))"

definition file_sections :: "string option \<Rightarrow> (string \<times> kv_map) list" where
  "file_sections doc =
     (case split_sections (case doc of None \<Rightarrow> [] | Some t \<Rightarrow> file_lines t) of (pre, ss) \<Rightarrow> config_sections pre ss)"

lemma getlines_eq:
  "getlines acc t =
     (if acc = [] \<and> t = [] then []
      else (rev acc @ takeWhile (\<lambda>c. c \<noteq> NL) t) # file_lines (drop 1 (dropWhile (\<lambda>c. c \<noteq> NL) t)))"
proof (induction acc t rule: getlines.induct)
  case (1 acc)
  then show ?case by (simp add: file_lines.simps)
next
  case (2 acc c cs)
  then show ?case by (cases "c = NL") (auto simp: file_lines.simps [of cs])
qed

lemma getlines_file_lines: "getlines [] t = file_lines t"
  by (simp add: getlines_eq file_lines.simps [of t])

lemma decide_header: "is_header l \<Longrightarrow> decideLineType l = (SECTION, butlast (tl l))"
  by (simp add: decideLineType_eq is_header_def SECTB_def)

lemma decide_pair:
  assumes "\<not> is_header l" "is_pair l"
  shows "decideLineType l = (KEYVAL, l)" "find_eq l 0 = Inr (length (fst (pair_of l)))"
    "pair_of l = (take (length (fst (pair_of l))) l, drop (length (fst (pair_of l)) + 1) l)"
proof -
  have e: "CHR ''='' \<in> set l" "l \<noteq> []"
    using assms(2) by (auto simp: is_pair_def)
  then show "decideLineType l = (KEYVAL, l)"
    using assms by (simp add: decideLineType_eq is_header_def is_pair_def SECTB_def COMTB_def KEYB_def)
  obtain k v where l: "l = k @ CHR ''='' # v" "CHR ''='' \<notin> set k"
    using split_list_first e(1) by metis
  then have "takeWhile (\<lambda>c. c \<noteq> CHR ''='') l = k" "dropWhile (\<lambda>c. c \<noteq> CHR ''='') l = CHR ''='' # v"
    by (auto simp: takeWhile_append takeWhile_eq_all_conv dropWhile_append)
  then have "pair_of l = (k, v)"
    by (simp add: pair_of_def)
  then show "find_eq l 0 = Inr (length (fst (pair_of l)))"
    "pair_of l = (take (length (fst (pair_of l))) l, drop (length (fst (pair_of l)) + 1) l)"
    using l find_eq_at [of 0 k v] by (simp_all add: KEYB_def)
qed

lemma decide_other:
  assumes "\<not> is_header l" "\<not> is_pair l"
  shows "decideLineType l = (COMMENT, '''') \<or> decideLineType l = (ERRLINE, '''')"
  using assms by (auto simp: decideLineType_eq is_header_def is_pair_def SECTB_def COMTB_def KEYB_def)

lemma load_pair:
  assumes "\<not> is_header l" "is_pair l"
  shows "load_lines (l # ls) s = load_lines ls (s\<lparr>l_kvMap := map_inserts [pair_of l] (l_kvMap s)\<rparr>)"
  using decide_pair(1,2) [OF assms] arg_cong [OF decide_pair(3) [OF assms], of "\<lambda>kv. map_inserts [kv] (l_kvMap s)"]
  by simp

lemma load_other:
  assumes "\<not> is_header l" "\<not> is_pair l"
  shows "load_lines (l # ls) s = load_lines ls s"
  using decide_other [OF assms] by auto

text \<open>After the first header, and from the beginning.\<close>

lemma load_rest:
  assumes "\<not> l_is1stSec s" "split_sections ls = (pre, ss)"
  shows "\<exists>s'. load_lines ls s = Inr s' \<and>
    l_finish s' = map_inserts (map sec_map ss) (map_insert (l_section s) (map_inserts pre (l_kvMap s)) (l_configMap s))"
  using assms
proof (induction ls arbitrary: s pre ss)
  case (Cons l ls)
  obtain kvs rest where sp: "split_sections ls = (kvs, rest)"
    by (cases "split_sections ls")
  consider (header) "is_header l" | (pair) "\<not> is_header l" "is_pair l" | (other) "\<not> is_header l" "\<not> is_pair l"
    by blast
  then show ?case
  proof cases
    case header
    let ?s = "s\<lparr>l_isSameSec := False, l_configMap := l_finish s, l_kvMap := [], l_section := butlast (tl l)\<rparr>"
    have "load_lines (l # ls) s = load_lines ls ?s"
      using Cons.prems(1) by (simp add: decide_header [OF header])
    then show ?thesis
      using Cons.IH [of ?s kvs rest] Cons.prems sp header by (auto simp: sec_map_def)
  next
    case pair
    then show ?thesis
      using Cons.IH [of "s\<lparr>l_kvMap := map_inserts [pair_of l] (l_kvMap s)\<rparr>" kvs rest] Cons.prems sp load_pair [OF pair, of ls s]
      by (cases "pair_of l") auto
  next
    case other
    then show ?thesis
      using Cons.IH [of s kvs rest] Cons.prems sp load_other [OF other, of ls s] by auto
  qed
qed simp

lemma load_start:
  assumes "l_is1stSec s" "l_section s = ''''" "split_sections ls = (pre, ss)" "l_configMap s = []" "l_kvMap s = map_inserts kvs0 []"
  shows "\<exists>s'. load_lines ls s = Inr s' \<and> l_finish s' = map_inserts (map sec_map (config_sections (kvs0 @ pre) ss)) []"
  using assms
proof (induction ls arbitrary: s pre ss kvs0)
  case Nil
  then show ?case by (auto simp: sec_map_def)
next
  case (Cons l ls)
  obtain kvs rest where sp: "split_sections ls = (kvs, rest)"
    by (cases "split_sections ls")
  consider (header) "is_header l" | (pair) "\<not> is_header l" "is_pair l" | (other) "\<not> is_header l" "\<not> is_pair l"
    by blast
  then show ?case
  proof cases
    case header
    let ?s = "s\<lparr>l_is1stSec := False, l_section := butlast (tl l)\<rparr>"
    have "load_lines (l # ls) s = load_lines ls ?s"
      using Cons.prems(1) by (simp add: decide_header [OF header])
    moreover obtain s' where "load_lines ls ?s = Inr s'"
      "l_finish s' = map_inserts (map sec_map rest) (map_insert (butlast (tl l)) (map_inserts kvs (l_kvMap s)) (l_configMap s))"
      using load_rest [of ?s ls kvs rest] sp by auto
    ultimately show ?thesis
      using Cons.prems sp header by (auto simp: sec_map_def [of "(n, m)" for n m])
  next
    case pair
    then show ?thesis
      using Cons.IH [of "s\<lparr>l_kvMap := map_inserts [pair_of l] (l_kvMap s)\<rparr>" kvs rest "kvs0 @ [pair_of l]"] Cons.prems sp
        load_pair [OF pair, of ls s]
      by (cases "pair_of l") auto
  next
    case other
    then show ?thesis
      using Cons.IH [of s kvs rest kvs0] Cons.prems sp load_other [OF other, of ls s] by auto
  qed
qed

lemma loadConfig2Map_file: "loadConfig2Map doc [] = Inr (map_inserts (map sec_map (file_sections doc)) [])"
proof -
  let ?ls = "case doc of None \<Rightarrow> [] | Some t \<Rightarrow> file_lines t"
    and ?s = "\<lparr>l_section = '''', l_kvMap = [], l_isSameSec = True, l_is1stSec = True, l_configMap = []\<rparr>"
  obtain pre ss where sp: "split_sections ?ls = (pre, ss)"
    by (cases "split_sections ?ls")
  obtain s' where "load_lines ?ls ?s = Inr s'" "l_finish s' = map_inserts (map sec_map (config_sections pre ss)) []"
    using load_start [of ?s ?ls pre ss "[]"] sp by auto
  moreover have "(case doc of None \<Rightarrow> [] | Some t \<Rightarrow> getlines [] t) = ?ls"
    by (simp add: getlines_file_lines split: option.split)
  ultimately show ?thesis
    using sp by (simp add: loadConfig2Map_def file_sections_def)
qed

text \<open>C34: loading a configuration file that exists gives every key the value it has in the file, whatever the text: in the first section
  of the name the first pair with the key, and the empty string for a key or a section the file does not have.  Lines that begin with \<open>#\<close> and
  lines without \<open>=\<close> say nothing, a line that begins with \<open>[\<close> is a header whose last character is dropped even when it is not \<open>]\<close>, pairs before
  the first header belong to the first section, ahead of its own, and a last line without a newline counts.  A file that cannot be
  opened is an empty one, and one that does not exist leaves all values as they were.\<close>

theorem config_load_values:
  "\<exists>p'. config_load accessible content f p = Inr p' \<and>
    (if accessible f
     then filename p' = f \<and> (\<forall>sec k. getValueByKey p' sec k = sections_value (file_sections (content f)) sec k)
     else p' = p\<lparr>isFileExisted := False\<rparr> \<and> (\<forall>sec k. getValueByKey p' sec k = getValueByKey p sec k))"
proof (cases "accessible f")
  case True
  then show ?thesis
    by (auto simp: config_load_def loadConfig2Map_file loaded_sections_value)
qed (simp add: config_load_def getValueByKey_def)

text \<open>Witness: a comment with \<open>=\<close>, a pair ahead of the first of two headers, one of them not closed, a repeated key and no final newline.\<close>

definition ini_example :: string where
  "ini_example =
     ''# a=b'' @ [NL] @ ''mode=dev'' @ [NL] @ ''[net]'' @ [NL] @ ''port=80'' @ [NL, NL] @ ''port=81'' @ [NL] @ ''[logs'' @ [NL] @ ''x=y''"

theorem config_load_values_witness:
  "\<exists>p'. config_load (\<lambda>_. True) (\<lambda>_. Some ini_example) ''app.ini'' ConfigParser_init = Inr p' \<and>
    getValueByKey p' ''net'' ''port'' = ''80'' \<and> getValueByKey p' ''net'' ''mode'' = ''dev'' \<and> getValueByKey p' ''log'' ''x'' = ''y'' \<and>
    getValueByKey p' ''net'' ''# a'' = ''''"
proof -
  have "file_lines ini_example = [''# a=b'', ''mode=dev'', ''[net]'', ''port=80'', [], ''port=81'', ''[logs'', ''x=y'']"
    unfolding ini_example_def by code_simp
  then have "file_sections (Some ini_example) =
      [(''net'', [(''mode'', ''dev''), (''port'', ''80''), (''port'', ''81'')]), (''log'', [(''x'', ''y'')])]"
    by (simp add: file_sections_def is_header_def is_pair_def pair_of_def)
  then show ?thesis
    using config_load_values [of "\<lambda>_. True" "\<lambda>_. Some ini_example" "''app.ini''" ConfigParser_init]
    by (auto simp: sections_value_def)
qed

section \<open>Any file loads; what the dump loads back to\<close>

definition load_ok :: "load_st \<Rightarrow> bool" where
  "load_ok s \<longleftrightarrow> sec_ok (l_section s, l_kvMap s) \<and> (\<forall>sc\<in>set (l_configMap s). sec_ok sc)"

lemma load_ok_finish: "load_ok s \<Longrightarrow> \<forall>sc\<in>set (l_finish s). sec_ok sc"
  using set_map_insert [of "l_section s" "l_kvMap s" "l_configMap s"] by (auto simp: load_ok_def)

lemma sec_ok_insert: "sec_ok (n, m) \<Longrightarrow> kv_ok (k, v) \<Longrightarrow> sec_ok (n, map_insert k v m)"
  using set_map_insert [of k v m] by (auto simp: sec_ok_def)

lemma key_line_split:
  assumes "decideLineType line = (KEYVAL, content)" "NL \<notin> set line"
  obtains k v where "content = k @ KEYB # v" "kv_ok (k, v)" "find_eq content 0 = Inr (length k)"
proof -
  have c: "content = line" "KEYB \<in> set line" "hd line \<noteq> SECTB" "hd line \<noteq> COMTB"
    using assms(1) by (auto simp: decideLineType_eq split: if_splits)
  then obtain k v where kv: "line = k @ KEYB # v" "KEYB \<notin> set k"
    using split_list_first by metis
  with c assms(2) show ?thesis
    by (intro that [of k v]) (auto simp: kv_ok_def key_ok_def find_eq_at hd_append split: if_splits)
qed

lemma load_lines_total:
  assumes "\<forall>l\<in>set ls. NL \<notin> set l" "load_ok s"
  shows "\<exists>s'. load_lines ls s = Inr s' \<and> load_ok s'"
  using assms
proof (induction ls arbitrary: s)
  case (Cons l ls)
  obtain ty content where d: "decideLineType l = (ty, content)" by (cases "decideLineType l")
  show ?case
  proof (cases ty)
    case SECTION
    have "NL \<notin> set content"
      using Cons.prems(1) d SECTION
      by (auto simp: decideLineType_eq split: if_splits dest!: in_set_butlastD list.set_sel(2) [rotated])
    then have "load_ok (s\<lparr>l_is1stSec := False, l_section := content\<rparr>)"
      "load_ok (s\<lparr>l_isSameSec := False, l_configMap := l_finish s, l_kvMap := [], l_section := content\<rparr>)"
      using Cons.prems(2) load_ok_finish [OF Cons.prems(2)] by (auto simp: load_ok_def sec_ok_def)
    with Cons.IH Cons.prems(1) d SECTION show ?thesis by simp
  next
    case KEYVAL
    with d obtain k v where "content = k @ KEYB # v" "kv_ok (k, v)" "find_eq content 0 = Inr (length k)"
      using Cons.prems(1) key_line_split [of l content] by auto
    with Cons d KEYVAL show ?thesis by (simp add: load_ok_def sec_ok_insert)
  qed (use Cons d in simp_all)
qed simp

lemma loadConfig2Map_total:
  "\<exists>m. loadConfig2Map doc [] = Inr m \<and> m \<noteq> [] \<and> (\<forall>sc\<in>set m. sec_ok sc)"
proof -
  let ?ls = "case doc of None \<Rightarrow> [] | Some t \<Rightarrow> getlines [] t"
    and ?s = "\<lparr>l_section = '''', l_kvMap = [], l_isSameSec = True, l_is1stSec = True, l_configMap = []\<rparr>"
  have "\<forall>l\<in>set ?ls. NL \<notin> set l"
    by (cases doc) (auto dest: getlines_no_NL [rotated])
  then obtain s where s: "load_lines ?ls ?s = Inr s" "load_ok s"
    using load_lines_total [of ?ls ?s] by (auto simp: load_ok_def sec_ok_def)
  have "l_finish s \<noteq> []"
    using fst_map_insert [of "l_section s" "l_kvMap s" "l_configMap s"] by auto
  with s load_ok_finish [OF s(2)] show ?thesis
    by (simp add: loadConfig2Map_def)
qed

definition sec_padded :: "string \<times> kv_map \<Rightarrow> string \<times> kv_map" where
  "sec_padded sc = ('' '' @ fst sc @ '' '', snd sc)"

lemma getAllKey_text: "getAllKey p = config_text [] (map sec_padded (configMap p))"
proof -
  have kv: "concat (map (\<lambda>(k, v). k @ ''='' @ v @ [NL]) kvs) = unlines (map kv_line kvs)" for kvs
    by (induction kvs) (auto simp: unlines_def kv_line_def KEYB_def)
  have un: "unlines (xs @ ys) = unlines xs @ unlines ys" for xs ys
    by (simp add: unlines_def)
  have "concat (map (\<lambda>(sec, m). ''[ '' @ sec @ '' ]'' @ [NL] @
          concat (map (\<lambda>(k, v). k @ ''='' @ v @ [NL]) m)) m) =
        unlines (concat (map sec_lines (map sec_padded m)))" for m
    unfolding kv
    by (induction m) (auto simp: un sec_lines_def sec_padded_def SECTB_def SECTE_def, simp_all add: unlines_def)
  then show ?thesis by (simp add: getAllKey_def config_text_def)
qed

lemma map_of_sec_padded: "map_of (map sec_padded m) ('' '' @ n @ '' '') = map_of m n"
  by (induction m) (auto simp: sec_padded_def)

text \<open>every text loads, without a read beyond the end of a line; and loading what
  \<open>getAllKey\<close> prints gives every value back, but under section names with a blank on either side, because the
  header is printed as \<open>[ name ]\<close> and read without trimming.\<close>

theorem config_dump_reloads_padded:
  "\<exists>p1 p2. config_load (\<lambda>_. True) (\<lambda>_. doc) f p = Inr p1 \<and>
           config_load (\<lambda>_. True) (\<lambda>_. Some (getAllKey p1)) f q = Inr p2 \<and>
           (\<forall>sec k. getValueByKey p2 ('' '' @ sec @ '' '') k = getValueByKey p1 sec k)"
proof -
  obtain m where m: "loadConfig2Map doc [] = Inr m" "m \<noteq> []" "\<forall>sc\<in>set m. sec_ok sc"
    using loadConfig2Map_total by blast
  let ?p1 = "p\<lparr>filename := f, configMap := m\<rparr>" and ?ss = "map sec_padded m"
  have ok: "\<forall>sc\<in>set ?ss. sec_ok sc"
    using m(3) by (auto simp: sec_ok_def sec_padded_def NL_def)
  have "config_sections [] ?ss = ?ss"
    using m(2) by (cases m) (auto simp: sec_padded_def)
  then have "loadConfig2Map (Some (getAllKey ?p1)) [] = Inr (map_inserts (map sec_map ?ss) [])"
    using ok by (simp add: getAllKey_text loadConfig2Map_sections)
  then have 2: "config_load (\<lambda>_. True) (\<lambda>_. Some (getAllKey ?p1)) f q =
      Inr (q\<lparr>filename := f, configMap := map_inserts (map sec_map ?ss) []\<rparr>)" (is "_ = Inr ?p2")
    by (simp add: config_load_def)
  have 1: "config_load (\<lambda>_. True) (\<lambda>_. doc) f p = Inr ?p1"
    by (simp add: config_load_def m(1))
  have "getValueByKey ?p2 n k = sections_value ?ss n k" for n k
    by (rule loaded_sections_value) simp
  moreover have "sections_value ?ss ('' '' @ sec @ '' '') k = getValueByKey ?p1 sec k" for sec k
    by (simp add: sections_value_def getValueByKey_def map_of_sec_padded del: append.simps)
  ultimately have "\<forall>sec k. getValueByKey ?p2 ('' '' @ sec @ '' '') k = getValueByKey ?p1 sec k"
    by (simp del: append.simps)
  with 1 2 show ?thesis by blast
qed

end
