(* ===== verification/CaskBar.thy ===== *)
theory CaskBar
  imports CaskAtomic CaskInterleave
begin

text \<open>
  The barrier of \<open>co_bar.h\<close>.  Its mutex is the task that owns it and its condition variable the sequence of
  waiting tasks, as the mutex and condition variable components establish them: \<open>co_mutex_lock\<close> is
  enabled when the mutex is free, \<open>co_cond_wait\<close> joins the list, frees the mutex and goes on once a broadcast
  has removed the task from the list.  Every call of \<open>co_bar_wait\<close> and \<open>co_bar_destory\<close> is a numbered call of
  the interleaving.  \<open>arrived\<close> records the calls that decremented the counter and \<open>destroyed\<close> whether the barrier was
  destroyed; no step depends on them.
\<close>

section \<open>Model\<close>

datatype bpc =
    BIdle               \<comment> \<open>not a call\<close>
  | BRead               \<comment> \<open>\<open>co_bar_wait\<close>, at the first test\<close>
  | BLock               \<comment> \<open>at \<open>co_mutex_lock\<close>\<close>
  | BBody               \<comment> \<open>holding the mutex, at the second test\<close>
  | BLoop               \<comment> \<open>at the test of the loop, first time\<close>
  | BWait               \<comment> \<open>in \<open>co_cond_wait\<close>, switched away\<close>
  | BRelock             \<comment> \<open>in \<open>co_cond_wait\<close>, at \<open>co_mutex_lock\<close>\<close>
  | BTest               \<comment> \<open>at the test of the loop after a wait\<close>
  | DLock | DBody       \<comment> \<open>\<open>co_bar_destory\<close>\<close>
  | BDone               \<comment> \<open>returned\<close>

record co_bar =
  bcount :: atomic_t
  bowner :: "nat option"
  bwaiters :: "nat list"
  arrived :: "nat list"
  destroyed :: bool

definition co_bar_init :: "cint \<Rightarrow> co_bar" where
  "co_bar_init cnt =
     \<lparr>bcount = \<lparr>v = cnt\<rparr>, bowner = None, bwaiters = [], arrived = [], destroyed = False\<rparr>"

definition bar_lock :: "nat \<Rightarrow> bpc \<Rightarrow> co_bar \<Rightarrow> (bpc \<times> co_bar) option" where
  "bar_lock t p s = (if bowner s = None then Some (p, s\<lparr>bowner := Some t\<rparr>) else None)"

definition bar_loop :: "nat \<Rightarrow> co_bar \<Rightarrow> bpc \<times> co_bar" where
  "bar_loop t s =
     (if 0 <s atomic_get (bcount s) then (BWait, s\<lparr>bwaiters := bwaiters s @ [t], bowner := None\<rparr>)
      else (BDone, s\<lparr>bowner := None\<rparr>))"

definition co_bar_wait :: "nat \<Rightarrow> co_bar \<Rightarrow> bpc \<times> co_bar" where
  "co_bar_wait t s =
     (if atomic_get (bcount s) = 0 then (BDone, s\<lparr>bowner := None\<rparr>)
      else let (r, c) = atomic_sub_and_fetch 1 (bcount s); s1 = s\<lparr>bcount := c, arrived := t # arrived s\<rparr> in
           if r = 0 then (BDone, s1\<lparr>bwaiters := [], bowner := None\<rparr>)
           else (BLoop, s1))"

definition co_bar_destory :: "co_bar \<Rightarrow> bpc \<times> co_bar" where
  "co_bar_destory s =
     (BDone, s\<lparr>bcount := atomic_set 0 (bcount s), bwaiters := [], bowner := None, destroyed := True\<rparr>)"

fun bar_exec :: "(bpc, co_bar) exec" where
  "bar_exec t BIdle s = None"
| "bar_exec t BRead s = Some (if atomic_get (bcount s) = 0 then BDone else BLock, s)"
| "bar_exec t BLock s = bar_lock t BBody s"
| "bar_exec t BBody s = Some (co_bar_wait t s)"
| "bar_exec t BLoop s = Some (bar_loop t s)"
| "bar_exec t BWait s = (if t \<in> set (bwaiters s) then None else Some (BRelock, s))"
| "bar_exec t BRelock s = bar_lock t BTest s"
| "bar_exec t BTest s = Some (bar_loop t s)"
| "bar_exec t DLock s = bar_lock t DBody s"
| "bar_exec t DBody s = Some (co_bar_destory s)"
| "bar_exec t BDone s = None"

section \<open>Invariant\<close>

fun bholds :: "bpc \<Rightarrow> bool" where
  "bholds BBody = True"
| "bholds BLoop = True"
| "bholds BTest = True"
| "bholds DBody = True"
| "bholds _ = False"

fun bbefore :: "bpc \<Rightarrow> bool" where
  "bbefore BRead = True"
| "bbefore BLock = True"
| "bbefore BBody = True"
| "bbefore _ = False"

fun blate :: "bpc \<Rightarrow> bool" where
  "blate BRelock = True"
| "blate BTest = True"
| "blate BDone = True"
| "blate _ = False"

definition hold_inv :: "(nat \<Rightarrow> bpc) \<Rightarrow> nat option \<Rightarrow> bool" where
  "hold_inv p ow \<longleftrightarrow> (\<forall>t. bholds (p t) = (ow = Some t))"

definition wait_inv :: "(nat \<Rightarrow> bpc) \<Rightarrow> nat list \<Rightarrow> nat \<Rightarrow> bool" where
  "wait_inv p ws k \<longleftrightarrow>
     (\<forall>t\<in>set ws. p t = BWait) \<and> (k = 0 \<longrightarrow> ws = []) \<and>
     (k \<noteq> 0 \<longrightarrow> (\<forall>t. \<not> blate (p t) \<and> (p t = BWait \<longrightarrow> t \<in> set ws)))"

definition arr_inv :: "(nat \<Rightarrow> bpc) \<Rightarrow> nat list \<Rightarrow> bool" where
  "arr_inv p as \<longleftrightarrow> distinct as \<and> (\<forall>t\<in>set as. \<not> bbefore (p t))"

text \<open>\<open>n\<close> is the initial count and \<open>k\<close> what is left of it.\<close>

definition bar_inv :: "nat \<Rightarrow> nat \<Rightarrow> (nat \<Rightarrow> bpc) \<Rightarrow> co_bar \<Rightarrow> bool" where
  "bar_inv n k p s \<longleftrightarrow>
     n < 2 ^ 31 \<and> v (bcount s) = word_of_nat k \<and>
     (if destroyed s then k = 0 else k + length (arrived s) = n) \<and>
     hold_inv p (bowner s) \<and> wait_inv p (bwaiters s) k \<and> arr_inv p (arrived s)"

lemma hold_inv_upd:
  assumes "hold_inv p ow" "bholds x \<Longrightarrow> bholds (p t) \<or> ow = None"
  shows "hold_inv (p(t := x)) (if bholds x then Some t else if bholds (p t) then None else ow)"
  using assms by (cases ow; cases "bholds x") (auto simp: hold_inv_def)

lemma wait_inv_upd:
  "wait_inv p ws k \<Longrightarrow> p t \<noteq> BWait \<Longrightarrow> x \<noteq> BWait \<Longrightarrow> \<not> blate x \<or> k = 0 \<Longrightarrow> wait_inv (p(t := x)) ws k"
  by (auto simp: wait_inv_def)

lemma wait_inv_join: "wait_inv p ws k \<Longrightarrow> k \<noteq> 0 \<Longrightarrow> wait_inv (p(t := BWait)) (ws @ [t]) k"
  by (auto simp: wait_inv_def)

lemma wait_inv_woken: "wait_inv p ws k \<Longrightarrow> p t = BWait \<Longrightarrow> t \<notin> set ws \<Longrightarrow> wait_inv (p(t := BRelock)) ws k"
  by (auto simp: wait_inv_def)

lemma wait_inv_late: "wait_inv p ws k \<Longrightarrow> blate (p t) \<Longrightarrow> k = 0"
  by (auto simp: wait_inv_def)

lemma wait_inv_open: "wait_inv p [] 0"
  by (simp add: wait_inv_def)

lemma wait_inv_dec: "wait_inv p ws k \<Longrightarrow> k \<noteq> 0 \<Longrightarrow> k' \<noteq> 0 \<Longrightarrow> wait_inv p ws k'"
  by (simp add: wait_inv_def)

lemma arr_inv_upd: "arr_inv p as \<Longrightarrow> \<not> bbefore x \<or> bbefore (p t) \<Longrightarrow> arr_inv (p(t := x)) as"
  by (auto simp: arr_inv_def)

lemma arr_inv_add: "arr_inv p as \<Longrightarrow> bbefore (p t) \<Longrightarrow> \<not> bbefore x \<Longrightarrow> arr_inv (p(t := x)) (t # as)"
  by (auto simp: arr_inv_def)

lemma bar_inv_less: "bar_inv n k p s \<Longrightarrow> k < 2 ^ 31"
  by (cases "destroyed s") (simp_all add: bar_inv_def)

lemma bar_inv_init:
  assumes "n < 2 ^ 31" "n \<noteq> 0" "\<forall>t. p t = BIdle \<or> p t = BRead \<or> p t = DLock"
  shows "bar_inv n n p (co_bar_init (word_of_nat n))"
proof -
  have "\<not> bholds (p t) \<and> \<not> blate (p t) \<and> p t \<noteq> BWait" for t
    using assms(3) [rule_format, of t] by auto
  then show ?thesis
    using assms(1,2) by (simp add: bar_inv_def co_bar_init_def hold_inv_def wait_inv_def arr_inv_def)
qed

definition bar_left :: "nat \<Rightarrow> bpc \<Rightarrow> nat" where
  "bar_left k pc = (if pc = BBody then k - 1 else if pc = DBody then 0 else k)"

lemma bar_step_inv:
  assumes inv: "bar_inv n k p s" and step: "bar_exec t (p t) s = Some (x, s')"
  shows "bar_inv n (bar_left k (p t)) (p(t := x)) s'"
proof -
  note c = word_of_nat_count [OF bar_inv_less [OF inv]]
  have cnt: "v (bcount s) = word_of_nat k" and n: "n < 2 ^ 31"
    and h: "hold_inv p (bowner s)" and w: "wait_inv p (bwaiters s) k" and a: "arr_inv p (arrived s)"
    and d: "if destroyed s then k = 0 else k + length (arrived s) = n"
    using inv unfolding bar_inv_def by blast+
  have own: "bholds (p t) \<Longrightarrow> bowner s = Some t"
    using h by (simp add: hold_inv_def)
  note up = n d cnt h w a own hold_inv_upd [OF h, of x t] wait_inv_upd [OF w, of t x] arr_inv_upd [OF a, of x t]
  note defs = bar_inv_def bar_left_def atomic_get_def bar_lock_def co_bar_wait_def bar_loop_def
  show ?thesis
  proof (cases "p t")
    case BRead
    then show ?thesis using step up c(1) by (auto simp: defs)
  next
    case BLock
    then show ?thesis using step up by (auto simp: defs split: if_splits)
  next
    case BBody
    show ?thesis
    proof (cases "k = 0")
      case True
      then show ?thesis using step up BBody by (auto simp: defs split: if_splits)
    next
      case False
      have kk: "v (bcount s) - 1 = word_of_nat (k - 1)" and k1: "k - 1 < 2 ^ 31"
        using False cnt bar_inv_less [OF inv] by simp_all
      note z = word_of_nat_count(1) [OF k1] arr_inv_add [OF a, of t x]
      show ?thesis
      proof (cases "k = 1")
        case True
        then show ?thesis
          using step up BBody z wait_inv_open kk by (auto simp: defs atomic_sub_and_fetch_def)
      next
        case k: False
        then have "wait_inv (p(t := x)) (bwaiters s) (k - 1)" if "x = BLoop"
          using wait_inv_dec [of "p(t := x)" "bwaiters s" k "k - 1"] False up BBody that by simp
        then show ?thesis
          using step up BBody z kk False k c(1) by (auto simp: defs atomic_sub_and_fetch_def)
      qed
    qed
  next
    case BLoop
    then show ?thesis
      using step up c(2) wait_inv_join [OF w, of t] by (auto simp: defs split: if_splits)
  next
    case BWait
    then show ?thesis
      using step up wait_inv_woken [OF w, of t] by (auto simp: defs split: if_splits)
  next
    case BRelock
    then have "k = 0" using wait_inv_late [OF w, of t] by simp
    then show ?thesis using BRelock step up by (auto simp: defs split: if_splits)
  next
    case BTest
    then show ?thesis
      using step up c(2) wait_inv_join [OF w, of t] by (auto simp: defs split: if_splits)
  next
    case DLock
    then show ?thesis using step up by (auto simp: defs split: if_splits)
  next
    case DBody
    then show ?thesis using step up wait_inv_open by (auto simp: defs co_bar_destory_def atomic_set_def)
  qed (use step in simp_all)
qed

lemma bar_run_inv:
  assumes "sys_run bar_exec ts (p, s) = Some \<sigma>'" "bar_inv n k p s"
  shows "\<exists>k'. bar_inv n k' (fst \<sigma>') (snd \<sigma>')"
proof -
  have "(\<lambda>\<sigma>. \<exists>k. bar_inv n k (fst \<sigma>) (snd \<sigma>)) \<sigma>'"
    using assms by (rule_tac sys_run_inv) (auto simp: sys_step_iff, blast intro: bar_step_inv)
  then show ?thesis .
qed

section \<open>Progress\<close>

fun bar_rank :: "bpc \<Rightarrow> nat" where
  "bar_rank BIdle = 0"
| "bar_rank BRead = 7"
| "bar_rank BLock = 6"
| "bar_rank BBody = 5"
| "bar_rank BLoop = 4"
| "bar_rank BWait = 3"
| "bar_rank BRelock = 2"
| "bar_rank BTest = 1"
| "bar_rank DLock = 2"
| "bar_rank DBody = 1"
| "bar_rank BDone = 0"

text \<open>While \<open>k\<close> arrivals are missing, at least \<open>k\<close> calls are still on their way.\<close>

definition bar_live :: "(bpc, co_bar) sys \<Rightarrow> bool" where
  "bar_live \<sigma> \<longleftrightarrow>
     (\<exists>n k. bar_inv n k (fst \<sigma>) (snd \<sigma>) \<and> finite {t. bar_rank (fst \<sigma> t) \<noteq> 0} \<and>
            k \<le> card {t. bbefore (fst \<sigma> t)})"

lemma bbefore_rank: "bbefore x \<Longrightarrow> bar_rank x \<noteq> 0"
  by (cases x) simp_all

lemma finite_bbefore: "finite {t. bar_rank (p t) \<noteq> 0} \<Longrightarrow> finite {t. bbefore (p t)}"
  by (rule finite_subset [rotated]) (use bbefore_rank in blast)+

lemma bar_live_rank:
  assumes "bar_live \<sigma>" "bar_exec t (fst \<sigma> t) (snd \<sigma>) = Some (x, s)"
  shows "bar_rank x < bar_rank (fst \<sigma> t)"
proof -
  obtain n k where inv: "bar_inv n k (fst \<sigma>) (snd \<sigma>)"
    using assms(1) by (auto simp: bar_live_def)
  have "k = 0" if "fst \<sigma> t = BTest"
    using inv that unfolding bar_inv_def wait_inv_def by (metis blate.simps(2))
  moreover have "v (bcount (snd \<sigma>)) = word_of_nat k"
    using inv by (simp add: bar_inv_def)
  ultimately show ?thesis
    using assms(2)
    by (cases "fst \<sigma> t")
      (auto simp: bar_lock_def co_bar_wait_def bar_loop_def co_bar_destory_def atomic_get_def Let_def
        split: if_splits prod.splits)
qed

lemma bbefore_step:
  assumes "bar_inv n k p s" "bar_exec t (p t) s = Some (x, s')" "finite {t. bbefore (p t)}"
    and "k \<le> card {t. bbefore (p t)}"
  shows "bar_left k (p t) \<le> card {u. bbefore ((p(t := x)) u)}"
proof -
  let ?A = "{t. bbefore (p t)}"
  have le: "bar_left k (p t) \<le> k" by (simp add: bar_left_def)
  have A': "{u. bbefore ((p(t := x)) u)} = (if bbefore x then insert t ?A else ?A - {t})"
    by auto
  show ?thesis
  proof (cases "bbefore x \<or> \<not> bbefore (p t)")
    case True
    then have "card ?A \<le> card {u. bbefore ((p(t := x)) u)}"
      unfolding A' using assms(3) by (auto intro!: card_mono)
    with le assms(4) show ?thesis by simp
  next
    case False
    then have "p t = BRead \<and> k = 0 \<or> p t = BBody"
      using assms(2) word_of_nat_count(1) [OF bar_inv_less [OF assms(1)]] assms(1)
      by (cases "p t") (auto simp: bar_lock_def atomic_get_def bar_inv_def split: if_splits)
    moreover have "card (?A - {t}) = card ?A - 1"
      using False assms(3) by simp
    ultimately show ?thesis
      using False assms(4) unfolding A' by (auto simp: bar_left_def)
  qed
qed

lemma bar_live_step:
  assumes "bar_live \<sigma>" "sys_step bar_exec t \<sigma> = Some \<sigma>'"
  shows "bar_live \<sigma>'"
proof -
  obtain n k where inv: "bar_inv n k (fst \<sigma>) (snd \<sigma>)" and fin: "finite {t. bar_rank (fst \<sigma> t) \<noteq> 0}"
    and le: "k \<le> card {t. bbefore (fst \<sigma> t)}"
    using assms(1) by (auto simp: bar_live_def)
  obtain x s where st: "bar_exec t (fst \<sigma> t) (snd \<sigma>) = Some (x, s)" "\<sigma>' = ((fst \<sigma>)(t := x), s)"
    using assms(2) by (auto simp: sys_step_iff)
  have "{u. bar_rank (((fst \<sigma>)(t := x)) u) \<noteq> 0} \<subseteq> insert t {t. bar_rank (fst \<sigma> t) \<noteq> 0}"
    by auto
  then have "finite {u. bar_rank (((fst \<sigma>)(t := x)) u) \<noteq> 0}"
    using fin by (meson finite.insertI finite_subset)
  then show ?thesis
    using bar_step_inv [OF inv st(1)] bbefore_step [OF inv st(1) finite_bbefore [OF fin] le]
    unfolding bar_live_def st(2) fst_conv snd_conv by blast
qed

lemma bar_live_progress:
  assumes "bar_live \<sigma>" "bar_rank (fst \<sigma> t) \<noteq> 0"
  shows "\<not> sys_stuck bar_exec \<sigma>"
proof
  assume stuck: "sys_stuck bar_exec \<sigma>"
  obtain n k where inv: "bar_inv n k (fst \<sigma>) (snd \<sigma>)" and le: "k \<le> card {t. bbefore (fst \<sigma> t)}"
    using assms(1) by (auto simp: bar_live_def)
  have none: "bar_exec u (fst \<sigma> u) (snd \<sigma>) = None" for u
    using stuck by (simp add: sys_stuck_def sys_step_None)
  have free: "bowner (snd \<sigma>) = None"
  proof (rule ccontr)
    assume "bowner (snd \<sigma>) \<noteq> None"
    then obtain u where "bholds (fst \<sigma> u)"
      using inv by (auto simp: bar_inv_def hold_inv_def)
    then show False using none [of u] by (cases "fst \<sigma> u") simp_all
  qed
  have wait: "fst \<sigma> u = BWait \<and> u \<in> set (bwaiters (snd \<sigma>))" if "bar_rank (fst \<sigma> u) \<noteq> 0" for u
    using that none [of u] free by (cases "fst \<sigma> u") (auto simp: bar_lock_def split: if_splits)
  have "\<not> bbefore (fst \<sigma> u)" for u
  proof
    assume b: "bbefore (fst \<sigma> u)"
    with wait [of u] bbefore_rank show False by fastforce
  qed
  then have "k = 0" using le by simp
  then show False
    using wait [OF assms(2)] inv by (simp add: bar_inv_def wait_inv_def)
qed

interpretation bar: drain bar_exec bar_live bar_rank
proof unfold_locales
  show "finite {t. bar_rank (fst \<sigma> t) \<noteq> 0}" if "bar_live \<sigma>" for \<sigma> :: "(bpc, co_bar) sys"
    using that unfolding bar_live_def by blast
qed (erule (1) bar_live_step bar_live_rank bar_live_progress)+

section \<open>Properties\<close>

text \<open>C27: \<^bold>\<open>Nobody passes the barrier early.\<close> In every interleaving of any number of calls of \<open>co_bar_wait\<close> and
  \<open>co_bar_destory\<close> on a barrier initialised with \<open>n\<close>, when a call has returned, \<open>n\<close> different calls of \<open>co_bar_wait\<close> have arrived, or
  the barrier was destroyed.\<close>

theorem bar_no_early_pass:
  assumes "sys_run bar_exec ts (p, co_bar_init (word_of_nat n)) = Some \<sigma>'"
    and "\<forall>t. p t = BIdle \<or> p t = BRead \<or> p t = DLock" "0 < n" "n < 2 ^ 31"
    and "fst \<sigma>' t = BDone"
  shows "destroyed (snd \<sigma>') \<or> distinct (arrived (snd \<sigma>')) \<and> length (arrived (snd \<sigma>')) = n"
proof -
  obtain k where inv: "bar_inv n k (fst \<sigma>') (snd \<sigma>')"
    using bar_run_inv [OF assms(1) bar_inv_init] assms(2-4) by blast
  then have "k = 0"
    using wait_inv_late [of "fst \<sigma>'" "bwaiters (snd \<sigma>')" k t] assms(5) by (simp add: bar_inv_def)
  then show ?thesis
    using inv by (auto simp: bar_inv_def arr_inv_def split: if_splits)
qed

definition bar_calls :: "nat \<Rightarrow> nat \<Rightarrow> bpc" where
  "bar_calls m t = (if t < m then BRead else BIdle)"

text \<open>Witness: two calls on a barrier of two; the second opens it.\<close>

theorem bar_no_early_pass_witness:
  "\<exists>\<sigma>'. sys_run bar_exec [0, 0, 0, 0, 1, 1, 1] (bar_calls 2, co_bar_init (word_of_nat 2)) = Some \<sigma>' \<and>
        fst \<sigma>' 1 = BDone \<and> length (arrived (snd \<sigma>')) = 2"
proof -
  obtain \<sigma>' where r: "sys_run bar_exec [0, 0, 0, 0, 1, 1, 1] (bar_calls 2, co_bar_init (word_of_nat 2)) = Some \<sigma>'"
      "fst \<sigma>' 1 = BDone" "\<not> destroyed (snd \<sigma>')"
    by (simp add: sys_step_def bar_calls_def co_bar_init_def atomic_get_def bar_lock_def co_bar_wait_def
        atomic_sub_and_fetch_def bar_loop_def word_sless_alt)
  have "\<forall>t. bar_calls 2 t = BIdle \<or> bar_calls 2 t = BRead \<or> bar_calls 2 t = DLock"
    by (simp add: bar_calls_def)
  from bar_no_early_pass [OF r(1) this _ _ r(2)] r show ?thesis by auto
qed

lemma bar_not_idle:
  assumes "sys_run bar_exec ts \<sigma> = Some \<sigma>'" "fst \<sigma> t \<noteq> BIdle"
  shows "fst \<sigma>' t \<noteq> BIdle"
proof -
  have "bar_exec u q s \<noteq> Some (BIdle, s')" for u q s s'
    by (cases q)
      (auto simp: bar_lock_def co_bar_wait_def bar_loop_def co_bar_destory_def Let_def split: if_splits prod.splits)
  then have "(\<lambda>\<sigma>. fst \<sigma> t \<noteq> BIdle) \<sigma>'"
    using assms by (rule_tac sys_run_inv) (auto simp: sys_step_iff split: if_splits)
  then show ?thesis .
qed

text \<open>C28: \<^bold>\<open>Everybody passes the barrier.\<close> With at least \<open>n\<close> calls of \<open>co_bar_wait\<close> on a barrier initialised with \<open>n\<close>, no
  interleaving is longer than seven steps for each of the \<open>m\<close> calls, and an interleaving that cannot be
  extended has brought every call to its end: nobody stays in the wait list or in front of the mutex.\<close>

theorem bar_everybody_passes:
  assumes "0 < n" "n \<le> m" "n < 2 ^ 31"
    and "sys_run bar_exec ts (bar_calls m, co_bar_init (word_of_nat n)) = Some \<sigma>'"
  shows "length ts \<le> 7 * m \<and> (sys_stuck bar_exec \<sigma>' \<longrightarrow> (\<forall>t < m. fst \<sigma>' t = BDone))"
proof -
  let ?\<sigma> = "(bar_calls m, co_bar_init (word_of_nat n))"
  have A: "{t. bar_rank (bar_calls m t) \<noteq> 0} = {..<m}" "{t. bbefore (bar_calls m t)} = {..<m}"
    by (auto simp: bar_calls_def split: if_splits)
  have "bar_inv n n (bar_calls m) (co_bar_init (word_of_nat n))"
    by (rule bar_inv_init) (use assms in \<open>auto simp: bar_calls_def\<close>)
  then have live: "bar_live ?\<sigma>"
    using assms(2) A unfolding bar_live_def by auto
  have "rank_sum bar_rank ?\<sigma> = (\<Sum>t<m. 7)"
    unfolding rank_sum_def fst_conv A(1) by (rule sum.cong) (auto simp: bar_calls_def)
  then have "length ts \<le> 7 * m"
    using bar.run_rank [OF assms(4) live] by simp
  moreover have "fst \<sigma>' t = BDone" if "sys_stuck bar_exec \<sigma>'" "t < m" for t
  proof -
    have "bar_rank (fst \<sigma>' t) = 0" by (rule bar.stuck_final [OF assms(4) live that(1)])
    moreover have "fst \<sigma>' t \<noteq> BIdle"
      by (rule bar_not_idle [OF assms(4)]) (use that(2) in \<open>simp add: bar_calls_def\<close>)
    ultimately show ?thesis by (cases "fst \<sigma>' t") simp_all
  qed
  ultimately show ?thesis by blast
qed

text \<open>Witness: two calls on a barrier of two, run to the end.\<close>

theorem bar_everybody_passes_witness:
  "\<exists>\<sigma>'. sys_run bar_exec [0, 0, 0, 0, 1, 1, 1, 0, 0, 0] (bar_calls 2, co_bar_init (word_of_nat 2)) = Some \<sigma>' \<and>
        sys_stuck bar_exec \<sigma>' \<and> (\<forall>t < 2. fst \<sigma>' t = BDone)"
proof -
  obtain \<sigma>' where r: "sys_run bar_exec [0, 0, 0, 0, 1, 1, 1, 0, 0, 0] (bar_calls 2, co_bar_init (word_of_nat 2)) = Some \<sigma>'"
      "sys_stuck bar_exec \<sigma>'"
    by (simp add: sys_step_def bar_calls_def co_bar_init_def atomic_get_def bar_lock_def co_bar_wait_def
        atomic_sub_and_fetch_def bar_loop_def word_sless_alt sys_stuck_def)
  from bar_everybody_passes [OF _ _ _ r(1)] r show ?thesis by auto
qed

end
