(* ===== verification/NattanThreadPool.thy ===== *)
theory NattanThreadPool
  imports CaskInterleave
begin

text \<open>
  \<open>thread/ThreadPool.h\<close>: a pool of worker threads on an \<open>ArrayBlockingQueue\<close>.  The queue is the sequence of its
  elements with the thread that holds its mutex and the threads that wait on its two conditions, as the
  queue component establishes them; \<open>offer\<close> keeps its three synchronisation points, among them \<open>try_lock\<close>, which fails
  while any other thread holds the mutex.  Calls \<open>0\<close> to \<open>threadNum - 1\<close> are the worker threads, which wait to
  be created; a wait may end without a notification (a spurious wake-up). Other numbers are calls of \<open>start\<close>, \<open>stop\<close>, \<open>offer\<close> and \<open>put\<close>.  Running a \<open>Runnable\<close> is one step.
  \<open>accepted\<close>, \<open>taken\<close> and \<open>ran\<close> record what went into the queue, came out of it and was run; no step depends on them.
\<close>

section \<open>Model\<close>

datatype 'r item = EmptyRunner | Runner 'r

datatype 'r ppc =
    PIdle
  | StTest | StMark | StServe | StLoop nat
  | KNew | KCheck | KLock | KTest | KWait | KRun "'r item" | KDead
  | SpStop | SpTest nat | SpTry nat | SpIn nat | SpJoin "nat list"
  | OfCheck "'r item" | OfTest "'r item" | OfTry "'r item" | OfIn "'r item"
  | PuCheck "'r item" | PuLock "'r item" | PuTest "'r item" | PuWait "'r item"
  | PDone

record 'r pool =
  threadNum :: nat
  running :: bool
  bStarted :: bool
  capcity :: nat
  qlock :: "nat option"
  items :: "'r item list"
  notFull :: "nat list"
  notEmpty :: "nat list"
  created :: "nat list"
  workers :: "nat list"
  dead :: "nat list"
  accepted :: "'r item list"
  taken :: "'r item list"
  ran :: "'r item list"

definition pool_new :: "nat \<Rightarrow> nat \<Rightarrow> 'r pool" where
  "pool_new n c =
     \<lparr>threadNum = n, running = False, bStarted = False, capcity = c, qlock = None, items = [], notFull = [],
      notEmpty = [], created = [], workers = [], dead = [], accepted = [], taken = [], ran = []\<rparr>"

definition q_acquire :: "nat \<Rightarrow> 'r ppc \<Rightarrow> 'r pool \<Rightarrow> ('r ppc \<times> 'r pool) option" where
  "q_acquire t p s = (if qlock s = None then Some (p, s\<lparr>qlock := Some t\<rparr>) else None)"

definition q_full :: "'r pool \<Rightarrow> bool" where
  "q_full s = (length (items s) = capcity s)"

definition q_enqueue :: "'r item \<Rightarrow> 'r pool \<Rightarrow> 'r pool" where
  "q_enqueue x s = s\<lparr>items := items s @ [x], notEmpty := [], accepted := accepted s @ [x], qlock := None\<rparr>"

text \<open>The three steps of \<open>tasks.offer(x)\<close>; \<open>fin\<close> is where the caller goes on, and in the last step the full queue
  leaves the mutex locked.\<close>

definition offer_test :: "'r ppc \<Rightarrow> 'r ppc \<Rightarrow> 'r pool \<Rightarrow> 'r ppc \<times> 'r pool" where
  "offer_test try fin s = (if q_full s then (fin, s) else (try, s))"

definition offer_try :: "nat \<Rightarrow> 'r ppc \<Rightarrow> 'r ppc \<Rightarrow> 'r pool \<Rightarrow> 'r ppc \<times> 'r pool" where
  "offer_try t inn fin s = (if qlock s = None then (inn, s\<lparr>qlock := Some t\<rparr>) else (fin, s))"

definition offer_in :: "'r item \<Rightarrow> 'r ppc \<Rightarrow> 'r pool \<Rightarrow> 'r ppc \<times> 'r pool" where
  "offer_in x fin s = (if q_full s then (fin, s) else (fin, q_enqueue x s))"

text \<open>\<open>take\<close> and \<open>put\<close> at the test of their loops, with the mutex held.\<close>

definition take_test :: "nat \<Rightarrow> 'r pool \<Rightarrow> 'r ppc \<times> 'r pool" where
  "take_test t s =
     (case items s of
        [] \<Rightarrow> (KWait, s\<lparr>notEmpty := t # notEmpty s, qlock := None\<rparr>)
      | x # xs \<Rightarrow> (KRun x, s\<lparr>items := xs, notFull := [], taken := taken s @ [x], qlock := None\<rparr>))"

definition put_test :: "nat \<Rightarrow> 'r item \<Rightarrow> 'r pool \<Rightarrow> 'r ppc \<times> 'r pool" where
  "put_test t x s =
     (if q_full s then (PuWait x, s\<lparr>notFull := t # notFull s, qlock := None\<rparr>) else (PDone, q_enqueue x s))"

text \<open>\<open>Worker::run\<close>; the thread runs once it has been created.\<close>

fun worker_exec :: "('r ppc, 'r pool) exec" where
  "worker_exec t KNew s = (if t \<in> set (created s) then Some (KCheck, s) else None)"
| "worker_exec t KCheck s =
     (if running s then Some (KLock, s) else Some (KDead, s\<lparr>dead := t # dead s\<rparr>))"
| "worker_exec t KLock s = q_acquire t KTest s"
| "worker_exec t KTest s = Some (take_test t s)"
| "worker_exec t KWait s = q_acquire t KTest (s\<lparr>notEmpty := removeAll t (notEmpty s)\<rparr>)"
| "worker_exec t (KRun x) s = Some (KCheck, s\<lparr>ran := ran s @ [x]\<rparr>)"
| "worker_exec t p s = None"

definition start_exec :: "'r ppc \<Rightarrow> 'r pool \<Rightarrow> ('r ppc \<times> 'r pool) option" where
  "start_exec p s =
     (case p of
        StTest \<Rightarrow> Some (if bStarted s then PDone else StMark, s)
      | StMark \<Rightarrow> Some (StServe, s\<lparr>bStarted := True\<rparr>)
      | StServe \<Rightarrow> Some (StLoop 0, s\<lparr>running := True\<rparr>)
      | StLoop i \<Rightarrow> 
          Some (if i < threadNum s
                then (StLoop (Suc i), s\<lparr>created := i # created s, workers := workers s @ [i]\<rparr>)
                else (PDone, s))
      | _ \<Rightarrow> None)"

text \<open>\<open>stop\<close>: the argument is the loop counter; then the workers are joined in order and the vector is cleared.\<close>

definition stop_next :: "nat \<Rightarrow> 'r pool \<Rightarrow> 'r ppc" where
  "stop_next i s = (if Suc i < threadNum s then SpTest (Suc i) else SpJoin (workers s))"

fun stop_exec :: "('r ppc, 'r pool) exec" where
  "stop_exec t SpStop s =
     Some (if 0 < threadNum s then SpTest 0 else SpJoin (workers s), s\<lparr>running := False\<rparr>)"
| "stop_exec t (SpTest i) s = Some (offer_test (SpTry i) (stop_next i s) s)"
| "stop_exec t (SpTry i) s = Some (offer_try t (SpIn i) (stop_next i s) s)"
| "stop_exec t (SpIn i) s = Some (offer_in EmptyRunner (stop_next i s) s)"
| "stop_exec t (SpJoin []) s = Some (PDone, s\<lparr>workers := []\<rparr>)"
| "stop_exec t (SpJoin (w # ws)) s = (if w \<in> set (dead s) then Some (SpJoin ws, s) else None)"
| "stop_exec t p s = None"

text \<open>\<open>ThreadPool::offer\<close> and \<open>ThreadPool::put\<close>.\<close>

fun submit_exec :: "('r ppc, 'r pool) exec" where
  "submit_exec t (OfCheck x) s = Some (if running s then OfTest x else PDone, s)"
| "submit_exec t (OfTest x) s = Some (offer_test (OfTry x) PDone s)"
| "submit_exec t (OfTry x) s = Some (offer_try t (OfIn x) PDone s)"
| "submit_exec t (OfIn x) s = Some (offer_in x PDone s)"
| "submit_exec t (PuCheck x) s = Some (if running s then PuLock x else PDone, s)"
| "submit_exec t (PuLock x) s = q_acquire t (PuTest x) s"
| "submit_exec t (PuTest x) s = Some (put_test t x s)"
| "submit_exec t (PuWait x) s = q_acquire t (PuTest x) (s\<lparr>notFull := removeAll t (notFull s)\<rparr>)"
| "submit_exec t p s = None"

definition pool_exec :: "('r ppc, 'r pool) exec" where
  "pool_exec t p s =
     (case worker_exec t p s of
        Some r \<Rightarrow> Some r
      | None \<Rightarrow>
          (case start_exec p s of
             Some r \<Rightarrow> Some r
           | None \<Rightarrow> (case stop_exec t p s of Some r \<Rightarrow> Some r | None \<Rightarrow> submit_exec t p s)))"

text \<open>Before anything happened: \<open>n\<close> threads not yet created, and calls at their first step.\<close>

fun entry :: "'r ppc \<Rightarrow> bool" where
  "entry PIdle = True"
| "entry StTest = True"
| "entry SpStop = True"
| "entry (OfCheck x) = True"
| "entry (PuCheck x) = True"
| "entry _ = False"

definition pool_entry :: "nat \<Rightarrow> (nat \<Rightarrow> 'r ppc) \<Rightarrow> bool" where
  "pool_entry n p \<longleftrightarrow> (\<forall>t. if t < n then p t = KNew else entry (p t))"

text \<open>\<open>start\<close> and \<open>stop\<close> take no lock around the fields and the vector of workers they share, so overlapping calls of them race on a
  \<open>std::vector\<close>, which C++ leaves undefined.  In a serial schedule a call of one of them moves only while no other is half-way.\<close>

fun manages :: "'r ppc \<Rightarrow> bool" where
  "manages StTest = True"
| "manages StMark = True"
| "manages StServe = True"
| "manages (StLoop i) = True"
| "manages SpStop = True"
| "manages (SpTest i) = True"
| "manages (SpTry i) = True"
| "manages (SpIn i) = True"
| "manages (SpJoin ws) = True"
| "manages _ = False"

definition half_way :: "'r ppc \<Rightarrow> bool" where
  "half_way p \<longleftrightarrow> manages p \<and> \<not> entry p"

definition may_move :: "nat \<Rightarrow> ('r ppc, 'r pool) sys \<Rightarrow> bool" where
  "may_move t \<sigma> \<longleftrightarrow> (manages (fst \<sigma> t) \<longrightarrow> (\<forall>u. u \<noteq> t \<longrightarrow> \<not> half_way (fst \<sigma> u)))"

fun serial_run :: "nat list \<Rightarrow> ('r ppc, 'r pool) sys \<Rightarrow> ('r ppc, 'r pool) sys \<Rightarrow> bool" where
  "serial_run [] \<sigma> \<sigma>' = (\<sigma>' = \<sigma>)"
| "serial_run (t # ts) \<sigma> \<sigma>' =
     (may_move t \<sigma> \<and> (case sys_step pool_exec t \<sigma> of None \<Rightarrow> False | Some \<sigma>1 \<Rightarrow> serial_run ts \<sigma>1 \<sigma>'))"

lemma serial_run_sys_run: "serial_run ts \<sigma> \<sigma>' \<Longrightarrow> sys_run pool_exec ts \<sigma> = Some \<sigma>'"
  by (induction ts arbitrary: \<sigma>) (auto split: option.splits)

section \<open>Nothing is lost or run twice\<close>

fun hand :: "'r ppc \<Rightarrow> 'r item multiset" where
  "hand (KRun x) = {#x#}"
| "hand _ = {#}"

fun is_worker :: "'r ppc \<Rightarrow> bool" where
  "is_worker KNew = True"
| "is_worker KCheck = True"
| "is_worker KLock = True"
| "is_worker KTest = True"
| "is_worker KWait = True"
| "is_worker (KRun x) = True"
| "is_worker KDead = True"
| "is_worker _ = False"

definition hands :: "nat \<Rightarrow> (nat \<Rightarrow> 'r ppc) \<Rightarrow> 'r item multiset" where
  "hands n p = (\<Sum>t<n. hand (p t))"

definition pool_inv :: "nat \<Rightarrow> (nat \<Rightarrow> 'r ppc) \<Rightarrow> 'r pool \<Rightarrow> bool" where
  "pool_inv n p s \<longleftrightarrow>
     accepted s = taken s @ items s \<and> mset (taken s) = mset (ran s) + hands n p \<and>
     (\<forall>t. is_worker (p t) \<longrightarrow> t < n)"

lemma hands_upd: "t < n \<Longrightarrow> hands n (p(t := x)) + hand (p t) = hands n p + hand x"
proof -
  assume t: "t < n"
  have "hands n (p(t := x)) = hand x + (\<Sum>u\<in>{..<n} - {t}. hand (p u))"
    unfolding hands_def using t by (subst sum.remove [of _ t]) (auto intro!: sum.cong)
  moreover have "hands n p = hand (p t) + (\<Sum>u\<in>{..<n} - {t}. hand (p u))"
    unfolding hands_def using t by (subst sum.remove [of _ t]) auto
  ultimately show ?thesis by (simp add: add_ac)
qed

lemma hands_same: "hand x = hand (p t) \<Longrightarrow> hands n (p(t := x)) = hands n p"
  unfolding hands_def by (rule sum.cong) auto

text \<open>What a step does to the record of the items: nothing, or one item accepted, taken or run.\<close>

definition pool_effect :: "'r ppc \<Rightarrow> 'r pool \<Rightarrow> 'r ppc \<Rightarrow> 'r pool \<Rightarrow> bool" where
  "pool_effect q s x s' \<longleftrightarrow>
     is_worker x = is_worker q \<and>
     (hand x = hand q \<and> items s' = items s \<and> accepted s' = accepted s \<and> taken s' = taken s \<and> ran s' = ran s \<or>
      (\<exists>i. hand x = {#} \<and> hand q = {#} \<and> items s' = items s @ [i] \<and> accepted s' = accepted s @ [i] \<and>
           taken s' = taken s \<and> ran s' = ran s) \<or>
      (\<exists>i. is_worker q \<and> hand x = {#i#} \<and> hand q = {#} \<and> items s = i # items s' \<and> accepted s' = accepted s \<and>
           taken s' = taken s @ [i] \<and> ran s' = ran s) \<or>
      (\<exists>i. is_worker q \<and> hand x = {#} \<and> hand q = {#i#} \<and> items s' = items s \<and> accepted s' = accepted s \<and>
           taken s' = taken s \<and> ran s' = ran s @ [i]))"

lemmas pool_defs = q_acquire_def q_enqueue_def offer_test_def offer_try_def offer_in_def
  take_test_def put_test_def stop_next_def start_exec_def

lemma worker_effect: "worker_exec t q s = Some (x, s') \<Longrightarrow> pool_effect q s x s'"
  by (cases q) (auto simp: pool_effect_def pool_defs split: if_splits list.splits)

lemma start_effect: "start_exec q s = Some (x, s') \<Longrightarrow> pool_effect q s x s'"
  by (cases q) (auto simp: pool_effect_def pool_defs split: if_splits)

lemma stop_effect: "stop_exec t q s = Some (x, s') \<Longrightarrow> pool_effect q s x s'"
  by (cases "(t, q, s)" rule: stop_exec.cases) (auto simp: pool_effect_def pool_defs split: if_splits)

lemma submit_effect: "submit_exec t q s = Some (x, s') \<Longrightarrow> pool_effect q s x s'"
  by (cases q) (auto simp: pool_effect_def pool_defs split: if_splits)

lemma pool_exec_effect: "pool_exec t q s = Some (x, s') \<Longrightarrow> pool_effect q s x s'"
  unfolding pool_exec_def
  by (auto split: option.splits dest: worker_effect start_effect stop_effect submit_effect)

lemma pool_step_inv:
  assumes inv: "pool_inv n p s" and step: "pool_exec t (p t) s = Some (x, s')"
  shows "pool_inv n (p(t := x)) s'"
proof -
  note e = pool_exec_effect [OF step, unfolded pool_effect_def]
  have w: "\<forall>u. is_worker ((p(t := x)) u) \<longrightarrow> u < n"
    using inv e by (auto simp: pool_inv_def)
  show ?thesis
  proof (cases "hand x = hand (p t)")
    case True
    with e inv w show ?thesis
      by (auto simp: pool_inv_def hands_same)
  next
    case False
    then have "t < n" using e inv by (auto simp: pool_inv_def)
    from hands_upd [OF this, of p x] False e inv w show ?thesis
      by (auto simp: pool_inv_def)
  qed
qed

lemma pool_run_inv:
  assumes "sys_run pool_exec ts (p, s) = Some \<sigma>'" "pool_inv n p s"
  shows "pool_inv n (fst \<sigma>') (snd \<sigma>')"
proof -
  have "(\<lambda>\<sigma>. pool_inv n (fst \<sigma>) (snd \<sigma>)) \<sigma>'"
    using assms by (rule_tac sys_run_inv) (auto simp: sys_step_iff intro: pool_step_inv)
  then show ?thesis .
qed

lemma pool_new_inv: "pool_entry n p \<Longrightarrow> pool_inv n p (pool_new n c)"
proof -
  assume e: "pool_entry n p"
  have "t < n" if "is_worker (p t)" for t
    using that e unfolding pool_entry_def by (metis entry.simps is_worker.elims(2))
  moreover have "hands n p = {#}"
    using e by (auto simp: hands_def pool_entry_def intro!: sum.neutral)
  ultimately show ?thesis
    by (simp add: pool_inv_def pool_new_def)
qed

text \<open>C29: \<^bold>\<open>The pool runs what it accepts, once.\<close> In every interleaving of \<open>n\<close> workers with any calls of
  \<open>start\<close>, \<open>stop\<close>, \<open>offer\<close> and \<open>put\<close> in which the calls of \<open>start\<close> and \<open>stop\<close> do not overlap one another (they may overlap everything
  else), runnables leave the queue in the order in which they were accepted, and each accepted
  runnable is exactly once in the queue, in the hands of a worker, or among those that were run.\<close>

theorem pool_runs_once:
  assumes "serial_run ts (p, pool_new n c) \<sigma>'" "pool_entry n p"
  shows "accepted (snd \<sigma>') = taken (snd \<sigma>') @ items (snd \<sigma>') \<and>
         mset (accepted (snd \<sigma>')) =
           mset (ran (snd \<sigma>')) + (\<Sum>t<n. hand (fst \<sigma>' t)) + mset (items (snd \<sigma>'))"
  using pool_run_inv [OF serial_run_sys_run [OF assms(1)] pool_new_inv [OF assms(2)]] by (simp add: pool_inv_def hands_def)

definition pool_calls :: "nat \<Rightarrow> nat \<Rightarrow> nat ppc" where
  "pool_calls n t =
     (if t < n then KNew else if t = n then StTest else if t = n + 1 then SpStop else if t = n + 2 then PuCheck (Runner 7)
      else PIdle)"

lemma pool_calls_entry: "pool_entry n (pool_calls n)"
  by (simp add: pool_entry_def pool_calls_def)

text \<open>Witness: one worker runs one job.\<close>

theorem pool_runs_once_witness:
  "\<exists>\<sigma>'. serial_run [1, 1, 1, 1, 3, 3, 3, 0, 0, 0, 0, 0] (pool_calls 1, pool_new 1 64) \<sigma>' \<and>
        ran (snd \<sigma>') = [Runner 7] \<and> mset (accepted (snd \<sigma>')) = {#Runner 7#}"
proof -
  obtain \<sigma>' where r: "serial_run [1, 1, 1, 1, 3, 3, 3, 0, 0, 0, 0, 0] (pool_calls 1, pool_new 1 64) \<sigma>'"
      "ran (snd \<sigma>') = [Runner 7]" "items (snd \<sigma>') = []" "fst \<sigma>' 0 = KCheck"
    by (simp add: may_move_def half_way_def sys_step_def pool_exec_def pool_calls_def pool_new_def pool_defs q_full_def)
  have "mset (accepted (snd \<sigma>')) = {#Runner 7#}"
    using pool_runs_once [OF r(1) pool_calls_entry, THEN conjunct2] r(2-4) by simp
  with r show ?thesis by blast
qed

section \<open>Stopping\<close>

definition pool_hung :: "(nat ppc, nat pool) sys \<Rightarrow> bool" where
  "pool_hung \<sigma> \<longleftrightarrow>
     (fst \<sigma> 0 = KWait \<and> qlock (snd \<sigma>) = None \<or> fst \<sigma> 0 = KTest \<and> qlock (snd \<sigma>) = Some 0) \<and> items (snd \<sigma>) = [] \<and>
     fst \<sigma> 2 = SpJoin [0] \<and> dead (snd \<sigma>) = [] \<and> \<not> running (snd \<sigma>) \<and> threadNum (snd \<sigma>) = 1 \<and>
     (\<forall>t. t \<noteq> 0 \<longrightarrow> t \<noteq> 2 \<longrightarrow> fst \<sigma> t \<in> {StLoop 1, PuCheck (Runner 7), PDone, PIdle})"

lemma pool_hung_step:
  assumes "pool_hung \<sigma>" "sys_step pool_exec t \<sigma> = Some \<sigma>'"
  shows "pool_hung \<sigma>'"
proof -
  obtain x s where st: "pool_exec t (fst \<sigma> t) (snd \<sigma>) = Some (x, s)" "\<sigma>' = ((fst \<sigma>)(t := x), s)"
    using assms(2) by (auto simp: sys_step_iff)
  have "pool_exec 2 (fst \<sigma> 2) (snd \<sigma>) = None"
    using assms(1) by (simp add: pool_hung_def pool_exec_def start_exec_def)
  then have "t \<noteq> 2"
    using st(1) by (metis option.distinct(1))
  show ?thesis
  proof (cases "t = 0")
    case True
    then show ?thesis
      using st(1) assms(1) unfolding st(2) pool_hung_def
      by (auto simp: pool_exec_def q_acquire_def take_test_def split: if_splits)
  next
    case False
    then have "s = snd \<sigma> \<and> x = PDone"
      using st(1) assms(1) \<open>t \<noteq> 2\<close> unfolding pool_hung_def
      by (auto simp: pool_exec_def start_exec_def dest!: spec [of _ t] split: if_splits)
    then show ?thesis
      using assms(1) False \<open>t \<noteq> 2\<close> unfolding st(2) pool_hung_def by simp
  qed
qed

text \<open>\<open>stop\<close> can wait forever.  The wake-up for a worker is an \<open>offer\<close>, which gives up when the mutex
  of the queue is taken: if the worker holds it because it is just finding the queue empty, the offer is
  dropped, the worker waits for an element that never comes, and \<open>stop\<close> waits for the worker, whatever the calls do from
  there on.\<close>

theorem pool_stop_hangs:
  assumes "0 < c"
  shows "\<exists>\<sigma>. sys_run pool_exec [1, 1, 1, 1, 0, 0, 0, 2, 2, 2, 0] (pool_calls 1, pool_new 1 c) = Some \<sigma> \<and>
             (\<forall>ts \<sigma>'. sys_run pool_exec ts \<sigma> = Some \<sigma>' \<longrightarrow> fst \<sigma>' 2 = SpJoin [0] \<and> fst \<sigma>' 0 \<in> {KWait, KTest})"
proof -
  obtain \<sigma> where r: "sys_run pool_exec [1, 1, 1, 1, 0, 0, 0, 2, 2, 2, 0] (pool_calls 1, pool_new 1 c) = Some \<sigma>"
    and h: "pool_hung \<sigma>"
    using assms
    by (simp add: sys_step_def pool_exec_def pool_calls_def pool_new_def pool_defs q_full_def pool_hung_def)
  have "pool_hung \<sigma>'" if "sys_run pool_exec ts \<sigma> = Some \<sigma>'" for ts \<sigma>'
    by (rule sys_run_inv [where P = pool_hung, OF that h]) (rule pool_hung_step)
  with r show ?thesis unfolding pool_hung_def by blast
qed

theorem pool_stop_hangs_witness:
  "\<exists>\<sigma>. sys_run pool_exec [1, 1, 1, 1, 0, 0, 0, 2, 2, 2, 0] (pool_calls 1, pool_new 1 64) = Some \<sigma> \<and>
       (\<forall>ts \<sigma>'. sys_run pool_exec ts \<sigma> = Some \<sigma>' \<longrightarrow> fst \<sigma>' 2 = SpJoin [0])"
  using pool_stop_hangs [of 64] by auto

text \<open>The other case: every wake-up got into the queue.  Nobody submits any more, some calls of \<open>stop\<close> join
  live or finished workers, and there is an element for every worker that may still ask for one.\<close>

fun takes :: "'r ppc \<Rightarrow> bool" where
  "takes KLock = True"
| "takes KTest = True"
| "takes KWait = True"
| "takes _ = False"

fun pool_rank :: "'r ppc \<Rightarrow> nat" where
  "pool_rank KNew = 3"
| "pool_rank KLock = 5"
| "pool_rank KWait = 5"
| "pool_rank KTest = 4"
| "pool_rank (KRun x) = 3"
| "pool_rank KCheck = 2"
| "pool_rank (SpJoin ws) = Suc (length ws)"
| "pool_rank _ = 0"

fun join_point :: "'r ppc \<Rightarrow> bool" where
  "join_point (SpJoin ws) = True"
| "join_point PIdle = True"
| "join_point PDone = True"
| "join_point p = is_worker p"

definition pool_joining :: "('r ppc, 'r pool) sys \<Rightarrow> bool" where
  "pool_joining \<sigma> \<longleftrightarrow>
     \<not> running (snd \<sigma>) \<and> notEmpty (snd \<sigma>) = [] \<and> finite {t. pool_rank (fst \<sigma> t) \<noteq> 0} \<and>
     (\<forall>t. join_point (fst \<sigma> t)) \<and> (\<forall>t. fst \<sigma> t = KNew \<longrightarrow> t \<in> set (created (snd \<sigma>))) \<and>
     (\<forall>t. fst \<sigma> t = KTest \<longleftrightarrow> qlock (snd \<sigma>) = Some t) \<and>
     (\<forall>t. fst \<sigma> t = KDead \<longrightarrow> t \<in> set (dead (snd \<sigma>))) \<and>
     (\<forall>t ws. fst \<sigma> t = SpJoin ws \<longrightarrow> (\<forall>w\<in>set ws. is_worker (fst \<sigma> w))) \<and>
     card {t. takes (fst \<sigma> t)} \<le> length (items (snd \<sigma>))"

lemma takes_rank: "takes x \<Longrightarrow> pool_rank x \<noteq> 0"
  by (cases x) simp_all

lemma finite_takes: "finite {t. pool_rank (p t) \<noteq> 0} \<Longrightarrow> finite {t. takes (p t)}"
  by (rule finite_subset [rotated]) (use takes_rank in blast)+

text \<open>The steps that are left.\<close>

inductive join_step :: "nat \<Rightarrow> 'r ppc \<Rightarrow> 'r pool \<Rightarrow> 'r ppc \<Rightarrow> 'r pool \<Rightarrow> bool" where
  new: "join_step t KNew s KCheck s"
| die: "join_step t KCheck s KDead (s\<lparr>dead := t # dead s\<rparr>)"
| lock: "q = KLock \<or> q = KWait \<Longrightarrow> qlock s = None \<Longrightarrow> join_step t q s KTest (s\<lparr>qlock := Some t\<rparr>)"
| take: "items s = x # xs \<Longrightarrow>
         join_step t KTest s (KRun x) (s\<lparr>items := xs, notFull := [], taken := taken s @ [x], qlock := None\<rparr>)"
| runs: "join_step t (KRun x) s KCheck (s\<lparr>ran := ran s @ [x]\<rparr>)"
| joined: "join_step t (SpJoin []) s PDone (s\<lparr>workers := []\<rparr>)"
| join: "join_step t (SpJoin (w # ws)) s (SpJoin ws) s"

lemma takes_card:
  assumes "pool_joining \<sigma>" "takes (fst \<sigma> t)"
  shows "items (snd \<sigma>) \<noteq> []" "Suc (card {u. takes (fst \<sigma> u)} - 1) \<le> length (items (snd \<sigma>))"
proof -
  have "finite {u. takes (fst \<sigma> u)}" "card {u. takes (fst \<sigma> u)} \<le> length (items (snd \<sigma>))"
    using assms(1) finite_takes [of "fst \<sigma>"] unfolding pool_joining_def by blast+
  moreover from this have "0 < card {u. takes (fst \<sigma> u)}"
    using assms(2) by (auto simp: card_gt_0_iff)
  ultimately show "items (snd \<sigma>) \<noteq> []" "Suc (card {u. takes (fst \<sigma> u)} - 1) \<le> length (items (snd \<sigma>))"
    by auto
qed

lemma no_waiter [simp]: "notEmpty s = [] \<Longrightarrow> s\<lparr>notEmpty := []\<rparr> = s"
  by (cases s) simp

lemma joining_step:
  assumes "pool_joining \<sigma>" "pool_exec t (fst \<sigma> t) (snd \<sigma>) = Some (x, s)"
  shows "join_step t (fst \<sigma> t) (snd \<sigma>) x s"
proof -
  have j: "join_point (fst \<sigma> t)" "\<not> running (snd \<sigma>)" "notEmpty (snd \<sigma>) = []"
    using assms(1) unfolding pool_joining_def by blast+
  note c = takes_card(1) [OF assms(1), of t]
  show ?thesis
  proof (cases "fst \<sigma> t")
    case (SpJoin ws)
    then show ?thesis
      using assms(2) by (cases ws) (auto simp: pool_exec_def start_exec_def intro: join_step.intros split: if_splits)
  qed (use assms(2) j c in \<open>auto simp: pool_exec_def start_exec_def q_acquire_def take_test_def
         intro: join_step.intros split: if_splits list.splits\<close>)
qed

lemma join_step_rank: "join_step t q s x s' \<Longrightarrow> pool_rank x < pool_rank q"
  by (erule join_step.cases) auto

lemma join_step_kind:
  assumes "join_step t q s x s'"
  shows "join_point x" "x \<noteq> KNew" "is_worker q \<Longrightarrow> is_worker x" "\<not> is_worker q \<Longrightarrow> \<not> is_worker x"
    "takes x \<Longrightarrow> takes q" "running s' = running s" "notEmpty s' = notEmpty s" "created s' = created s"
    "set (dead s) \<subseteq> set (dead s')" "x = KDead \<Longrightarrow> t \<in> set (dead s')"
    "x = SpJoin ws \<Longrightarrow> \<exists>w. q = SpJoin (w # ws)"
  using assms by (auto elim: join_step.cases)

lemma join_step_lock:
  assumes "join_step t q s x s'" "\<forall>u. p u = KTest \<longleftrightarrow> qlock s = Some u" "p t = q"
  shows "\<forall>u. (p(t := x)) u = KTest \<longleftrightarrow> qlock s' = Some u"
proof -
  have "qlock s = Some t \<longleftrightarrow> q = KTest" using assms(2,3) by auto
  with assms(1,2) show ?thesis by (cases rule: join_step.cases) auto
qed

lemma join_step_items:
  assumes "join_step t q s x s'" "p t = q" "finite {u. takes (p u)}" "card {u. takes (p u)} \<le> length (items s)"
  shows "card {u. takes ((p(t := x)) u)} \<le> length (items s')"
proof (cases "takes q \<and> \<not> takes x")
  case True
  then have "{u. takes ((p(t := x)) u)} = {u. takes (p u)} - {t}" "t \<in> {u. takes (p u)}"
    using assms(2) by auto
  moreover have "length (items s) = Suc (length (items s'))"
    using assms(1) True by (cases rule: join_step.cases) auto
  ultimately show ?thesis using assms(3,4) by simp
next
  case False
  then have "{u. takes ((p(t := x)) u)} = {u. takes (p u)}"
    using join_step_kind(5) [OF assms(1)] assms(2) by auto
  moreover have "items s' = items s"
    using assms(1) False by (cases rule: join_step.cases) auto
  ultimately show ?thesis using assms(4) by simp
qed

lemma pool_joining_step:
  assumes inv: "pool_joining \<sigma>" and st: "sys_step pool_exec t \<sigma> = Some \<sigma>'"
  shows "pool_joining \<sigma>'"
proof -
  obtain x s where e: "pool_exec t (fst \<sigma> t) (snd \<sigma>) = Some (x, s)" "\<sigma>' = ((fst \<sigma>)(t := x), s)"
    using st by (auto simp: sys_step_iff)
  note j = joining_step [OF inv e(1)]
  note k = join_step_kind [OF j]
  have fin: "finite {t. pool_rank (fst \<sigma> t) \<noteq> 0}"
    and lk: "\<forall>u. fst \<sigma> u = KTest \<longleftrightarrow> qlock (snd \<sigma>) = Some u"
    and card: "card {u. takes (fst \<sigma> u)} \<le> length (items (snd \<sigma>))"
    and joins: "\<And>u ws. fst \<sigma> u = SpJoin ws \<Longrightarrow> (\<forall>w\<in>set ws. is_worker (fst \<sigma> w))"
    using inv unfolding pool_joining_def by blast+
  have "{u. pool_rank (((fst \<sigma>)(t := x)) u) \<noteq> 0} \<subseteq> insert t {t. pool_rank (fst \<sigma> t) \<noteq> 0}"
    by auto
  then have "finite {u. pool_rank (((fst \<sigma>)(t := x)) u) \<noteq> 0}"
    using fin by (meson finite.insertI finite_subset)
  moreover have "is_worker (((fst \<sigma>)(t := x)) w)"
    if w: "((fst \<sigma>)(t := x)) u = SpJoin ws" "w \<in> set ws" for u ws w
  proof -
    obtain ws' where "fst \<sigma> u = SpJoin ws'" "w \<in> set ws'"
      using w k(11) [of ws] by (cases "u = t") auto
    then have "is_worker (fst \<sigma> w)" using joins by blast
    then show ?thesis using k(3) by auto
  qed
  moreover have "\<forall>u. join_point (((fst \<sigma>)(t := x)) u)" "\<not> running s" "notEmpty s = []"
    "\<forall>u. ((fst \<sigma>)(t := x)) u = KNew \<longrightarrow> u \<in> set (created s)"
    "\<forall>u. ((fst \<sigma>)(t := x)) u = KDead \<longrightarrow> u \<in> set (dead s)"
    using inv k unfolding pool_joining_def by auto
  moreover note join_step_lock [OF j lk refl] join_step_items [OF j refl finite_takes [OF fin] card]
  ultimately show ?thesis unfolding pool_joining_def e(2) fst_conv snd_conv by blast
qed

lemma pool_joining_progress:
  assumes inv: "pool_joining \<sigma>" and r: "pool_rank (fst \<sigma> t) \<noteq> 0"
  shows "\<not> sys_stuck pool_exec \<sigma>"
proof
  assume "sys_stuck pool_exec \<sigma>"
  then have none: "pool_exec u (fst \<sigma> u) (snd \<sigma>) = None" for u
    by (simp add: sys_stuck_def sys_step_None)
  have i: "\<not> running (snd \<sigma>)" "notEmpty (snd \<sigma>) = []" "\<And>t. join_point (fst \<sigma> t)"
    "\<And>t. fst \<sigma> t = KNew \<Longrightarrow> t \<in> set (created (snd \<sigma>))" "\<And>t. fst \<sigma> t = KDead \<Longrightarrow> t \<in> set (dead (snd \<sigma>))"
    "\<And>t. fst \<sigma> t = KTest \<longleftrightarrow> qlock (snd \<sigma>) = Some t"
    "\<And>t ws. fst \<sigma> t = SpJoin ws \<Longrightarrow> (\<forall>w\<in>set ws. is_worker (fst \<sigma> w))"
    using inv unfolding pool_joining_def by blast+
  have "qlock (snd \<sigma>) = None"
  proof (rule ccontr)
    assume "qlock (snd \<sigma>) \<noteq> None"
    then obtain u where "fst \<sigma> u = KTest" using i(6) by auto
    then show False using none [of u] by (simp add: pool_exec_def)
  qed
  then have dead: "is_worker (fst \<sigma> u) \<Longrightarrow> fst \<sigma> u = KDead" for u
    using none [of u] i(1,2) i(4) [of u]
    by (cases "fst \<sigma> u") (auto simp: pool_exec_def q_acquire_def)
  have "\<exists>ws. fst \<sigma> t = SpJoin ws"
    using r i(3) [of t] dead [of t] by (cases "fst \<sigma> t") auto
  then obtain ws where ws: "fst \<sigma> t = SpJoin ws" by blast
  then show False
    using none [of t] i(7) [OF ws] dead i(5) by (cases ws) (auto simp: pool_exec_def start_exec_def split: if_splits)
qed

interpretation pool: drain pool_exec "pool_joining :: ('r ppc, 'r pool) sys \<Rightarrow> bool" pool_rank
proof unfold_locales
  fix \<sigma> :: "('r ppc, 'r pool) sys" and t x s
  show "finite {t. pool_rank (fst \<sigma> t) \<noteq> 0}" if "pool_joining \<sigma>"
    using that unfolding pool_joining_def by blast
  show "pool_rank x < pool_rank (fst \<sigma> t)"
    if "pool_joining \<sigma>" "pool_exec t (fst \<sigma> t) (snd \<sigma>) = Some (x, s)"
    using joining_step [OF that] by (rule join_step_rank)
qed (erule (1) pool_joining_step pool_joining_progress)+



end
