(* ===== verification/CaskRunQueue.thy ===== *)
theory CaskRunQueue
  imports CaskSched CaskAtomic CaskInterleave
begin

text \<open>
  The run queue of \<open>sched_RR.c\<close> between threads.  A scheduler's queue is filled by other threads (every wake-up of
  a task that belongs to another scheduler), so here \<open>RR_enqueue\<close> and \<open>RR_dequeue\<close> are broken down to the single
  loads and stores of \<open>list_delete\<close> and \<open>list_add_before\<close>.  Every call is a numbered call of the interleaving; \<open>RR_enqueue\<close>
  takes the spin lock of the queue around the insertion, \<open>RR_dequeue\<close> does not.  \<open>rtasks\<close> records
  the order in which insertions took effect; no step depends on it.
\<close>

section \<open>Model\<close>

text \<open>The argument is the task; the flag of the steps of \<open>list_delete\<close> says whether \<open>RR_enqueue\<close> (or else \<open>RR_dequeue\<close>) runs it;
  \<open>Add4\<close> and \<open>Add5\<close> carry the address \<open>ls->prev\<close> that was loaded for the left operand.\<close>

datatype rpc =
    QIdle
  | Del1 addr bool | Del2 addr bool | Del3 addr bool | Del4 addr bool
  | ELock addr
  | Add1 addr | Add2 addr | Add3 addr | Add4 addr addr | Add5 addr addr
  | ECount addr | EUnlock addr
  | DCount addr
  | QDone addr

record rqmem =
  rlk :: links
  rhead :: addr
  rlock :: atomic_t
  rnum :: nat
  rtasks :: "addr list"

definition set_next :: "addr \<Rightarrow> addr \<Rightarrow> rqmem \<Rightarrow> rqmem" where
  "set_next a x s = s\<lparr>rlk := (rlk s)\<lparr>nxt := (nxt (rlk s))(a := x)\<rparr>\<rparr>"

definition set_prev :: "addr \<Rightarrow> addr \<Rightarrow> rqmem \<Rightarrow> rqmem" where
  "set_prev a x s = s\<lparr>rlk := (rlk s)\<lparr>prv := (prv (rlk s))(a := x)\<rparr>\<rparr>"

fun rq_exec :: "(rpc, rqmem) exec" where
  "rq_exec t QIdle s = None"
| "rq_exec t (Del1 a e) s = Some (Del2 a e, set_next (prv (rlk s) a) (nxt (rlk s) a) s)"
| "rq_exec t (Del2 a e) s = Some (Del3 a e, set_prev (nxt (rlk s) a) (prv (rlk s) a) s)"
| "rq_exec t (Del3 a e) s = Some (Del4 a e, set_next a a s)"
| "rq_exec t (Del4 a e) s = Some (if e then ELock a else DCount a, set_prev a a s)"
| "rq_exec t (ELock a) s =
     (case spin_lock (rlock s) of None \<Rightarrow> None | Some sl \<Rightarrow> Some (Add1 a, s\<lparr>rlock := sl\<rparr>))"
| "rq_exec t (Add1 a) s = Some (Add2 a, set_prev a (prv (rlk s) (rhead s)) s)"
| "rq_exec t (Add2 a) s = Some (Add3 a, set_next a (rhead s) s)"
| "rq_exec t (Add3 a) s = Some (Add4 a (prv (rlk s) (rhead s)), s)"
| "rq_exec t (Add4 a p) s = Some (Add5 a p, set_prev (rhead s) a s)"
| "rq_exec t (Add5 a p) s = Some (ECount a, (set_next p a s)\<lparr>rtasks := rtasks s @ [a]\<rparr>)"
| "rq_exec t (ECount a) s = Some (EUnlock a, s\<lparr>rnum := rnum s + 1\<rparr>)"
| "rq_exec t (EUnlock a) s =
     (case spin_unlock (rlock s) of Inl f \<Rightarrow> None | Inr sl \<Rightarrow> Some (QDone a, s\<lparr>rlock := sl\<rparr>))"
| "rq_exec t (DCount a) s = Some (QDone a, s\<lparr>rnum := rnum s - 1\<rparr>)"
| "rq_exec t (QDone a) s = None"

section \<open>A dequeue next to an enqueue\<close>

definition rq_race_calls :: "addr \<Rightarrow> addr \<Rightarrow> nat \<Rightarrow> rpc" where
  "rq_race_calls a b t = (if t = 0 then Del1 b True else if t = 1 then Del1 a False else QIdle)"

text \<open>taking a task off the run queue without the lock can break the queue.  The queue holds the task \<open>a\<close>, the
  scheduler takes it off while another thread wakes up the task \<open>b\<close>.  In the interleaving where the insertion has already read the
  last element, both calls end, but the queue is neither a queue with \<open>b\<close> nor an empty one: the
  head points to itself forwards and to \<open>b\<close> backwards, so \<open>RR_picknext\<close> does not see an empty queue and hands
  out the list head itself as the next task.\<close>

theorem rq_dequeue_races_enqueue:
  assumes q: "ring (rlk s) q [a]" "ring (rlk s) b []" "b \<noteq> q" "b \<noteq> a" "rhead s = q" "v (rlock s) = 1"
    and w: "run_list (rq w me) = q"
  shows "\<exists>p' s'. sys_run rq_exec [0, 0, 0, 0, 0, 0, 0, 0, 1, 1, 1, 1, 1, 0, 0, 0, 0] (rq_race_calls a b, s) = Some (p', s') \<and>
           p' 0 = QDone b \<and> p' 1 = QDone a \<and> list_walk 2 q (list_next q (rlk s')) (rlk s') = [] \<and>
           (\<exists>w'. fst (RR_picknext me ([] # bs) (w\<lparr>lnk := rlk s'\<rparr>)) = Some (q, bs, w'))"
proof -
  have n: "nxt (rlk s) q = a" "nxt (rlk s) a = q" "prv (rlk s) q = a" "prv (rlk s) a = q" "a \<noteq> q"
    "nxt (rlk s) b = b" "prv (rlk s) b = b"
    using q(1,2) by (auto simp: ring_def)
  show ?thesis
    using n q(3-6) w
    by (simp add: sys_step_def rq_race_calls_def set_next_def set_prev_def spin_defs RR_picknext.simps list_empty_def
        list_next_def delay_event_def numeral_2_eq_2)
qed

section \<open>Enqueues next to each other\<close>

text \<open>The task of a call of \<open>RR_enqueue\<close>, the calls before the lock and inside it.\<close>

fun rtask :: "rpc \<Rightarrow> addr option" where
  "rtask (Del1 a e) = Some a" | "rtask (Del2 a e) = Some a" | "rtask (Del3 a e) = Some a"
| "rtask (Del4 a e) = Some a" | "rtask (ELock a) = Some a" | "rtask (Add1 a) = Some a"
| "rtask (Add2 a) = Some a" | "rtask (Add3 a) = Some a" | "rtask (Add4 a p) = Some a"
| "rtask (Add5 a p) = Some a" | "rtask (ECount a) = Some a" | "rtask (EUnlock a) = Some a"
| "rtask (DCount a) = Some a" | "rtask (QDone a) = Some a" | "rtask QIdle = None"

fun rbefore :: "rpc \<Rightarrow> bool" where
  "rbefore (Del1 a e) = e" | "rbefore (Del2 a e) = e" | "rbefore (Del3 a e) = e"
| "rbefore (Del4 a e) = e" | "rbefore (ELock a) = True" | "rbefore _ = False"

fun rcrit :: "rpc \<Rightarrow> bool" where
  "rcrit (Add1 a) = True" | "rcrit (Add2 a) = True" | "rcrit (Add3 a) = True"
| "rcrit (Add4 a p) = True" | "rcrit (Add5 a p) = True" | "rcrit (ECount a) = True"
| "rcrit (EUnlock a) = True" | "rcrit _ = False"

fun rdone :: "rpc \<Rightarrow> bool" where
  "rdone (ECount a) = True" | "rdone (EUnlock a) = True" | "rdone (QDone a) = True" | "rdone _ = False"

text \<open>The memory while a call is inside the lock; \<open>QIdle\<close> stands for a free lock.\<close>

fun rshape :: "rpc \<Rightarrow> rqmem \<Rightarrow> bool" where
  "rshape (Add1 a) s \<longleftrightarrow> ring (rlk s) (rhead s) (rtasks s) \<and> rnum s = length (rtasks s)"
| "rshape (Add2 a) s \<longleftrightarrow>
     ring (rlk s) (rhead s) (rtasks s) \<and> rnum s = length (rtasks s) \<and> prv (rlk s) a = prv (rlk s) (rhead s)"
| "rshape (Add3 a) s \<longleftrightarrow>
     ring (rlk s) (rhead s) (rtasks s) \<and> rnum s = length (rtasks s) \<and> prv (rlk s) a = prv (rlk s) (rhead s) \<and>
     nxt (rlk s) a = rhead s"
| "rshape (Add4 a p) s \<longleftrightarrow>
     ring (rlk s) (rhead s) (rtasks s) \<and> rnum s = length (rtasks s) \<and> prv (rlk s) a = p \<and>
     nxt (rlk s) a = rhead s \<and> p = prv (rlk s) (rhead s)"
| "rshape (Add5 a p) s \<longleftrightarrow>
     ring ((rlk s)\<lparr>nxt := (nxt (rlk s))(p := a)\<rparr>) (rhead s) (rtasks s @ [a]) \<and> rnum s = length (rtasks s) \<and>
     p \<in> set (rhead s # rtasks s)"
| "rshape (ECount a) s \<longleftrightarrow> ring (rlk s) (rhead s) (rtasks s) \<and> Suc (rnum s) = length (rtasks s)"
| "rshape _ s \<longleftrightarrow> ring (rlk s) (rhead s) (rtasks s) \<and> rnum s = length (rtasks s)"

definition rq_holder :: "(nat \<Rightarrow> rpc) \<Rightarrow> rqmem \<Rightarrow> rpc \<Rightarrow> bool" where
  "rq_holder p s c \<longleftrightarrow>
     (if v (rlock s) = 1 then c = QIdle \<and> (\<forall>t. \<not> rcrit (p t))
      else v (rlock s) = 0 \<and> rcrit c \<and> (\<exists>t. p t = c \<and> (\<forall>u. rcrit (p u) \<longrightarrow> u = t)))"

definition rq_inv :: "(nat \<Rightarrow> rpc) \<Rightarrow> rqmem \<Rightarrow> bool" where
  "rq_inv p s \<longleftrightarrow>
     (\<forall>t u a. rtask (p t) = Some a \<longrightarrow> rtask (p u) = Some a \<longrightarrow> t = u) \<and>
     (\<forall>t a. rtask (p t) = Some a \<longrightarrow> a \<noteq> rhead s) \<and>
     (\<forall>t. rbefore (p t) \<or> rcrit (p t) \<or> rdone (p t) \<or> p t = QIdle) \<and>
     (\<forall>t a. rtask (p t) = Some a \<longrightarrow> (if rdone (p t) then a \<in> set (rtasks s) else a \<notin> set (rtasks s))) \<and>
     (\<forall>t a. rbefore (p t) \<longrightarrow> rtask (p t) = Some a \<longrightarrow> nxt (rlk s) a = a \<and> prv (rlk s) a = a) \<and>
     (\<exists>c. rq_holder p s c \<and> rshape c s)"

lemma rq_invD:
  assumes "rq_inv p s"
  shows "rtask (p t) = Some a \<Longrightarrow> rtask (p u) = Some a \<Longrightarrow> t = u"
    and "rtask (p t) = Some a \<Longrightarrow> a \<noteq> rhead s"
    and "rbefore (p t) \<or> rcrit (p t) \<or> rdone (p t) \<or> p t = QIdle"
    and "rtask (p t) = Some a \<Longrightarrow> rdone (p t) \<longleftrightarrow> a \<in> set (rtasks s)"
    and "rbefore (p t) \<Longrightarrow> rtask (p t) = Some a \<Longrightarrow> nxt (rlk s) a = a \<and> prv (rlk s) a = a"
    and "\<exists>c. rq_holder p s c \<and> rshape c s"
proof -
  have *: "\<forall>t a. rtask (p t) = Some a \<longrightarrow> (if rdone (p t) then a \<in> set (rtasks s) else a \<notin> set (rtasks s))"
    using assms unfolding rq_inv_def by blast
  then show "rtask (p t) = Some a \<Longrightarrow> rdone (p t) \<longleftrightarrow> a \<in> set (rtasks s)" by (metis (full_types))
qed (use assms in \<open>(unfold rq_inv_def, blast)+\<close>)

lemma rq_holder_crit:
  assumes "rq_inv p s" "rcrit (p t)"
  shows "v (rlock s) = 0" "rshape (p t) s" "rcrit (p u) \<Longrightarrow> u = t"
proof -
  obtain c where c: "rq_holder p s c" "rshape c s"
    using rq_invD(6) [OF assms(1)] by blast
  then have l: "v (rlock s) = 0" "\<exists>w. p w = c \<and> (\<forall>u. rcrit (p u) \<longrightarrow> u = w)"
    using assms(2) unfolding rq_holder_def by (metis (full_types))+
  then show "v (rlock s) = 0" "rshape (p t) s" "rcrit (p u) \<Longrightarrow> u = t"
    using assms(2) c(2) by blast+
qed

lemma rcrit_before: "rcrit x \<Longrightarrow> \<not> rbefore x" "rdone x \<Longrightarrow> \<not> rbefore x" "rcrit x \<Longrightarrow> x \<noteq> QIdle"
  by (cases x; simp)+

text \<open>A step before the lock leaves the memory as it is: the task is linked to itself.\<close>

lemma rq_inv_move:
  assumes inv: "rq_inv p s" and x: "rbefore (p t)" "rbefore x" "rtask x = rtask (p t)"
  shows "rq_inv (p(t := x)) s"
proof -
  have b: "\<not> rcrit (p t)" "\<not> rcrit x" "\<not> rdone (p t)" "\<not> rdone x"
    using x rcrit_before by blast+
  have rt: "rtask ((p(t := x)) u) = rtask (p u)" and rb: "rbefore ((p(t := x)) u) = rbefore (p u)"
    and rd: "rdone ((p(t := x)) u) = rdone (p u)" and rc: "rcrit ((p(t := x)) u) = rcrit (p u)" for u
    using x b by auto
  have qi: "(p(t := x)) u = QIdle \<longleftrightarrow> p u = QIdle" for u
    using x by auto
  obtain c where c: "rq_holder p s c" "rshape c s"
    using rq_invD(6) [OF inv] by blast
  have "rq_holder (p(t := x)) s c"
    using c(1) b(1) unfolding rq_holder_def rc by (metis fun_upd_apply)
  then show ?thesis
    using inv c(2) unfolding rq_inv_def rt rb rd rc qi by blast
qed

text \<open>A step inside the lock changes the links of the own task and of the queue only.\<close>

lemma rq_inv_crit:
  assumes inv: "rq_inv p s" and a: "rcrit (p t)" "rtask (p t) = Some a" "rtask x = Some a"
    and x: "rcrit x \<and> v (rlock s') = 0 \<or> x = QDone a \<and> v (rlock s') = 1" and h: "rhead s' = rhead s"
    and frame: "\<And>b. b \<noteq> a \<Longrightarrow> b \<notin> set (rhead s # rtasks s) \<Longrightarrow> nxt (rlk s') b = nxt (rlk s) b \<and> prv (rlk s') b = prv (rlk s) b"
    and tasks: "rtasks s' = rtasks s \<and> rdone x = rdone (p t) \<or> rtasks s' = rtasks s @ [a] \<and> rdone x"
    and shape: "rshape x s'"
  shows "rq_inv (p(t := x)) s'"
proof -
  note i = rq_invD [OF inv] and hc = rq_holder_crit [OF inv a(1)]
  have rt: "rtask ((p(t := x)) u) = rtask (p u)" for u using a by simp
  have nb: "\<not> rbefore x" using x rcrit_before by auto
  have hold: "rq_holder (p(t := x)) s' (if rcrit x then x else QIdle)"
    using x hc(3) by (auto simp: rq_holder_def)
  have shp: "rshape (if rcrit x then x else QIdle) s'"
    using shape x by auto
  have lnks: "nxt (rlk s') b = b \<and> prv (rlk s') b = b"
    if "rbefore ((p(t := x)) u)" "rtask ((p(t := x)) u) = Some b" for u b
  proof -
    have u: "u \<noteq> t" using that(1) nb by auto
    then have "b \<noteq> a" "rbefore (p u)" "rtask (p u) = Some b"
      using that i(1) a(2) by auto
    moreover from this have "b \<notin> set (rhead s # rtasks s)"
      using i(2,4) rcrit_before(2) by auto
    ultimately show ?thesis using frame i(5) by metis
  qed
  have dn: "rdone ((p(t := x)) u) \<longleftrightarrow> b \<in> set (rtasks s')" if "rtask ((p(t := x)) u) = Some b" for u b
    using that tasks i(1) [of t a u] i(4) [of u b] i(4) [of t a] a(2,3) by (cases "u = t") auto
  have kinds: "rbefore ((p(t := x)) u) \<or> rcrit ((p(t := x)) u) \<or> rdone ((p(t := x)) u) \<or> (p(t := x)) u = QIdle" for u
    using i(3) [of u] x by auto
  have dn': "if rdone ((p(t := x)) u) then b \<in> set (rtasks s') else b \<notin> set (rtasks s')"
    if "rtask (p u) = Some b" for u b
    using dn [of u b] that rt by auto
  show ?thesis
    unfolding rq_inv_def rt h using i(1,2) kinds lnks hold shp dn' unfolding rt by blast
qed

lemma set_next_same: "nxt (rlk s) a = x \<Longrightarrow> set_next a x s = s"
  by (simp add: set_next_def fun_upd_idem)

lemma set_prev_same: "prv (rlk s) a = x \<Longrightarrow> set_prev a x s = s"
  by (simp add: set_prev_def fun_upd_idem)

lemma set_links_fields [simp]:
  "rhead (set_next a x s) = rhead s" "rlock (set_next a x s) = rlock s" "rnum (set_next a x s) = rnum s"
  "rtasks (set_next a x s) = rtasks s" "rhead (set_prev a x s) = rhead s" "rlock (set_prev a x s) = rlock s"
  "rnum (set_prev a x s) = rnum s" "rtasks (set_prev a x s) = rtasks s"
  "nxt (rlk (set_next a x s)) = (nxt (rlk s))(a := x)" "prv (rlk (set_next a x s)) = prv (rlk s)"
  "prv (rlk (set_prev a x s)) = (prv (rlk s))(a := x)" "nxt (rlk (set_prev a x s)) = nxt (rlk s)"
  by (simp_all add: set_next_def set_prev_def)

lemma ring_set_outside:
  assumes "ring (rlk s) q xs" "a \<notin> set (q # xs)"
  shows "ring (rlk (set_next a x s)) q xs" "ring (rlk (set_prev a x s)) q xs"
  using assms(2) by (auto intro!: ring_frame [OF assms(1)] simp: same_on_def)

lemma rshape_link:
  assumes "rshape (Add4 a p) s" "a \<notin> set (rhead s # rtasks s)"
  shows "rshape (Add5 a p) (set_prev (rhead s) a s)"
proof -
  have r: "ring (rlk s) (rhead s) (rtasks s)" and a: "prv (rlk s) a = p" "nxt (rlk s) a = rhead s"
    and p: "p = prv (rlk s) (rhead s)"
    using assms(1) by simp_all
  have eq: "(rlk (set_prev (rhead s) a s))\<lparr>nxt := (nxt (rlk (set_prev (rhead s) a s)))(p := a)\<rparr> =
      list_add_before (rhead s) a (rlk s)"
    using a p assms(2)
    by (cases "rlk s") (auto simp: set_prev_def list_add_before_def list_add_raw_def Let_def fun_upd_idem fun_upd_twist)
  have "p \<in> set (rhead s # rtasks s)"
    using ring_ends(2) [OF r] p by (auto simp: list_prev_def split: if_splits)
  then show ?thesis
    using list_add_before_ring [OF r assms(2)] assms(1) unfolding rshape.simps eq by simp
qed

lemma rq_inv_lock:
  assumes inv: "rq_inv p s" and t: "p t = ELock a" and l: "v (rlock s) = 1"
  shows "rq_inv (p(t := Add1 a)) (s\<lparr>rlock := (rlock s)\<lparr>v := 0\<rparr>\<rparr>)" (is "rq_inv ?p ?s")
proof -
  note i = rq_invD [OF inv]
  obtain c where "rq_holder p s c" "rshape c s" using i(6) by blast
  then have nc: "\<And>u. \<not> rcrit (p u)" and r: "ring (rlk s) (rhead s) (rtasks s)" "rnum s = length (rtasks s)"
    using l by (auto simp: rq_holder_def)
  have holder: "rq_holder ?p ?s (Add1 a) \<and> rshape (Add1 a) ?s"
    using nc r by (auto simp: rq_holder_def)
  have rt: "rtask (?p u) = rtask (p u)" and rd: "rdone (?p u) = rdone (p u)" for u
    using t by auto
  have "rbefore (?p u) \<Longrightarrow> rbefore (p u)" for u by (auto split: if_splits)
  moreover have "rbefore (?p u) \<or> rcrit (?p u) \<or> rdone (?p u) \<or> ?p u = QIdle" for u
    using i(3) [of u] by auto
  moreover have "if rdone (p u) then b \<in> set (rtasks s) else b \<notin> set (rtasks s)" if "rtask (p u) = Some b" for u b
    using i(4) [OF that] by simp
  ultimately show ?thesis
    unfolding rq_inv_def rt rd using holder i(1,2,5) by (simp del: fun_upd_apply rshape.simps) blast
qed

lemma rq_step_inv:
  assumes inv: "rq_inv p s" and step: "rq_exec t (p t) s = Some (x, s')"
  shows "rq_inv (p(t := x)) s'"
proof -
  note i = rq_invD [OF inv] and mv = rq_inv_move [OF inv] and cr = rq_inv_crit [OF inv]
  have out: "a \<notin> set (rhead s # rtasks s)" if "rtask (p t) = Some a" "\<not> rdone (p t)" for a
    using i(2,4) that by auto
  show ?thesis
  proof (cases "p t")
    case (Del1 a e)
    then have "e" "s' = s" "x = Del2 a e"
      using step i(3) [of t] i(5) [of t a] by (auto simp: set_next_same)
    then show ?thesis using mv [of t x] Del1 by simp
  next
    case (Del2 a e)
    then have "e" "s' = s" "x = Del3 a e"
      using step i(3) [of t] i(5) [of t a] by (auto simp: set_prev_same)
    then show ?thesis using mv [of t x] Del2 by simp
  next
    case (Del3 a e)
    then have "e" "s' = s" "x = Del4 a e"
      using step i(3) [of t] i(5) [of t a] by (auto simp: set_next_same)
    then show ?thesis using mv [of t x] Del3 by simp
  next
    case (Del4 a e)
    then have "e" "s' = s" "x = ELock a"
      using step i(3) [of t] i(5) [of t a] by (auto simp: set_prev_same)
    then show ?thesis using mv [of t x] Del4 by simp
  next
    case (ELock a)
    then have l: "v (rlock s) = 1" and e: "x = Add1 a" "s' = s\<lparr>rlock := (rlock s)\<lparr>v := 0\<rparr>\<rparr>"
      using step by (auto simp: spin_lock_iff split: option.splits)
    then show ?thesis using rq_inv_lock [OF inv ELock] by simp
  next
    case (Add1 a)
    have "rshape x s'"
      using step Add1 rq_holder_crit(2) [OF inv, of t] ring_set_outside(2) [OF _ out] i(2) [of t a] by auto
    then show ?thesis
      using step Add1 rq_holder_crit(1) [OF inv, of t] by (intro cr [of t a]) auto
  next
    case (Add2 a)
    have "rshape x s'"
      using step Add2 rq_holder_crit(2) [OF inv, of t] ring_set_outside(1) [OF _ out] i(2) [of t a] by auto
    then show ?thesis
      using step Add2 rq_holder_crit(1) [OF inv, of t] by (intro cr [of t a]) auto
  next
    case (Add3 a)
    have "rshape x s'"
      using step Add3 rq_holder_crit(2) [OF inv, of t] by auto
    then show ?thesis
      using step Add3 rq_holder_crit(1) [OF inv, of t] by (intro cr [of t a]) auto
  next
    case (Add4 a q)
    have "rshape x s'"
      using step Add4 rq_holder_crit(2) [OF inv, of t] rshape_link [OF _ out, of a q] by auto
    then show ?thesis
      using step Add4 rq_holder_crit(1) [OF inv, of t] by (intro cr [of t a]) auto
  next
    case (Add5 a q)
    have "rshape x s'" "q \<in> set (rhead s # rtasks s)"
      using step Add5 rq_holder_crit(2) [OF inv, of t] by (auto simp: set_next_def)
    then show ?thesis
      using step Add5 rq_holder_crit(1) [OF inv, of t] by (intro cr [of t a]) auto
  next
    case (ECount a)
    have "rshape x s'"
      using step ECount rq_holder_crit(2) [OF inv, of t] by auto
    then show ?thesis
      using step ECount rq_holder_crit(1) [OF inv, of t] by (intro cr [of t a]) auto
  next
    case (EUnlock a)
    have l: "v (rlock s) = 0" using rq_holder_crit(1) [OF inv, of t] EUnlock by simp
    have "rshape x s'"
      using step EUnlock rq_holder_crit(2) [OF inv, of t] by (auto simp: spin_unlock_acquired [OF l])
    then show ?thesis
      using step EUnlock l by (intro cr [of t a]) (auto simp: spin_unlock_acquired [OF l])
  next
    case (DCount a)
    then show ?thesis using i(3) [of t] by simp
  qed (use step in simp_all)
qed

lemma rq_run_inv:
  assumes "sys_run rq_exec ts (p, s) = Some \<sigma>'" "rq_inv p s"
  shows "rq_inv (fst \<sigma>') (snd \<sigma>')"
proof -
  have "(\<lambda>\<sigma>. rq_inv (fst \<sigma>) (snd \<sigma>)) \<sigma>'"
    using assms by (rule_tac sys_run_inv) (auto simp: sys_step_iff intro: rq_step_inv)
  then show ?thesis .
qed

text \<open>Call \<open>t\<close> enqueues the \<open>t\<close>-th task of a list.\<close>

definition rq_enqueue_calls :: "addr list \<Rightarrow> nat \<Rightarrow> rpc" where
  "rq_enqueue_calls as t = (if t < length as then Del1 (as ! t) True else QIdle)"

definition rq_fresh :: "links \<Rightarrow> addr \<Rightarrow> rqmem" where
  "rq_fresh h q = \<lparr>rlk = list_init q h, rhead = q, rlock = spin_lock_init \<lparr>v = 0\<rparr>, rnum = 0, rtasks = []\<rparr>"

lemma rq_fresh_inv:
  assumes "distinct as" "q \<notin> set as" "\<forall>a\<in>set as. ring h a []"
  shows "rq_inv (rq_enqueue_calls as) (rq_fresh h q)"
proof -
  let ?p = "rq_enqueue_calls as" and ?s = "rq_fresh h q"
  have rt: "rtask (?p t) = Some a \<longleftrightarrow> t < length as \<and> as ! t = a" for t a
    by (simp add: rq_enqueue_calls_def)
  have nc: "\<not> rcrit (?p t)" "\<not> rdone (?p t)" "rbefore (?p t) \<or> ?p t = QIdle" for t
    by (simp_all add: rq_enqueue_calls_def)
  have "rq_holder ?p ?s QIdle \<and> rshape QIdle ?s"
    using nc(1) by (simp add: rq_holder_def rq_fresh_def spin_defs list_init_def)
  moreover have "a \<noteq> q \<and> nxt (list_init q h) a = a \<and> prv (list_init q h) a = a" if "a \<in> set as" for a
    using that assms(2,3) by (auto simp: list_init_def)
  ultimately show ?thesis
    unfolding rq_inv_def rt using nc assms(1)
    by (auto simp: rq_fresh_def nth_eq_iff_index_eq simp del: rshape.simps)
qed

text \<open>C26: \<^bold>\<open>Concurrent wake-ups lose no task.\<close> When any number of threads enqueue different tasks, none of them queued, into a fresh run
  queue, then in every interleaving of their single loads and stores, whenever no thread is inside the spin lock, the queue is a
  proper list of exactly the tasks that were inserted, each one once, \<open>task_num\<close> is its length, and it contains the task of every call that has
  returned.\<close>

theorem rq_enqueues_lose_nothing:
  assumes "sys_run rq_exec ts (rq_enqueue_calls as, rq_fresh h q) = Some (p', s')"
    and "distinct as" "q \<notin> set as" "\<forall>a\<in>set as. ring h a []"
    and "\<forall>t. \<not> rcrit (p' t)"
  shows "ring (rlk s') (rhead s') (rtasks s') \<and> rnum s' = length (rtasks s') \<and>
         (\<forall>t a. p' t = QDone a \<longrightarrow> a \<in> set (rtasks s'))"
proof -
  have inv: "rq_inv p' s'"
    using rq_run_inv [OF assms(1) rq_fresh_inv [OF assms(2-4)]] by simp
  then obtain c where c: "rq_holder p' s' c" "rshape c s'"
    using rq_invD(6) by blast
  then have "c = QIdle"
    using assms(5) by (auto simp: rq_holder_def split: if_splits)
  moreover have "a \<in> set (rtasks s')" if "p' t = QDone a" for t a
    using rq_invD(4) [OF inv, of t a] that by simp
  ultimately show ?thesis using c(2) by auto
qed

definition rq_trace :: "nat list" where
  "rq_trace = replicate 8 0 @ [1, 1, 1, 1] @ replicate 4 0 @ replicate 8 1"

text \<open>Witness: the second thread waits for the lock while the first inserts.\<close>

theorem rq_enqueues_lose_nothing_witness:
  "\<exists>p' s'. sys_run rq_exec rq_trace (rq_enqueue_calls [1, 2], rq_fresh \<lparr>prv = id, nxt = id\<rparr> 9) = Some (p', s') \<and>
           p' 0 = QDone 1 \<and> p' 1 = QDone 2 \<and> ring (rlk s') 9 (rtasks s') \<and> rtasks s' = [1, 2]"
proof -
  obtain p' s' where r: "sys_run rq_exec rq_trace (rq_enqueue_calls [1, 2], rq_fresh \<lparr>prv = id, nxt = id\<rparr> 9) = Some (p', s')"
    "p' 0 = QDone 1" "p' 1 = QDone 2" "rtasks s' = [1, 2]" "rhead s' = 9" "\<forall>t. \<not> rcrit (p' t)"
    by (simp add: rq_trace_def eval_nat_numeral sys_step_def rq_enqueue_calls_def rq_fresh_def spin_defs)
  have "ring (rlk s') 9 (rtasks s')"
    using rq_enqueues_lose_nothing [OF r(1)] r(5,6) by simp
  with r show ?thesis by blast
qed

text \<open>Witness of the race: task 1 is taken off while task 2 is woken.\<close>

definition rq_race_mem :: rqmem where
  "rq_race_mem = \<lparr>rlk = list_add_before 9 1 \<lparr>prv = id, nxt = id\<rparr>, rhead = 9, rlock = \<lparr>v = 1\<rparr>, rnum = 1, rtasks = [1]\<rparr>"

theorem rq_dequeue_races_enqueue_witness:
  "\<exists>p' s'. sys_run rq_exec [0, 0, 0, 0, 0, 0, 0, 0, 1, 1, 1, 1, 1, 0, 0, 0, 0] (rq_race_calls 1 2, rq_race_mem) =
     Some (p', s') \<and> p' 0 = QDone 2 \<and> list_walk 2 9 (list_next 9 (rlk s')) (rlk s') = []"
proof -
  have "ring (rlk rq_race_mem) 9 [1]" "ring (rlk rq_race_mem) 2 []" "rhead rq_race_mem = 9" "v (rlock rq_race_mem) = 1"
    "run_list (rq (empty_world\<lparr>rq := (\<lambda>_. \<lparr>run_list = 9, task_num = 1\<rparr>)\<rparr>) 0) = 9"
    by (simp_all add: rq_race_mem_def ring_def list_add_before_def)
  from rq_dequeue_races_enqueue [OF this(1,2) _ _ this(3,4,5)] show ?thesis
    by (metis One_nat_def numeral_eq_iff numeral_eq_one_iff semiring_norm(85,88))
qed

end
