(* ===== verification/NattanFuture.thy ===== *)
theory NattanFuture
  imports CaskInterleave
begin

text \<open>
  \<open>thread/Future.h\<close> on \<open>ThreadMutex\<close> and \<open>Condition\<close>.  The mutex is the call that holds it, the condition variable the
  sequence of the calls blocked in \<open>pthread_cond_wait\<close>; \<open>notify\<close> is \<open>pthread_cond_signal\<close>, which lets one of them go
  on (the one that waits longest), and a woken call competes for the mutex again.  A schedule is a list of events: \<open>Move t\<close> is
  the next step of call \<open>t\<close>, \<open>Wake t\<close> a spurious wake-up, which \<open>pthread_cond_wait\<close> is allowed.  \<open>call\<close> is the \<open>Callable\<close> of the future:
  the value it returns to the call of \<open>run\<close> with the given number.  \<open>fResult\<close> is \<open>None\<close> while it is not assigned.
\<close>

section \<open>Model\<close>

datatype 'a fpc =
    FIdle
  | RLock | RCall                       \<comment> \<open>\<open>run\<close>: at the \<open>LockGuard\<close>, inside it\<close>
  | GTest | GLock | GLoop | GWait       \<comment> \<open>\<open>get\<close> and \<open>wait\<close>\<close>
  | GAgain                              \<comment> \<open>\<open>wait\<close>, at the test of the loop after a wake-up\<close>
  | GRead                               \<comment> \<open>\<open>get\<close>, at \<open>return fResult\<close>\<close>
  | GGot "'a option"                    \<comment> \<open>\<open>get\<close> returned this value\<close>
  | FDone

record 'a future =
  fMutex :: "nat option"
  fCond :: "nat list"
  bFinished :: bool
  fResult :: "'a option"

definition future_new :: "'a future" where
  "future_new = \<lparr>fMutex = None, fCond = [], bFinished = False, fResult = None\<rparr>"

definition f_lock :: "nat \<Rightarrow> 'a fpc \<Rightarrow> 'a future \<Rightarrow> ('a fpc \<times> 'a future) option" where
  "f_lock t p s = (if fMutex s = None then Some (p, s\<lparr>fMutex := Some t\<rparr>) else None)"

definition f_notify :: "'a future \<Rightarrow> 'a future" where
  "f_notify s = s\<lparr>fCond := drop 1 (fCond s)\<rparr>"

text \<open>\<open>run\<close> inside the guard: the callable, the flag, the signal, and the release of the guard.\<close>

definition future_run :: "(nat \<Rightarrow> 'a) \<Rightarrow> nat \<Rightarrow> 'a future \<Rightarrow> 'a future" where
  "future_run call t s = (f_notify (s\<lparr>fResult := Some (call t), bFinished := True\<rparr>))\<lparr>fMutex := None\<rparr>"

definition future_done :: "'a future \<Rightarrow> bool" where
  "future_done s = bFinished s"

definition future_wait :: "nat \<Rightarrow> 'a future \<Rightarrow> 'a fpc \<times> 'a future" where
  "future_wait t s =
     (if \<not> bFinished s then (GWait, s\<lparr>fCond := fCond s @ [t], fMutex := None\<rparr>) else (GRead, s\<lparr>fMutex := None\<rparr>))"

fun future_exec :: "(nat \<Rightarrow> 'a) \<Rightarrow> ('a fpc, 'a future) exec" where
  "future_exec call t RLock s = f_lock t RCall s"
| "future_exec call t RCall s = Some (FDone, future_run call t s)"
| "future_exec call t GTest s = Some (if bFinished s then GRead else GLock, s)"
| "future_exec call t GLock s = f_lock t GLoop s"
| "future_exec call t GLoop s = Some (future_wait t s)"
| "future_exec call t GWait s = (if t \<in> set (fCond s) then None else f_lock t GAgain s)"
| "future_exec call t GAgain s = Some (future_wait t s)"
| "future_exec call t GRead s = Some (GGot (fResult s), s)"
| "future_exec call t p s = None"

datatype fev = Move nat | Wake nat

fun future_sched :: "(nat \<Rightarrow> 'a) \<Rightarrow> fev list \<Rightarrow> ('a fpc, 'a future) sys \<Rightarrow> ('a fpc, 'a future) sys option" where
  "future_sched call [] \<sigma> = Some \<sigma>"
| "future_sched call (Move t # es) \<sigma> =
     (case sys_step (future_exec call) t \<sigma> of None \<Rightarrow> None | Some \<sigma>' \<Rightarrow> future_sched call es \<sigma>')"
| "future_sched call (Wake t # es) \<sigma> =
     (if t \<in> set (fCond (snd \<sigma>)) then future_sched call es (fst \<sigma>, (snd \<sigma>)\<lparr>fCond := removeAll t (fCond (snd \<sigma>))\<rparr>) else None)"

fun moves :: "fev list \<Rightarrow> nat" where
  "moves [] = 0" | "moves (Move t # es) = Suc (moves es)" | "moves (Wake t # es) = moves es"

fun wakes :: "fev list \<Rightarrow> nat" where
  "wakes [] = 0" | "wakes (Move t # es) = wakes es" | "wakes (Wake t # es) = Suc (wakes es)"

text \<open>A schedule without spurious wake-ups.\<close>

lemma future_sched_moves: "future_sched call (map Move ts) \<sigma> = sys_run (future_exec call) ts \<sigma>"
  by (induction ts arbitrary: \<sigma>) (auto split: option.splits)

lemma future_sched_inv:
  assumes "future_sched call es \<sigma> = Some \<sigma>'" "P \<sigma>"
    and move: "\<And>t \<sigma> \<sigma>'. P \<sigma> \<Longrightarrow> sys_step (future_exec call) t \<sigma> = Some \<sigma>' \<Longrightarrow> P \<sigma>'"
    and wake: "\<And>t p s. P (p, s) \<Longrightarrow> t \<in> set (fCond s) \<Longrightarrow> P (p, s\<lparr>fCond := removeAll t (fCond s)\<rparr>)"
  shows "P \<sigma>'"
  using assms(1,2)
proof (induction es arbitrary: \<sigma>)
  case (Cons e es)
  show ?case
  proof (cases e)
    case (Move t)
    then obtain \<sigma>1 where "sys_step (future_exec call) t \<sigma> = Some \<sigma>1" "future_sched call es \<sigma>1 = Some \<sigma>'"
      using Cons.prems by (auto split: option.splits)
    then show ?thesis using Cons.IH Cons.prems(2) move by blast
  next
    case (Wake t)
    then show ?thesis
      using Cons.IH Cons.prems wake [of "fst \<sigma>" "snd \<sigma>" t] by (auto split: if_splits)
  qed
qed simp

section \<open>Invariant\<close>

fun fholds :: "'a fpc \<Rightarrow> bool" where
  "fholds RCall = True"
| "fholds GLoop = True"
| "fholds GAgain = True"
| "fholds _ = False"

definition f_hold :: "(nat \<Rightarrow> 'a fpc) \<Rightarrow> nat option \<Rightarrow> bool" where
  "f_hold p ow \<longleftrightarrow> (\<forall>t. fholds (p t) = (ow = Some t))"

text \<open>\<open>R\<close> are the calls of \<open>run\<close>.\<close>

definition f_inv :: "(nat \<Rightarrow> 'a) \<Rightarrow> nat set \<Rightarrow> (nat \<Rightarrow> 'a fpc) \<Rightarrow> 'a future \<Rightarrow> bool" where
  "f_inv call R p s \<longleftrightarrow>
     f_hold p (fMutex s) \<and>
     (\<forall>t. p t = RLock \<or> p t = RCall \<longrightarrow> t \<in> R) \<and>
     (if bFinished s then \<exists>u\<in>R. fResult s = Some (call u) else True) \<and>
     (\<forall>t. p t = GRead \<longrightarrow> bFinished s) \<and>
     (\<forall>t r. p t = GGot r \<longrightarrow> (\<exists>u\<in>R. r = Some (call u)))"

lemma f_hold_upd:
  assumes "f_hold p ow" "fholds x \<Longrightarrow> fholds (p t) \<or> ow = None"
  shows "f_hold (p(t := x)) (if fholds x then Some t else if fholds (p t) then None else ow)"
  using assms by (cases ow; cases "fholds x") (auto simp: f_hold_def)

lemma future_step_hold:
  assumes h: "f_hold p (fMutex s)" and step: "future_exec call t (p t) s = Some (x, s')"
  shows "f_hold (p(t := x)) (fMutex s')"
  using step f_hold_upd [OF h, of x t] h
  by (cases "p t") (auto simp: f_lock_def future_run_def f_notify_def future_wait_def split: if_splits)

lemma future_step_inv:
  assumes inv: "f_inv call R p s" and step: "future_exec call t (p t) s = Some (x, s')"
  shows "f_inv call R (p(t := x)) s'"
proof -
  have h: "f_hold p (fMutex s)" and R: "\<And>t. p t = RLock \<or> p t = RCall \<Longrightarrow> t \<in> R"
    and f: "bFinished s \<Longrightarrow> \<exists>u\<in>R. fResult s = Some (call u)"
    and g: "\<And>t. p t = GRead \<Longrightarrow> bFinished s" "\<And>t r. p t = GGot r \<Longrightarrow> \<exists>u\<in>R. r = Some (call u)"
    using inv unfolding f_inv_def by (auto split: if_splits)
  note hu = f_hold_upd [OF h, of x t]
  show ?thesis
  proof (cases "p t")
    case RLock
    then show ?thesis using step hu R f g h by (auto simp: f_inv_def f_lock_def split: if_splits)
  next
    case RCall
    then have "t \<in> R" using R by blast
    then show ?thesis using RCall step hu R f g h by (auto simp: f_inv_def future_run_def f_notify_def split: if_splits)
  next
    case GTest
    then show ?thesis using step hu R f g h by (auto simp: f_inv_def split: if_splits)
  next
    case GLock
    then show ?thesis using step hu R f g h by (auto simp: f_inv_def f_lock_def split: if_splits)
  next
    case GLoop
    then show ?thesis using step hu R f g h by (auto simp: f_inv_def future_wait_def split: if_splits)
  next
    case GWait
    then show ?thesis using step hu R f g h by (auto simp: f_inv_def f_lock_def split: if_splits)
  next
    case GAgain
    then show ?thesis using step hu R f g h by (auto simp: f_inv_def future_wait_def split: if_splits)
  next
    case GRead
    then show ?thesis using step hu R f g h by (auto simp: f_inv_def split: if_splits)
  qed (use step in simp_all)
qed

lemma future_run_inv:
  assumes "future_sched call es (p, s) = Some \<sigma>'" "f_inv call R p s"
  shows "f_inv call R (fst \<sigma>') (snd \<sigma>')"
proof (rule future_sched_inv [where P = "\<lambda>\<sigma>. f_inv call R (fst \<sigma>) (snd \<sigma>)", OF assms(1)])
  show "f_inv call R (fst (p, s\<lparr>fCond := removeAll t (fCond s)\<rparr>)) (snd (p, s\<lparr>fCond := removeAll t (fCond s)\<rparr>))"
    if "f_inv call R (fst (p, s)) (snd (p, s))" for p s t
    using that by (simp add: f_inv_def)
qed (use assms(2) in \<open>auto simp: sys_step_iff intro: future_step_inv\<close>)

text \<open>\<open>get\<close> returns the result of the callable: in every interleaving of any calls of \<open>run\<close> and \<open>get\<close> on a new future,
  a value that \<open>get\<close> returns is the value the callable returned to a call of \<open>run\<close>, never the unassigned \<open>fResult\<close>.\<close>

theorem future_get_result:
  assumes "future_sched call es (p, future_new) = Some \<sigma>'"
    and "\<forall>t. p t = FIdle \<or> p t = RLock \<or> p t = GTest" "fst \<sigma>' t = GGot r"
  shows "\<exists>u. p u = RLock \<and> r = Some (call u)"
proof -
  have p: "\<not> fholds (p u) \<and> p u \<noteq> GRead \<and> p u \<noteq> RCall \<and> (\<forall>r. p u \<noteq> GGot r)" for u
    using assms(2) [rule_format, of u] by auto
  have "f_inv call {u. p u = RLock} p future_new"
    using p by (simp add: f_inv_def f_hold_def future_new_def)
  from future_run_inv [OF assms(1) this] assms(3) show ?thesis
    unfolding f_inv_def by blast
qed

definition future_calls :: "nat \<Rightarrow> nat \<Rightarrow> 'a fpc" where
  "future_calls n t = (if t < n then GTest else if t = n then RLock else FIdle)"

text \<open>Witness: one call waits, the other delivers.\<close>

theorem future_get_result_witness:
  "\<exists>\<sigma>'. future_sched (\<lambda>t. t + 41) (map Move [0, 0, 0, 1, 1, 0, 0, 0]) (future_calls 1, future_new) = Some \<sigma>' \<and>
        fst \<sigma>' 0 = GGot (Some 42)"
proof -
  obtain \<sigma>' r where r: "future_sched (\<lambda>t. t + 41) (map Move [0, 0, 0, 1, 1, 0, 0, 0]) (future_calls 1, future_new) = Some \<sigma>'"
      "fst \<sigma>' 0 = GGot r"
    by (simp add: sys_step_def future_calls_def future_new_def f_lock_def future_wait_def future_run_def f_notify_def)
  have "\<forall>t. future_calls 1 t = FIdle \<or> future_calls 1 t = RLock \<or> future_calls 1 t = GTest"
    by (simp add: future_calls_def)
  from future_get_result [OF r(1) this r(2)] r show ?thesis
    by (auto simp: future_calls_def split: if_splits)
qed

section \<open>Waiting\<close>

text \<open>With one call of \<open>get\<close> the wake-up is enough.\<close>

fun getting :: "'a fpc \<Rightarrow> bool" where
  "getting GTest = True" | "getting GLock = True" | "getting GLoop = True"
| "getting GWait = True" | "getting GAgain = True" | "getting _ = False"

fun future_rank :: "'a fpc \<Rightarrow> nat" where
  "future_rank RLock = 2" | "future_rank RCall = 1" | "future_rank GTest = 6" | "future_rank GLock = 5"
| "future_rank GLoop = 4" | "future_rank GWait = 3" | "future_rank GAgain = 2" | "future_rank GRead = 1"
| "future_rank _ = 0"

definition one_getting :: "(nat \<Rightarrow> 'a fpc) \<Rightarrow> bool" where
  "one_getting p \<longleftrightarrow> (\<forall>t u. getting (p t) \<longrightarrow> getting (p u) \<longrightarrow> t = u)"

lemma one_getting_upd: "one_getting p \<Longrightarrow> (getting x \<Longrightarrow> getting (p t)) \<Longrightarrow> one_getting (p(t := x))"
  unfolding one_getting_def by (metis fun_upd_apply)

definition f_queue :: "(nat \<Rightarrow> 'a fpc) \<Rightarrow> nat list \<Rightarrow> bool \<Rightarrow> bool" where
  "f_queue p ws fin \<longleftrightarrow>
     (\<forall>t\<in>set ws. p t = GWait) \<and> distinct ws \<and> one_getting p \<and> (if fin then ws = [] else \<exists>u. p u = RLock \<or> p u = RCall)"

definition future_live :: "('a fpc, 'a future) sys \<Rightarrow> bool" where
  "future_live \<sigma> \<longleftrightarrow>
     f_hold (fst \<sigma>) (fMutex (snd \<sigma>)) \<and> finite {t. future_rank (fst \<sigma> t) \<noteq> 0} \<and>
     f_queue (fst \<sigma>) (fCond (snd \<sigma>)) (bFinished (snd \<sigma>))"

lemma f_queueD:
  assumes "f_queue p ws fin"
  shows "t \<in> set ws \<Longrightarrow> p t = GWait" "distinct ws" "one_getting p"
    "fin \<Longrightarrow> ws = []" "\<not> fin \<Longrightarrow> \<exists>u. p u = RLock \<or> p u = RCall"
  using assms by (auto simp: f_queue_def)

lemma f_queue_getting: "f_queue p ws fin \<Longrightarrow> getting (p t) \<Longrightarrow> u \<in> set ws \<Longrightarrow> u = t"
  using f_queueD(1) [of p ws fin u] f_queueD(3) [of p ws fin] unfolding one_getting_def by (metis getting.simps(4))

lemma f_queue_drop:
  assumes "f_queue p ws fin"
  shows "drop 1 ws = []"
proof (cases ws)
  case (Cons u us)
  then have "getting (p u)" using f_queueD(1) [OF assms, of u] by simp
  then have "us = []"
    using f_queue_getting [OF assms] f_queueD(2) [OF assms] Cons by (cases us) auto
  then show ?thesis by (simp add: Cons)
qed simp

lemma f_queue_not_waiting: "f_queue p ws fin \<Longrightarrow> getting (p t) \<Longrightarrow> p t \<noteq> GWait \<Longrightarrow> ws = []"
  using f_queue_getting f_queueD(1) by (metis last_in_set)

text \<open>A step to another point of \<open>get\<close>, a step out of it, and a step into the wait.\<close>

lemma f_queue_move:
  assumes q: "f_queue p ws fin" and g: "getting x \<Longrightarrow> getting (p t)" and w: "t \<notin> set ws"
    and r: "\<not> fin \<Longrightarrow> p t = RLock \<Longrightarrow> x = RCall" "p t \<noteq> RCall"
  shows "f_queue (p(t := x)) ws fin"
proof -
  have "\<exists>u. (p(t := x)) u = RLock \<or> (p(t := x)) u = RCall" if nf: "\<not> fin"
  proof -
    obtain u where "p u = RLock \<or> p u = RCall" using f_queueD(5) [OF q nf] by blast
    then show ?thesis using r(1) [OF nf] r(2) by (cases "u = t") auto
  qed
  moreover have "one_getting (p(t := x))"
    using f_queueD(3) [OF q] g by (rule one_getting_upd)
  ultimately show ?thesis
    using w f_queueD(1,2,4) [OF q] unfolding f_queue_def by (auto split: if_splits)
qed

lemma f_queue_wait:
  assumes q: "f_queue p ws False" and t: "p t = GLoop \<or> p t = GAgain"
  shows "f_queue (p(t := GWait)) (ws @ [t]) False" "ws = []"
proof -
  have "getting (p t)" "p t \<noteq> GWait"
    using t by auto
  then show e: "ws = []"
    using f_queue_not_waiting [OF q] by blast
  have "one_getting (p(t := GWait))"
    using t by (intro one_getting_upd [OF f_queueD(3) [OF q]]) auto
  moreover obtain u where "p u = RLock \<or> p u = RCall"
    using f_queueD(5) [OF q] by blast
  then have "\<exists>u. (p(t := GWait)) u = RLock \<or> (p(t := GWait)) u = RCall"
    using t by (intro exI [of _ u]) auto
  ultimately show "f_queue (p(t := GWait)) (ws @ [t]) False"
    using e unfolding f_queue_def by simp
qed

lemma future_wait_queue:
  assumes q: "f_queue p (fCond s) (bFinished s)" and t: "p t = GLoop \<or> p t = GAgain" and w: "future_wait t s = (x, s')"
  shows "f_queue (p(t := x)) (fCond s') (bFinished s')"
proof (cases "bFinished s")
  case True
  have "f_queue (p(t := GRead)) (fCond s) (bFinished s)"
    using t f_queueD(1) [OF q, of t] by (intro f_queue_move [OF q]) auto
  then show ?thesis
    using w True by (auto simp: future_wait_def)
next
  case False
  then show ?thesis
    using w f_queue_wait [of p "fCond s" t] q t by (auto simp: future_wait_def)
qed

lemma future_step_queue:
  assumes q: "f_queue p (fCond s) (bFinished s)" and step: "future_exec call t (p t) s = Some (x, s')"
  shows "f_queue (p(t := x)) (fCond s') (bFinished s')"
proof -
  note d = f_queueD [OF q]
  have out: "p t \<noteq> GWait \<Longrightarrow> t \<notin> set (fCond s)" using d(1) by blast
  show ?thesis
  proof (cases "p t")
    case RLock
    then show ?thesis using step out by (auto simp: f_lock_def split: if_splits intro!: f_queue_move [OF q])
  next
    case RCall
    have "one_getting (p(t := FDone))" by (rule one_getting_upd [OF d(3)]) simp
    then have "f_queue (p(t := FDone)) [] True"
      by (simp add: f_queue_def)
    then show ?thesis
      using RCall step f_queue_drop [OF q] by (auto simp: future_run_def f_notify_def)
  next
    case GTest
    then have "s' = s" "x = GRead \<or> x = GLock" using step by (auto split: if_splits)
    moreover have "f_queue (p(t := y)) (fCond s) (bFinished s)" if "y = GRead \<or> y = GLock" for y
      by (rule f_queue_move [OF q]) (use that GTest out in auto)
    ultimately show ?thesis by blast
  next
    case GLock
    then show ?thesis using step out by (auto simp: f_lock_def split: if_splits intro!: f_queue_move [OF q])
  next
    case GLoop
    then show ?thesis using step future_wait_queue [OF q, of t] by simp
  next
    case GWait
    then have "t \<notin> set (fCond s)" using step by (auto split: if_splits)
    then have "f_queue (p(t := GAgain)) (fCond s) (bFinished s)"
      by (intro f_queue_move [OF q]) (use GWait in auto)
    then show ?thesis using step GWait by (auto simp: f_lock_def split: if_splits)
  next
    case GAgain
    then show ?thesis using step future_wait_queue [OF q, of t] by simp
  next
    case GRead
    have "f_queue (p(t := GGot (fResult s))) (fCond s) (bFinished s)"
      by (rule f_queue_move [OF q]) (use GRead out in auto)
    then show ?thesis using step GRead by auto
  qed (use step in simp_all)
qed

lemma future_live_step:
  assumes live: "future_live \<sigma>" and st: "sys_step (future_exec call) t \<sigma> = Some \<sigma>'"
  shows "future_live \<sigma>'"
proof -
  obtain x s' where e: "future_exec call t (fst \<sigma> t) (snd \<sigma>) = Some (x, s')" "\<sigma>' = ((fst \<sigma>)(t := x), s')"
    using st by (auto simp: sys_step_iff)
  have h: "f_hold (fst \<sigma>) (fMutex (snd \<sigma>))" and fin: "finite {t. future_rank (fst \<sigma> t) \<noteq> 0}"
    and q: "f_queue (fst \<sigma>) (fCond (snd \<sigma>)) (bFinished (snd \<sigma>))"
    using live unfolding future_live_def by blast+
  have "{u. future_rank (((fst \<sigma>)(t := x)) u) \<noteq> 0} \<subseteq> insert t {t. future_rank (fst \<sigma> t) \<noteq> 0}" by auto
  then have "finite {u. future_rank (((fst \<sigma>)(t := x)) u) \<noteq> 0}"
    using fin by (meson finite.insertI finite_subset)
  then show ?thesis
    using future_step_hold [OF h e(1)] future_step_queue [OF q e(1)]
    unfolding future_live_def e(2) fst_conv snd_conv by blast
qed

lemma future_live_wake: "future_live (p, s) \<Longrightarrow> future_live (p, s\<lparr>fCond := removeAll t (fCond s)\<rparr>)"
  by (auto simp: future_live_def f_queue_def distinct_removeAll split: if_splits)

lemma future_live_sched: "future_sched call es \<sigma> = Some \<sigma>' \<Longrightarrow> future_live \<sigma> \<Longrightarrow> future_live \<sigma>'"
  by (erule future_sched_inv [where P = future_live]) (auto intro: future_live_step future_live_wake)

text \<open>A spurious wake-up costs two steps: the woken call takes the mutex and waits again.\<close>

definition woken :: "('a fpc, 'a future) sys \<Rightarrow> nat \<Rightarrow> bool" where
  "woken \<sigma> t \<longleftrightarrow> \<not> bFinished (snd \<sigma>) \<and> (fst \<sigma> t = GAgain \<or> fst \<sigma> t = GWait \<and> t \<notin> set (fCond (snd \<sigma>)))"

definition potential :: "('a fpc, 'a future) sys \<Rightarrow> nat" where
  "potential \<sigma> = rank_sum future_rank \<sigma> + (if \<exists>t. woken \<sigma> t then 2 else 0)"

lemma woken_step:
  assumes "future_live \<sigma>" "sys_step (future_exec call) t \<sigma> = Some \<sigma>'" "woken \<sigma>' u"
  shows "woken \<sigma> u"
proof -
  obtain x s' where e: "future_exec call t (fst \<sigma> t) (snd \<sigma>) = Some (x, s')" "\<sigma>' = ((fst \<sigma>)(t := x), s')"
    using assms(2) by (auto simp: sys_step_iff)
  then show ?thesis
    using assms(3) by (cases "fst \<sigma> t")
      (auto simp: woken_def f_lock_def future_wait_def future_run_def f_notify_def split: if_splits)
qed

lemma future_potential_step:
  assumes live: "future_live \<sigma>" and st: "sys_step (future_exec call) t \<sigma> = Some \<sigma>'"
  shows "potential \<sigma>' < potential \<sigma>"
proof -
  obtain x s' where e: "future_exec call t (fst \<sigma> t) (snd \<sigma>) = Some (x, s')" "\<sigma>' = ((fst \<sigma>)(t := x), s')"
    using st by (auto simp: sys_step_iff)
  have fin: "finite {t. future_rank (fst \<sigma> t) \<noteq> 0}" and q: "f_queue (fst \<sigma>) (fCond (snd \<sigma>)) (bFinished (snd \<sigma>))"
    using live unfolding future_live_def by blast+
  show ?thesis
  proof (cases "fst \<sigma> t = GAgain \<and> \<not> bFinished (snd \<sigma>)")
    case False
    then have "future_rank x < future_rank (fst \<sigma> t)"
      using e(1) by (cases "fst \<sigma> t") (auto simp: f_lock_def future_wait_def split: if_splits)
    then have "rank_sum future_rank \<sigma>' < rank_sum future_rank \<sigma>"
      unfolding e(2) by (rule rank_sum_step [OF fin])
    then show ?thesis
      using woken_step [OF live st] by (auto simp: potential_def)
  next
    case True
    then have x: "x = GWait" "s' = (snd \<sigma>)\<lparr>fCond := fCond (snd \<sigma>) @ [t], fMutex := None\<rparr>"
      using e(1) by (simp_all add: future_wait_def)
    have "woken \<sigma> t"
      using True by (simp add: woken_def)
    moreover have "\<not> woken \<sigma>' u" for u
    proof
      assume w: "woken \<sigma>' u"
      then have "woken \<sigma> u"
        by (rule woken_step [OF live st])
      then have "getting (fst \<sigma> u)"
        by (auto simp: woken_def)
      then have "u = t"
        using f_queueD(3) [OF q] True unfolding one_getting_def by (metis getting.simps(5))
      then show False
        using w x unfolding e(2) by (simp add: woken_def)
    qed
    moreover have "rank_sum future_rank \<sigma>' \<le> Suc (rank_sum future_rank \<sigma>)"
    proof -
      let ?A = "{t. future_rank (fst \<sigma> t) \<noteq> 0}"
      have t: "t \<in> ?A" "{u. future_rank (fst \<sigma>' u) \<noteq> 0} = ?A"
        using True x(1) by (auto simp: e(2))
      have "rank_sum future_rank \<sigma>' = future_rank GWait + (\<Sum>u\<in>?A - {t}. future_rank (fst \<sigma>' u))"
        unfolding rank_sum_def t(2) using fin t(1) x(1) by (subst sum.remove [of _ t]) (simp_all add: e(2))
      moreover have "(\<Sum>u\<in>?A - {t}. future_rank (fst \<sigma>' u)) = (\<Sum>u\<in>?A - {t}. future_rank (fst \<sigma> u))"
        by (rule sum.cong) (simp_all add: e(2))
      moreover have "rank_sum future_rank \<sigma> = future_rank GAgain + (\<Sum>u\<in>?A - {t}. future_rank (fst \<sigma> u))"
        unfolding rank_sum_def using fin t(1) True by (subst sum.remove [of _ t]) simp_all
      ultimately show ?thesis by simp
    qed
    ultimately show ?thesis
      by (auto simp: potential_def)
  qed
qed

lemma future_potential_wake: "potential (p, s\<lparr>fCond := removeAll t (fCond s)\<rparr>) \<le> potential (p, s) + 2"
  by (auto simp: potential_def rank_sum_def)

lemma future_sched_bound:
  "future_sched call es \<sigma> = Some \<sigma>' \<Longrightarrow> future_live \<sigma> \<Longrightarrow> moves es + potential \<sigma>' \<le> potential \<sigma> + 2 * wakes es"
proof (induction es arbitrary: \<sigma>)
  case (Cons e es)
  show ?case
  proof (cases e)
    case (Move t)
    then obtain \<sigma>1 where s: "sys_step (future_exec call) t \<sigma> = Some \<sigma>1" "future_sched call es \<sigma>1 = Some \<sigma>'"
      using Cons.prems by (auto split: option.splits)
    then show ?thesis
      using Cons.IH [OF s(2) future_live_step [OF Cons.prems(2) s(1)]] future_potential_step [OF Cons.prems(2) s(1)] Move by simp
  next
    case (Wake t)
    let ?\<sigma> = "(fst \<sigma>, (snd \<sigma>)\<lparr>fCond := removeAll t (fCond (snd \<sigma>))\<rparr>)"
    have "future_sched call es ?\<sigma> = Some \<sigma>'"
      using Cons.prems(1) Wake by (auto split: if_splits)
    then have "moves es + potential \<sigma>' \<le> potential ?\<sigma> + 2 * wakes es"
      using Cons.IH Cons.prems(2) future_live_wake [of "fst \<sigma>" "snd \<sigma>" t] by simp
    then show ?thesis
      using Wake future_potential_wake [where p = "fst \<sigma>" and s = "snd \<sigma>" and t = t] by simp
  qed
qed simp

lemma future_live_progress:
  assumes live: "future_live \<sigma>" and r: "future_rank (fst \<sigma> t) \<noteq> 0"
  shows "\<not> sys_stuck (future_exec call) \<sigma>"
proof
  assume "sys_stuck (future_exec call) \<sigma>"
  then have none: "future_exec call u (fst \<sigma> u) (snd \<sigma>) = None" for u
    by (simp add: sys_stuck_def sys_step_None)
  have h: "f_hold (fst \<sigma>) (fMutex (snd \<sigma>))" and q: "f_queue (fst \<sigma>) (fCond (snd \<sigma>)) (bFinished (snd \<sigma>))"
    using live unfolding future_live_def by blast+
  have free: "fMutex (snd \<sigma>) = None"
  proof (rule ccontr)
    assume "fMutex (snd \<sigma>) \<noteq> None"
    then obtain u where "fholds (fst \<sigma> u)" using h by (auto simp: f_hold_def)
    then show False using none [of u] by (cases "fst \<sigma> u") simp_all
  qed
  have "fst \<sigma> u \<noteq> RLock \<and> fst \<sigma> u \<noteq> RCall" for u
    using none [of u] free by (auto simp: f_lock_def)
  then have "fCond (snd \<sigma>) = []"
    using f_queueD(4,5) [OF q] by blast
  then show False
    using none [of t] free r by (cases "fst \<sigma> t") (auto simp: f_lock_def)
qed

lemma future_calls_live: "future_live (future_calls 1, future_new)"
proof -
  have "{t. future_rank (future_calls 1 t :: 'a fpc) \<noteq> 0} = {0, 1}"
    by (auto simp: future_calls_def split: if_splits)
  moreover have "one_getting (future_calls 1 :: nat \<Rightarrow> 'a fpc)"
    by (auto simp: one_getting_def future_calls_def split: if_splits)
  ultimately show ?thesis
    by (auto simp: future_live_def future_new_def f_hold_def f_queue_def future_calls_def)
qed

fun get_point :: "'a fpc \<Rightarrow> bool" where
  "get_point GRead = True"
| "get_point (GGot r) = True"
| "get_point p = getting p"

lemma future_get_point:
  assumes "future_sched call es \<sigma> = Some \<sigma>'" "get_point (fst \<sigma> t)"
  shows "get_point (fst \<sigma>' t)"
proof -
  have "get_point x" if "future_exec call u q s = Some (x, s')" "get_point q" for u q s x s'
    using that by (cases q) (auto simp: f_lock_def future_wait_def split: if_splits)
  then show ?thesis
    using assms(2) by (intro future_sched_inv [where P = "\<lambda>\<sigma>. get_point (fst \<sigma> t)", OF assms(1)]) (auto simp: sys_step_iff)
qed

lemma future_calls_inv: "f_inv call {n} (future_calls n) future_new"
  by (auto simp: f_inv_def f_hold_def future_new_def future_calls_def split: if_splits)

text \<open>C32: a single \<open>get\<close> always returns: with one call of \<open>get\<close> and one of \<open>run\<close>, in every interleaving with spurious wake-ups of
  the condition variable, the calls make at most eight steps and two more for each spurious wake-up, and when no call can move \<open>get\<close> has
  returned the result of the callable.\<close>

theorem future_single_get_returns:
  assumes "future_sched call es (future_calls 1, future_new) = Some \<sigma>'"
  shows "moves es \<le> 8 + 2 * wakes es \<and> (sys_stuck (future_exec call) \<sigma>' \<longrightarrow> fst \<sigma>' 0 = GGot (Some (call 1)))"
proof -
  have A: "{t. future_rank (future_calls 1 t :: 'a fpc) \<noteq> 0} = {0, 1}"
    by (auto simp: future_calls_def split: if_splits)
  have "potential (future_calls 1 :: nat \<Rightarrow> 'a fpc, future_new :: 'a future) = 8"
    unfolding potential_def rank_sum_def fst_conv A by (auto simp: future_calls_def woken_def split: if_splits)
  then have "moves es \<le> 8 + 2 * wakes es"
    using future_sched_bound [OF assms future_calls_live] by simp
  moreover have "fst \<sigma>' 0 = GGot (Some (call 1))" if "sys_stuck (future_exec call) \<sigma>'"
  proof -
    have "get_point (fst \<sigma>' 0)"
      by (rule future_get_point [OF assms]) (simp add: future_calls_def)
    moreover have "future_rank (fst \<sigma>' 0) = 0"
      using future_live_progress [OF future_live_sched [OF assms future_calls_live], of 0] that by blast
    ultimately obtain r where "fst \<sigma>' 0 = GGot r" by (cases "fst \<sigma>' 0") auto
    then show ?thesis
      using future_run_inv [OF assms future_calls_inv] unfolding f_inv_def by blast
  qed
  ultimately show ?thesis by blast
qed

text \<open>Witness: the waiting call is woken for no reason before the future is run.\<close>

theorem future_single_get_returns_witness:
  "\<exists>\<sigma>'. future_sched (\<lambda>t. t + 41) (map Move [0, 0, 0] @ Wake 0 # map Move [0, 0, 1, 1, 0, 0, 0]) (future_calls 1, future_new) = Some \<sigma>' \<and>
        sys_stuck (future_exec (\<lambda>t. t + 41)) \<sigma>' \<and> fst \<sigma>' 0 = GGot (Some 42)"
proof -
  obtain \<sigma>' where r: "future_sched (\<lambda>t. t + 41) (map Move [0, 0, 0] @ Wake 0 # map Move [0, 0, 1, 1, 0, 0, 0])
        (future_calls 1, future_new) = Some \<sigma>'"
      "sys_stuck (future_exec (\<lambda>t. t + 41)) \<sigma>'"
    by (simp add: sys_step_def future_calls_def future_new_def f_lock_def future_wait_def future_run_def f_notify_def
        sys_stuck_def)
  with future_single_get_returns [OF r(1)] show ?thesis by auto
qed

section \<open>Several waiting calls\<close>

definition future_waiting :: "nat \<Rightarrow> nat \<Rightarrow> nat \<Rightarrow> 'a fpc" where
  "future_waiting n k t = (if t < k then GWait else future_calls n t)"

lemma future_queue_up:
  assumes "k \<le> n"
  shows "sys_run (future_exec call) (concat (map (\<lambda>i. [i, i, i]) [0..<k])) (future_calls n, future_new) =
         Some (future_waiting n k, future_new\<lparr>fCond := [0..<k]\<rparr>)"
  using assms
proof (induction k)
  case 0
  then show ?case by (simp add: future_waiting_def future_new_def)
next
  case (Suc k)
  have "(future_waiting n k)(k := GWait) = (future_waiting n (Suc k) :: nat \<Rightarrow> 'a fpc)"
    by (auto simp: future_waiting_def)
  with Suc show ?case
    by (simp add: sys_run_append sys_step_def future_waiting_def future_calls_def f_lock_def future_wait_def future_new_def)
      (auto simp: future_calls_def)
qed

text \<open>only one waiting \<open>get\<close> is ever released.  When \<open>n\<close> calls of \<open>get\<close> wait and the future is run, the first of them returns and the
  other \<open>n - 1\<close> stay in the wait, because \<open>run\<close> signals one waiter instead of all: no call can move any more, and only a spurious wake-up would
  free one of them.\<close>

theorem future_other_gets_hang:
  assumes "0 < n"
  shows "\<exists>\<sigma>'. sys_run (future_exec call) (concat (map (\<lambda>i. [i, i, i]) [0..<n]) @ [n, n, 0, 0, 0]) (future_calls n, future_new) =
                Some \<sigma>' \<and> bFinished (snd \<sigma>') \<and> fst \<sigma>' 0 = GGot (Some (call n)) \<and>
              (\<forall>t. 0 < t \<and> t < n \<longrightarrow> fst \<sigma>' t = GWait) \<and> sys_stuck (future_exec call) \<sigma>'"
proof -
  have "[0..<n] = 0 # [1..<n]" using assms by (simp add: upt_rec)
  then have d: "drop (Suc 0) [0..<n] = [1..<n]" by simp
  show ?thesis
    unfolding sys_run_append future_queue_up [OF order_refl] option.case
    using assms
    by (simp add: sys_step_def future_waiting_def future_calls_def f_lock_def
        future_wait_def future_run_def f_notify_def future_new_def d sys_stuck_def)
qed

theorem future_other_gets_hang_witness:
  "\<exists>\<sigma>'. sys_run (future_exec (\<lambda>t. t)) (concat (map (\<lambda>i. [i, i, i]) [0..<3]) @ [3, 3, 0, 0, 0]) (future_calls 3, future_new) =
          Some \<sigma>' \<and> fst \<sigma>' 1 = GWait \<and> fst \<sigma>' 2 = GWait \<and> sys_stuck (future_exec (\<lambda>t. t)) \<sigma>'"
  using future_other_gets_hang [of 3 "\<lambda>t. t"] by auto

end
