(* ===== verification/NattanAwait.thy ===== *)
theory NattanAwait
  imports CaskInterleave
begin

text \<open>
  Blocking work handed to another thread: \<open>async_wait\<close> of \<open>co_await.c\<close>, which starts a thread per call, and \<open>Task::await\<close> with
  \<open>AwaitRunner\<close> of \<open>task/Task.cpp\<close>, which uses a thread pool.  Call \<open>0\<close> is the caller, call \<open>1\<close> the thread that runs the work.  The caller
  is a task (it suspends itself and is put on the run queue of its scheduler by the thread) or a plain thread (it joins
  the other thread, or waits on a condition variable).  \<open>queued\<close> says that the caller is on the run queue: a task that
  is enqueued before it has switched away is found there when it does.  A scheduler runs a queued task.  Putting a task on the run queue
  and taking it off are single steps here; in the code the scheduler takes tasks off without the lock of the queue, and what that race can do
  is shown for the run queue itself (\<open>CaskRunQueue\<close>), not here.
\<close>

section \<open>Model of co\_await.c\<close>

datatype apc =
    AIdle
  | AEnter                    \<comment> \<open>\<open>async_wait\<close>, at its test for a function\<close>
  | ACreate                   \<comment> \<open>at \<open>pthread_create\<close>\<close>
  | AYield | ASusp            \<comment> \<open>before and in \<open>co_sys_yield\<close>\<close>
  | AJoin                     \<comment> \<open>in \<open>pthread_join\<close>\<close>
  | ARet int                  \<comment> \<open>returned\<close>
  | TNew | TFunc | TWake | TActive | TDone    \<comment> \<open>\<open>_await_task\<close>\<close>

record co_await =
  in_task :: bool
  created :: bool
  aret :: int
  queued :: bool
  woken :: nat
  ended :: bool

definition await_new :: "bool \<Rightarrow> co_await" where
  "await_new it = \<lparr>in_task = it, created = False, aret = - 1, queued = False, woken = 0, ended = False\<rparr>"

text \<open>\<open>ok\<close>: whether \<open>pthread_create\<close> succeeds, \<open>func\<close>: what the function returns, \<open>None\<close> for a null pointer.  Joining a thread that was not created has no defined
  behaviour; here it does not return.\<close>

fun await_exec :: "bool \<Rightarrow> int option \<Rightarrow> (apc, co_await) exec" where
  "await_exec ok func t AEnter s = Some (if func = None then ARet (- 1) else ACreate, s)"
| "await_exec ok func t ACreate s =
     Some (if in_task s then AYield else AJoin, s\<lparr>created := ok\<rparr>)"
| "await_exec ok func t AYield s = Some (ASusp, s)"
| "await_exec ok func t ASusp s = (if queued s then Some (ARet (aret s), s\<lparr>queued := False\<rparr>) else None)"
| "await_exec ok func t AJoin s = (if ended s then Some (ARet (aret s), s) else None)"
| "await_exec ok func t TNew s = (if created s then Some (TFunc, s) else None)"
| "await_exec ok func t TFunc s = Some (TWake, case func of None \<Rightarrow> s | Some r \<Rightarrow> s\<lparr>aret := r\<rparr>)"
| "await_exec ok func t TWake s =
     Some (if in_task s then (TActive, s\<lparr>queued := True\<rparr>) else (TDone, s\<lparr>ended := True\<rparr>))"
| "await_exec ok func t TActive s = Some (TDone, s\<lparr>woken := woken s + 1, ended := True\<rparr>)"
| "await_exec ok func t p s = None"

definition await_calls :: "nat \<Rightarrow> apc" where
  "await_calls t = (if t = 0 then AEnter else if t = 1 then TNew else AIdle)"

section \<open>Model of Task::await\<close>

datatype upc =
    UIdle
  | UPut                              \<comment> \<open>at \<open>pool->put\<close>\<close>
  | UYield | USusp                    \<comment> \<open>a task: \<open>co_sys_yield\<close>\<close>
  | UWLock | UWTest | UWWait | UWAgain    \<comment> \<open>a thread: \<open>AwaitRunner::wait\<close>\<close>
  | UResult | URet int
  | RNew | RRun | RWake | RNLock | RNSet | RDone    \<comment> \<open>\<open>AwaitRunner::run\<close> in a pool thread\<close>

record await_runner =
  fTask :: bool
  running :: bool
  accepted :: bool
  fRetCode :: int
  uqueued :: bool
  fMutex :: "nat option"
  fCond :: "nat list"
  bFinished :: bool

definition runner_new :: "bool \<Rightarrow> bool \<Rightarrow> await_runner" where
  "runner_new it run =
     \<lparr>fTask = it, running = run, accepted = False, fRetCode = - 1, uqueued = False, fMutex = None, fCond = [],
      bFinished = False\<rparr>"

definition u_lock :: "nat \<Rightarrow> upc \<Rightarrow> await_runner \<Rightarrow> (upc \<times> await_runner) option" where
  "u_lock t p s = (if fMutex s = None then Some (p, s\<lparr>fMutex := Some t\<rparr>) else None)"

definition u_wait :: "nat \<Rightarrow> await_runner \<Rightarrow> upc \<times> await_runner" where
  "u_wait t s =
     (if bFinished s then (UResult, s\<lparr>fMutex := None\<rparr>) else (UWWait, s\<lparr>fCond := fCond s @ [t], fMutex := None\<rparr>))"

text \<open>\<open>pool->put\<close> drops the runner when the pool is not running.\<close>

fun runner_exec :: "(upc, await_runner) exec" where
  "runner_exec t UPut s = Some (if fTask s then UYield else UWLock, s\<lparr>accepted := running s\<rparr>)"
| "runner_exec t UYield s = Some (USusp, s)"
| "runner_exec t USusp s = (if uqueued s then Some (UResult, s\<lparr>uqueued := False\<rparr>) else None)"
| "runner_exec t UWLock s = u_lock t UWTest s"
| "runner_exec t UWTest s = Some (u_wait t s)"
| "runner_exec t UWWait s = (if t \<in> set (fCond s) then None else u_lock t UWAgain s)"
| "runner_exec t UWAgain s = Some (u_wait t s)"
| "runner_exec t UResult s = Some (URet (fRetCode s), s)"
| "runner_exec t RNew s = (if accepted s then Some (RRun, s) else None)"
| "runner_exec t RRun s = Some (RWake, s\<lparr>fRetCode := 0\<rparr>)"
| "runner_exec t RWake s = Some (if fTask s then (RDone, s\<lparr>uqueued := True\<rparr>) else (RNLock, s))"
| "runner_exec t RNLock s = u_lock t RNSet s"
| "runner_exec t RNSet s = Some (RDone, s\<lparr>bFinished := True, fCond := drop 1 (fCond s), fMutex := None\<rparr>)"
| "runner_exec t p s = None"

definition runner_calls :: "nat \<Rightarrow> upc" where
  "runner_calls t = (if t = 0 then UPut else if t = 1 then RNew else UIdle)"

section \<open>async\_wait returns\<close>

fun await_rank :: "apc \<Rightarrow> nat" where
  "await_rank AEnter = 4" | "await_rank ACreate = 3" | "await_rank AYield = 2" | "await_rank ASusp = 1" | "await_rank AJoin = 1"
| "await_rank TNew = 4" | "await_rank TFunc = 3" | "await_rank TWake = 2" | "await_rank TActive = 1"
| "await_rank _ = 0"

text \<open>What the caller and the thread know of each other.\<close>

definition await_pair :: "int \<Rightarrow> apc \<Rightarrow> apc \<Rightarrow> co_await \<Rightarrow> bool" where
  "await_pair result c w s \<longleftrightarrow>
     (if in_task s then c \<in> {AEnter, ACreate, AYield, ASusp, ARet result} else c \<in> {AEnter, ACreate, AJoin, ARet result}) \<and>
     w \<in> {TNew, TFunc, TWake, TActive, TDone} \<and> (w = TActive \<longrightarrow> in_task s) \<and>
     (c = AEnter \<or> c = ACreate \<longleftrightarrow> \<not> created s) \<and> (c = AEnter \<or> c = ACreate \<longrightarrow> w = TNew) \<and>
     (w \<in> {TWake, TActive, TDone} \<longrightarrow> aret s = result) \<and>
     (queued s \<longleftrightarrow> in_task s \<and> w \<in> {TActive, TDone} \<and> c \<noteq> ARet result) \<and>
     (ended s \<longleftrightarrow> w = TDone) \<and> (c = ARet result \<longrightarrow> w \<in> {TActive, TDone})"

definition await_inv :: "int \<Rightarrow> (apc, co_await) sys \<Rightarrow> bool" where
  "await_inv result \<sigma> \<longleftrightarrow> await_pair result (fst \<sigma> 0) (fst \<sigma> 1) (snd \<sigma>) \<and> (\<forall>t. 1 < t \<longrightarrow> fst \<sigma> t = AIdle)"

lemma two_calls: "(t::nat) = 0 \<or> t = 1 \<or> 1 < t"
  by auto

lemma await_inv_step:
  assumes inv: "await_inv result \<sigma>" and st: "sys_step (await_exec True (Some result)) t \<sigma> = Some \<sigma>'"
  shows "await_inv result \<sigma>'"
proof -
  obtain x s where e: "await_exec True (Some result) t (fst \<sigma> t) (snd \<sigma>) = Some (x, s)" "\<sigma>' = ((fst \<sigma>)(t := x), s)"
    using st by (auto simp: sys_step_iff)
  have "t = 0 \<or> t = 1"
    using e(1) inv two_calls [of t] by (auto simp: await_inv_def)
  then show ?thesis
  proof
    assume t: "t = 0"
    then have "await_pair result x (fst \<sigma> 1) s"
      using e(1) inv by (cases "fst \<sigma> 0") (auto simp: await_inv_def await_pair_def split: if_splits)
    then show ?thesis using inv t by (simp add: e(2) await_inv_def)
  next
    assume t: "t = 1"
    then have "await_pair result (fst \<sigma> 0) x s"
      using e(1) inv by (cases "fst \<sigma> 1") (auto simp: await_inv_def await_pair_def split: if_splits)
    then show ?thesis using inv t by (simp add: e(2) await_inv_def)
  qed
qed

lemma await_rank_step: "await_exec ok (Some result) t p s = Some (x, s') \<Longrightarrow> await_rank x < await_rank p"
  by (cases p) (auto split: if_splits)

lemma await_progress:
  assumes inv: "await_inv result \<sigma>" and r: "await_rank (fst \<sigma> t) \<noteq> 0"
  shows "\<not> sys_stuck (await_exec True (Some result)) \<sigma>"
proof
  assume "sys_stuck (await_exec True (Some result)) \<sigma>"
  then have none: "await_exec True (Some result) u (fst \<sigma> u) (snd \<sigma>) = None" for u
    by (simp add: sys_stuck_def sys_step_None)
  have p: "await_pair result (fst \<sigma> 0) (fst \<sigma> 1) (snd \<sigma>)" and i: "1 < t \<Longrightarrow> fst \<sigma> t = AIdle"
    using inv by (auto simp: await_inv_def)
  have w: "fst \<sigma> 1 = TDone"
    using none [of 0] none [of 1] p by (cases "fst \<sigma> 1") (auto simp: await_pair_def split: if_splits)
  then have "await_rank (fst \<sigma> 0) = 0"
    using none [of 0] p by (auto simp: await_pair_def split: if_splits)
  with w r i show False using two_calls [of t] by auto
qed

interpretation await: drain "await_exec True (Some result)" "await_inv result" await_rank for result
proof unfold_locales
  fix \<sigma> :: "(apc, co_await) sys"
  assume inv: "await_inv result \<sigma>"
  have "t \<in> {0, 1}" if "await_rank (fst \<sigma> t) \<noteq> 0" for t
    using that inv two_calls [of t] unfolding await_inv_def by force
  then have "{t. await_rank (fst \<sigma> t) \<noteq> 0} \<subseteq> {0, 1}" by blast
  then show "finite {t. await_rank (fst \<sigma> t) \<noteq> 0}" by (rule finite_subset) simp
qed (erule (1) await_inv_step await_progress | erule await_rank_step)+


lemma await_calls_inv: "await_inv result (await_calls, await_new it)"
  by (simp add: await_inv_def await_pair_def await_calls_def await_new_def)

lemma await_calls_ranks: "{t. await_rank (await_calls t) \<noteq> 0} = {0, 1}"
  by (auto simp: await_calls_def split: if_splits)

lemma await_pair_end: "await_pair result c w s \<Longrightarrow> await_rank c = 0 \<Longrightarrow> c = ARet result \<and> \<not> queued s"
  by (cases c) (auto simp: await_pair_def split: if_splits)

text \<open>Without a function \<open>async_wait\<close> returns \<open>-1\<close> at once.\<close>

lemma async_wait_no_function: "await_exec ok None t AEnter s = Some (ARet (- 1), s)"
  by simp

text \<open>\<open>async_wait\<close> returns what the function returned.  When the thread can be created and the operations on the run queue are single steps,
  every interleaving of the caller and the thread ends after at most eight steps, and when it cannot be extended the caller, a task or a plain
  thread, has returned the result of the function: a task that is put on the run queue before it has switched away is not lost.\<close>

theorem async_wait_returns:
  assumes "sys_run (await_exec True (Some result)) ts (await_calls, await_new it) = Some \<sigma>'"
  shows "length ts \<le> 8 \<and> (sys_stuck (await_exec True (Some result)) \<sigma>' \<longrightarrow> fst \<sigma>' 0 = ARet result \<and> \<not> queued (snd \<sigma>'))"
proof -
  have "rank_sum await_rank (await_calls, await_new it) = 8"
    unfolding rank_sum_def fst_conv await_calls_ranks by (simp add: await_calls_def)
  then have "length ts \<le> 8"
    using await.run_rank [OF assms await_calls_inv] by simp
  moreover have "fst \<sigma>' 0 = ARet result \<and> \<not> queued (snd \<sigma>')" if "sys_stuck (await_exec True (Some result)) \<sigma>'"
  proof -
    have "await_rank (fst \<sigma>' 0) = 0"
      by (rule await.stuck_final [OF assms await_calls_inv that])
    moreover have "await_pair result (fst \<sigma>' 0) (fst \<sigma>' 1) (snd \<sigma>')"
      using await.run_inv [OF assms await_calls_inv] by (simp add: await_inv_def)
    ultimately show ?thesis by (blast dest: await_pair_end)
  qed
  ultimately show ?thesis by blast
qed

text \<open>Witness: the thread enqueues the task before the task has switched away.\<close>

theorem async_wait_returns_witness:
  "\<exists>\<sigma>'. sys_run (await_exec True (Some 5)) [0, 0, 1, 1, 1, 0, 0, 1] (await_calls, await_new True) = Some \<sigma>' \<and> fst \<sigma>' 0 = ARet 5"
proof -
  obtain \<sigma>' where r: "sys_run (await_exec True (Some 5)) [0, 0, 1, 1, 1, 0, 0, 1] (await_calls, await_new True) = Some \<sigma>'"
      "sys_stuck (await_exec True (Some 5)) \<sigma>'"
    by (simp add: sys_step_def await_calls_def await_new_def sys_stuck_def)
  with async_wait_returns [OF r(1)] show ?thesis by blast
qed

text \<open>When \<open>pthread_create\<close> fails, its result is not looked at and nothing ever wakes the caller.\<close>

fun apc_waits :: "apc \<Rightarrow> bool" where
  "apc_waits (ARet r) = False" | "apc_waits TFunc = False" | "apc_waits TWake = False" | "apc_waits TActive = False"
| "apc_waits TDone = False" | "apc_waits _ = True"

definition await_lost :: "(apc, co_await) sys \<Rightarrow> bool" where
  "await_lost \<sigma> \<longleftrightarrow> \<not> created (snd \<sigma>) \<and> \<not> queued (snd \<sigma>) \<and> \<not> ended (snd \<sigma>) \<and>
     (\<forall>t. apc_waits (fst \<sigma> t))"

lemma await_lost_step: "await_lost \<sigma> \<Longrightarrow> sys_step (await_exec False (Some result)) t \<sigma> = Some \<sigma>' \<Longrightarrow> await_lost \<sigma>'"
  using spec [of "\<lambda>t. apc_waits (fst \<sigma> t)" t]
  by (cases "fst \<sigma> t") (auto simp: await_lost_def sys_step_iff split: if_splits)

lemma async_wait_create_fails:
  assumes "sys_run (await_exec False (Some result)) ts (await_calls, await_new it) = Some \<sigma>'"
  shows "fst \<sigma>' 0 \<noteq> ARet r"
proof -
  have "await_lost (await_calls, await_new it)"
    by (simp add: await_lost_def await_calls_def await_new_def)
  with assms have "await_lost \<sigma>'"
    by (rule sys_run_inv) (rule await_lost_step)
  then show ?thesis unfolding await_lost_def by (metis apc_waits.simps(1))
qed

section \<open>Task::await returns\<close>

fun runner_rank :: "upc \<Rightarrow> nat" where
  "runner_rank UPut = 6" | "runner_rank UYield = 3" | "runner_rank USusp = 2"
| "runner_rank UWLock = 5" | "runner_rank UWTest = 4" | "runner_rank UWWait = 3" | "runner_rank UWAgain = 2"
| "runner_rank UResult = 1"
| "runner_rank RNew = 5" | "runner_rank RRun = 4" | "runner_rank RWake = 3" | "runner_rank RNLock = 2" | "runner_rank RNSet = 1"
| "runner_rank _ = 0"

text \<open>What the caller and the pool thread know of each other: the points of a task and of a plain thread, who holds the mutex, when the
  caller is among the waiters, and that the work is done before anybody is told.\<close>

definition runner_points :: "upc \<Rightarrow> upc \<Rightarrow> await_runner \<Rightarrow> bool" where
  "runner_points c w s \<longleftrightarrow>
     c \<in> (if fTask s then {UPut, UYield, USusp, UResult, URet 0} else {UPut, UWLock, UWTest, UWWait, UWAgain, UResult, URet 0}) \<and>
     w \<in> (if fTask s then {RNew, RRun, RWake, RDone} else {RNew, RRun, RWake, RNLock, RNSet, RDone})"

definition runner_pair :: "upc \<Rightarrow> upc \<Rightarrow> await_runner \<Rightarrow> bool" where
  "runner_pair c w s \<longleftrightarrow>
     runner_points c w s \<and> running s \<and> (c = UPut \<longleftrightarrow> \<not> accepted s) \<and> (c = UPut \<longrightarrow> w = RNew) \<and>
     (w \<notin> {RNew, RRun} \<longrightarrow> fRetCode s = 0) \<and>
     (uqueued s \<longleftrightarrow> fTask s \<and> w = RDone \<and> c \<noteq> UResult \<and> c \<noteq> URet 0) \<and>
     (bFinished s \<longleftrightarrow> \<not> fTask s \<and> w = RDone) \<and>
     (c = UResult \<or> c = URet 0 \<or> c = UWAgain \<longrightarrow> w = RDone) \<and>
     fMutex s = (if c = UWTest \<or> c = UWAgain then Some 0 else if w = RNSet then Some 1 else None) \<and>
     \<not> ((c = UWTest \<or> c = UWAgain) \<and> w = RNSet) \<and>
     fCond s = (if c = UWWait \<and> w \<noteq> RDone then [0] else [])"

definition runner_inv :: "(upc, await_runner) sys \<Rightarrow> bool" where
  "runner_inv \<sigma> \<longleftrightarrow> runner_pair (fst \<sigma> 0) (fst \<sigma> 1) (snd \<sigma>) \<and> (\<forall>t. 1 < t \<longrightarrow> fst \<sigma> t = UIdle)"

lemmas runner_pair_defs = runner_pair_def runner_points_def u_lock_def u_wait_def

lemma runner_caller_step:
  "runner_pair c w s \<Longrightarrow> runner_exec 0 c s = Some (x, s') \<Longrightarrow> runner_pair x w s'"
  by (cases "fTask s"; cases c; cases w; auto simp: runner_pair_defs split: if_splits)

lemma runner_thread_step:
  "runner_pair c w s \<Longrightarrow> runner_exec 1 w s = Some (x, s') \<Longrightarrow> runner_pair c x s'"
  by (cases "fTask s"; cases w; cases c; auto simp: runner_pair_defs split: if_splits)

lemma runner_inv_step:
  assumes inv: "runner_inv \<sigma>" and st: "sys_step runner_exec t \<sigma> = Some \<sigma>'"
  shows "runner_inv \<sigma>'"
proof -
  obtain x s where e: "runner_exec t (fst \<sigma> t) (snd \<sigma>) = Some (x, s)" "\<sigma>' = ((fst \<sigma>)(t := x), s)"
    using st by (auto simp: sys_step_iff)
  have p: "runner_pair (fst \<sigma> 0) (fst \<sigma> 1) (snd \<sigma>)" and i: "\<forall>t. 1 < t \<longrightarrow> fst \<sigma> t = UIdle"
    using inv by (auto simp: runner_inv_def)
  have "t = 0 \<or> t = 1"
    using e(1) i two_calls [of t] by auto
  then show ?thesis
    using runner_caller_step [OF p] runner_thread_step [OF p] e i by (auto simp: runner_inv_def)
qed

lemma runner_pair_again: "runner_pair UWAgain w s \<Longrightarrow> bFinished s" "runner_pair c w s \<Longrightarrow> w \<noteq> UWAgain"
  by (auto simp: runner_pair_def runner_points_def split: if_splits)

lemma runner_rank_step:
  assumes "runner_inv \<sigma>" "runner_exec t (fst \<sigma> t) (snd \<sigma>) = Some (x, s)"
  shows "runner_rank x < runner_rank (fst \<sigma> t)"
proof -
  have p: "runner_pair (fst \<sigma> 0) (fst \<sigma> 1) (snd \<sigma>)" and i: "1 < t \<Longrightarrow> fst \<sigma> t = UIdle"
    using assms(1) by (simp_all add: runner_inv_def)
  have "bFinished (snd \<sigma>)" if "fst \<sigma> t = UWAgain"
  proof -
    have "t = 0" using that i two_calls [of t] runner_pair_again(2) [OF p] by auto
    then show ?thesis using that p runner_pair_again(1) by simp
  qed
  then show ?thesis
    using assms(2) by (cases "fst \<sigma> t") (auto simp: u_lock_def u_wait_def split: if_splits)
qed

lemma runner_progress:
  assumes inv: "runner_inv \<sigma>" and r: "runner_rank (fst \<sigma> t) \<noteq> 0"
  shows "\<not> sys_stuck runner_exec \<sigma>"
proof
  assume "sys_stuck runner_exec \<sigma>"
  then have none: "runner_exec u (fst \<sigma> u) (snd \<sigma>) = None" for u
    by (simp add: sys_stuck_def sys_step_None)
  have p: "runner_pair (fst \<sigma> 0) (fst \<sigma> 1) (snd \<sigma>)" and i: "1 < t \<Longrightarrow> fst \<sigma> t = UIdle"
    using inv by (auto simp: runner_inv_def)
  have w: "fst \<sigma> 1 = RDone"
    using none [of 0] none [of 1] p by (cases "fst \<sigma> 1") (auto simp: runner_pair_defs split: if_splits)
  then have "runner_rank (fst \<sigma> 0) = 0"
    using none [of 0] p by (cases "fst \<sigma> 0") (auto simp: runner_pair_defs split: if_splits)
  with w r i show False using two_calls [of t] by auto
qed

interpretation runner: drain runner_exec runner_inv runner_rank
proof unfold_locales
  fix \<sigma> :: "(upc, await_runner) sys"
  assume inv: "runner_inv \<sigma>"
  have "t \<in> {0, 1}" if "runner_rank (fst \<sigma> t) \<noteq> 0" for t
    using that inv two_calls [of t] unfolding runner_inv_def by force
  then have "{t. runner_rank (fst \<sigma> t) \<noteq> 0} \<subseteq> {0, 1}" by blast
  then show "finite {t. runner_rank (fst \<sigma> t) \<noteq> 0}" by (rule finite_subset) simp
qed (erule (1) runner_inv_step runner_rank_step runner_progress)+

lemma runner_calls_inv: "runner_inv (runner_calls, runner_new it True)"
  by (simp add: runner_inv_def runner_pair_def runner_points_def runner_calls_def runner_new_def)

lemma runner_calls_ranks: "{t. runner_rank (runner_calls t) \<noteq> 0} = {0, 1}"
  by (auto simp: runner_calls_def split: if_splits)

lemma runner_pair_end: "runner_pair c w s \<Longrightarrow> runner_rank c = 0 \<Longrightarrow> c = URet 0 \<and> w = RDone"
  by (cases c) (auto simp: runner_pair_def runner_points_def split: if_splits)

text \<open>\<open>Task::await\<close> returns: with a running pool, every interleaving of the caller and the pool thread ends after at most eleven
  steps, and when it cannot be extended the caller, a task or a plain thread, has returned \<open>0\<close>, after the work was done.\<close>

theorem task_await_returns:
  assumes "sys_run runner_exec ts (runner_calls, runner_new it True) = Some \<sigma>'"
  shows "length ts \<le> 11 \<and> (sys_stuck runner_exec \<sigma>' \<longrightarrow> fst \<sigma>' 0 = URet 0 \<and> fst \<sigma>' 1 = RDone)"
proof -
  have "rank_sum runner_rank (runner_calls, runner_new it True) = 11"
    unfolding rank_sum_def fst_conv runner_calls_ranks by (simp add: runner_calls_def)
  then have "length ts \<le> 11"
    using runner.run_rank [OF assms runner_calls_inv] by simp
  moreover have "fst \<sigma>' 0 = URet 0 \<and> fst \<sigma>' 1 = RDone" if "sys_stuck runner_exec \<sigma>'"
  proof -
    have "runner_rank (fst \<sigma>' 0) = 0"
      by (rule runner.stuck_final [OF assms runner_calls_inv that])
    moreover have "runner_pair (fst \<sigma>' 0) (fst \<sigma>' 1) (snd \<sigma>')"
      using runner.run_inv [OF assms runner_calls_inv] by (simp add: runner_inv_def)
    ultimately show ?thesis by (blast dest: runner_pair_end)
  qed
  ultimately show ?thesis by blast
qed

text \<open>Witness: a plain thread waits on the condition variable and is notified.\<close>

theorem task_await_returns_witness:
  "\<exists>\<sigma>'. sys_run runner_exec [0, 0, 0, 1, 1, 1, 1, 1, 0, 0, 0] (runner_calls, runner_new False True) = Some \<sigma>' \<and>
        fst \<sigma>' 0 = URet 0"
proof -
  obtain \<sigma>' where r: "sys_run runner_exec [0, 0, 0, 1, 1, 1, 1, 1, 0, 0, 0] (runner_calls, runner_new False True) = Some \<sigma>'"
      "sys_stuck runner_exec \<sigma>'"
    by (simp add: sys_step_def runner_calls_def runner_new_def sys_stuck_def u_lock_def u_wait_def)
  with task_await_returns [OF r(1)] show ?thesis by blast
qed

text \<open>A pool that is not running takes the runner and drops it: the caller never returns.\<close>

fun upc_waits :: "upc \<Rightarrow> bool" where
  "upc_waits UResult = False" | "upc_waits (URet r) = False" | "upc_waits RRun = False" | "upc_waits RWake = False"
| "upc_waits RNLock = False" | "upc_waits RNSet = False" | "upc_waits RDone = False" | "upc_waits _ = True"

definition runner_lost :: "(upc, await_runner) sys \<Rightarrow> bool" where
  "runner_lost \<sigma> \<longleftrightarrow> \<not> running (snd \<sigma>) \<and> \<not> accepted (snd \<sigma>) \<and> \<not> uqueued (snd \<sigma>) \<and> \<not> bFinished (snd \<sigma>) \<and>
     (\<forall>t. upc_waits (fst \<sigma> t))"

lemma runner_lost_step: "runner_lost \<sigma> \<Longrightarrow> sys_step runner_exec t \<sigma> = Some \<sigma>' \<Longrightarrow> runner_lost \<sigma>'"
  using spec [of "\<lambda>t. upc_waits (fst \<sigma> t)" t]
  by (cases "fst \<sigma> t") (auto simp: runner_lost_def sys_step_iff u_lock_def u_wait_def split: if_splits)

lemma task_await_stopped_pool:
  assumes "sys_run runner_exec ts (runner_calls, runner_new it False) = Some \<sigma>'"
  shows "fst \<sigma>' 0 \<noteq> URet r"
proof -
  have "runner_lost (runner_calls, runner_new it False)"
    by (simp add: runner_lost_def runner_calls_def runner_new_def)
  with assms have "runner_lost \<sigma>'"
    by (rule sys_run_inv) (rule runner_lost_step)
  then show ?thesis unfolding runner_lost_def by (metis upc_waits.simps(2))
qed

end
