(* ===== verification/NattanTaskThread.thy ===== *)
theory NattanTaskThread
  imports CaskPrelude "HOL-Library.Multiset"
begin

text \<open>
  \<open>task/TaskThread.h\<close> on \<open>thread/Thread.h\<close>: a thread whose scheduler runs a boss task and worker tasks.  A runner submitted by a plain thread
  goes into the blocking queue \<open>fTasks\<close>, one submitted by a task into the channel of the boss; the boss hands each to an idle worker or
  to a new one, through the channel of the worker.  An action is one step of the boss or of a worker from one switch of the
  scheduler to the next (both only switch inside a channel operation or inside a runner), a submission, or a keepalive
  timeout.  The flag of an action of the queue says that \<open>try_lock\<close> fails, the address of an action of the boss is what
  \<open>new TaskWorker\<close> returns if it is called.  \<open>accepted\<close> and \<open>started\<close> record the runners that were taken and those
  whose \<open>run\<close> was called; no step depends on them.
\<close>

section \<open>Threads\<close>

datatype thread_state = THREAD_INIT | THREAD_RUNNING | THREAD_SLEEP | THREAD_DEAD

definition starts :: "thread_state \<Rightarrow> bool" where
  "starts st \<longleftrightarrow> st \<noteq> THREAD_RUNNING \<and> st \<noteq> THREAD_SLEEP"

record thread =
  threadId :: int
  detached :: bool
  threadState :: thread_state
  pending :: nat      \<comment> \<open>threads created and not yet in \<open>_thread_run\<close>\<close>

definition thread_new :: thread where
  "thread_new = \<lparr>threadId = - 1, detached = False, threadState = THREAD_INIT, pending = 0\<rparr>"

text \<open>\<open>ret\<close>: the result of \<open>pthread_create\<close> or \<open>pthread_detach\<close>.\<close>

definition thread_start :: "int \<Rightarrow> thread \<Rightarrow> int \<times> thread" where
  "thread_start ret s =
     (if starts (threadState s) then (ret, if ret = 0 then s\<lparr>pending := pending s + 1\<rparr> else s) else (- 1, s))"

definition thread_detach :: "int \<Rightarrow> thread \<Rightarrow> int \<times> thread" where
  "thread_detach ret s =
     (if detached s then (0, s)
      else if threadState s \<noteq> THREAD_RUNNING then (- 1, s)
      else (ret, if ret = 0 then s\<lparr>detached := True\<rparr> else s))"

text \<open>\<open>_thread_run\<close> up to the call of \<open>run\<close>, and after it.\<close>

definition thread_run_enter :: "int \<Rightarrow> thread \<Rightarrow> thread" where
  "thread_run_enter tid s = s\<lparr>threadId := tid, threadState := THREAD_RUNNING, pending := pending s - 1\<rparr>"

definition thread_run_leave :: "thread \<Rightarrow> thread" where
  "thread_run_leave s = s\<lparr>threadState := THREAD_DEAD\<rparr>"

text \<open>The state changes only once the new thread runs, so a second \<open>start\<close> before that creates a second thread on the same object.\<close>

lemma thread_double_start:
  "pending (snd (thread_start 0 (snd (thread_start 0 thread_new)))) = 2"
  by (simp add: thread_start_def thread_new_def starts_def)

lemma thread_start_running: "thread_start ret (thread_run_enter tid s) = (- 1, thread_run_enter tid s)"
  by (simp add: thread_start_def thread_run_enter_def starts_def)

lemma thread_restarts: "fst (thread_start ret (thread_run_leave s)) = ret"
  by (simp add: thread_start_def thread_run_leave_def starts_def)

section \<open>Task threads\<close>

datatype 'r boss_pc =
    BPoll | BRecv
  | BSend nat 'r             \<comment> \<open>the boss waits in \<open>send\<close> for room in the channel of a worker\<close>

datatype 'r wpc = WRecv | WRun 'r

type_synonym 'r worker = "'r wpc \<times> 'r list"

record 'r task_thread =
  state :: thread_state
  fBoss :: "('r boss_pc \<times> 'r list) option"     \<comment> \<open>\<open>None\<close>: the null pointer; the position of the boss and its channel\<close>
  fTimeout :: int
  fTasks :: "'r list"
  fIdleWorkers :: "nat set"
  workers :: "nat \<Rightarrow> 'r worker option"
  crashed :: bool
  sret :: bool                               \<comment> \<open>what the last \<open>submit\<close> returned\<close>
  accepted :: "'r list"
  started :: "'r list"

definition TaskThread_new :: "int \<Rightarrow> 'r task_thread" where
  "TaskThread_new timeout =
     \<lparr>state = THREAD_INIT, fBoss = None, fTimeout = timeout, fTasks = [], fIdleWorkers = {}, workers = (\<lambda>_. None),
      crashed = False, sret = False, accepted = [], started = []\<rparr>"

datatype 'r tact =
    ThreadRun | TaskThreadRun | Submit 'r bool | TaskSubmit 'r | Boss bool nat | Worker nat | Timeout nat

definition TASKS_CAP :: nat where
  "TASKS_CAP = 64"

definition BOSS_CAP :: nat where
  "BOSS_CAP = 128"

definition WORKER_CAP :: nat where
  "WORKER_CAP = 1"

definition tt_submit :: "'r \<Rightarrow> bool \<Rightarrow> 'r task_thread \<Rightarrow> 'r task_thread option" where
  "tt_submit r busy s =
     Some (if state s \<noteq> THREAD_RUNNING \<or> length (fTasks s) = TASKS_CAP \<or> busy then s\<lparr>sret := False\<rparr>
           else s\<lparr>fTasks := fTasks s @ [r], accepted := accepted s @ [r], sret := True\<rparr>)"

definition tt_submit_task :: "'r \<Rightarrow> 'r task_thread \<Rightarrow> 'r task_thread option" where
  "tt_submit_task r s =
     (if state s \<noteq> THREAD_RUNNING then Some (s\<lparr>sret := False\<rparr>)
      else case fBoss s of
        None \<Rightarrow> Some (s\<lparr>crashed := True\<rparr>)
      | Some (p, c) \<Rightarrow>
          if length c = BOSS_CAP then None
          else Some (s\<lparr>fBoss := Some (p, c @ [r]), accepted := accepted s @ [r], sret := True\<rparr>))"

text \<open>\<open>task->send(runner)\<close>: the boss goes on to the next round, or waits while the channel of the worker is full.\<close>

definition boss_send :: "nat \<Rightarrow> 'r \<Rightarrow> 'r list \<Rightarrow> 'r task_thread \<Rightarrow> 'r task_thread" where
  "boss_send w r c s =
     (case workers s w of
        None \<Rightarrow> s\<lparr>crashed := True\<rparr>
      | Some (p, wc) \<Rightarrow>
          if length wc = WORKER_CAP then s\<lparr>fBoss := Some (BSend w r, c)\<rparr>
          else s\<lparr>fBoss := Some (BPoll, c), workers := (workers s)(w \<mapsto> (p, wc @ [r]))\<rparr>)"

definition boss_assign :: "nat \<Rightarrow> 'r \<Rightarrow> 'r list \<Rightarrow> 'r task_thread \<Rightarrow> 'r task_thread option" where
  "boss_assign a r c s =
     (if fIdleWorkers s = {}
      then if workers s a = None then Some (boss_send a r c (s\<lparr>workers := (workers s)(a \<mapsto> (WRecv, []))\<rparr>)) else None
      else let w = Min (fIdleWorkers s) in Some (boss_send w r c (s\<lparr>fIdleWorkers := fIdleWorkers s - {w}\<rparr>)))"

definition boss_run :: "bool \<Rightarrow> nat \<Rightarrow> 'r task_thread \<Rightarrow> 'r task_thread option" where
  "boss_run busy a s =
     (case fBoss s of
        None \<Rightarrow> None
      | Some (BPoll, c) \<Rightarrow>
          (case fTasks s of
             [] \<Rightarrow> Some (s\<lparr>fBoss := Some (BRecv, c)\<rparr>)
           | r # rs \<Rightarrow> if busy then Some (s\<lparr>fBoss := Some (BRecv, c)\<rparr>) else boss_assign a r c (s\<lparr>fTasks := rs\<rparr>))
      | Some (BRecv, c) \<Rightarrow> (case c of [] \<Rightarrow> None | r # rs \<Rightarrow> boss_assign a r rs s)
      | Some (BSend w r, c) \<Rightarrow>
          (case workers s w of
             None \<Rightarrow> Some (s\<lparr>crashed := True\<rparr>)
           | Some (p, wc) \<Rightarrow> if length wc = WORKER_CAP then None else Some (boss_send w r c s)))"

definition easeWorker :: "nat \<Rightarrow> 'r task_thread \<Rightarrow> 'r task_thread" where
  "easeWorker w s = s\<lparr>fIdleWorkers := insert w (fIdleWorkers s)\<rparr>"

definition removeWorker :: "nat \<Rightarrow> 'r task_thread \<Rightarrow> 'r task_thread" where
  "removeWorker w s = s\<lparr>fIdleWorkers := fIdleWorkers s - {w}\<rparr>"

definition worker_run :: "nat \<Rightarrow> 'r task_thread \<Rightarrow> 'r task_thread option" where
  "worker_run w s =
     (case workers s w of
        Some (WRecv, r # c) \<Rightarrow> Some (s\<lparr>workers := (workers s)(w \<mapsto> (WRun r, c)), started := started s @ [r]\<rparr>)
      | Some (WRun r, c) \<Rightarrow> Some (easeWorker w (s\<lparr>workers := (workers s)(w \<mapsto> (WRecv, c))\<rparr>))
      | _ \<Rightarrow> None)"

text \<open>The wait of a worker ends without a runner: it leaves the set of idle workers, ends and deletes itself.\<close>

definition worker_timeout :: "nat \<Rightarrow> 'r task_thread \<Rightarrow> 'r task_thread option" where
  "worker_timeout w s =
     (if 0 < fTimeout s \<and> workers s w = Some (WRecv, [])
      then Some (removeWorker w (s\<lparr>workers := (workers s)(w := None)\<rparr>)) else None)"

fun tt_act :: "'r tact \<Rightarrow> 'r task_thread \<Rightarrow> 'r task_thread option" where
  "tt_act ThreadRun s = (if state s = THREAD_INIT then Some (s\<lparr>state := THREAD_RUNNING\<rparr>) else None)"
| "tt_act TaskThreadRun s =
     (if state s = THREAD_RUNNING \<and> fBoss s = None then Some (s\<lparr>fBoss := Some (BPoll, [])\<rparr>) else None)"
| "tt_act (Submit r busy) s = tt_submit r busy s"
| "tt_act (TaskSubmit r) s = tt_submit_task r s"
| "tt_act (Boss busy a) s = boss_run busy a s"
| "tt_act (Worker w) s = worker_run w s"
| "tt_act (Timeout w) s = worker_timeout w s"

fun tt_run :: "'r tact list \<Rightarrow> 'r task_thread \<Rightarrow> 'r task_thread option" where
  "tt_run [] s = Some s"
| "tt_run (a # as) s = (if crashed s then None else case tt_act a s of None \<Rightarrow> None | Some s' \<Rightarrow> tt_run as s')"

section \<open>Sums over the workers\<close>

definition wsum :: "('v \<Rightarrow> 'b::comm_monoid_add) \<Rightarrow> (nat \<Rightarrow> 'v option) \<Rightarrow> 'b" where
  "wsum f m = (\<Sum>w\<in>dom m. f (the (m w)))"

lemma wsum_cong: "(\<And>w. w \<in> A \<Longrightarrow> m w = m' w) \<Longrightarrow> (\<Sum>w\<in>A. f (the (m w))) = (\<Sum>w\<in>A. f (the (m' w)))"
  by (rule sum.cong) simp_all

lemma wsum_remove:
  assumes "finite (dom m)" "m w = Some v"
  shows "wsum f m = f v + wsum f (m(w := None))"
proof -
  have "wsum f m = f (the (m w)) + (\<Sum>u\<in>dom m - {w}. f (the (m u)))"
    unfolding wsum_def using assms by (intro sum.remove) auto
  also have "(\<Sum>u\<in>dom m - {w}. f (the (m u))) = (\<Sum>u\<in>dom m - {w}. f (the ((m(w := None)) u)))"
    by (rule wsum_cong) simp
  also have "dom m - {w} = dom (m(w := None))" by simp
  finally show ?thesis using assms(2) by (simp add: wsum_def)
qed

lemma wsum_new:
  assumes "finite (dom m)" "m w = None"
  shows "wsum f (m(w \<mapsto> v)) = f v + wsum f m"
proof -
  have "m = (m(w \<mapsto> v))(w := None)" using assms(2) by auto
  then show ?thesis using wsum_remove [of "m(w \<mapsto> v)" w v f] assms(1) by simp
qed

lemma wsum_upd: "finite (dom m) \<Longrightarrow> wsum f (m(w \<mapsto> v)) = f v + wsum f (m(w := None))"
  using wsum_remove [of "m(w \<mapsto> v)" w v f] by simp


section \<open>Invariant\<close>

fun worker_ok :: "'r worker \<Rightarrow> bool" where
  "worker_ok (WRecv, c) \<longleftrightarrow> length c \<le> WORKER_CAP"
| "worker_ok (WRun r, c) \<longleftrightarrow> c = []"

text \<open>The idle workers are those that wait with an empty channel.\<close>

definition tt_pool :: "nat set \<Rightarrow> (nat \<Rightarrow> 'r worker option) \<Rightarrow> bool" where
  "tt_pool I m \<longleftrightarrow> finite (dom m) \<and> (\<forall>w. w \<in> I \<longleftrightarrow> m w = Some (WRecv, [])) \<and> (\<forall>w v. m w = Some v \<longrightarrow> worker_ok v)"

definition boss_chan :: "('r boss_pc \<times> 'r list) option \<Rightarrow> 'r list" where
  "boss_chan b = (case b of None \<Rightarrow> [] | Some (p, c) \<Rightarrow> c)"

definition in_hand :: "'r task_thread \<Rightarrow> 'r multiset" where
  "in_hand s = mset (fTasks s) + mset (boss_chan (fBoss s)) + wsum (\<lambda>v. mset (snd v)) (workers s)"

definition boss_ok :: "('r boss_pc \<times> 'r list) option \<Rightarrow> bool" where
  "boss_ok b \<longleftrightarrow> (\<forall>w r c. b \<noteq> Some (BSend w r, c))"

definition tt_inv :: "'r task_thread \<Rightarrow> bool" where
  "tt_inv s \<longleftrightarrow>
     tt_pool (fIdleWorkers s) (workers s) \<and> boss_ok (fBoss s) \<and> mset (accepted s) = in_hand s + mset (started s)"

lemma boss_chan_simps [simp]: "boss_chan None = []" "boss_chan (Some (p, c)) = c"
  by (simp_all add: boss_chan_def)

lemma boss_ok_simps [simp]: "boss_ok None" "boss_ok (Some (BPoll, c))" "boss_ok (Some (BRecv, c))" "\<not> boss_ok (Some (BSend w r, c))"
  by (simp_all add: boss_ok_def)

lemma TaskThread_new_inv: "tt_inv (TaskThread_new t)"
  by (simp add: tt_inv_def tt_pool_def in_hand_def TaskThread_new_def wsum_def)

lemma tt_pool_upd:
  assumes "tt_pool I m" "worker_ok v"
  shows "tt_pool (if v = (WRecv, []) then insert w I else I - {w}) (m(w \<mapsto> v))"
  using assms by (auto simp: tt_pool_def)

lemma tt_pool_del: "tt_pool I m \<Longrightarrow> tt_pool (I - {w}) (m(w := None))"
  by (auto simp: tt_pool_def)

lemma tt_pool_finite: "tt_pool I m \<Longrightarrow> finite I"
  by (rule finite_subset [of _ "dom m"]) (auto simp: tt_pool_def)

text \<open>The boss never waits for a worker: it hands the runner to a worker whose channel is empty.\<close>

definition handed :: "nat \<Rightarrow> 'r \<Rightarrow> 'r list \<Rightarrow> 'r task_thread \<Rightarrow> 'r task_thread" where
  "handed w r c s =
     s\<lparr>fBoss := Some (BPoll, c), fIdleWorkers := fIdleWorkers s - {w}, workers := (workers s)(w \<mapsto> (WRecv, [r]))\<rparr>"

lemma boss_assign_worker:
  assumes pool: "tt_pool (fIdleWorkers s) (workers s)" and a: "boss_assign a r c s = Some s'"
  shows "\<exists>w. (workers s w = None \<or> workers s w = Some (WRecv, [])) \<and> s' = handed w r c s"
proof (cases "fIdleWorkers s = {}")
  case True
  then have "workers s a = None" "s' = handed a r c s"
    using a by (auto simp: boss_assign_def boss_send_def handed_def WORKER_CAP_def split: if_splits)
  then show ?thesis by blast
next
  case False
  define w where "w = Min (fIdleWorkers s)"
  have "w \<in> fIdleWorkers s"
    unfolding w_def using False tt_pool_finite [OF pool] by (rule_tac Min_in)
  then have w: "workers s w = Some (WRecv, [])" using pool by (simp add: tt_pool_def)
  then have "s' = handed w r c s"
    using a False by (auto simp: boss_assign_def boss_send_def handed_def WORKER_CAP_def w_def Let_def)
  with w show ?thesis by blast
qed

lemma boss_assign_total: "tt_pool (fIdleWorkers s) (workers s) \<Longrightarrow> \<exists>a s'. boss_assign a r c s = Some s'"
proof -
  assume "tt_pool (fIdleWorkers s) (workers s)"
  then obtain a where "a \<notin> dom (workers s)"
    by (metis ex_new_if_finite infinite_UNIV_nat tt_pool_def)
  then show ?thesis by (auto simp: boss_assign_def Let_def)
qed

lemma wsum_handed:
  assumes "tt_pool (fIdleWorkers s) (workers s)" "workers s w = None \<or> workers s w = Some (WRecv, [])"
  shows "wsum (\<lambda>v. mset (snd v)) ((workers s)(w \<mapsto> (WRecv, [r]))) = {#r#} + wsum (\<lambda>v. mset (snd v)) (workers s)"
proof -
  have fin: "finite (dom (workers s))" using assms(1) by (simp add: tt_pool_def)
  show ?thesis
    using assms(2)
  proof
    assume "workers s w = None"
    from wsum_new [OF fin this, of "\<lambda>v. mset (snd v)"] show ?thesis by simp
  next
    assume "workers s w = Some (WRecv, [])"
    from wsum_remove [OF fin this, of "\<lambda>v. mset (snd v)"] wsum_upd [OF fin, of "\<lambda>v. mset (snd v)"] show ?thesis by simp
  qed
qed

lemma handed_inv:
  assumes pool: "tt_pool (fIdleWorkers s) (workers s)" and w: "workers s w = None \<or> workers s w = Some (WRecv, [])"
    and acc: "mset (accepted s) = {#r#} + mset (fTasks s) + mset c + wsum (\<lambda>v. mset (snd v)) (workers s) + mset (started s)"
  shows "tt_inv (handed w r c s)"
  using tt_pool_upd [OF pool, of "(WRecv, [r])" w] wsum_handed [OF pool w, of r] acc
  by (simp add: tt_inv_def handed_def in_hand_def WORKER_CAP_def ac_simps)

lemma boss_run_inv:
  assumes inv: "tt_inv s" and b: "boss_run busy a s = Some s'"
  shows "tt_inv s'"
proof -
  have pool: "tt_pool (fIdleWorkers s) (workers s)" and ok: "boss_ok (fBoss s)"
    and acc: "mset (accepted s) = in_hand s + mset (started s)"
    using inv by (auto simp: tt_inv_def)
  obtain p c where f: "fBoss s = Some (p, c)" using b by (auto simp: boss_run_def split: option.splits)
  show ?thesis
  proof (cases p)
    case BPoll
    show ?thesis
    proof (cases "busy \<or> fTasks s = []")
      case True
      then have "s' = s\<lparr>fBoss := Some (BRecv, c)\<rparr>"
        using b f BPoll by (auto simp: boss_run_def split: list.splits)
      then show ?thesis using pool acc f by (simp add: tt_inv_def in_hand_def)
    next
      case False
      then obtain r rs where q: "fTasks s = r # rs" by (auto simp: neq_Nil_conv)
      then have "boss_assign a r c (s\<lparr>fTasks := rs\<rparr>) = Some s'"
        using b f BPoll False by (simp add: boss_run_def)
      then obtain w where "workers s w = None \<or> workers s w = Some (WRecv, [])" "s' = handed w r c (s\<lparr>fTasks := rs\<rparr>)"
        using boss_assign_worker [of "s\<lparr>fTasks := rs\<rparr>"] pool by fastforce
      then show ?thesis
        using handed_inv [of "s\<lparr>fTasks := rs\<rparr>"] pool acc f q by (simp add: in_hand_def)
    qed
  next
    case BRecv
    then obtain r rs where q: "c = r # rs" "boss_assign a r rs s = Some s'"
      using b f by (auto simp: boss_run_def split: list.splits)
    then obtain w where "workers s w = None \<or> workers s w = Some (WRecv, [])" "s' = handed w r rs s"
      using boss_assign_worker [OF pool q(2)] by (elim exE conjE)
    then show ?thesis
      using handed_inv [OF pool] acc f q by (simp add: in_hand_def)
  qed (use ok f in simp)
qed

lemma worker_run_inv:
  assumes inv: "tt_inv s" and b: "worker_run w s = Some s'"
  shows "tt_inv s'"
proof -
  have pool: "tt_pool (fIdleWorkers s) (workers s)" and ok: "boss_ok (fBoss s)"
    and acc: "mset (accepted s) = in_hand s + mset (started s)" and fin: "finite (dom (workers s))"
    using inv by (auto simp: tt_inv_def tt_pool_def)
  obtain p c where m: "workers s w = Some (p, c)" using b by (auto simp: worker_run_def split: option.splits)
  then have wok: "worker_ok (p, c)" using pool unfolding tt_pool_def by blast
  note sum = wsum_remove [OF fin m, of "\<lambda>v. mset (snd v)"] wsum_upd [OF fin, of "\<lambda>v. mset (snd v)" w]
  show ?thesis
  proof (cases p)
    case WRecv
    then obtain r rs where c: "c = r # rs" using b m by (auto simp: worker_run_def split: list.splits)
    then have "rs = []" using wok WRecv by (simp add: WORKER_CAP_def)
    moreover have "w \<notin> fIdleWorkers s" using pool m c by (simp add: tt_pool_def)
    ultimately show ?thesis
      using tt_pool_upd [OF pool, of "(WRun r, [])" w] ok acc b m c WRecv sum
      by (auto simp: tt_inv_def in_hand_def worker_run_def ac_simps simp del: fun_upd_apply)
  next
    case (WRun r)
    then have "c = []" using wok by simp
    then show ?thesis
      using tt_pool_upd [OF pool, of "(WRecv, [])" w] ok acc b m WRun sum
      by (auto simp: tt_inv_def in_hand_def worker_run_def easeWorker_def simp del: fun_upd_apply)
  qed
qed

lemma worker_timeout_inv:
  assumes inv: "tt_inv s" and b: "worker_timeout w s = Some s'"
  shows "tt_inv s'"
proof -
  have m: "workers s w = Some (WRecv, [])" using b by (auto simp: worker_timeout_def split: if_splits)
  have pool: "tt_pool (fIdleWorkers s) (workers s)" and fin: "finite (dom (workers s))"
    using inv by (auto simp: tt_inv_def tt_pool_def)
  show ?thesis
    using inv b tt_pool_del [OF pool, of w] wsum_remove [OF fin m, of "\<lambda>v. mset (snd v)"]
    by (auto simp: tt_inv_def in_hand_def worker_timeout_def removeWorker_def split: if_splits)
qed

lemma tt_act_inv:
  assumes "tt_inv s" "tt_act a s = Some s'"
  shows "tt_inv s'"
  using assms
proof (cases a)
  case (Submit r busy)
  then show ?thesis using assms by (auto simp: tt_submit_def tt_inv_def in_hand_def split: if_splits)
next
  case (TaskSubmit r)
  then show ?thesis using assms
    by (auto simp: tt_submit_task_def tt_inv_def in_hand_def boss_ok_def split: if_splits option.splits)
next
  case ThreadRun
  then show ?thesis using assms by (auto simp: tt_inv_def in_hand_def split: if_splits)
next
  case TaskThreadRun
  then show ?thesis using assms by (auto simp: tt_inv_def in_hand_def split: if_splits)
qed (use assms boss_run_inv worker_run_inv worker_timeout_inv in auto)

lemma tt_run_inv: "tt_run as s = Some s' \<Longrightarrow> tt_inv s \<Longrightarrow> tt_inv s'"
  by (induction as arbitrary: s) (auto split: if_splits option.splits dest: tt_act_inv)


section \<open>Quiescence\<close>

text \<open>Neither the boss nor a worker can move.\<close>

definition tt_quiet :: "'r task_thread \<Rightarrow> bool" where
  "tt_quiet s \<longleftrightarrow> (\<forall>busy a. boss_run busy a s = None) \<and> (\<forall>w. worker_run w s = None)"

lemma tt_quiet_workers:
  assumes "tt_inv s" "tt_quiet s" "workers s w = Some v"
  shows "v = (WRecv, [])"
proof -
  have "worker_run w s = None" using assms(2) by (simp add: tt_quiet_def)
  then show ?thesis using assms(3) by (cases v) (auto simp: worker_run_def split: wpc.splits list.splits)
qed

lemma wsum_zero: "(\<And>w v. m w = Some v \<Longrightarrow> f v = 0) \<Longrightarrow> wsum f m = 0"
  unfolding wsum_def by (rule sum.neutral) auto

lemma tt_quiet_boss:
  assumes inv: "tt_inv s" and quiet: "tt_quiet s"
  shows "boss_chan (fBoss s) = []"
proof (cases "fBoss s")
  case (Some b)
  obtain p c where b: "b = (p, c)" by (cases b)
  have none: "boss_run busy a s = None" for busy a using quiet by (simp add: tt_quiet_def)
  have pool: "tt_pool (fIdleWorkers s) (workers s)" and ok: "boss_ok (fBoss s)" using inv by (auto simp: tt_inv_def)
  show ?thesis
  proof (cases p)
    case BPoll
    then show ?thesis using none [of True 0] Some b by (cases "fTasks s") (auto simp: boss_run_def)
  next
    case BRecv
    show ?thesis
    proof (cases c)
      case (Cons r rs)
      obtain a s' where "boss_assign a r rs s = Some s'" using boss_assign_total [OF pool] by blast
      then show ?thesis using none [of True a] Some b BRecv Cons by (simp add: boss_run_def)
    qed (simp add: Some b)
  qed (use ok Some b in simp)
qed simp

lemma tt_quiet_accepted:
  assumes "tt_inv s" "tt_quiet s"
  shows "mset (accepted s) = mset (fTasks s) + mset (started s)"
proof -
  have "wsum (\<lambda>v. mset (snd v)) (workers s) = {#}"
    by (rule wsum_zero) (use tt_quiet_workers [OF assms] in force)
  then show ?thesis
    using assms(1) tt_quiet_boss [OF assms] by (simp add: tt_inv_def in_hand_def)
qed

section \<open>The boss and the workers run out of work\<close>

fun worker_rank :: "'r worker \<Rightarrow> nat" where
  "worker_rank (WRecv, c) = (if c = [] then 1 else 3)"
| "worker_rank (WRun r, c) = 2"

definition boss_rank :: "('r boss_pc \<times> 'r list) option \<Rightarrow> nat" where
  "boss_rank b = (case b of Some (BPoll, c) \<Rightarrow> 1 | _ \<Rightarrow> 0)"

definition tt_rank :: "'r task_thread \<Rightarrow> nat" where
  "tt_rank s = 5 * (length (fTasks s) + length (boss_chan (fBoss s))) + boss_rank (fBoss s) + wsum worker_rank (workers s)"

fun inner_act :: "'r tact \<Rightarrow> bool" where
  "inner_act (Boss busy a) = True"
| "inner_act (Worker w) = True"
| "inner_act (Timeout w) = True"
| "inner_act _ = False"

lemma wsum_rank_handed:
  assumes "tt_pool (fIdleWorkers s) (workers s)" "workers s w = None \<or> workers s w = Some (WRecv, [])"
  shows "wsum worker_rank ((workers s)(w \<mapsto> (WRecv, [r]))) \<le> 3 + wsum worker_rank (workers s)"
proof -
  have fin: "finite (dom (workers s))" using assms(1) by (simp add: tt_pool_def)
  show ?thesis
    using assms(2)
  proof
    assume "workers s w = None"
    from wsum_new [OF fin this, of worker_rank] show ?thesis by simp
  next
    assume "workers s w = Some (WRecv, [])"
    from wsum_remove [OF fin this, of worker_rank] wsum_upd [OF fin, of worker_rank] show ?thesis by simp
  qed
qed

lemma boss_assign_rank:
  assumes "tt_pool (fIdleWorkers s) (workers s)" "boss_assign a r c s = Some s'"
  shows "tt_rank s' \<le> 5 * (length (fTasks s) + length c) + 4 + wsum worker_rank (workers s)"
proof -
  obtain w where w: "workers s w = None \<or> workers s w = Some (WRecv, [])" "s' = handed w r c s"
    using boss_assign_worker [OF assms] by (elim exE conjE)
  then show ?thesis
    using wsum_rank_handed [OF assms(1) w(1), of r] by (simp add: tt_rank_def handed_def boss_rank_def)
qed

lemma boss_run_rank:
  assumes inv: "tt_inv s" and b: "boss_run busy a s = Some s'"
  shows "tt_rank s' < tt_rank s"
proof -
  have pool: "tt_pool (fIdleWorkers s) (workers s)" and ok: "boss_ok (fBoss s)"
    using inv by (auto simp: tt_inv_def)
  obtain p c where f: "fBoss s = Some (p, c)" using b by (auto simp: boss_run_def split: option.splits)
  show ?thesis
  proof (cases p)
    case BPoll
    show ?thesis
    proof (cases "busy \<or> fTasks s = []")
      case True
      then have "s' = s\<lparr>fBoss := Some (BRecv, c)\<rparr>"
        using b f BPoll by (auto simp: boss_run_def split: list.splits)
      then show ?thesis using f BPoll by (simp add: tt_rank_def boss_rank_def)
    next
      case False
      then obtain r rs where q: "fTasks s = r # rs" by (auto simp: neq_Nil_conv)
      then have "boss_assign a r c (s\<lparr>fTasks := rs\<rparr>) = Some s'"
        using b f BPoll False by (simp add: boss_run_def)
      from boss_assign_rank [OF _ this] pool show ?thesis
        using f q BPoll by (simp add: tt_rank_def boss_rank_def)
    qed
  next
    case BRecv
    then obtain r rs where q: "c = r # rs" "boss_assign a r rs s = Some s'"
      using b f by (auto simp: boss_run_def split: list.splits)
    from boss_assign_rank [OF pool q(2)] show ?thesis
      using f q BRecv by (simp add: tt_rank_def boss_rank_def)
  qed (use ok f in simp)
qed

lemma worker_run_rank:
  assumes inv: "tt_inv s" and b: "worker_run w s = Some s'"
  shows "tt_rank s' < tt_rank s"
proof -
  have fin: "finite (dom (workers s))" using inv by (auto simp: tt_inv_def tt_pool_def)
  obtain p c where m: "workers s w = Some (p, c)" using b by (auto simp: worker_run_def split: option.splits)
  have "worker_ok (p, c)" using inv m unfolding tt_inv_def tt_pool_def by blast
  then show ?thesis
    using b m wsum_remove [OF fin m, of worker_rank] wsum_upd [OF fin, of worker_rank w]
    by (cases p) (auto simp: worker_run_def easeWorker_def tt_rank_def split: list.splits simp del: fun_upd_apply)
qed

lemma inner_act_rank:
  assumes inv: "tt_inv s" and a: "tt_act a s = Some s'" "inner_act a"
  shows "tt_rank s' < tt_rank s"
proof (cases a)
  case (Timeout w)
  then have m: "workers s w = Some (WRecv, [])" using a by (auto simp: worker_timeout_def split: if_splits)
  have "finite (dom (workers s))" using inv by (auto simp: tt_inv_def tt_pool_def)
  from wsum_remove [OF this m, of worker_rank] show ?thesis
    using a Timeout by (auto simp: worker_timeout_def removeWorker_def tt_rank_def split: if_splits)
qed (use a boss_run_rank [OF inv] worker_run_rank [OF inv] in auto)

lemma inner_run_rank:
  "tt_run as s = Some s' \<Longrightarrow> tt_inv s \<Longrightarrow> list_all inner_act as \<Longrightarrow> length as + tt_rank s' \<le> tt_rank s"
proof (induction as arbitrary: s)
  case (Cons a as)
  then obtain s1 where s1: "tt_act a s = Some s1" "tt_run as s1 = Some s'"
    by (auto split: if_splits option.splits)
  moreover have "tt_inv s1" using Cons.prems(2) s1(1) by (rule tt_act_inv)
  ultimately show ?case
    using Cons.IH [of s1] Cons.prems inner_act_rank [of s a s1] by simp
qed simp


text \<open>C31: a task thread runs what it accepts.  In every run from a new thread, no runner is run more often than it was accepted and
  the boss never blocks on a worker; the boss and the workers, keepalive timeouts included, come to rest after a number of
  steps bounded by the work at hand; and at rest every accepted runner has been run, except those still in \<open>fTasks\<close>.\<close>

theorem task_thread_runs_accepted:
  assumes "tt_run as (TaskThread_new t) = Some s" "list_all inner_act bs" "tt_run bs s = Some s'"
  shows "length bs \<le> tt_rank s \<and> mset (started s') \<subseteq># mset (accepted s') \<and> boss_ok (fBoss s') \<and>
    (tt_quiet s' \<longrightarrow> mset (accepted s') = mset (fTasks s') + mset (started s'))"
proof -
  have s: "tt_inv s" using assms(1) TaskThread_new_inv by (rule tt_run_inv)
  then have s': "tt_inv s'" by (rule tt_run_inv [OF assms(3)])
  show ?thesis
    using inner_run_rank [OF assms(3) s assms(2)] s' tt_quiet_accepted [OF s'] by (simp add: tt_inv_def)
qed

lemmas tt_run_simps = tt_submit_def tt_submit_task_def boss_run_def boss_assign_def boss_send_def worker_run_def easeWorker_def
  TASKS_CAP_def BOSS_CAP_def WORKER_CAP_def TaskThread_new_def

text \<open>Witness: one runner comes through the queue, one through the channel; the second is given to the idle worker.\<close>

theorem task_thread_runs_accepted_witness:
  "\<exists>s s'. tt_run [ThreadRun, TaskThreadRun, Submit 7 False] (TaskThread_new 0) = Some s \<and>
     tt_run [Boss False 40, Worker 40, Worker 40, Boss False 40] s = Some s' \<and> tt_quiet s' \<and>
     mset (started s') = {#7 :: nat#} \<and> 4 \<le> tt_rank s"
proof -
  obtain s s' where r: "tt_run [ThreadRun, TaskThreadRun, Submit (7 :: nat) False] (TaskThread_new 0) = Some s"
      "tt_run [Boss False 40, Worker 40, Worker 40, Boss False 40] s = Some s'"
      "tt_quiet s'" "accepted s' = [7]" "fTasks s' = []"
    by (simp add: tt_run_simps tt_quiet_def)
  have i: "list_all inner_act [Boss False 40, Worker 40, Worker 40, Boss False 40 :: nat tact]" by simp
  show ?thesis
    using task_thread_runs_accepted [OF r(1) i r(2)] r by (intro exI [of _ s] exI [of _ s']) auto
qed

section \<open>Submissions from a plain thread\<close>

lemma tt_quiet_recv:
  assumes "tt_quiet s"
  shows "fBoss s \<noteq> Some (BPoll, c)"
proof
  assume "fBoss s = Some (BPoll, c)"
  then have "boss_run True 0 s \<noteq> None" by (cases "fTasks s") (simp_all add: boss_run_def)
  then show False using assms by (simp add: tt_quiet_def)
qed

lemma tt_quiet_fTasks:
  assumes q: "tt_quiet s" and ok: "boss_ok (fBoss s)" "boss_chan (fBoss s) = []"
  shows "tt_quiet (s\<lparr>fTasks := rs, accepted := as, sret := x\<rparr>)"
proof -
  have b: "fBoss s = None \<or> fBoss s = Some (BRecv, [])"
  proof (cases "fBoss s")
    case (Some b)
    then show ?thesis using tt_quiet_recv [OF q] ok by (cases b; cases "fst b") auto
  qed simp
  have w: "worker_run w s = None" for w using q by (simp add: tt_quiet_def)
  have "worker_run w (s\<lparr>fTasks := rs, accepted := as, sret := x\<rparr>) = None" for w
    using w [of w] by (auto simp: worker_run_def split: option.splits wpc.splits list.splits prod.splits)
  with b show ?thesis by (auto simp: tt_quiet_def boss_run_def)
qed

lemma tt_run_submits:
  assumes "state s = THREAD_RUNNING" "\<not> crashed s" "length (fTasks s) + length rs \<le> TASKS_CAP" "rs \<noteq> []"
  shows "tt_run (map (\<lambda>r. Submit r False) rs) s = Some (s\<lparr>fTasks := fTasks s @ rs, accepted := accepted s @ rs, sret := True\<rparr>)"
  using assms
proof (induction rs arbitrary: s)
  case (Cons r rs)
  let ?s = "s\<lparr>fTasks := fTasks s @ [r], accepted := accepted s @ [r], sret := True\<rparr>"
  have "tt_act (Submit r False) s = Some ?s"
    using Cons.prems by (simp add: tt_submit_def)
  then show ?case
    using Cons.IH [of ?s] Cons.prems by (cases "rs = []") simp_all
qed simp

text \<open>A runner submitted by a plain thread does not wake the boss.  Whenever a task thread has come to rest, any number of runners up to the
  capacity of \<open>fTasks\<close> can be submitted from plain threads; \<open>submit\<close> accepts them all, none of them is run, and the boss and the
  workers still cannot move: the runners stay in \<open>fTasks\<close> until a task happens to submit something.\<close>

lemma external_submit_unnoticed:
  assumes "tt_run as (TaskThread_new t) = Some s" "tt_quiet s" "state s = THREAD_RUNNING" "\<not> crashed s"
    and "length (fTasks s) + length rs \<le> TASKS_CAP" "rs \<noteq> []"
  shows "\<exists>s'. tt_run (map (\<lambda>r. Submit r False) rs) s = Some s' \<and> sret s' \<and> accepted s' = accepted s @ rs \<and>
    fTasks s' = fTasks s @ rs \<and> started s' = started s \<and> tt_quiet s'"
proof -
  have inv: "tt_inv s" using assms(1) TaskThread_new_inv by (rule tt_run_inv)
  then have "boss_ok (fBoss s)" "boss_chan (fBoss s) = []"
    using tt_quiet_boss [OF inv assms(2)] by (simp_all add: tt_inv_def)
  from tt_quiet_fTasks [OF assms(2) this] tt_run_submits [OF assms(3-6)] show ?thesis by simp
qed

lemma external_submit_unnoticed_example:
  "\<exists>s s'. tt_run [ThreadRun, TaskThreadRun, Boss False 0] (TaskThread_new 0) = Some s \<and> fBoss s = Some (BRecv, []) \<and>
     tt_run (map (\<lambda>r. Submit r False) [7 :: nat, 8]) s = Some s' \<and> fTasks s' = [7, 8] \<and> tt_quiet s'"
proof -
  obtain s where r: "tt_run [ThreadRun, TaskThreadRun, Boss False 0] (TaskThread_new 0 :: nat task_thread) = Some s"
      "fBoss s = Some (BRecv, [])" "tt_quiet s" "state s = THREAD_RUNNING" "\<not> crashed s" "fTasks s = []"
    by (simp add: tt_run_simps tt_quiet_def)
  have "length (fTasks s) + length [7 :: nat, 8] \<le> TASKS_CAP" using r(6) by (simp add: TASKS_CAP_def)
  from external_submit_unnoticed [OF r(1,3,4,5) this] r show ?thesis by auto
qed

text \<open>A task of another thread that submits before \<open>run\<close> has set \<open>fBoss\<close> dereferences the null pointer.\<close>

lemma early_submit_crashes:
  "\<exists>s. tt_run [ThreadRun, TaskSubmit r] (TaskThread_new t) = Some s \<and> crashed s"
  by (simp add: tt_run_simps)

end
