(* ===== verification/CaskEventTyped.thy ===== *)
theory CaskEventTyped
  imports CaskEvent
begin

text \<open>
  Memory safety of the event layer.  A state is well-formed when the time wheel is, every armed element and every entry of the table of
  descriptors is an allocated record, the entry of a descriptor carries that descriptor, and the allocator only hands out addresses that are
  not in use.  Every operation of \<open>inner_fd.c\<close>, \<open>event.c\<close> and \<open>timer.c\<close> keeps a state well-formed, and none uses a freed record,
  with one exception: the rest of \<open>event_poll\<close> after the wait, when the descriptor was closed during it.
\<close>

section \<open>Well-formed states\<close>

definition ev_wf :: "'z ev_scheme \<Rightarrow> bool" where
  "ev_wf s \<longleftrightarrow> ev_inv s \<and> NULL < brk s \<and> (\<forall>p\<in>dom (heap s). p < brk s) \<and>
     (\<forall>fd. fdtab s fd \<noteq> NULL \<longrightarrow> is_fd_valid fd \<and> (\<exists>i. heap s (fdtab s fd) = Some i \<and> ifd_fd i = fd))"

definition safe :: "'z ev_scheme res \<Rightarrow> bool" where
  "safe r \<longleftrightarrow> (case r of Inl e \<Rightarrow> e \<noteq> UseAfterFree | Inr s \<Rightarrow> ev_wf s)"

lemma safe_simps [simp]: "safe (Inl e) \<longleftrightarrow> e \<noteq> UseAfterFree" "safe (Inr s) \<longleftrightarrow> ev_wf s"
  by (simp_all add: safe_def)

lemma ev_wf_simps [simp]:
  "ev_wf (s\<lparr>errno := e\<rparr>) = ev_wf s" "ev_wf (s\<lparr>interest := m\<rparr>) = ev_wf s" "ev_wf (s\<lparr>resumed := r\<rparr>) = ev_wf s"
  by (simp_all add: ev_wf_def ev_inv_def)

lemma ev_wf_delete_element [simp]: "ev_wf s \<Longrightarrow> ev_wf (s\<lparr>tw := wheel_delete_element p (tw s)\<rparr>)"
  using wheel_delete_inv [of "tw s" p] by (auto simp: ev_wf_def ev_inv_def)

lemma ev_wf_entry: "ev_wf s \<Longrightarrow> fdtab s fd \<noteq> NULL \<Longrightarrow> \<exists>i. heap s (fdtab s fd) = Some i \<and> ifd_fd i = fd"
  by (auto simp: ev_wf_def)

lemma ev_wf_upd:
  assumes "ev_wf s" "heap s p = Some i" "ifd_fd j = ifd_fd i"
  shows "ev_wf (s\<lparr>heap := (heap s)(p \<mapsto> j)\<rparr>)"
proof -
  have "ifd_fd i = fd" if "fdtab s fd = p" "p \<noteq> NULL" for fd
    using ev_wf_entry [OF assms(1), of fd] that assms(2) by auto
  then show ?thesis using assms by (auto simp: ev_wf_def ev_inv_def)
qed

lemma ev_wf_arm:
  assumes "ev_wf s" "heap s p = Some i"
  shows "ev_wf (s\<lparr>tw := wheel_update_element p t (tw s)\<rparr>)"
proof (cases "t < 0")
  case True
  then show ?thesis using assms(1) by (simp add: wheel_update_element_def)
next
  case False
  then show ?thesis
    using assms wheel_update_inv [of "tw s" p t] wheel_update_armed [of "tw s" t p] by (auto simp: ev_wf_def ev_inv_def)
qed

text \<open>An entry of the table and an allocated pointer can be read and written.\<close>

lemma get_inner_fd_wf:
  assumes "ev_wf s" "get_inner_fd fd s = (p, s')"
  shows "ev_wf s'" "heap s' = heap s" "p \<noteq> NULL \<Longrightarrow> \<exists>i. heap s p = Some i \<and> ifd_fd i = fd"
  using assms ev_wf_entry [OF assms(1)] by (auto simp: get_inner_fd_def split: if_splits)

lemma rbind_safe: "(\<And>e. r = Inl e \<Longrightarrow> e \<noteq> UseAfterFree) \<Longrightarrow> (\<And>x. r = Inr x \<Longrightarrow> safe (f x)) \<Longrightarrow> safe (rbind r f)"
  by (cases r) simp_all

lemma ev_wf_null: "ev_wf s \<Longrightarrow> heap s p = Some i \<Longrightarrow> p \<noteq> NULL"
  by (auto simp: ev_wf_def ev_inv_def)

lemma deref_ok: "ev_wf s \<Longrightarrow> heap s p = Some i \<Longrightarrow> deref p s = Inr i"
  using ev_wf_null by (auto simp: deref_def)

lemma update_cases:
  assumes wf: "ev_wf s" and p: "p \<noteq> NULL \<Longrightarrow> \<exists>i. heap s p = Some i" and f: "\<And>i. ifd_fd (f i) = ifd_fd i"
  shows "update p f s = Inl NullDeref \<or>
    (\<exists>i s'. update p f s = Inr s' \<and> s' = s\<lparr>heap := (heap s)(p \<mapsto> f i)\<rparr> \<and> heap s p = Some i \<and> ev_wf s')"
  using p ev_wf_upd [OF wf _ f] by (cases "p = NULL") (auto simp: update_def deref_def)

section \<open>Operations\<close>

lemma new_inner_fd_wf:
  assumes "ev_wf s" "new_inner_fd fd s = Inr (p, s')"
  shows "ev_wf s'" "p \<noteq> NULL" "\<exists>i. heap s' p = Some i \<and> ifd_fd i = fd"
proof -
  have v: "is_fd_valid fd" and p: "p = brk s"
    and s': "s' = s\<lparr>heap := (heap s)(p \<mapsto> \<lparr>ifd_fd = fd, flags = 0, user_flags = 0, itask = 0, itimeout = FD_TIMEOUT, ierror = IENONE\<rparr>),
                 fdtab := (fdtab s)(fd := p), brk := p + 1\<rparr>"
    using assms(2) by (auto simp: new_inner_fd_def split: if_splits)
  have n: "heap s p = None" using assms(1) p by (auto simp: ev_wf_def domIff)
  have "fdtab s g \<noteq> p" for g
  proof
    assume g: "fdtab s g = p"
    moreover have "p \<noteq> NULL" using assms(1) p by (simp add: ev_wf_def)
    ultimately show False using ev_wf_entry [OF assms(1), of g] n by simp
  qed
  then show "ev_wf s'"
    using assms(1) n v unfolding s' p by (auto simp: ev_wf_def ev_inv_def less_Suc_eq)
  show "p \<noteq> NULL" using assms(1) p by (simp add: ev_wf_def)
  show "\<exists>i. heap s' p = Some i \<and> ifd_fd i = fd" by (simp add: s')
qed

lemma new_inner_fd_safe: "new_inner_fd fd s = Inl e \<Longrightarrow> e \<noteq> UseAfterFree"
  by (auto simp: new_inner_fd_def split: if_splits)

lemma delete_inner_fd_wf:
  assumes "ev_wf s"
  shows "ev_wf (delete_inner_fd fd s)"
proof (cases "is_fd_valid fd \<and> fdtab s fd \<noteq> NULL")
  case True
  define p where "p = fdtab s fd"
  obtain i where i: "heap s p = Some i" "ifd_fd i = fd" "p \<noteq> NULL"
    using ev_wf_entry [OF assms] True by (auto simp: p_def)
  have other: "fdtab s g \<noteq> p" if "g \<noteq> fd" for g
    using ev_wf_entry [OF assms, of g] i that by auto
  have "ev_wf (s\<lparr>tw := wheel_delete_element p (tw s), heap := (heap s)(p := None), fdtab := (fdtab s)(fd := NULL)\<rparr>)"
    using assms other wheel_delete_inv [of "tw s" p] by (auto simp: ev_wf_def ev_inv_def)
  then show ?thesis using True by (simp add: delete_inner_fd_def p_def Let_def)
next
  case False
  then show ?thesis using assms by (auto simp: delete_inner_fd_def Let_def)
qed

lemma epoll_ctl_wf [simp]:
  "ev_wf (snd (epoll_ctl oper fd events s)) = ev_wf s" "heap (snd (epoll_ctl oper fd events s)) = heap s"
  "tw (snd (epoll_ctl oper fd events s)) = tw s"
  by (auto simp: epoll_ctl_def split: epoll_op.splits)

lemma cntl_events_wf [simp]:
  "ev_wf (snd (cntl_events oper fd events s)) = ev_wf s" "heap (snd (cntl_events oper fd events s)) = heap s"
  "tw (snd (cntl_events oper fd events s)) = tw s"
  by (auto simp: cntl_events_def)

lemma add_events_wf [simp]:
  "ev_wf (snd (add_events fd events s)) = ev_wf s" "heap (snd (add_events fd events s)) = heap s"
  using cntl_events_wf [of EPOLL_CTL_ADD fd events s]
  by (auto simp: add_events_def split_beta split: prod.splits)

lemma delete_events_wf [simp]:
  "ev_wf (snd (delete_events fd events s)) = ev_wf s" "heap (snd (delete_events fd events s)) = heap s"
  using cntl_events_wf [of EPOLL_CTL_DEL fd events s]
  by (auto simp: delete_events_def split_beta split: prod.splits)


lemma get_inner_fd_ok: "ev_wf s \<Longrightarrow> ev_wf (snd (get_inner_fd fd s))"
  "ev_wf s \<Longrightarrow> fst (get_inner_fd fd s) \<noteq> NULL \<Longrightarrow> \<exists>i. heap (snd (get_inner_fd fd s)) (fst (get_inner_fd fd s)) = Some i"
  using ev_wf_entry [of s fd] by (auto simp: get_inner_fd_def)

lemma update_safe:
  assumes "ev_wf s" "p \<noteq> NULL \<Longrightarrow> \<exists>i. heap s p = Some i" "\<And>i. ifd_fd (f i) = ifd_fd i"
    and "\<And>i s'. heap s p = Some i \<Longrightarrow> ev_wf s' \<Longrightarrow> s' = s\<lparr>heap := (heap s)(p \<mapsto> f i)\<rparr> \<Longrightarrow> safe (k s')"
  shows "safe (rbind (update p f s) k)"
  using update_cases [OF assms(1-3)] assms(4) by auto

lemma set_inner_fd_timeout_safe: "ev_wf s \<Longrightarrow> safe (set_inner_fd_timeout fd ms s)"
  using get_inner_fd_ok [of s fd] by (auto simp: set_inner_fd_timeout_def split_beta update_def deref_def Let_def)

definition poll_state :: "'z ev_scheme poll \<Rightarrow> 'z ev_scheme" where
  "poll_state r = (case r of Returned ret s \<Rightarrow> s | Blocked p s \<Rightarrow> s)"

definition enter_state :: "int \<Rightarrow> int \<Rightarrow> 'z ev_scheme \<Rightarrow> 'z ev_scheme res" where
  "enter_state fd events s = rbind (event_poll_enter fd events s) (\<lambda>r. Inr (poll_state r))"

lemma add_events_wf_pair: "add_events fd events s = (ret, s') \<Longrightarrow> ev_wf s' = ev_wf s \<and> heap s' = heap s"
  using add_events_wf [of fd events s] by simp

lemma event_poll_enter_safe:
  assumes wf: "ev_wf s"
  shows "safe (enter_state fd events s)"
proof -
  obtain p s0 where g: "get_inner_fd fd s = (p, s0)" by (cases "get_inner_fd fd s")
  have s0: "ev_wf s0" "p \<noteq> NULL \<Longrightarrow> \<exists>i. heap s0 p = Some i"
    using get_inner_fd_wf [OF wf g] by auto
  let ?k = "\<lambda>s. let (ret, s) = add_events fd events s
              in if ret \<noteq> 0 then Inr (Returned (-1) (snd (delete_events fd events s)))
                 else rbind (deref p s) (\<lambda>i. Inr (Blocked p (s\<lparr>tw := wheel_update_element p (itimeout i) (tw s)\<rparr>)))"
  have k: "safe (rbind (?k s1) (\<lambda>r. Inr (poll_state r)))" if "ev_wf s1" "heap s1 p = Some i" for s1 i
  proof -
    obtain ret s2 where a: "add_events fd events s1 = (ret, s2)" by (cases "add_events fd events s1")
    then have "ev_wf s2" "heap s2 p = Some i" using add_events_wf_pair [OF a] that by simp_all
    then show ?thesis using a ev_wf_arm [of s2 p i] by (simp add: poll_state_def deref_ok)
  qed
  have "safe (rbind (update p (\<lambda>i. i\<lparr>ierror := IENONE, itask := self s0\<rparr>) s0) (\<lambda>s. rbind (?k s) (\<lambda>r. Inr (poll_state r))))"
  proof (rule update_safe [OF s0])
    show "safe (rbind (?k s1) (\<lambda>r. Inr (poll_state r)))"
      if "ev_wf s1" "s1 = s0\<lparr>heap := (heap s0)(p \<mapsto> i\<lparr>ierror := IENONE, itask := self s0\<rparr>)\<rparr>" for i s1
      using that(1) by (rule k) (simp add: that(2))
  qed simp_all
  then show ?thesis
    using g by (cases "update p (\<lambda>i. i\<lparr>ierror := IENONE, itask := self s0\<rparr>) s0")
      (simp_all add: enter_state_def event_poll_enter_def)
qed

definition leave_state :: "addr \<Rightarrow> 'z ev_scheme \<Rightarrow> 'z ev_scheme res" where
  "leave_state p s = rbind (event_poll_leave p s) (\<lambda>r. Inr (snd r))"

lemma event_poll_leave_safe:
  assumes wf: "ev_wf s" and p: "p \<in> dom (heap s)"
  shows "safe (leave_state p s)"
proof -
  obtain i where i: "heap s p = Some i" using p by auto
  obtain ret s' where d: "delete_events (ifd_fd i) 0 (s\<lparr>tw := wheel_delete_element p (tw s)\<rparr>) = (ret, s')"
    by (cases "delete_events (ifd_fd i) 0 (s\<lparr>tw := wheel_delete_element p (tw s)\<rparr>)")
  then have "ev_wf s'"
    using delete_events_wf(1) [of "ifd_fd i" 0 "s\<lparr>tw := wheel_delete_element p (tw s)\<rparr>"] wf by simp
  then show ?thesis
    using d by (simp add: leave_state_def event_poll_leave_def deref_ok [OF wf i] Let_def)
qed

lemma dispatch_safe: "ev_wf s \<Longrightarrow> safe (dispatch evs s)"
proof (induction evs arbitrary: s)
  case (Cons e evs)
  obtain fd events where e: "e = (fd, events)" by (cases e)
  obtain p s0 where g: "get_inner_fd fd s = (p, s0)" by (cases "get_inner_fd fd s")
  have s0: "ev_wf s0" "p \<noteq> NULL \<Longrightarrow> \<exists>i. heap s0 p = Some i"
    using get_inner_fd_wf [OF Cons.prems g] by auto
  have "safe (rbind (update p (\<lambda>i. i\<lparr>ierror := events_to_error events\<rparr>) s0) (\<lambda>s.
         rbind (deref p s) (\<lambda>i.
         let s = snd (delete_events (ifd_fd i) 0 s)
         in dispatch evs (if itask i \<noteq> 0 then s\<lparr>resumed := resumed s @ [itask i]\<rparr> else s))))"
  proof (rule update_safe [OF s0])
    fix i s'
    assume s': "heap s0 p = Some i" "ev_wf s'" "s' = s0\<lparr>heap := (heap s0)(p \<mapsto> i\<lparr>ierror := events_to_error events\<rparr>)\<rparr>"
    then have "heap s' p = Some (i\<lparr>ierror := events_to_error events\<rparr>)" by simp
    from deref_ok [OF s'(2) this] show "safe (rbind (deref p s') (\<lambda>i.
         let s = snd (delete_events (ifd_fd i) 0 s')
         in dispatch evs (if itask i \<noteq> 0 then s\<lparr>resumed := resumed s @ [itask i]\<rparr> else s)))"
      using s'(2) by (auto simp: Let_def intro!: Cons.IH)
  qed simp_all
  then show ?case by (simp add: e g)
qed simp

definition wait_state :: "(int \<times> int) list option \<Rightarrow> 'z ev_scheme \<Rightarrow> 'z ev_scheme res" where
  "wait_state evs s = rbind (event_wait evs s) (\<lambda>r. Inr (snd r))"

lemma event_wait_safe: "ev_wf s \<Longrightarrow> safe (wait_state evs s)"
proof (cases evs)
  case (Some a)
  assume "ev_wf s"
  then have "safe (dispatch a s)" by (rule dispatch_safe)
  then show ?thesis using Some by (cases "dispatch a s") (simp_all add: wait_state_def event_wait_def)
qed (simp add: wait_state_def event_wait_def)

lemma expire_safe: "ev_wf s \<Longrightarrow> set ps \<subseteq> dom (heap s) \<Longrightarrow> safe (expire ps s)"
proof (induction ps arbitrary: s)
  case (Cons p ps)
  then obtain i where h: "heap s p = Some i" by auto
  note i = h ev_wf_null [OF Cons.prems(1) h]
  let ?s = "s\<lparr>heap := (heap s)(p \<mapsto> i\<lparr>ierror := ierror i OR IETIMEOUT\<rparr>)\<rparr>"
  have "ev_wf ?s" using Cons.prems(1) i(1) by (rule ev_wf_upd) simp
  then have "ev_wf (?s\<lparr>tw := wheel_delete_element p (tw ?s)\<rparr>)" by (rule ev_wf_delete_element)
  then have "ev_wf (?s\<lparr>resumed := resumed s @ [itask i], tw := wheel_delete_element p (tw s)\<rparr>)"
    by (simp add: ev_wf_def ev_inv_def)
  moreover have "expire (p # ps) s = expire ps (?s\<lparr>resumed := resumed s @ [itask i], tw := wheel_delete_element p (tw s)\<rparr>)"
    using i by (simp add: update_def deref_def)
  moreover have "set ps \<subseteq> dom (heap (?s\<lparr>resumed := resumed s @ [itask i], tw := wheel_delete_element p (tw s)\<rparr>))"
    using Cons.prems(2) by auto
  ultimately show ?case using Cons.IH by metis
qed simp

lemma timeout_tick_safe:
  assumes wf: "ev_wf s"
  shows "safe (timeout_tick s)"
proof -
  have "ev_wf (s\<lparr>tw := wheel_rotate (tw s)\<rparr>)"
    using wf wheel_rotate_inv [of "tw s"] by (simp add: ev_wf_def ev_inv_def)
  moreover have "set (wheel_timeout_list (wheel_rotate (tw s))) \<subseteq> dom (heap s)"
  proof -
    have "wheel_inv (tw s)" "armed (tw s) \<subseteq> dom (heap s)" using wf by (simp_all add: ev_wf_def ev_inv_def)
    then have "slots (tw s) ! loc (wheel_rotate (tw s)) \<in> set (slots (tw s))"
      by (intro nth_mem) (simp add: wheel_inv_def)
    then show ?thesis
      using \<open>armed (tw s) \<subseteq> dom (heap s)\<close> by (auto simp: armed_def wheel_timeout_list_def)
  qed
  ultimately show ?thesis by (simp add: timeout_tick_def Let_def expire_safe)
qed

lemma fresh_wheel_wf: "ev_wf s \<Longrightarrow> ev_wf (s\<lparr>tw := new_time_wheel tfd n iv\<rparr>)"
  by (simp add: ev_wf_def ev_inv_def new_time_wheel_inv)

lemma new_update_safe:
  assumes "ev_wf s" "\<And>i. ifd_fd (f i) = ifd_fd i" "\<And>s'. ev_wf s' \<Longrightarrow> safe (k s')"
  shows "safe (rbind (new_inner_fd fd s) (\<lambda>(p, s). rbind (update p f s) k))"
proof (rule rbind_safe)
  fix x
  assume x: "new_inner_fd fd s = Inr x"
  obtain p s' where p: "x = (p, s')" by (cases x)
  have "safe (rbind (update p f s') k)"
    using new_inner_fd_wf [OF assms(1) x [unfolded p]] assms(2,3) by (intro update_safe) auto
  then show "safe (case x of (p, s) \<Rightarrow> rbind (update p f s) k)" by (simp add: p)
qed (rule new_inner_fd_safe)

lemma init_epoll_timer_safe: "ev_wf s \<Longrightarrow> safe (init_epoll_timer tfd n iv t s)"
  unfolding init_epoll_timer_def Let_def by (rule new_update_safe) (simp_all add: fresh_wheel_wf)

definition open_state :: "int \<Rightarrow> 'z ev_scheme \<Rightarrow> 'z ev_scheme res" where
  "open_state tfd s = rbind (open_timer tfd s) (\<lambda>r. Inr (snd r))"

lemma rbind_assoc: "rbind (rbind r f) g = rbind r (\<lambda>x. rbind (f x) g)"
  by (cases r) simp_all

lemma open_timer_safe:
  assumes wf: "ev_wf s"
  shows "safe (open_state tfd s)"
proof (cases "tfd \<le> 0")
  case False
  obtain p s0 where g: "get_inner_fd tfd s = (p, s0)" by (cases "get_inner_fd tfd s")
  have s0: "ev_wf s0" "p \<noteq> NULL \<Longrightarrow> \<exists>i. heap s0 p = Some i"
    using get_inner_fd_wf [OF wf g] by auto
  let ?f = "\<lambda>i. i\<lparr>flags := flags i OR O_NONBLOCK, itimeout := -1, ierror := IENONE\<rparr>"
  show ?thesis
  proof (cases "p = NULL")
    case True
    then show ?thesis
      using False g new_update_safe [OF s0(1), of ?f Inr tfd]
      by (simp add: open_state_def open_timer_def rbind_assoc split_beta')
  next
    case nz: False
    have "safe (rbind (update p ?f s0) Inr)" by (rule update_safe [OF s0]) simp_all
    then show ?thesis
      using False g nz by (simp add: open_state_def open_timer_def rbind_assoc)
  qed
qed (use wf in \<open>simp add: open_state_def open_timer_def\<close>)

definition set_state :: "(int \<Rightarrow> int \<times> int \<Rightarrow> int) \<Rightarrow> int \<Rightarrow> int \<Rightarrow> 'z ev_scheme \<Rightarrow> 'z ev_scheme res" where
  "set_state timerfd_settime tfd ms s = rbind (set_timer timerfd_settime tfd ms s) (\<lambda>r. Inr (snd r))"

lemma set_timer_safe:
  assumes wf: "ev_wf s"
  shows "safe (set_state settime tfd ms s)"
proof (cases "set_timer_raw settime tfd ms < 0")
  case False
  obtain p s0 where g: "get_inner_fd tfd s = (p, s0)" by (cases "get_inner_fd tfd s")
  have s0: "ev_wf s0" "p \<noteq> NULL \<Longrightarrow> \<exists>i. heap s0 p = Some i"
    using get_inner_fd_wf [OF wf g] by auto
  have "safe (rbind (update p (\<lambda>i. i\<lparr>itask := self s0, ierror := IENONE\<rparr>) s0)
      (\<lambda>s. Inr (snd (add_events tfd (EPOLLIN OR EPOLLET) s))))"
    by (rule update_safe [OF s0]) simp_all
  then show ?thesis
    using False g by (simp add: set_state_def set_timer_def rbind_assoc)
qed (use wf in \<open>simp add: set_state_def set_timer_def\<close>)

section \<open>Memory safety\<close>

datatype evop =
    OpNew int | OpDelete int | OpTimeout int int | OpEnter int int | OpLeave addr
  | OpWait "(int \<times> int) list option" | OpTick | OpInit int nat int nat | OpOpen int | OpSet "int \<Rightarrow> int \<times> int \<Rightarrow> int" int int | OpCancel int

fun ev_op :: "evop \<Rightarrow> 'z ev_scheme \<Rightarrow> 'z ev_scheme res" where
  "ev_op (OpNew fd) s = rbind (new_inner_fd fd s) (\<lambda>r. Inr (snd r))"
| "ev_op (OpDelete fd) s = Inr (delete_inner_fd fd s)"
| "ev_op (OpTimeout fd ms) s = set_inner_fd_timeout fd ms s"
| "ev_op (OpEnter fd events) s = enter_state fd events s"
| "ev_op (OpLeave p) s = leave_state p s"
| "ev_op (OpWait evs) s = wait_state evs s"
| "ev_op OpTick s = timeout_tick s"
| "ev_op (OpInit tfd n iv t) s = init_epoll_timer tfd n iv t s"
| "ev_op (OpOpen tfd) s = open_state tfd s"
| "ev_op (OpSet settime tfd ms) s = set_state settime tfd ms s"
| "ev_op (OpCancel tfd) s = Inr (snd (cancel_timer tfd s))"

text \<open>The only operation with an obligation: the descriptor that was waited for is still allocated.\<close>

fun live_op :: "evop \<Rightarrow> 'z ev_scheme \<Rightarrow> bool" where
  "live_op (OpLeave p) s = (p \<in> dom (heap s))"
| "live_op _ s = True"

text \<open>The task \<open>t\<close> may be resumed in between: \<open>self\<close> changes with the running task.\<close>

fun ev_ops :: "(nat \<times> evop) list \<Rightarrow> 'z ev_scheme \<Rightarrow> 'z ev_scheme res" where
  "ev_ops [] s = Inr s"
| "ev_ops ((t, a) # as) s = rbind (ev_op a (s\<lparr>self := t\<rparr>)) (ev_ops as)"

fun live_ops :: "(nat \<times> evop) list \<Rightarrow> 'z ev_scheme \<Rightarrow> bool" where
  "live_ops [] s = True"
| "live_ops ((t, a) # as) s =
     (live_op a s \<and> (case ev_op a (s\<lparr>self := t\<rparr>) of Inl e \<Rightarrow> True | Inr s' \<Rightarrow> live_ops as s'))"

definition ev_start :: ev where
  "ev_start = \<lparr>fdtab = (\<lambda>_. NULL), heap = Map.empty, brk = 1, tw = new_time_wheel 0 0 0, interest = Map.empty, kerr = (\<lambda>_. 0),
     errno = 0, resumed = [], self = 0\<rparr>"

lemma ev_start_wf: "ev_wf (ev_start\<lparr>kerr := k\<rparr>)"
  by (simp add: ev_wf_def ev_inv_def ev_start_def new_time_wheel_inv)

lemma ev_op_safe:
  assumes wf: "ev_wf s" and l: "live_op a s"
  shows "safe (ev_op a s)"
proof (cases a)
  case (OpNew fd)
  show ?thesis
    using new_inner_fd_wf(1) [OF wf, of fd] new_inner_fd_safe [of fd s]
    by (cases "new_inner_fd fd s") (auto simp: OpNew)
next
  case (OpLeave p)
  then show ?thesis using event_poll_leave_safe [OF wf] l by simp
qed (simp_all add: wf delete_inner_fd_wf set_inner_fd_timeout_safe event_poll_enter_safe event_wait_safe timeout_tick_safe
      init_epoll_timer_safe open_timer_safe set_timer_safe cancel_timer_def)

text \<open>C25: the event layer is memory safe.  From the start of the process, in every sequence of operations of any tasks on descriptors, timers,
  the event loop and the timeout task in which no task comes back from a wait for a descriptor that was closed meanwhile, no
  operation uses a freed descriptor record, and after each of them the time wheel is well-formed, everything armed in it and every entry of the
  table of descriptors is an allocated record, and the record of a descriptor carries that descriptor.\<close>

theorem event_layer_safe:
  assumes "live_ops as (ev_start\<lparr>kerr := k\<rparr>)"
  shows "case ev_ops as (ev_start\<lparr>kerr := k\<rparr>) of Inl e \<Rightarrow> e \<noteq> UseAfterFree | Inr s \<Rightarrow> ev_wf s"
proof -
  have "safe (ev_ops as s)" if "ev_wf s" "live_ops as s" for s :: ev
    using that
  proof (induction as arbitrary: s)
    case (Cons x as)
    obtain t a where x: "x = (t, a)" by (cases x)
    have "ev_wf (s\<lparr>self := t\<rparr>)" using Cons.prems(1) by (simp add: ev_wf_def ev_inv_def)
    moreover have "live_op a (s\<lparr>self := t\<rparr>)" using Cons.prems(2) x by (cases a) simp_all
    ultimately have "safe (ev_op a (s\<lparr>self := t\<rparr>))" by (rule ev_op_safe)
    then show ?case
      using Cons x by (cases "ev_op a (s\<lparr>self := t\<rparr>)") simp_all
  qed simp
  from this [OF ev_start_wf assms] show ?thesis by (simp add: safe_def)
qed

text \<open>Witness: a descriptor is opened, waited for, reported readable, waited out and closed.\<close>

theorem event_layer_safe_witness:
  "\<exists>s. ev_ops [(1, OpNew 5), (1, OpEnter 5 EPOLLIN), (2, OpWait (Some [(5, EPOLLIN)])), (1, OpLeave 1), (1, OpDelete 5)]
         (ev_start\<lparr>kerr := \<lambda>_. 0\<rparr>) = Inr s \<and> ev_wf s"
proof -
  let ?ops = "[(1, OpNew 5), (1, OpEnter 5 EPOLLIN), (2, OpWait (Some [(5, EPOLLIN)])), (1, OpLeave 1), (1, OpDelete 5)]"
  have e: "\<exists>s. ev_ops ?ops (ev_start\<lparr>kerr := \<lambda>_. 0\<rparr>) = Inr s \<and> live_ops ?ops (ev_start\<lparr>kerr := \<lambda>_. 0\<rparr>)"
    by (simp add: ev_start_def new_inner_fd_def is_fd_valid_def MAX_FD_NUM_def enter_state_def event_poll_enter_def get_inner_fd_def
        update_def deref_def add_events_def cntl_events_def epoll_ctl_def poll_state_def wait_state_def event_wait_def
        delete_events_def leave_state_def event_poll_leave_def Let_def events_to_error_def IENONE_def IETIMEOUT_def IEERR_def IEHUP_def
        EPOLLIN_def EPOLLOUT_def EPOLLERR_def EPOLLHUP_def EPOLLRDHUP_def IEREAD_def)
  then obtain s where s: "ev_ops ?ops (ev_start\<lparr>kerr := \<lambda>_. 0\<rparr>) = Inr s" "live_ops ?ops (ev_start\<lparr>kerr := \<lambda>_. 0\<rparr>)" by blast
  from event_layer_safe [OF s(2)] s(1) show ?thesis by auto
qed

text \<open>Without the obligation the property fails: the task that waits for a descriptor uses its record after another task closed it.\<close>

lemma close_while_waiting:
  "ev_ops [(1, OpNew 5), (1, OpEnter 5 EPOLLIN), (2, OpDelete 5), (1, OpLeave 1)] ev_start = Inl UseAfterFree"
  by (simp add: ev_start_def new_inner_fd_def is_fd_valid_def MAX_FD_NUM_def enter_state_def event_poll_enter_def get_inner_fd_def
      update_def deref_def add_events_def cntl_events_def epoll_ctl_def poll_state_def
      leave_state_def event_poll_leave_def Let_def delete_inner_fd_def)

end
