(* ===== verification/NattanThreadMutex.thy ===== *)
theory NattanThreadMutex
  imports CaskPrelude CaskInt
begin

text \<open>
  \<open>thread/ThreadMutex.h\<close> and \<open>thread/Condition.h\<close>.  A \<open>ThreadMutex\<close> keeps the thread id of its holder beside the pthread mutex; the id is
  written after the pthread mutex is taken and cleared after it is released, so the two writes of a thread interleave with those of others.
  Every action is one pthread call or one access to \<open>holder_\<close>; thread ids are positive.  The deadline of
  \<open>waitForSeconds\<close> is computed in 64 bits from the clock and the \<open>double\<close> with the nanoseconds.
\<close>

section \<open>Model\<close>

datatype mtpc =
    Outside
  | AtAssign          \<comment> \<open>\<open>lock\<close>, \<open>try_lock\<close> or the end of a wait: the mutex is held, \<open>assignHolder\<close> is next\<close>
  | Inside
  | AtUnassign        \<comment> \<open>\<open>unlock\<close>: the mutex is released, \<open>unassignHolder\<close> is next\<close>
  | AtWait            \<comment> \<open>\<open>wait\<close>: the holder is unassigned, \<open>pthread_cond_wait\<close> is next\<close>
  | Waiting

record thread_mutex =
  pmutex :: "nat option"
  holder :: nat
  pcond :: "nat list"
  tpc :: "nat \<Rightarrow> mtpc"

definition ThreadMutex_new :: thread_mutex where
  "ThreadMutex_new = \<lparr>pmutex = None, holder = 0, pcond = [], tpc = (\<lambda>_. Outside)\<rparr>"

definition at :: "nat \<Rightarrow> mtpc \<Rightarrow> thread_mutex \<Rightarrow> thread_mutex" where
  "at t p s = s\<lparr>tpc := (tpc s)(t := p)\<rparr>"

definition assignHolder :: "nat \<Rightarrow> thread_mutex \<Rightarrow> thread_mutex" where
  "assignHolder t s = s\<lparr>holder := t\<rparr>"

definition unassignHolder :: "thread_mutex \<Rightarrow> thread_mutex" where
  "unassignHolder s = s\<lparr>holder := 0\<rparr>"

definition isLockedByCurrentThread :: "nat \<Rightarrow> thread_mutex \<Rightarrow> bool" where
  "isLockedByCurrentThread t s \<longleftrightarrow> holder s = t"

definition tm_lock :: "nat \<Rightarrow> thread_mutex \<Rightarrow> thread_mutex option" where
  "tm_lock t s = (if pmutex s = None then Some (at t AtAssign (s\<lparr>pmutex := Some t\<rparr>)) else None)"

definition tm_try_lock :: "nat \<Rightarrow> thread_mutex \<Rightarrow> thread_mutex option" where
  "tm_try_lock t s = Some (if pmutex s = None then at t AtAssign (s\<lparr>pmutex := Some t\<rparr>) else s)"

definition tm_unlock :: "nat \<Rightarrow> thread_mutex \<Rightarrow> thread_mutex option" where
  "tm_unlock t s = Some (at t AtUnassign (s\<lparr>pmutex := None\<rparr>))"

text \<open>\<open>wait\<close> up to \<open>pthread_cond_wait\<close>, which releases the mutex and sleeps in one step.\<close>

definition cond_guard :: "nat \<Rightarrow> thread_mutex \<Rightarrow> thread_mutex option" where
  "cond_guard t s = Some (at t AtWait (unassignHolder s))"

definition cond_sleep :: "nat \<Rightarrow> thread_mutex \<Rightarrow> thread_mutex option" where
  "cond_sleep t s = Some (at t Waiting (s\<lparr>pmutex := None, pcond := pcond s @ [t]\<rparr>))"

definition cond_wake :: "nat \<Rightarrow> thread_mutex \<Rightarrow> thread_mutex option" where
  "cond_wake t s = (if t \<in> set (pcond s) then None else tm_lock t s)"

definition cond_notify :: "thread_mutex \<Rightarrow> thread_mutex" where
  "cond_notify s = s\<lparr>pcond := drop 1 (pcond s)\<rparr>"

definition cond_notifyAll :: "thread_mutex \<Rightarrow> thread_mutex" where
  "cond_notifyAll s = s\<lparr>pcond := []\<rparr>"

datatype mcall = CLock | CTryLock | CUnlock | CWait | CTimeout | CNotify | CNotifyAll | CGoOn

text \<open>\<open>CTimeout\<close>: the wait of \<open>waitForSeconds\<close> ends at its deadline.  \<open>CGoOn\<close>: a call that is under way takes its next step.\<close>

fun tm_act :: "mcall \<Rightarrow> nat \<Rightarrow> thread_mutex \<Rightarrow> thread_mutex option" where
  "tm_act CLock t s = (if tpc s t = Outside then tm_lock t s else None)"
| "tm_act CTryLock t s = (if tpc s t = Outside then tm_try_lock t s else None)"
| "tm_act CUnlock t s = (if tpc s t = Inside then tm_unlock t s else None)"
| "tm_act CWait t s = (if tpc s t = Inside then cond_guard t s else None)"
| "tm_act CTimeout t s = (if tpc s t = Waiting then Some (s\<lparr>pcond := removeAll t (pcond s)\<rparr>) else None)"
| "tm_act CNotify t s = (if tpc s t \<in> {Outside, Inside} then Some (cond_notify s) else None)"
| "tm_act CNotifyAll t s = (if tpc s t \<in> {Outside, Inside} then Some (cond_notifyAll s) else None)"
| "tm_act CGoOn t s =
     (case tpc s t of
        AtAssign \<Rightarrow> Some (at t Inside (assignHolder t s))
      | AtUnassign \<Rightarrow> Some (at t Outside (unassignHolder s))
      | AtWait \<Rightarrow> cond_sleep t s
      | Waiting \<Rightarrow> cond_wake t s
      | _ \<Rightarrow> None)"

fun tm_run :: "(nat \<times> mcall) list \<Rightarrow> thread_mutex \<Rightarrow> thread_mutex option" where
  "tm_run [] s = Some s"
| "tm_run ((t, a) # as) s = (case (if t = 0 then None else tm_act a t s) of None \<Rightarrow> None | Some s' \<Rightarrow> tm_run as s')"

section \<open>Who holds the mutex\<close>

fun has_mutex :: "mtpc \<Rightarrow> bool" where
  "has_mutex AtAssign = True" | "has_mutex Inside = True" | "has_mutex AtWait = True" | "has_mutex _ = False"

definition tm_inv :: "thread_mutex \<Rightarrow> bool" where
  "tm_inv s \<longleftrightarrow> (\<forall>t. has_mutex (tpc s t) \<longleftrightarrow> pmutex s = Some t) \<and>
     (holder s \<noteq> 0 \<longrightarrow> tpc s (holder s) = Inside \<or> tpc s (holder s) = AtUnassign)"

lemma ThreadMutex_new_inv: "tm_inv ThreadMutex_new"
  by (simp add: tm_inv_def ThreadMutex_new_def)

lemmas tm_defs = tm_lock_def tm_try_lock_def tm_unlock_def cond_guard_def cond_sleep_def cond_wake_def cond_notify_def
  cond_notifyAll_def assignHolder_def unassignHolder_def at_def

lemma tm_take_inv:
  assumes "tm_inv s" "pmutex s = None" "tpc s t \<noteq> AtUnassign"
  shows "tm_inv (at t AtAssign (s\<lparr>pmutex := Some t\<rparr>))"
proof -
  have "\<not> has_mutex (tpc s u)" for u using assms(1,2) by (simp add: tm_inv_def)
  then have "tpc s u \<noteq> Inside" for u by (metis has_mutex.simps(2))
  then show ?thesis using assms by (auto simp: tm_inv_def at_def)
qed

lemma tm_act_inv:
  assumes inv: "tm_inv s" and a: "tm_act a t s = Some s'"
  shows "tm_inv s'"
proof -
  have m: "has_mutex (tpc s u) \<longleftrightarrow> pmutex s = Some u" for u using inv by (simp add: tm_inv_def)
  have h: "holder s \<noteq> 0 \<Longrightarrow> tpc s (holder s) = Inside \<or> tpc s (holder s) = AtUnassign" using inv by (simp add: tm_inv_def)
  show ?thesis
  proof (cases a)
    case CLock
    then show ?thesis using a tm_take_inv [OF inv, of t] by (auto simp: tm_lock_def split: if_splits)
  next
    case CTryLock
    then show ?thesis using a inv tm_take_inv [OF inv, of t] by (auto simp: tm_try_lock_def split: if_splits)
  next
    case CUnlock
    then have "tpc s t = Inside" "s' = at t AtUnassign (s\<lparr>pmutex := None\<rparr>)"
      using a by (auto simp: tm_unlock_def split: if_splits)
    moreover from this have "pmutex s = Some t" using m [of t] by simp
    ultimately show ?thesis using m h by (auto simp: tm_inv_def at_def)
  next
    case CWait
    then have "tpc s t = Inside" "s' = at t AtWait (unassignHolder s)"
      using a by (auto simp: cond_guard_def split: if_splits)
    moreover from this have "pmutex s = Some t" using m [of t] by simp
    ultimately show ?thesis using m by (auto simp: tm_inv_def unassignHolder_def at_def)
  next
    case CGoOn
    show ?thesis
    proof (cases "tpc s t")
      case AtAssign
      then show ?thesis using a CGoOn m [of t] m by (auto simp: tm_inv_def assignHolder_def at_def split: if_splits)
    next
      case AtUnassign
      then have "s' = at t Outside (unassignHolder s)" "pmutex s \<noteq> Some t" using a CGoOn m [of t] by simp_all
      then show ?thesis by (simp add: tm_inv_def unassignHolder_def at_def m)
    next
      case AtWait
      then show ?thesis using a CGoOn m [of t] m h by (auto simp: tm_inv_def cond_sleep_def at_def split: if_splits)
    next
      case Waiting
      then show ?thesis using a CGoOn tm_take_inv [OF inv, of t] by (auto simp: cond_wake_def tm_lock_def split: if_splits)
    qed (use a CGoOn in simp_all)
  qed (use a inv in \<open>auto simp: tm_inv_def cond_notify_def cond_notifyAll_def split: if_splits\<close>)
qed

lemma tm_run_inv: "tm_run as s = Some s' \<Longrightarrow> tm_inv s \<Longrightarrow> tm_inv s'"
  by (induction as s rule: tm_run.induct) (auto split: if_splits option.splits dest: tm_act_inv)

text \<open>C37: the holder of a \<open>ThreadMutex\<close> is never wrong, only missing.  In every interleaving of \<open>lock\<close>, \<open>try_lock\<close>, \<open>unlock\<close>, waits with and without
  a deadline and notifications, at most one thread is between taking and releasing the mutex, and a thread for which
  \<open>isLockedByCurrentThread\<close> answers yes outside of the calls of the class is that thread.\<close>

theorem thread_mutex_holder_sound:
  assumes "tm_run as ThreadMutex_new = Some s"
  shows "(\<forall>t u. has_mutex (tpc s t) \<and> has_mutex (tpc s u) \<longrightarrow> t = u) \<and>
    (\<forall>t. t \<noteq> 0 \<and> isLockedByCurrentThread t s \<and> tpc s t \<noteq> AtUnassign \<longrightarrow> tpc s t = Inside \<and> pmutex s = Some t)"
proof -
  have inv: "tm_inv s" using assms ThreadMutex_new_inv by (rule tm_run_inv)
  then have m: "has_mutex (tpc s t) \<longleftrightarrow> pmutex s = Some t" for t by (simp add: tm_inv_def)
  have "tpc s t = Inside \<and> pmutex s = Some t" if "t \<noteq> 0" "isLockedByCurrentThread t s" "tpc s t \<noteq> AtUnassign" for t
  proof -
    have "tpc s t = Inside" using inv that by (simp add: tm_inv_def isLockedByCurrentThread_def)
    then show ?thesis using m [of t] by simp
  qed
  moreover have "t = u" if "has_mutex (tpc s t)" "has_mutex (tpc s u)" for t u
    using that unfolding m by simp
  ultimately show ?thesis by blast
qed

text \<open>Witness: a thread waits on the condition and another takes the mutex meanwhile.\<close>

theorem thread_mutex_holder_sound_witness:
  "\<exists>s. tm_run [(1, CLock), (1, CGoOn), (1, CWait), (1, CGoOn), (2, CLock), (2, CGoOn)] ThreadMutex_new = Some s \<and>
       isLockedByCurrentThread 2 s \<and> pmutex s = Some 2"
proof -
  obtain s where s: "tm_run [(1, CLock), (1, CGoOn), (1, CWait), (1, CGoOn), (2, CLock), (2, CGoOn)] ThreadMutex_new = Some s"
      "isLockedByCurrentThread 2 s" "tpc s 2 \<noteq> AtUnassign"
    by (simp add: ThreadMutex_new_def tm_defs isLockedByCurrentThread_def)
  with thread_mutex_holder_sound [OF s(1)] show ?thesis by auto
qed

text \<open>The holder can be missing: \<open>unlock\<close> clears the id after it has released the mutex, when another thread may already have written its
  own.\<close>

lemma thread_mutex_holder_lost:
  "\<exists>s. tm_run [(1, CLock), (1, CGoOn), (1, CUnlock), (2, CLock), (2, CGoOn), (1, CGoOn)] ThreadMutex_new = Some s \<and>
       tpc s 2 = Inside \<and> pmutex s = Some 2 \<and> \<not> isLockedByCurrentThread 2 s"
  by (simp add: ThreadMutex_new_def tm_defs isLockedByCurrentThread_def)

section \<open>Deadlines\<close>

definition kNanoSecondsPerSecond :: int where
  "kNanoSecondsPerSecond = 1000000000"

text \<open>A finite \<open>double\<close> is \<open>m / 2 ^ e\<close>.  Its conversion to \<open>int64_t\<close> cuts off the fraction and is undefined, here \<open>None\<close>, when the result
  does not fit.\<close>

definition int64_of_double :: "int \<Rightarrow> nat \<Rightarrow> int option" where
  "int64_of_double m e = (let q = m sdiv 2 ^ e in if - (2 ^ 63) \<le> q \<and> q < 2 ^ 63 then Some q else None)"

text \<open>The seconds and nanoseconds given to \<open>pthread_cond_timedwait\<close>, from the clock and the product \<open>seconds * kNanoSecondsPerSecond\<close>, which is
  the \<open>double\<close> \<open>m / 2 ^ e\<close>.\<close>

definition wait_abstime :: "int \<Rightarrow> int \<Rightarrow> int \<Rightarrow> nat \<Rightarrow> (int \<times> int) option" where
  "wait_abstime tv_sec tv_nsec m e =
     (case int64_of_double m e of
        None \<Rightarrow> None
      | Some nanoseconds \<Rightarrow>
          Some (int64 (tv_sec + int64 (tv_sec + nanoseconds) sdiv kNanoSecondsPerSecond),
                int64 (tv_nsec + nanoseconds) smod kNanoSecondsPerSecond))"

definition in_nanos :: "int \<times> int \<Rightarrow> int" where
  "in_nanos ts = fst ts * kNanoSecondsPerSecond + snd ts"

lemma smod_nonneg: "0 \<le> x \<Longrightarrow> 0 \<le> y \<Longrightarrow> x smod y = (x :: int) mod y"
  by (cases "x = 0") (simp_all add: signed_modulo_int_def sdiv_nonneg minus_div_mult_eq_mod)

text \<open>In the range where nothing is lost, the code computes this.\<close>

lemma wait_abstime_in_range:
  assumes "0 \<le> sec" "sec < 2 ^ 31" "0 \<le> nsec" "nsec < 1000000000" "0 \<le> m" "m div 2 ^ e < 2 ^ 63 - 2 ^ 31"
  shows "wait_abstime sec nsec m e =
    Some (sec + (sec + m div 2 ^ e) div kNanoSecondsPerSecond, (nsec + m div 2 ^ e) mod kNanoSecondsPerSecond)"
proof -
  define d where "d = m div 2 ^ e"
  have d: "0 \<le> d" "d < 2 ^ 63 - 2 ^ 31" using assms(5,6) by (simp_all add: d_def pos_imp_zdiv_nonneg_iff)
  have c: "int64_of_double m e = Some d"
    using d assms(5) by (simp add: int64_of_double_def sdiv_nonneg flip: d_def)
  have "(sec + d) div 1000000000 < 2 ^ 62" using assms(2) d by simp
  moreover have "0 \<le> (sec + d) div 1000000000" using assms(1) d by simp
  ultimately have "int64 (sec + (sec + d) div 1000000000) = sec + (sec + d) div 1000000000"
    using assms(1,2) by simp
  then show ?thesis
    using assms(1-4) d c by (simp add: wait_abstime_def kNanoSecondsPerSecond_def sdiv_nonneg smod_nonneg flip: d_def)
qed

text \<open>C38: a timed wait does not end early, for arguments in a stated range.  When the clock is between September 2001 and May 2033 and
  the product of the seconds and \<open>kNanoSecondsPerSecond\<close>, a finite double, is not negative and less than \<open>2 ^ 63 - 2 ^ 31\<close> (292
  years), the conversion to \<open>int64_t\<close> is defined and the deadline that \<open>waitForSeconds\<close> computes in 64 bits is a valid time and lies exactly zero, one or two seconds
  after the time asked for in whole nanoseconds: the seconds of the clock are added to the nanoseconds before the division, and the
  carry from the nanoseconds is dropped.\<close>

theorem wait_deadline_late:
  assumes "1000000000 \<le> sec" "sec < 2000000000" "0 \<le> nsec" "nsec < 1000000000" "0 \<le> m" "m div 2 ^ e < 2 ^ 63 - 2 ^ 31"
  shows "\<exists>ts. wait_abstime sec nsec m e = Some ts \<and>
    (\<exists>k\<in>{0, 1, 2}. in_nanos ts = in_nanos (sec, nsec) + m div 2 ^ e + k * kNanoSecondsPerSecond) \<and>
    0 \<le> snd ts \<and> snd ts < kNanoSecondsPerSecond"
proof -
  let ?N = "1000000000 :: int"
  define d where "d = m div 2 ^ e"
  define k where "k = (sec + d) div ?N - (nsec + d) div ?N"
  have "0 \<le> d" using assms(5) by (simp add: d_def pos_imp_zdiv_nonneg_iff)
  then have "(sec + d) div ?N \<in> {1 + d div ?N, 2 + d div ?N}" "(nsec + d) div ?N \<in> {d div ?N, 1 + d div ?N}"
    using assms(1-4) by auto
  then have k: "k \<in> {0, 1, 2}" by (auto simp: k_def)
  have r: "wait_abstime sec nsec m e = Some (sec + (sec + d) div ?N, (nsec + d) mod ?N)"
    using wait_abstime_in_range [of sec nsec m e] assms by (simp add: kNanoSecondsPerSecond_def flip: d_def)
  have "in_nanos (sec + (sec + d) div ?N, (nsec + d) mod ?N) = in_nanos (sec, nsec) + d + k * ?N"
    using minus_mod_eq_mult_div [of "nsec + d" ?N] by (simp add: in_nanos_def kNanoSecondsPerSecond_def k_def algebra_simps)
  with k r show ?thesis unfolding d_def [symmetric] by (auto simp: kNanoSecondsPerSecond_def)
qed

text \<open>Witness: half a second from the end of a second, in 2020.\<close>

theorem wait_deadline_late_witness:
  "\<exists>ts. wait_abstime 1600000000 600000000 1000000000 1 = Some ts \<and>
    (\<exists>k\<in>{0, 1, 2}. in_nanos ts = in_nanos (1600000000, 600000000) + 500000000 + k * kNanoSecondsPerSecond)"
  using wait_deadline_late [of 1600000000 600000000 1000000000 1] by auto

text \<open>Outside of the range: a wait of minus one and a half seconds has a negative number of nanoseconds, and the conversion of ten
  thousand million seconds is undefined.\<close>

lemma wait_abstime_negative: "wait_abstime 1600000000 0 (- 1500000000) 0 = Some (1600000000, - 500000000)"
  by (simp add: wait_abstime_def int64_of_double_def kNanoSecondsPerSecond_def signed_divide_int_def signed_modulo_int_def sgn_if)

lemma wait_abstime_undefined: "wait_abstime 1600000000 0 (10 ^ 19) 0 = None"
  by (simp add: wait_abstime_def int64_of_double_def sdiv_nonneg)

end
