(* ===== verification/NattanSocket.thy ===== *)
theory NattanSocket
  imports CaskPrelude
begin

text \<open>
  \<open>net/Address.h\<close>, \<open>net/Socket.h\<close> and \<open>net/SocketHelper.h\<close>: addresses, the global tables of addresses and TLS handlers
  per descriptor, and the functions that connect, listen, accept and tunnel.  What the kernel answers is a record of parameters; its side is the set
  of open descriptors, the set of descriptors with a record in the table of the hook layer (\<open>inner\<close>: made by a hooked
  \<open>socket\<close> or \<open>accept\<close>, deleted by a hooked \<open>close\<close>) and the options that were set.  \<open>Unhook\<close> clears \<open>hooked\<close> for the scope of a function.  Both tables have
  \<open>SOCKET_MAX_NUMBER\<close> entries and are indexed without a test; an index outside of them is the fault \<open>BadIndex\<close>.
\<close>

section \<open>Addresses\<close>

definition htons :: "16 word \<Rightarrow> 16 word" where
  "htons w = or (push_bit 8 w) (drop_bit 8 w)"

record sockaddr_in =
  sin_family :: int
  sin_port :: "16 word"
  sin_addr :: "32 word"

record address =
  domain :: int
  stype :: int
  family :: int
  address :: string
  port :: int

definition AF_INET :: int where "AF_INET = 2"
definition SOCK_STREAM :: int where "SOCK_STREAM = 1"

definition Address :: "string \<Rightarrow> 32 word \<Rightarrow> address" where
  "Address addr p = \<lparr>domain = AF_INET, stype = SOCK_STREAM, family = AF_INET, address = addr, port = sint p\<rparr>"

definition Address_of :: "(int \<Rightarrow> 32 word \<Rightarrow> string) \<Rightarrow> sockaddr_in \<Rightarrow> int \<Rightarrow> address" where
  "Address_of inet_ntop sa fam =
     \<lparr>domain = AF_INET, stype = SOCK_STREAM, family = fam, address = inet_ntop fam (sin_addr sa), port = uint (htons (sin_port sa))\<rparr>"

definition toSockAddr :: "(string \<Rightarrow> 32 word) \<Rightarrow> address \<Rightarrow> sockaddr_in" where
  "toSockAddr inet_addr a =
     \<lparr>sin_family = family a, sin_port = htons (word_of_int (port a)),
      sin_addr = (if address a = ''0.0.0.0'' then 0 else inet_addr (address a))\<rparr>"

lemma htons_htons: "htons (htons w) = w"
proof (rule bit_word_eqI)
  fix n
  assume "n < LENGTH(16)"
  then have n: "n < 16" by simp
  have "bit (htons v) k \<longleftrightarrow> (8 \<le> k \<and> bit v (k - 8)) \<or> bit v (k + 8)" if "k < 16" for v k
    using that by (auto simp: htons_def bit_or_iff bit_push_bit_iff bit_drop_bit_eq add.commute)
  note b = this
  show "bit (htons (htons w)) n \<longleftrightarrow> bit w n"
  proof (cases "n < 8")
    case True
    then show ?thesis using b [of n "htons w"] b [of "n + 8" w] n bit_imp_le_length [of w "n + 8 + 8"] bit_imp_le_length [of "htons w" "n+8"] by auto
  next
    case False
    then show ?thesis
      using b [of n "htons w"] b [of "n - 8" w] n bit_imp_le_length [of "htons w" "n + 8"] by auto
  qed
qed

text \<open>An address survives the way through \<open>sockaddr_in\<close> when its port is a port and its text is what \<open>inet_ntop\<close> prints.\<close>

lemma address_roundtrip:
  assumes "0 \<le> port a" "port a < 65536" "domain a = AF_INET" "stype a = SOCK_STREAM"
    and "inet_ntop (family a) (sin_addr (toSockAddr inet_addr a)) = address a"
  shows "Address_of inet_ntop (toSockAddr inet_addr a) (family a) = a"
  using assms by (simp add: Address_of_def toSockAddr_def htons_htons uint_word_of_int)

section \<open>Sockets\<close>

datatype sockopt = SO_KEEPALIVE | TCP_NODELAY | TCP_CORK | SO_REUSEADDR | SO_REUSEPORT | FD_CLOEXEC

record socks =
  fds :: "int set"
  inner :: "int set"
  hooked :: bool
  g_sock_address :: "int \<Rightarrow> address option"
  g_sock_ssl_handler :: "int \<Rightarrow> nat option"
  live_ssl :: "nat set"
  sopts :: "(int \<times> sockopt) set"

definition SOCKET_MAX_NUMBER :: int where
  "SOCKET_MAX_NUMBER = 65536"

definition INVALID_SOCKET :: int where
  "INVALID_SOCKET = - 1"

definition in_table :: "int \<Rightarrow> bool" where
  "in_table fd \<longleftrightarrow> 0 \<le> fd \<and> fd < SOCKET_MAX_NUMBER"

record kernel =
  k_socket :: int
  k_getsockopt :: "int \<Rightarrow> int \<times> int"     \<comment> \<open>the result and \<open>SO_ERROR\<close>\<close>
  k_connect :: "int \<times> int"                  \<comment> \<open>the result and \<open>errno\<close>\<close>
  k_poll :: "int \<times> bool"                    \<comment> \<open>the result of \<open>co_poll\<close> and whether \<open>EPOLLOUT\<close> is reported\<close>
  k_connect_error :: int
  k_bind :: int
  k_listen :: int
  k_accept :: "int \<times> sockaddr_in"
  k_close :: int

definition valid :: "kernel \<Rightarrow> int \<Rightarrow> bool" where
  "valid k fd \<longleftrightarrow> \<not> fd \<le> INVALID_SOCKET \<and> fst (k_getsockopt k fd) = 0 \<and> snd (k_getsockopt k fd) = 0"

definition sock_sys_open :: "int \<Rightarrow> socks \<Rightarrow> socks" where
  "sock_sys_open fd s =
     (if fd < 0 then s else s\<lparr>fds := insert fd (fds s), inner := (if hooked s then insert fd (inner s) else inner s)\<rparr>)"

definition sock_sys_close :: "kernel \<Rightarrow> int \<Rightarrow> socks \<Rightarrow> int \<times> socks" where
  "sock_sys_close k fd s = (k_close k, s\<lparr>fds := fds s - {fd}, inner := (if hooked s then inner s - {fd} else inner s)\<rparr>)"

definition set_opt :: "kernel \<Rightarrow> sockopt \<Rightarrow> int \<Rightarrow> socks \<Rightarrow> socks" where
  "set_opt k opt fd s = (if valid k fd then s\<lparr>sopts := insert (fd, opt) (sopts s)\<rparr> else s)"

definition getAddress :: "kernel \<Rightarrow> int \<Rightarrow> socks \<Rightarrow> address option res" where
  "getAddress k fd s =
     (if \<not> valid k fd then Inr None else if in_table fd then Inr (g_sock_address s fd) else Inl BadIndex)"

definition GetSSLHandler :: "int \<Rightarrow> socks \<Rightarrow> nat option res" where
  "GetSSLHandler fd s = (if fd < 0 then Inr None else if in_table fd then Inr (g_sock_ssl_handler s fd) else Inl BadIndex)"

definition setSSLHandler :: "int \<Rightarrow> nat \<Rightarrow> socks \<Rightarrow> (bool \<times> socks) res" where
  "setSSLHandler fd h s =
     (if fd < 0 then Inr (False, s)
      else if in_table fd then Inr (True, s\<lparr>g_sock_ssl_handler := (g_sock_ssl_handler s)(fd \<mapsto> h)\<rparr>) else Inl BadIndex)"

definition setupSockAddress :: "int \<Rightarrow> address \<Rightarrow> socks \<Rightarrow> socks res" where
  "setupSockAddress fd a s = (if in_table fd then Inr (s\<lparr>g_sock_address := (g_sock_address s)(fd \<mapsto> a)\<rparr>) else Inl BadIndex)"

definition cleanupSockAddress :: "int \<Rightarrow> socks \<Rightarrow> socks res" where
  "cleanupSockAddress fd s = (if in_table fd then Inr (s\<lparr>g_sock_address := (g_sock_address s)(fd := None)\<rparr>) else Inl BadIndex)"

definition sock_close :: "kernel \<Rightarrow> int \<Rightarrow> socks \<Rightarrow> (int \<times> socks) res" where
  "sock_close k fd s =
     (if fd < 0 then Inr (- 1, s)
      else if \<not> in_table fd then Inl BadIndex
      else let s = s\<lparr>g_sock_address := (g_sock_address s)(fd := None)\<rparr>;
               s = (case g_sock_ssl_handler s fd of
                      None \<Rightarrow> s
                    | Some h \<Rightarrow> s\<lparr>g_sock_ssl_handler := (g_sock_ssl_handler s)(fd := None), live_ssl := live_ssl s - {h}\<rparr>)
           in Inr (sock_sys_close k fd s))"

section \<open>Connecting, listening, accepting\<close>

definition connected :: "kernel \<Rightarrow> int \<Rightarrow> address \<Rightarrow> socks \<Rightarrow> (int \<times> socks) res" where
  "connected k fd a s =
     rbind (setupSockAddress fd a s) (\<lambda>s.
       Inr (fd, set_opt k FD_CLOEXEC fd (set_opt k TCP_NODELAY fd (set_opt k SO_KEEPALIVE fd s))))"

definition close_failed :: "kernel \<Rightarrow> int \<Rightarrow> socks \<Rightarrow> (int \<times> socks) res" where
  "close_failed k fd s = rbind (sock_close k fd s) (\<lambda>(_, s). Inr (INVALID_SOCKET, s))"

definition TcpConnect :: "kernel \<Rightarrow> address \<Rightarrow> socks \<Rightarrow> (int \<times> socks) res" where
  "TcpConnect k a s =
     (let fd = k_socket k; s = sock_sys_open fd s
      in if \<not> valid k fd then Inr (INVALID_SOCKET, s)
         else if fst (k_connect k) < 0 then close_failed k fd s
         else connected k fd a s)"

definition E_INPROGRESS :: int where "E_INPROGRESS = 115"



text \<open>The result is the descriptor in all cases, also when it was closed.\<close>

definition TcpListen :: "kernel \<Rightarrow> address \<Rightarrow> socks \<Rightarrow> (int \<times> socks) res" where
  "TcpListen k a s =
     (let fd = k_socket k; s = sock_sys_open fd s
      in if \<not> valid k fd then rbind (sock_close k fd s) (\<lambda>(_, s). Inr (fd, s))
         else let s = set_opt k SO_REUSEPORT fd (set_opt k SO_REUSEADDR fd s)
              in if k_bind k < 0 \<or> k_listen k < 0 then rbind (sock_close k fd s) (\<lambda>(_, s). Inr (fd, s))
                 else rbind (setupSockAddress fd a s) (\<lambda>s. Inr (fd, s)))"

definition TcpAccept :: "kernel \<Rightarrow> (int \<Rightarrow> 32 word \<Rightarrow> string) \<Rightarrow> socks \<Rightarrow> (int \<times> socks) res" where
  "TcpAccept k inet_ntop s =
     (let fd = fst (k_accept k); s = sock_sys_open fd s
      in if \<not> valid k fd then rbind (sock_close k fd s) (\<lambda>(_, s). Inr (INVALID_SOCKET, s))
         else rbind (setupSockAddress fd (Address_of inet_ntop (snd (k_accept k)) AF_INET) s) (\<lambda>s. Inr (fd, s)))"


section \<open>Tables and descriptors\<close>

text \<open>Only open descriptors have an address or a TLS handler.\<close>

definition sock_inv :: "socks \<Rightarrow> bool" where
  "sock_inv s \<longleftrightarrow> (\<forall>fd. fd \<notin> fds s \<longrightarrow> g_sock_address s fd = None \<and> g_sock_ssl_handler s fd = None)"

lemma valid_nonneg: "valid k fd \<Longrightarrow> 0 \<le> fd"
  by (simp add: valid_def INVALID_SOCKET_def)

lemma set_opt_simps [simp]:
  "fds (set_opt k p fd s) = fds s" "inner (set_opt k p fd s) = inner s" "g_sock_address (set_opt k p fd s) = g_sock_address s"
  "g_sock_ssl_handler (set_opt k p fd s) = g_sock_ssl_handler s"
  by (simp_all add: set_opt_def)

lemma sock_sys_open_simps [simp]:
  "0 \<le> fd \<Longrightarrow> fds (sock_sys_open fd s) = insert fd (fds s)" "g_sock_address (sock_sys_open fd s) = g_sock_address s"
  "g_sock_ssl_handler (sock_sys_open fd s) = g_sock_ssl_handler s" "hooked (sock_sys_open fd s) = hooked s"
  "0 \<le> fd \<Longrightarrow> inner (sock_sys_open fd s) = (if hooked s then insert fd (inner s) else inner s)"
  by (simp_all add: sock_sys_open_def)

lemma close_failed_new:
  assumes "sock_inv s0" "fd \<notin> fds s0" "in_table fd" "0 \<le> fd"
    and s: "fds s = insert fd (fds s0)" "g_sock_address s = g_sock_address s0" "g_sock_ssl_handler s = g_sock_ssl_handler s0"
  shows "\<exists>s'. close_failed k fd s = Inr (INVALID_SOCKET, s') \<and> sock_inv s' \<and> fds s' = fds s0 \<and>
    g_sock_address s' = g_sock_address s0 \<and> inner s' = (if hooked s then inner s - {fd} else inner s)"
proof -
  have n: "g_sock_address s0 fd = None" "g_sock_ssl_handler s0 fd = None" using assms(1,2) by (auto simp: sock_inv_def)
  then have "(g_sock_address s0)(fd := None) = g_sock_address s0" by auto
  then show ?thesis
    using assms n by (auto simp: close_failed_def sock_close_def sock_sys_close_def Let_def sock_inv_def)
qed



subsection \<open>The exits of connecting\<close>










definition kernel_ok :: "int \<Rightarrow> int \<Rightarrow> int \<Rightarrow> kernel" where
  "kernel_ok fd c b = \<lparr>k_socket = fd, k_getsockopt = (\<lambda>_. (0, 0)), k_connect = (c, E_INPROGRESS), k_poll = (0, False), k_connect_error = 0,
     k_bind = b, k_listen = 0, k_accept = (-1, \<lparr>sin_family = 2, sin_port = 0, sin_addr = 0\<rparr>), k_close = 0\<rparr>"

definition socks_start :: socks where
  "socks_start = \<lparr>fds = {}, inner = {}, hooked = True, g_sock_address = (\<lambda>_. None), g_sock_ssl_handler = (\<lambda>_. None), live_ssl = {}, sopts = {}\<rparr>"


text \<open>A pending error on the new descriptor leaks it.\<close>

lemma connect_leaks_descriptor:
  "\<exists>s'. TcpConnect (kernel_ok 5 0 0\<lparr>k_getsockopt := (\<lambda>_. (0, 111))\<rparr>) a socks_start = Inr (- 1, s') \<and> 5 \<in> fds s'"
  by (simp add: TcpConnect_def kernel_ok_def socks_start_def sock_sys_open_def valid_def INVALID_SOCKET_def Let_def)

text \<open>a listener that could not be set up is returned all the same.  When \<open>bind\<close> or \<open>listen\<close> fails on a new descriptor of the tables, \<open>TcpListen\<close> closes it and
  returns its number, which is not negative and names no open descriptor.\<close>

theorem tcp_listen_returns_closed:
  assumes "sock_inv s" "valid k (k_socket k)" "k_socket k \<notin> fds s" "in_table (k_socket k)" "k_bind k < 0 \<or> k_listen k < 0"
  shows "\<exists>s'. TcpListen k a s = Inr (k_socket k, s') \<and> k_socket k \<notin> fds s' \<and> fds s' = fds s"
proof -
  let ?fd = "k_socket k"
  have fd: "0 \<le> ?fd" using assms(2) by (rule valid_nonneg)
  let ?s = "set_opt k SO_REUSEPORT ?fd (set_opt k SO_REUSEADDR ?fd (sock_sys_open ?fd s))"
  have s: "fds ?s = insert ?fd (fds s)" "g_sock_address ?s = g_sock_address s" "g_sock_ssl_handler ?s = g_sock_ssl_handler s"
    using fd by simp_all
  obtain r where r: "sock_close k ?fd ?s = Inr r" "fds (snd r) = fds s"
    using close_failed_new [OF assms(1,3,4) fd s, of k]
    by (cases "sock_close k ?fd ?s") (auto simp: close_failed_def split_beta)
  moreover have "TcpListen k a s = rbind (sock_close k ?fd ?s) (\<lambda>(_, s). Inr (?fd, s))"
    using assms(2,5) by (simp add: TcpListen_def Let_def)
  ultimately show ?thesis using assms(3) by (simp add: split_beta)
qed

theorem tcp_listen_returns_closed_witness:
  "\<exists>s'. TcpListen (kernel_ok 5 0 (-1)) (Address ''0.0.0.0'' 80) socks_start = Inr (5, s') \<and> 5 \<notin> fds s'"
proof -
  let ?k = "kernel_ok 5 0 (-1)"
  have "sock_inv socks_start" "valid ?k (k_socket ?k)" "k_socket ?k \<notin> fds socks_start" "in_table (k_socket ?k)" "k_bind ?k < 0 \<or> k_listen ?k < 0"
    by (simp_all add: sock_inv_def socks_start_def kernel_ok_def in_table_def SOCKET_MAX_NUMBER_def valid_def
        INVALID_SOCKET_def)
  from tcp_listen_returns_closed [OF this, of "Address ''0.0.0.0'' 80"] show ?thesis
    by (auto simp: kernel_ok_def)
qed


section \<open>Tunnels\<close>

text \<open>What the kernel answers over time: the \<open>n\<close>-th \<open>splice\<close> from one descriptor to another (result and \<open>errno\<close>), the wait that follows
  it, and the \<open>n\<close>-th \<open>pipe2\<close> (result, read end, write end).  The loops carry the number of calls made so far; the fuel counts the
  rounds, and \<open>None\<close> says that it did not suffice.  \<open>moved\<close> counts the bytes given to the target.\<close>

record splices =
  k_splice :: "nat \<Rightarrow> int \<Rightarrow> int \<Rightarrow> int \<times> int"
  k_wait :: "nat \<Rightarrow> int"
  k_pipe2 :: "nat \<Rightarrow> int \<times> int \<times> int"

record tunnel_st =
  tfds :: "int set"
  tcalls :: nat
  moved :: int

definition SPLICE_AGAIN :: int where "SPLICE_AGAIN = 11"
definition SPLICE_EBADF :: int where "SPLICE_EBADF = 9"

definition next_call :: "tunnel_st \<Rightarrow> tunnel_st" where
  "next_call s = s\<lparr>tcalls := tcalls s + 1\<rparr>"

text \<open>\<open>EAGAIN\<close> and \<open>EWOULDBLOCK\<close> are the same number.\<close>

fun splice_in :: "nat \<Rightarrow> splices \<Rightarrow> int \<Rightarrow> int \<Rightarrow> tunnel_st \<Rightarrow> (int \<times> tunnel_st) option" where
  "splice_in 0 k src fd_in s = None"
| "splice_in (Suc fuel) k src fd_in s =
     (let (recv_len, e) = k_splice k (tcalls s) src fd_in; res = k_wait k (tcalls s); s = next_call s
      in if recv_len < 0
         then if e = SPLICE_AGAIN
              then if res \<le> 0 then Some (- 1, s) else splice_in fuel k src fd_in s
              else Some (- 1, s)
         else if recv_len \<le> 0 then splice_in fuel k src fd_in s
         else Some (recv_len, s))"

fun splice_out :: "nat \<Rightarrow> splices \<Rightarrow> int \<Rightarrow> int \<Rightarrow> int \<Rightarrow> int \<Rightarrow> tunnel_st \<Rightarrow> (int \<times> tunnel_st) option" where
  "splice_out 0 k fd_out dst data_len recv_len s = None"
| "splice_out (Suc fuel) k fd_out dst data_len recv_len s =
     (if recv_len \<le> 0 then Some (data_len, s)
      else let (send_len, e) = k_splice k (tcalls s) fd_out dst; res = k_wait k (tcalls s); s = next_call s
           in if send_len < 0
              then if e = SPLICE_AGAIN
                   then if res \<le> 0 then Some (- 1, s) else splice_out fuel k fd_out dst data_len recv_len s
                   else Some (- 1, s)
              else splice_out fuel k fd_out dst data_len (recv_len - send_len) (s\<lparr>moved := moved s + send_len\<rparr>))"

text \<open>The names are those of the source: \<open>fd_in\<close> is the first descriptor of the pipe, the one for reading.\<close>

definition SpliceSocketData :: "nat \<Rightarrow> splices \<Rightarrow> int \<Rightarrow> int \<Rightarrow> tunnel_st \<Rightarrow> (int \<times> tunnel_st) option" where
  "SpliceSocketData fuel k src dst s =
     (let (ret, fd_in, fd_out) = k_pipe2 k (tcalls s)
      in if ret < 0 then Some (- 1, s)
         else let s = s\<lparr>tfds := tfds s \<union> {fd_in, fd_out}\<rparr>
              in case splice_in fuel k src fd_in s of
                   None \<Rightarrow> None
                 | Some (recv_len, s) \<Rightarrow>
                     if recv_len < 0 then Some (- 1, s) else splice_out fuel k fd_out dst recv_len recv_len s)"

text \<open>\<open>polls\<close> are the results of \<open>co_poll\<close>, one per round; both entries of the poll set and the source of every round are the client.\<close>

fun tunnel :: "nat \<Rightarrow> splices \<Rightarrow> int \<Rightarrow> int \<Rightarrow> int list \<Rightarrow> tunnel_st \<Rightarrow> (int \<times> tunnel_st) option" where
  "tunnel fuel k csock ssock [] s = None"
| "tunnel fuel k csock ssock (n # polls) s =
     (if n \<le> 0 then Some (n, s)
      else case SpliceSocketData fuel k csock ssock s of
             None \<Rightarrow> None
           | Some (r, s) \<Rightarrow> if r < 0 then Some (- 1, s) else tunnel fuel k csock ssock polls s)"

text \<open>The documented behaviour of \<open>splice\<close>: a pipe takes data only at its write end.\<close>

definition read_end_refuses :: "splices \<Rightarrow> bool" where
  "read_end_refuses k \<longleftrightarrow> (\<forall>m n src. k_splice k n src (fst (snd (k_pipe2 k m))) = (- 1, SPLICE_EBADF))"

text \<open>a tunnel between plain sockets forwards nothing.  It always returns after the first poll with a result that is not positive, no byte has been
  given to the target, and when there was something to read both ends of a new pipe stay open: the code splices into the end of the pipe that can only be
  read.\<close>

theorem tunnel_forwards_nothing:
  assumes "read_end_refuses k" "0 < fuel"
  shows "\<exists>r s'. tunnel fuel k csock ssock (n # polls) s = Some (r, s') \<and> r \<le> 0 \<and> moved s' = moved s \<and>
    tfds s' = (if 0 < n \<and> 0 \<le> fst (k_pipe2 k (tcalls s))
               then tfds s \<union> {fst (snd (k_pipe2 k (tcalls s))), snd (snd (k_pipe2 k (tcalls s)))} else tfds s)"
proof -
  obtain ret fd_in fd_out where p: "k_pipe2 k (tcalls s) = (ret, fd_in, fd_out)"
    by (cases "k_pipe2 k (tcalls s)")
  obtain f where f: "fuel = Suc f" using assms(2) by (cases fuel) auto
  have refuse: "k_splice k m src fd_in = (- 1, SPLICE_EBADF)" for m src
    using assms(1) [unfolded read_end_refuses_def, rule_format, of m src "tcalls s"] p by simp
  show ?thesis
    using p refuse f by (auto simp: SpliceSocketData_def SPLICE_EBADF_def SPLICE_AGAIN_def next_call_def Let_def)
qed

definition pipes_example :: splices where
  "pipes_example = \<lparr>k_splice = (\<lambda>n src dst. if dst = 6 then (-1, SPLICE_EBADF) else (100, 0)), k_wait = (\<lambda>_. 1), k_pipe2 = (\<lambda>_. (0, 6, 7))\<rparr>"

theorem tunnel_forwards_nothing_witness:
  "\<exists>r s'. tunnel 1 pipes_example 4 5 [1, 1] \<lparr>tfds = {4, 5}, tcalls = 0, moved = 0\<rparr> = Some (r, s') \<and> r \<le> 0 \<and> moved s' = 0 \<and>
     tfds s' = {4, 5, 6, 7}"
proof -
  have "read_end_refuses pipes_example" by (simp add: read_end_refuses_def pipes_example_def)
  from tunnel_forwards_nothing [OF this, of 1 4 5 1 "[1]" "\<lparr>tfds = {4, 5}, tcalls = 0, moved = 0\<rparr>"] show ?thesis
    by (auto simp: pipes_example_def)
qed

text \<open>The end of the input is not noticed: as long as \<open>splice\<close> reports it, the loop goes round without a wait.\<close>

lemma splice_in_spins_at_end:
  assumes "\<forall>n. k_splice k n src fd_in = (0, e)"
  shows "splice_in fuel k src fd_in s = None"
  using assms by (induction fuel arbitrary: s) (simp_all add: Let_def)

end
