(* ===== verification/NattanMemory.thy ===== *)
theory NattanMemory
  imports NattanTyped
begin

text \<open>
  \<open>core/MemoryData.h\<close>: the readers, writers and peeks that \<open>Buffer\<close> inherits, over the virtual functions \<open>read\<close> and \<open>write\<close> of the
  object, which are arguments here; and \<open>core/SharedMemoryData.h\<close>, whose system calls are parameters and are recorded.
  \<open>junk\<close> stands for the indeterminate initial value of a local variable.
\<close>

section \<open>Memory data\<close>

type_synonym 's reader = "nat \<Rightarrow> 's \<Rightarrow> (int \<times> byte list \<times> 's) res"
type_synonym 's writer = "byte list \<Rightarrow> 's \<Rightarrow> (int \<times> 's) res option"

definition md_read :: "'s reader \<Rightarrow> byte list \<Rightarrow> 's \<Rightarrow> (byte list \<times> 's) res" where
  "md_read rd junk d = rbind (rd (length junk) d) (\<lambda>(r, out, d). Inr (out @ drop (length out) junk, d))"

definition md_readChar :: "'s reader \<Rightarrow> byte \<Rightarrow> 's \<Rightarrow> (byte \<times> 's) res" where
  "md_readChar rd junk d = rbind (md_read rd [junk] d) (\<lambda>(out, d). Inr (le_word out, d))"

definition md_readInt :: "'s reader \<Rightarrow> 32 word \<Rightarrow> 's \<Rightarrow> (32 word \<times> 's) res" where
  "md_readInt rd junk d = rbind (md_read rd (le_bytes 4 junk) d) (\<lambda>(out, d). Inr (le_word out, d))"

text \<open>\<open>readLong\<close> returns an \<open>int\<close>.\<close>

definition md_readLong :: "'s reader \<Rightarrow> 64 word \<Rightarrow> 's \<Rightarrow> (32 word \<times> 's) res" where
  "md_readLong rd junk d = rbind (md_read rd (le_bytes 8 junk) d) (\<lambda>(out, d). Inr (ucast (le_word out :: 64 word), d))"

definition md_writeChar :: "'s writer \<Rightarrow> byte \<Rightarrow> 's \<Rightarrow> (int \<times> 's) res option" where
  "md_writeChar wr c d = wr [c] d"

definition md_writeInt :: "'s writer \<Rightarrow> 32 word \<Rightarrow> 's \<Rightarrow> (int \<times> 's) res option" where
  "md_writeInt wr x d = wr (le_bytes 4 x) d"

definition md_writeLong :: "'s writer \<Rightarrow> 64 word \<Rightarrow> 's \<Rightarrow> (int \<times> 's) res option" where
  "md_writeLong wr x d = wr (le_bytes 8 x) d"

text \<open>A peek reads the value and writes it.\<close>

definition md_peek :: "('v \<times> 's) res \<Rightarrow> ('v \<Rightarrow> 's \<Rightarrow> (int \<times> 's) res option) \<Rightarrow> ('v \<times> 's) res option" where
  "md_peek r wr =
     (case r of Inl e \<Rightarrow> Some (Inl e)
      | Inr (v, d) \<Rightarrow> map_option (\<lambda>w. rbind w (\<lambda>(n, d). Inr (v, d))) (wr v d))"

definition md_peekChar :: "'s reader \<Rightarrow> 's writer \<Rightarrow> byte \<Rightarrow> 's \<Rightarrow> (byte \<times> 's) res option" where
  "md_peekChar rd wr junk d = md_peek (md_readChar rd junk d) (md_writeChar wr)"

definition md_peekInt :: "'s reader \<Rightarrow> 's writer \<Rightarrow> 32 word \<Rightarrow> 's \<Rightarrow> (32 word \<times> 's) res option" where
  "md_peekInt rd wr junk d = md_peek (md_readInt rd junk d) (md_writeInt wr)"

definition md_peekLong :: "'s reader \<Rightarrow> 's writer \<Rightarrow> 64 word \<Rightarrow> 's \<Rightarrow> (64 word \<times> 's) res option" where
  "md_peekLong rd wr junk d = md_peek (rbind (md_readLong rd junk d) (\<lambda>(v, d). Inr (scast v :: 64 word, d))) (md_writeLong wr)"

lemma nth_le_bytes: "i < n \<Longrightarrow> le_bytes n w ! i = ucast (drop_bit (8 * i) w)"
proof (induction n arbitrary: i w)
  case (Suc n)
  then show ?case by (cases i) (simp_all add: drop_bit_drop_bit add.commute)
qed simp

lemma bit_le_word: "bit (le_word bs :: 'a::len word) k \<longleftrightarrow> k < LENGTH('a) \<and> k div 8 < length bs \<and> bit (bs ! (k div 8)) (k mod 8)"
proof (induction bs arbitrary: k)
  case (Cons b bs)
  have d: "k div 8 = (if k < 8 then 0 else Suc ((k - 8) div 8))" "k mod 8 = (if k < 8 then k else (k - 8) mod 8)"
    by (auto simp: le_div_geq le_mod_geq)
  show ?case
  proof (cases "k < 8")
    case True
    then show ?thesis by (simp add: bit_simps d)
  next
    case False
    then have "\<not> bit b k" using bit_imp_le_length [of b k] by auto
    then show ?thesis using False Cons.IH [of "k - 8"] by (auto simp: bit_simps d)
  qed
qed simp

lemma le_bytes_le_word:
  assumes "length bs = n" "8 * n \<le> LENGTH('a)"
  shows "le_bytes n (le_word bs :: 'a::len word) = bs"
proof (rule nth_equalityI)
  fix i
  assume i: "i < length (le_bytes n (le_word bs :: 'a word))"
  have "ucast (drop_bit (8 * i) (le_word bs :: 'a word)) = bs ! i"
  proof (rule bit_word_eqI)
    fix k
    assume "k < LENGTH(8)"
    then have k: "k < 8" by simp
    have "(8 * i + k) div 8 = i" "(8 * i + k) mod 8 = k" using k by auto
    moreover have "8 * i + k < LENGTH('a)" using i k assms(2) by simp
    ultimately show "bit (ucast (drop_bit (8 * i) (le_word bs :: 'a word)) :: byte) k \<longleftrightarrow> bit (bs ! i) k"
      using i k assms(1) by (simp add: bit_simps bit_le_word)
  qed
  then show "le_bytes n (le_word bs :: 'a word) ! i = bs ! i" using i by (simp add: nth_le_bytes)
qed (simp add: assms(1))

context data_stream
begin

lemma peekInt_rotates:
  assumes d: "inv d" "4 \<le> length (contents d)"
    and acc: "\<And>n out d'. fetch 4 d = Inr (n, out, d') \<Longrightarrow> inv d' \<Longrightarrow> contents d' = drop 4 (contents d) \<Longrightarrow>
      accepts (take 4 (contents d)) d'"
  shows "\<exists>d'. md_peekInt fetch store junk d = Some (Inr (le_word (take 4 (contents d)), d')) \<and> inv d' \<and>
    contents d' = drop 4 (contents d) @ take 4 (contents d)"
proof -
  obtain d1 where r: "fetch 4 d = Inr (int (length (take 4 (contents d))), take 4 (contents d), d1)" "inv d1"
      "contents d1 = drop 4 (contents d)"
    using read_takes [OF d(1), of 4] by blast
  obtain d2 where w: "store (take 4 (contents d)) d1 = Some (Inr (int (length (take 4 (contents d))), d2))" "inv d2"
      "contents d2 = contents d1 @ take 4 (contents d)"
    using write_appends [OF r(2) acc [OF r]] by blast
  have "le_bytes 4 (le_word (take 4 (contents d)) :: 32 word) = take 4 (contents d)"
    using d(2) by (intro le_bytes_le_word) simp_all
  then show ?thesis
    using r w d(2) by (simp add: md_peekInt_def md_peek_def md_readInt_def md_writeInt_def md_read_def)
qed

end


section \<open>Peeking into a buffer\<close>

lemma tryArrange_storage: "buf_inv b \<Longrightarrow> length (fData (snd (tryArrange b))) = length (fData b)"
  using arrange_bytes(3) [of b] by (simp add: tryArrange_def clear_def)

lemma buf_read_storage:
  assumes inv: "buf_inv b" and r: "buf_read n b = Inr (out, b')"
  shows "length (fData b') = length (fData b)"
proof (cases "min n (blength b) = 0")
  case True
  then show ?thesis using r by (auto simp: buf_read_def split: if_splits)
next
  case False
  let ?k = "min n (blength b)"
  have "buf_inv (b\<lparr>fReadIdx := fReadIdx b + ?k\<rparr>)"
    using advance_bytes [OF inv, of ?k] buf_inv_sizes(2) [OF inv] by simp
  moreover have "b' = snd (tryArrange (b\<lparr>fReadIdx := fReadIdx b + ?k\<rparr>))"
    using r False by (auto simp: buf_read_def Let_def split: sum.splits if_splits)
  ultimately show ?thesis using tryArrange_storage by simp
qed

text \<open>\<open>peekInt\<close> is not a peek.  On a well-formed buffer with at least four bytes and some room it returns the first four bytes as
  an integer, but moves them behind all the others: the contents are rotated by four bytes instead of being left alone.\<close>

theorem buffer_peekInt_rotates:
  assumes "has_room 0 b" "4 \<le> length (bytes b)"
  shows "\<exists>b'. md_peekInt data_read data_write junk b = Some (Inr (le_word (take 4 (bytes b)), b')) \<and> buf_inv b' \<and>
    bytes b' = drop 4 (bytes b) @ take 4 (bytes b)"
proof (rule buffer.peekInt_rotates)
  fix n out b'
  assume r: "data_read 4 b = Inr (n, out, b')" and b': "bytes b' = drop 4 (bytes b)"
  then have "buf_read 4 b = Inr (out, b')" by (auto simp: data_read_def rbind_Inr_iff)
  then have "length (fData b') = length (fData b)" using assms(1) buf_read_storage unfolding has_room_def by blast
  then show "write_ok (take 4 (bytes b)) b'" using assms b' by (simp add: write_ok_def has_room_def)
qed (use assms in \<open>simp_all add: has_room_def\<close>)

theorem buffer_peekInt_rotates_witness:
  "\<exists>b b'. bytes b = [1, 0, 0, 0, 9] \<and> md_peekInt data_read data_write 0 b = Some (Inr (1, b')) \<and> bytes b' = [9, 1, 0, 0, 0]"
proof -
  have "has_room (length [1, 0, 0, 0, 9 :: byte]) (Buffer 1024)"
    using Buffer_1024(3,4) by (simp add: has_room_def Buffer_1024(2))
  from has_room_write [OF this] obtain b where b: "buf_inv b" "bytes b = [1, 0, 0, 0, 9]" "length (fData b) = 1024"
    using Buffer_1024(2,4) by auto
  then have "has_room 0 b" by (simp add: has_room_def limit_def)
  from buffer_peekInt_rotates [OF this, of 0] b(2) show ?thesis by auto
qed

section \<open>Shared memory\<close>

datatype shm_call = ShmOpen string | Ftruncate int "64 word" | Mmap "64 word" bool int | Close int | Munmap nat "64 word" | ShmUnlink string

record shared_memory =
  fFileName :: string
  fSize :: "64 word"
  fAnonymous :: bool
  fHandle :: nat
  fPersist :: bool

definition SharedMemoryData_anon :: "64 word \<Rightarrow> shared_memory" where
  "SharedMemoryData_anon n = \<lparr>fFileName = [], fSize = n, fAnonymous = True, fHandle = 0, fPersist = False\<rparr>"

definition SharedMemoryData_named :: "string \<Rightarrow> 64 word \<Rightarrow> bool \<Rightarrow> bool \<Rightarrow> shared_memory" where
  "SharedMemoryData_named f n persist anon = \<lparr>fFileName = f, fSize = n, fAnonymous = anon, fHandle = 0, fPersist = persist\<rparr>"

definition round_to_page :: "64 word \<Rightarrow> 64 word \<Rightarrow> 64 word" where
  "round_to_page page_size n = (if n mod page_size \<noteq> 0 then page_size * (n div page_size + 1) else n)"

text \<open>\<open>shm\<close>: the result of \<open>shm_open\<close>, \<open>mp\<close>: the address \<open>mmap\<close> returns, \<open>None\<close> for \<open>MAP_FAILED\<close>.\<close>

definition shm_open :: "64 word \<Rightarrow> int \<Rightarrow> nat option \<Rightarrow> shared_memory \<Rightarrow> nat \<times> shared_memory \<times> shm_call list" where
  "shm_open page_size shm mp m =
     (let m = m\<lparr>fSize := round_to_page page_size (fSize m)\<rparr>;
          h = (case mp of None \<Rightarrow> 0 | Some a \<Rightarrow> a)
      in if \<not> fAnonymous m
         then if shm < 0 then (0, m, [ShmOpen (fFileName m)])
              else (h, m\<lparr>fHandle := h\<rparr>, [ShmOpen (fFileName m), Ftruncate shm (fSize m), Mmap (fSize m) False shm, Close shm])
         else (h, m\<lparr>fHandle := h\<rparr>, [Mmap (fSize m) True (- 1), Close (- 1)]))"

definition shm_destroy :: "shared_memory \<Rightarrow> shm_call list" where
  "shm_destroy m = Munmap (fHandle m) (fSize m) # (if \<not> fAnonymous m \<and> \<not> fPersist m then [ShmUnlink (fFileName m)] else [])"

text \<open>The rounded size is the next multiple of the page size, as long as that fits into \<open>size_t\<close>.\<close>

lemma round_to_page_correct:
  assumes "0 < unat p" "unat n + unat p < 2 ^ 64"
  shows "unat p dvd unat (round_to_page p n) \<and> unat n \<le> unat (round_to_page p n) \<and> unat (round_to_page p n) < unat n + unat p"
proof -
  have m: "unat (n mod p) = unat n mod unat p" "unat (n div p) = unat n div unat p" by (simp_all add: unat_mod unat_div)
  show ?thesis
  proof (cases "n mod p = 0")
    case True
    then have "unat n mod unat p = 0" using m(1) by simp
    then show ?thesis using True assms(1) by (auto simp: round_to_page_def)
  next
    case False
    then have nz: "unat n mod unat p \<noteq> 0" using m(1) by (metis unat_eq_zero)
    have q: "unat p * (unat n div unat p + 1) = unat n - unat n mod unat p + unat p"
      by (simp add: minus_mod_eq_mult_div [symmetric])
    have lt: "unat p * (unat n div unat p + 1) < 2 ^ 64"
      using q assms(2) by linarith
    have "1 * (unat n div unat p + 1) \<le> unat p * (unat n div unat p + 1)"
      using assms(1) by (intro mult_le_mono1) simp
    then have "unat (n div p + 1) = unat n div unat p + 1"
      using lt m(2) by (subst unat_add_lem [THEN iffD1]) simp_all
    then have r: "unat (round_to_page p n) = unat p * (unat n div unat p + 1)"
      using lt False by (simp add: round_to_page_def) (subst unat_mult_lem [THEN iffD1], simp_all)
    have "unat n mod unat p < unat p" using assms(1) by simp
    then have "unat n \<le> unat (round_to_page p n)" "unat (round_to_page p n) < unat n + unat p"
      unfolding r q using nz mod_less_eq_dividend [of "unat n" "unat p"] by linarith+
    moreover have "unat p dvd unat (round_to_page p n)" unfolding r by (rule dvd_triv_left)
    ultimately show ?thesis by blast
  qed
qed

text \<open>A segment is unlinked by name even when it was never opened by the object, and an anonymous one closes the descriptor \<open>-1\<close>.\<close>

lemma shm_unlinks_unopened: "ShmUnlink f \<in> set (shm_destroy (SharedMemoryData_named f n False False))"
  by (simp add: shm_destroy_def SharedMemoryData_named_def)

lemma shm_anonymous_close: "Close (- 1) \<in> set (snd (snd (shm_open p (- 1) mp (SharedMemoryData_anon n))))"
  by (simp add: shm_open_def SharedMemoryData_anon_def Let_def)

end
