(* ===== verification/CaskCondTill.thy ===== *)
theory CaskCondTill
  imports CaskMutex CaskEventTyped
begin

unbundle bit_operations_syntax

text \<open>
  The timed wait on a condition variable, \<open>co_cond_wait_till\<close> of \<open>co_cond.c\<close>, on the mutex and on the event layer together: the task joins the wait list, opens
  and sets a timer, releases the mutex and switches away; after the switch it asks the timer whether it has fired, closes it and takes the mutex
  again.  The function is split at the switch.  \<open>tfd\<close> is the descriptor \<open>timerfd_create\<close> returns, \<open>settime\<close> is \<open>timerfd_settime\<close>.
\<close>

section \<open>Model\<close>

definition cond_wait_till_enter ::
  "(int \<Rightarrow> int \<times> int \<Rightarrow> int) \<Rightarrow> int \<Rightarrow> int \<Rightarrow> addr \<Rightarrow> addr \<Rightarrow> msys \<times> ev \<Rightarrow> (int \<times> msys \<times> ev) res" where
  "cond_wait_till_enter settime tfd ms wl t s =
     (if \<not> co_mutex_locked (mu (fst s)) then Inl (Panic ''cond_wait mutex is not locked'')
      else let m = (fst s)\<lparr>lk := list_add_before wl t (lk (fst s))\<rparr>
           in rbind (open_timer tfd (snd s)) (\<lambda>(timerfd, e).
              rbind (set_timer settime timerfd ms e) (\<lambda>(_, e). Inr (timerfd, co_mutex_unlock t m, e))))"

text \<open>\<open>close_timer\<close> is the hooked \<open>close\<close>, which deletes the record.\<close>

definition cond_wait_till_leave :: "int \<Rightarrow> addr \<Rightarrow> msys \<times> ev \<Rightarrow> (bool \<times> msys \<times> ev) res" where
  "cond_wait_till_leave timerfd t s =
     rbind (is_timeout_timer timerfd (snd s)) (\<lambda>timeout.
       Inr (timeout, co_mutex_lock t (fst s), delete_inner_fd timerfd (snd s)))"

section \<open>The timer of a wait\<close>

definition armed_timer :: "int \<Rightarrow> nat \<Rightarrow> int \<Rightarrow> ev \<Rightarrow> bool" where
  "armed_timer tfd t err e \<longleftrightarrow> is_fd_valid tfd \<and> kerr e tfd = 0 \<and> fdtab e tfd \<noteq> NULL \<and>
     (\<exists>i. heap e (fdtab e tfd) = Some i \<and> ifd_fd i = tfd \<and> itask i = t \<and> ierror i = err)"

lemma open_set_timer:
  assumes wf: "ev_wf e" and fd: "0 < tfd" "is_fd_valid tfd" "kerr e tfd = 0" "fdtab e tfd = NULL"
    and set: "0 \<le> settime tfd (timer_spec ms)"
  shows "\<exists>e1 e2. open_timer tfd e = Inr (tfd, e1) \<and> set_timer settime tfd ms e1 = Inr (0, e2) \<and>
    armed_timer tfd (self e) IENONE e2 \<and> interest e2 tfd = Some (EPOLLIN OR EPOLLET) \<and> self e2 = self e"
proof -
  let ?i = "\<lparr>ifd_fd = tfd, flags = 0 OR O_NONBLOCK, user_flags = 0, itask = 0, itimeout = - 1, ierror = IENONE\<rparr>"
  let ?e1 = "e\<lparr>heap := (heap e)(brk e \<mapsto> ?i), fdtab := (fdtab e)(tfd := brk e), brk := brk e + 1\<rparr>"
  let ?e2 = "?e1\<lparr>heap := (heap ?e1)(brk e \<mapsto> ?i\<lparr>itask := self e, ierror := IENONE\<rparr>)\<rparr>"
  have b: "brk e \<noteq> NULL" using wf by (simp add: ev_wf_def)
  have o: "open_timer tfd e = Inr (tfd, ?e1)"
    using fd b by (simp add: open_timer_def get_inner_fd_def new_inner_fd_def update_def deref_def)
  obtain x where x: "add_events tfd (EPOLLIN OR EPOLLET) ?e2 =
      (0, ?e2\<lparr>interest := (interest ?e2)(tfd \<mapsto> EPOLLIN OR EPOLLET), errno := x\<rparr>)"
    using add_events_ok [of tfd ?e2 "EPOLLIN OR EPOLLET"] fd by auto
  have "set_timer settime tfd ms ?e1 = Inr (0, ?e2\<lparr>interest := (interest ?e2)(tfd \<mapsto> EPOLLIN OR EPOLLET), errno := x\<rparr>)"
    using fd b set x by (simp add: set_timer_def set_timer_raw_def get_inner_fd_def update_def deref_def)
  with o show ?thesis using fd b by (simp add: armed_timer_def)
qed

text \<open>The event loop reports the timer as readable: the task is resumed and its record says so.\<close>

lemma timer_fires:
  assumes "armed_timer tfd t err e" "t \<noteq> 0"
  shows "\<exists>e'. dispatch [(tfd, EPOLLIN)] e = Inr e' \<and> armed_timer tfd t IEREAD e' \<and> t \<in> set (resumed e')"
proof -
  obtain i where i: "heap e (fdtab e tfd) = Some i" "ifd_fd i = tfd" "itask i = t" "is_fd_valid tfd" "kerr e tfd = 0" "fdtab e tfd \<noteq> NULL"
    using assms(1) by (auto simp: armed_timer_def)
  let ?e = "e\<lparr>heap := (heap e)(fdtab e tfd \<mapsto> i\<lparr>ierror := IEREAD\<rparr>)\<rparr>"
  obtain x where x: "delete_events tfd 0 ?e = (0, ?e\<lparr>interest := (interest ?e)(tfd := None), errno := x\<rparr>)"
    using delete_events_ok [of tfd ?e 0] i by auto
  have "events_to_error EPOLLIN = IEREAD"
    by (simp add: events_to_error_def IENONE_def IEREAD_def EPOLLIN_def EPOLLOUT_def EPOLLERR_def EPOLLHUP_def EPOLLRDHUP_def Let_def)
  then show ?thesis
    using i x assms(2) by (simp add: get_inner_fd_def update_def deref_def Let_def armed_timer_def)
qed

lemma wait_till_leave:
  assumes "armed_timer tfd t err e" "0 < tfd"
  shows "\<exists>e'. cond_wait_till_leave tfd u (m, e) = Inr (err AND IEREAD \<noteq> 0, co_mutex_lock u m, e') \<and> fdtab e' tfd = NULL"
  using assms
  by (auto simp: cond_wait_till_leave_def is_timeout_timer_def get_inner_fd_def deref_def armed_timer_def delete_inner_fd_def Let_def)

section \<open>Properties\<close>

text \<open>C33: a timed wait reports what ended it.  A task that holds the mutex and calls \<open>co_cond_wait_till\<close> with a timer the kernel accepts joins the end of
  the wait list, releases the mutex and waits.  When the event loop reports the timer, the task is resumed and the call returns 1; when it is resumed
  without that report, by a signal, the call returns 0.  In both cases the timer is closed and the task goes on to take the mutex.\<close>

theorem cond_wait_till_reports:
  assumes "ev_wf e" "0 < tfd" "is_fd_valid tfd" "kerr e tfd = 0" "fdtab e tfd = NULL" "0 \<le> settime tfd (timer_spec ms)"
    and "lock (mu m) = t" "t \<noteq> NULL" "self e = t" "ring (lk m) wl ws" "t \<notin> set (wl # ws)"
  shows "\<exists>m1 e1 e2 e3 e4. cond_wait_till_enter settime tfd ms wl t (m, e) = Inr (tfd, m1, e1) \<and>
    ring (lk m1) wl (ws @ [t]) \<and> lock (mu m1) = NULL \<and>
    dispatch [(tfd, EPOLLIN)] e1 = Inr e2 \<and> t \<in> set (resumed e2) \<and>
    cond_wait_till_leave tfd t (m1, e2) = Inr (True, co_mutex_lock t m1, e3) \<and> fdtab e3 tfd = NULL \<and>
    cond_wait_till_leave tfd t (m1, e1) = Inr (False, co_mutex_lock t m1, e4) \<and> fdtab e4 tfd = NULL \<and>
    mpc (co_mutex_lock t m1) t = MTry"
proof -
  obtain e0 e1 where o: "open_timer tfd e = Inr (tfd, e0)" "set_timer settime tfd ms e0 = Inr (0, e1)" "armed_timer tfd t IENONE e1"
    using open_set_timer [OF assms(1-5), of settime ms] assms(6,9) by auto
  define m1 where "m1 = co_mutex_unlock t (m\<lparr>lk := list_add_before wl t (lk m)\<rparr>)"
  have enter: "cond_wait_till_enter settime tfd ms wl t (m, e) = Inr (tfd, m1, e1)"
    using o assms(7,8) by (simp add: cond_wait_till_enter_def co_mutex_locked_def m1_def)
  have m1: "lk m1 = list_add_before wl t (lk m)" "lock (mu m1) = NULL"
    using assms(7,8) by (simp_all add: m1_def co_mutex_unlock_def co_mutex_locked_def mgoto_def ATOMIC_UNLOCK_def)
  have r: "ring (lk m1) wl (ws @ [t])"
    unfolding m1(1) using assms(10,11) by (intro list_add_before_ring) auto
  obtain e2 where e2: "dispatch [(tfd, EPOLLIN)] e1 = Inr e2" "armed_timer tfd t IEREAD e2" "t \<in> set (resumed e2)"
    using timer_fires [OF o(3)] assms(8) by blast
  have "IEREAD AND IEREAD \<noteq> 0" "IENONE AND IEREAD = 0" by (simp_all add: IEREAD_def IENONE_def)
  then obtain e3 e4 where "cond_wait_till_leave tfd t (m1, e2) = Inr (True, co_mutex_lock t m1, e3)" "fdtab e3 tfd = NULL"
      "cond_wait_till_leave tfd t (m1, e1) = Inr (False, co_mutex_lock t m1, e4)" "fdtab e4 tfd = NULL"
    using wait_till_leave [OF e2(2) assms(2), of t m1] wait_till_leave [OF o(3) assms(2), of t m1] by auto
  moreover have "mpc (co_mutex_lock t m1) t = MTry"
    using m1(2) assms(8) by (simp add: co_mutex_lock_def mgoto_def)
  ultimately show ?thesis using enter r m1(2) e2 by metis
qed


definition till_example :: msys where
  "till_example = \<lparr>mu = \<lparr>lock = 7, wait_lock = \<lparr>v = 1\<rparr>, wait_list = 1\<rparr>, lk = \<lparr>prv = id, nxt = id\<rparr>, run_list = 2,
     mpc = (\<lambda>_. MIdle)(7 := MHold), panic = False\<rparr>"

theorem cond_wait_till_reports_witness:
  "\<exists>m1 e1 e2 e3. cond_wait_till_enter (\<lambda>_ _. 0) 5 250 3 7 (till_example, ev_start\<lparr>self := 7\<rparr>) = Inr (5, m1, e1) \<and>
     ring (lk m1) 3 [7] \<and> dispatch [(5, EPOLLIN)] e1 = Inr e2 \<and> cond_wait_till_leave 5 7 (m1, e2) = Inr (True, co_mutex_lock 7 m1, e3)"
proof -
  have wf: "ev_wf (ev_start\<lparr>self := 7\<rparr>)" by (simp add: ev_wf_def ev_inv_def ev_start_def new_time_wheel_inv)
  have r: "ring (lk till_example) 3 []" by (simp add: till_example_def ring_def)
  have fd: "is_fd_valid 5" "kerr (ev_start\<lparr>self := 7\<rparr>) 5 = 0" "fdtab (ev_start\<lparr>self := 7\<rparr>) 5 = NULL"
    "lock (mu till_example) = 7" "self (ev_start\<lparr>self := 7\<rparr>) = 7"
    by (simp_all add: ev_start_def is_fd_valid_def MAX_FD_NUM_def till_example_def)
  have z: "(0 :: int) \<le> (\<lambda>_ _. 0) (5 :: int) (timer_spec 250)" "(7 :: addr) \<noteq> NULL" "(7 :: addr) \<notin> set [3]" "(0 :: int) < 5" by simp_all
  from cond_wait_till_reports [OF wf z(4) fd(1-3) z(1) fd(4) z(2) fd(5) r z(3)] show ?thesis
    by (simp only: append_Nil) blast
qed

text \<open>A wait with a time limit of 0 sets the timer to zero, which disarms it (\<open>timerfd_settime(2)\<close>): it has no time limit.\<close>

lemma wait_till_zero_disarms: "timer_spec 0 = (0, 0)"
  by (simp add: timer_spec_def)

end
