(* ===== verification/HttpParser.thy ===== *)
theory HttpParser
  imports NattanBuffer
begin

text \<open>
  \<open>deps/http-parser/http_parser.c\<close>, the parser that \<open>proto/http/HttpParser.h\<close> drives.  \<open>http_parser_execute\<close> is one large
  \<open>switch\<close> inside a loop over the bytes of a piece of the stream; here every label of the \<open>switch\<close> is a definition with the label's
  name, \<open>exec_switch\<close> chooses among them, \<open>reexecute\<close> is the jump back to the \<open>switch\<close> and \<open>exec_loop\<close> the loop.  The locals of the function are the
  record \<open>loc\<close>; a label ends by \<open>break\<close>, by \<open>goto reexecute\<close>, by \<open>goto error\<close> or by a \<open>return\<close>.  A failed
  \<open>assert\<close> and an access outside an array are \<open>Abort\<close>.  Callbacks are functions on the parser, whose
  field \<open>pdata\<close> is the state of the application; \<open>HTTP_PARSER_STRICT\<close> and \<open>max_header_size\<close> are fields of the environment.
\<close>

section \<open>Types and tables\<close>

unbundle bit_operations_syntax

datatype (plugins only: code) http_method =
    HTTP_DELETE | HTTP_GET | HTTP_HEAD | HTTP_POST | HTTP_PUT | HTTP_CONNECT
  | HTTP_OPTIONS | HTTP_TRACE | HTTP_COPY | HTTP_LOCK | HTTP_MKCOL | HTTP_MOVE
  | HTTP_PROPFIND | HTTP_PROPPATCH | HTTP_SEARCH | HTTP_UNLOCK | HTTP_BIND | HTTP_REBIND
  | HTTP_UNBIND | HTTP_ACL | HTTP_REPORT | HTTP_MKACTIVITY | HTTP_CHECKOUT | HTTP_MERGE
  | HTTP_MSEARCH | HTTP_NOTIFY | HTTP_SUBSCRIBE | HTTP_UNSUBSCRIBE | HTTP_PATCH | HTTP_PURGE
  | HTTP_MKCALENDAR | HTTP_LINK | HTTP_UNLINK | HTTP_SOURCE

fun method_strings :: "http_method \<Rightarrow> byte list" where
  "method_strings HTTP_DELETE = map of_char ''DELETE''"
| "method_strings HTTP_GET = map of_char ''GET''"
| "method_strings HTTP_HEAD = map of_char ''HEAD''"
| "method_strings HTTP_POST = map of_char ''POST''"
| "method_strings HTTP_PUT = map of_char ''PUT''"
| "method_strings HTTP_CONNECT = map of_char ''CONNECT''"
| "method_strings HTTP_OPTIONS = map of_char ''OPTIONS''"
| "method_strings HTTP_TRACE = map of_char ''TRACE''"
| "method_strings HTTP_COPY = map of_char ''COPY''"
| "method_strings HTTP_LOCK = map of_char ''LOCK''"
| "method_strings HTTP_MKCOL = map of_char ''MKCOL''"
| "method_strings HTTP_MOVE = map of_char ''MOVE''"
| "method_strings HTTP_PROPFIND = map of_char ''PROPFIND''"
| "method_strings HTTP_PROPPATCH = map of_char ''PROPPATCH''"
| "method_strings HTTP_SEARCH = map of_char ''SEARCH''"
| "method_strings HTTP_UNLOCK = map of_char ''UNLOCK''"
| "method_strings HTTP_BIND = map of_char ''BIND''"
| "method_strings HTTP_REBIND = map of_char ''REBIND''"
| "method_strings HTTP_UNBIND = map of_char ''UNBIND''"
| "method_strings HTTP_ACL = map of_char ''ACL''"
| "method_strings HTTP_REPORT = map of_char ''REPORT''"
| "method_strings HTTP_MKACTIVITY = map of_char ''MKACTIVITY''"
| "method_strings HTTP_CHECKOUT = map of_char ''CHECKOUT''"
| "method_strings HTTP_MERGE = map of_char ''MERGE''"
| "method_strings HTTP_MSEARCH = map of_char ''M-SEARCH''"
| "method_strings HTTP_NOTIFY = map of_char ''NOTIFY''"
| "method_strings HTTP_SUBSCRIBE = map of_char ''SUBSCRIBE''"
| "method_strings HTTP_UNSUBSCRIBE = map of_char ''UNSUBSCRIBE''"
| "method_strings HTTP_PATCH = map of_char ''PATCH''"
| "method_strings HTTP_PURGE = map of_char ''PURGE''"
| "method_strings HTTP_MKCALENDAR = map of_char ''MKCALENDAR''"
| "method_strings HTTP_LINK = map of_char ''LINK''"
| "method_strings HTTP_UNLINK = map of_char ''UNLINK''"
| "method_strings HTTP_SOURCE = map of_char ''SOURCE''"

datatype (plugins only: code) http_errno =
    HPE_OK | HPE_CB_message_begin | HPE_CB_url | HPE_CB_header_field
  | HPE_CB_header_value | HPE_CB_headers_complete | HPE_CB_body | HPE_CB_message_complete
  | HPE_CB_status | HPE_CB_chunk_header | HPE_CB_chunk_complete | HPE_INVALID_EOF_STATE
  | HPE_HEADER_OVERFLOW | HPE_CLOSED_CONNECTION | HPE_INVALID_VERSION | HPE_INVALID_STATUS
  | HPE_INVALID_METHOD | HPE_INVALID_URL | HPE_INVALID_HOST | HPE_INVALID_PORT
  | HPE_INVALID_PATH | HPE_INVALID_QUERY_STRING | HPE_INVALID_FRAGMENT | HPE_LF_EXPECTED
  | HPE_INVALID_HEADER_TOKEN | HPE_INVALID_CONTENT_LENGTH | HPE_UNEXPECTED_CONTENT_LENGTH | HPE_INVALID_CHUNK_SIZE
  | HPE_INVALID_CONSTANT | HPE_INVALID_INTERNAL_STATE | HPE_STRICT | HPE_PAUSED
  | HPE_UNKNOWN

datatype (plugins only: code) state =
    s_dead | s_start_req_or_res | s_res_or_resp_H | s_start_res
  | s_res_H | s_res_HT | s_res_HTT | s_res_HTTP
  | s_res_http_major | s_res_http_dot | s_res_http_minor | s_res_http_end
  | s_res_first_status_code | s_res_status_code | s_res_status_start | s_res_status
  | s_res_line_almost_done | s_start_req | s_req_method | s_req_spaces_before_url
  | s_req_schema | s_req_schema_slash | s_req_schema_slash_slash | s_req_server_start
  | s_req_server | s_req_server_with_at | s_req_path | s_req_query_string_start
  | s_req_query_string | s_req_fragment_start | s_req_fragment | s_req_http_start
  | s_req_http_H | s_req_http_HT | s_req_http_HTT | s_req_http_HTTP
  | s_req_http_I | s_req_http_IC | s_req_http_major | s_req_http_dot
  | s_req_http_minor | s_req_http_end | s_req_line_almost_done | s_header_field_start
  | s_header_field | s_header_value_discard_ws | s_header_value_discard_ws_almost_done | s_header_value_discard_lws
  | s_header_value_start | s_header_value | s_header_value_lws | s_header_almost_done
  | s_chunk_size_start | s_chunk_size | s_chunk_parameters | s_chunk_size_almost_done
  | s_headers_almost_done | s_headers_done | s_chunk_data | s_chunk_data_almost_done
  | s_chunk_data_done | s_body_identity | s_body_identity_eof | s_message_done

datatype (plugins only: code) header_states =
    h_general | h_C | h_CO | h_CON
  | h_matching_connection | h_matching_proxy_connection | h_matching_content_length | h_matching_transfer_encoding
  | h_matching_upgrade | h_connection | h_content_length | h_content_length_num
  | h_content_length_ws | h_transfer_encoding | h_upgrade | h_matching_transfer_encoding_chunked
  | h_matching_connection_token_start | h_matching_connection_keep_alive | h_matching_connection_close | h_matching_connection_upgrade
  | h_matching_connection_token | h_transfer_encoding_chunked | h_connection_keep_alive | h_connection_close
  | h_connection_upgrade

datatype http_parser_type = HTTP_REQUEST | HTTP_RESPONSE | HTTP_BOTH

definition F_CHUNKED :: "8 word" where "F_CHUNKED = 1"
definition F_CONNECTION_KEEP_ALIVE :: "8 word" where "F_CONNECTION_KEEP_ALIVE = 2"
definition F_CONNECTION_CLOSE :: "8 word" where "F_CONNECTION_CLOSE = 4"
definition F_CONNECTION_UPGRADE :: "8 word" where "F_CONNECTION_UPGRADE = 8"
definition F_TRAILING :: "8 word" where "F_TRAILING = 16"
definition F_UPGRADE :: "8 word" where "F_UPGRADE = 32"
definition F_SKIPBODY :: "8 word" where "F_SKIPBODY = 64"
definition F_CONTENTLENGTH :: "8 word" where "F_CONTENTLENGTH = 128"

definition ULLONG_MAX :: "64 word" where "ULLONG_MAX = - 1"

text \<open>The field \<open>index\<close> has seven bits.\<close>

record 'd hp =
  ptype :: http_parser_type
  flags :: "8 word"
  pstate :: state
  header_state :: header_states
  index :: nat
  lenient_http_headers :: bool
  nread :: "32 word"
  content_length :: "64 word"
  http_major :: nat
  http_minor :: nat
  pstatus_code :: nat
  pmethod :: http_method
  http_errno :: http_errno
  upgrade :: bool
  pdata :: 'd

definition flag :: "8 word \<Rightarrow> 'd hp \<Rightarrow> bool" where
  "flag f q \<longleftrightarrow> flags q AND f \<noteq> 0"

definition set_flag :: "8 word \<Rightarrow> 'd hp \<Rightarrow> 'd hp" where
  "set_flag f q = q\<lparr>flags := flags q OR f\<rparr>"

definition index_inc :: "'d hp \<Rightarrow> 'd hp" where
  "index_inc q = q\<lparr>index := (index q + 1) mod 128\<rparr>"

text \<open>The callbacks without and with data.\<close>

datatype cb_notify = message_begin | headers_complete | message_complete | chunk_header | chunk_complete

datatype cb_data = url | status | header_field | header_value | body

fun HPE_CB_notify :: "cb_notify \<Rightarrow> http_errno" where
  "HPE_CB_notify message_begin = HPE_CB_message_begin"
| "HPE_CB_notify headers_complete = HPE_CB_headers_complete"
| "HPE_CB_notify message_complete = HPE_CB_message_complete"
| "HPE_CB_notify chunk_header = HPE_CB_chunk_header"
| "HPE_CB_notify chunk_complete = HPE_CB_chunk_complete"

fun HPE_CB_data :: "cb_data \<Rightarrow> http_errno" where
  "HPE_CB_data url = HPE_CB_url"
| "HPE_CB_data status = HPE_CB_status"
| "HPE_CB_data header_field = HPE_CB_header_field"
| "HPE_CB_data header_value = HPE_CB_header_value"
| "HPE_CB_data body = HPE_CB_body"

record 'd env =
  strict :: bool
  max_header_size :: "32 word"
  on_notify :: "cb_notify \<Rightarrow> ('d hp \<Rightarrow> int \<times> 'd hp) option"
  on_data :: "cb_data \<Rightarrow> ('d hp \<Rightarrow> byte list \<Rightarrow> int \<times> 'd hp) option"

section \<open>Characters\<close>

abbreviation ch_of :: "char \<Rightarrow> byte" where
  "ch_of c \<equiv> of_char c"

definition ch_CR :: byte where "ch_CR = 13"
definition ch_LF :: byte where "ch_LF = 10"
definition ch_HT :: byte where "ch_HT = 9"
definition ch_FF :: byte where "ch_FF = 12"
definition ch_SP :: byte where "ch_SP = 32"

definition LOWER :: "byte \<Rightarrow> byte" where
  "LOWER c = c OR 0x20"

definition IS_ALPHA :: "byte \<Rightarrow> bool" where
  "IS_ALPHA c \<longleftrightarrow> LOWER c \<ge> ch_of CHR ''a'' \<and> LOWER c \<le> ch_of CHR ''z''"

definition IS_NUM :: "byte \<Rightarrow> bool" where
  "IS_NUM c \<longleftrightarrow> c \<ge> ch_of CHR ''0'' \<and> c \<le> ch_of CHR ''9''"

definition IS_ALPHANUM :: "byte \<Rightarrow> bool" where
  "IS_ALPHANUM c \<longleftrightarrow> IS_ALPHA c \<or> IS_NUM c"

definition IS_MARK :: "byte \<Rightarrow> bool" where
  "IS_MARK c \<longleftrightarrow> c \<in> set (map of_char [CHR ''-'', CHR ''_'', CHR ''.'', CHR ''!'', CHR ''~'', CHR ''*'', CHR 0x27, CHR ''('', CHR '')''])"

definition IS_USERINFO_CHAR :: "byte \<Rightarrow> bool" where
  "IS_USERINFO_CHAR c \<longleftrightarrow> IS_ALPHANUM c \<or> IS_MARK c \<or> c \<in> set (map of_char ''%;:&=+$,'')"

definition tokens :: "byte list" where
  "tokens =
    [0, 0, 0, 0, 0, 0, 0, 0, 0, 0, 0, 0, 0, 0, 0, 0,
     0, 0, 0, 0, 0, 0, 0, 0, 0, 0, 0, 0, 0, 0, 0, 0,
     32, 33, 0, 35, 36, 37, 38, 39, 0, 0, 42, 43, 0, 45, 46, 0,
     48, 49, 50, 51, 52, 53, 54, 55, 56, 57, 0, 0, 0, 0, 0, 0,
     0, 97, 98, 99, 100, 101, 102, 103, 104, 105, 106, 107, 108, 109, 110, 111,
     112, 113, 114, 115, 116, 117, 118, 119, 120, 121, 122, 0, 0, 0, 94, 95,
     96, 97, 98, 99, 100, 101, 102, 103, 104, 105, 106, 107, 108, 109, 110, 111,
     112, 113, 114, 115, 116, 117, 118, 119, 120, 121, 122, 0, 124, 0, 126, 0] @ replicate 128 0"

definition STRICT_TOKEN :: "byte \<Rightarrow> byte" where
  "STRICT_TOKEN c = (if c = ch_SP then 0 else tokens ! unat c)"

definition TOKEN :: "'d env \<Rightarrow> byte \<Rightarrow> byte" where
  "TOKEN e c = (if strict e then STRICT_TOKEN c else tokens ! unat c)"

definition unhex :: "int list" where
  "unhex =
    [-1, -1, -1, -1, -1, -1, -1, -1, -1, -1, -1, -1, -1, -1, -1, -1,
     -1, -1, -1, -1, -1, -1, -1, -1, -1, -1, -1, -1, -1, -1, -1, -1,
     -1, -1, -1, -1, -1, -1, -1, -1, -1, -1, -1, -1, -1, -1, -1, -1,
     0, 1, 2, 3, 4, 5, 6, 7, 8, 9, -1, -1, -1, -1, -1, -1,
     -1, 10, 11, 12, 13, 14, 15, -1, -1, -1, -1, -1, -1, -1, -1, -1,
     -1, -1, -1, -1, -1, -1, -1, -1, -1, -1, -1, -1, -1, -1, -1, -1,
     -1, 10, 11, 12, 13, 14, 15, -1, -1, -1, -1, -1, -1, -1, -1, -1,
     -1, -1, -1, -1, -1, -1, -1, -1, -1, -1, -1, -1, -1, -1, -1, -1] @ replicate 128 0"


definition normal_url_char :: "bool \<Rightarrow> nat list" where
  "normal_url_char st = [0, if st then 0 else 18, 0, 0, 246, 255, 255, 127, 255, 255, 255, 255, 255, 255, 255, 127] @ replicate 16 0"

definition BIT_AT :: "nat list \<Rightarrow> nat \<Rightarrow> bool" where
  "BIT_AT a i \<longleftrightarrow> odd (a ! (i div 8) div 2 ^ (i mod 8))"

definition IS_URL_CHAR :: "bool \<Rightarrow> byte \<Rightarrow> bool" where
  "IS_URL_CHAR st c \<longleftrightarrow> BIT_AT (normal_url_char st) (unat c) \<or> \<not> st \<and> c \<ge> 128"

definition IS_HEADER_CHAR :: "byte \<Rightarrow> bool" where
  "IS_HEADER_CHAR c \<longleftrightarrow> c = ch_CR \<or> c = ch_LF \<or> c = ch_HT \<or> c > 31 \<and> c \<noteq> 127"

definition digit_val :: "byte \<Rightarrow> nat" where
  "digit_val c = unat (c - ch_of CHR ''0'')"

section \<open>Requests' targets\<close>

definition parse_server_char :: "byte \<Rightarrow> state" where
  "parse_server_char ch =
     (if ch = ch_of CHR ''/'' then s_req_path
      else if ch = ch_of CHR ''?'' then s_req_query_string_start
      else if ch = ch_of CHR ''@'' then s_req_server_with_at
      else if IS_USERINFO_CHAR ch \<or> ch = ch_of CHR ''['' \<or> ch = ch_of CHR '']'' then s_req_server
      else s_dead)"

definition parse_query_char :: "bool \<Rightarrow> byte \<Rightarrow> state" where
  "parse_query_char st ch =
     (if IS_URL_CHAR st ch then s_req_query_string
      else if ch = ch_of CHR ''?'' then s_req_query_string
      else if ch = ch_of CHR ''#'' then s_req_fragment_start else s_dead)"

definition parse_url_char :: "bool \<Rightarrow> state \<Rightarrow> byte \<Rightarrow> state" where
  "parse_url_char st s ch =
     (if ch = ch_SP \<or> ch = ch_CR \<or> ch = ch_LF then s_dead
      else if st \<and> (ch = ch_HT \<or> ch = ch_FF) then s_dead
      else case s of
        s_req_spaces_before_url \<Rightarrow>
          if ch = ch_of CHR ''/'' \<or> ch = ch_of CHR ''*'' then s_req_path
          else if IS_ALPHA ch then s_req_schema else s_dead
      | s_req_schema \<Rightarrow>
          if IS_ALPHA ch then s else if ch = ch_of CHR '':'' then s_req_schema_slash else s_dead
      | s_req_schema_slash \<Rightarrow> if ch = ch_of CHR ''/'' then s_req_schema_slash_slash else s_dead
      | s_req_schema_slash_slash \<Rightarrow> if ch = ch_of CHR ''/'' then s_req_server_start else s_dead
      | s_req_server_with_at \<Rightarrow> if ch = ch_of CHR ''@'' then s_dead else parse_server_char ch
      | s_req_server_start \<Rightarrow> parse_server_char ch
      | s_req_server \<Rightarrow> parse_server_char ch
      | s_req_path \<Rightarrow>
          if IS_URL_CHAR st ch then s
          else if ch = ch_of CHR ''?'' then s_req_query_string_start
          else if ch = ch_of CHR ''#'' then s_req_fragment_start else s_dead
      | s_req_query_string_start \<Rightarrow> parse_query_char st ch
      | s_req_query_string \<Rightarrow> parse_query_char st ch
      | s_req_fragment_start \<Rightarrow>
          if IS_URL_CHAR st ch then s_req_fragment
          else if ch = ch_of CHR ''?'' then s_req_fragment else if ch = ch_of CHR ''#'' then s else s_dead
      | s_req_fragment \<Rightarrow>
          if IS_URL_CHAR st ch then s
          else if ch = ch_of CHR ''?'' \<or> ch = ch_of CHR ''#'' then s else s_dead
      | _ \<Rightarrow> s_dead)"

section \<open>Locals, errors and callbacks\<close>

text \<open>The locals of \<open>http_parser_execute\<close>: the parser it was given, \<open>p_state\<close>, \<open>nread\<close>, the offset of \<open>p\<close> in the data,
  the marks and \<open>lenient\<close>.  \<open>goto reexecute\<close> carries the value of \<open>ch\<close>.\<close>

record 'd loc =
  parser :: "'d hp"
  p_state :: state
  lnread :: "32 word"
  pos :: nat
  marks :: "cb_data \<Rightarrow> nat option"
  lenient :: bool

datatype 'd outcome =
    Break "'d loc"
  | Reexecute byte "'d loc"
  | Error "'d loc"
  | Return nat "'d hp"
  | Abort
  | OutOfFuel

definition SET_ERRNO :: "http_errno \<Rightarrow> 'd loc \<Rightarrow> 'd loc" where
  "SET_ERRNO c s = s\<lparr>parser := (parser s)\<lparr>nread := lnread s, http_errno := c\<rparr>\<rparr>"

definition UPDATE_STATE :: "state \<Rightarrow> 'd loc \<Rightarrow> 'd loc" where
  "UPDATE_STATE st s = s\<lparr>p_state := st\<rparr>"

definition RETURN :: "nat \<Rightarrow> 'd loc \<Rightarrow> 'd outcome" where
  "RETURN v s = Return v ((parser s)\<lparr>nread := lnread s, pstate := p_state s\<rparr>)"

definition goto_error :: "http_errno \<Rightarrow> 'd loc \<Rightarrow> 'd outcome" where
  "goto_error c s = Error (SET_ERRNO c s)"

definition set_parser :: "('d hp \<Rightarrow> 'd hp) \<Rightarrow> 'd loc \<Rightarrow> 'd loc" where
  "set_parser f s = s\<lparr>parser := f (parser s)\<rparr>"

definition MARK :: "cb_data \<Rightarrow> 'd loc \<Rightarrow> 'd loc" where
  "MARK c s = (if marks s c = None then s\<lparr>marks := (marks s)(c := Some (pos s))\<rparr> else s)"

definition COUNT_HEADER_SIZE :: "'d env \<Rightarrow> nat \<Rightarrow> 'd loc \<Rightarrow> ('d loc \<Rightarrow> 'd outcome) \<Rightarrow> 'd outcome" where
  "COUNT_HEADER_SIZE e n s k =
     (let s = s\<lparr>lnread := lnread s + of_nat n\<rparr>
      in if lnread s > max_header_size e then goto_error HPE_HEADER_OVERFLOW s else k s)"

definition STRICT_CHECK :: "'d env \<Rightarrow> bool \<Rightarrow> 'd loc \<Rightarrow> 'd outcome \<Rightarrow> 'd outcome" where
  "STRICT_CHECK e c s k = (if strict e \<and> c then goto_error HPE_STRICT s else k)"

text \<open>What follows a callback: its result, and the error it or the application may have set.\<close>

definition after_callback :: "http_errno \<Rightarrow> nat \<Rightarrow> int \<times> 'd hp \<Rightarrow> 'd loc \<Rightarrow> ('d loc \<Rightarrow> 'd outcome) \<Rightarrow> 'd outcome" where
  "after_callback c er rq s k =
     (let q = (if fst rq \<noteq> 0 then (snd rq)\<lparr>nread := lnread s, http_errno := c\<rparr> else snd rq);
          s = s\<lparr>parser := q, p_state := pstate q\<rparr>
      in if http_errno q \<noteq> HPE_OK then Return er q else k s)"

definition CALLBACK_NOTIFY_at :: "'d env \<Rightarrow> cb_notify \<Rightarrow> nat \<Rightarrow> 'd loc \<Rightarrow> ('d loc \<Rightarrow> 'd outcome) \<Rightarrow> 'd outcome" where
  "CALLBACK_NOTIFY_at e c er s k =
     (if http_errno (parser s) \<noteq> HPE_OK then Abort
      else case on_notify e c of
        None \<Rightarrow> k s
      | Some f \<Rightarrow> after_callback (HPE_CB_notify c) er (f ((parser s)\<lparr>pstate := p_state s\<rparr>)) s k)"


definition CALLBACK_NOTIFY :: "'d env \<Rightarrow> cb_notify \<Rightarrow> 'd loc \<Rightarrow> ('d loc \<Rightarrow> 'd outcome) \<Rightarrow> 'd outcome" where
  "CALLBACK_NOTIFY e c s k = CALLBACK_NOTIFY_at e c (pos s + 1) s k"

definition CALLBACK_NOTIFY_NOADVANCE :: "'d env \<Rightarrow> cb_notify \<Rightarrow> 'd loc \<Rightarrow> ('d loc \<Rightarrow> 'd outcome) \<Rightarrow> 'd outcome" where
  "CALLBACK_NOTIFY_NOADVANCE e c s k = CALLBACK_NOTIFY_at e c (pos s) s k"

text \<open>The data of a callback end at the offset \<open>to\<close>; a range outside the piece is \<open>Abort\<close>.\<close>

definition CALLBACK_DATA_at ::
  "'d env \<Rightarrow> byte list \<Rightarrow> cb_data \<Rightarrow> nat \<Rightarrow> nat \<Rightarrow> 'd loc \<Rightarrow> ('d loc \<Rightarrow> 'd outcome) \<Rightarrow> 'd outcome" where
  "CALLBACK_DATA_at e d c to er s k =
     (if http_errno (parser s) \<noteq> HPE_OK then Abort
      else case marks s c of
        None \<Rightarrow> k s
      | Some m \<Rightarrow>
          if to < m \<or> to > length d then Abort
          else case on_data e c of
            None \<Rightarrow> k (s\<lparr>marks := (marks s)(c := None)\<rparr>)
          | Some f \<Rightarrow>
              after_callback (HPE_CB_data c) er (f ((parser s)\<lparr>pstate := p_state s\<rparr>) (take (to - m) (drop m d))) s
                (\<lambda>s. k (s\<lparr>marks := (marks s)(c := None)\<rparr>)))"

definition CALLBACK_DATA :: "'d env \<Rightarrow> byte list \<Rightarrow> cb_data \<Rightarrow> 'd loc \<Rightarrow> ('d loc \<Rightarrow> 'd outcome) \<Rightarrow> 'd outcome" where
  "CALLBACK_DATA e d c s k = CALLBACK_DATA_at e d c (pos s) (pos s + 1) s k"

definition CALLBACK_DATA_NOADVANCE :: "'d env \<Rightarrow> byte list \<Rightarrow> cb_data \<Rightarrow> 'd loc \<Rightarrow> ('d loc \<Rightarrow> 'd outcome) \<Rightarrow> 'd outcome" where
  "CALLBACK_DATA_NOADVANCE e d c s k = CALLBACK_DATA_at e d c (pos s) (pos s) s k"

section \<open>End of a message\<close>

definition http_message_needs_eof :: "'d hp \<Rightarrow> bool" where
  "http_message_needs_eof q \<longleftrightarrow>
     (if ptype q = HTTP_REQUEST then False
      else if pstatus_code q div 100 = 1 \<or> pstatus_code q = 204 \<or> pstatus_code q = 304 \<or> flag F_SKIPBODY q then False
      else if flag F_CHUNKED q \<or> content_length q \<noteq> ULLONG_MAX then False
      else True)"

definition http_should_keep_alive :: "'d hp \<Rightarrow> bool" where
  "http_should_keep_alive q \<longleftrightarrow>
     (if http_major q > 0 \<and> http_minor q > 0
      then \<not> flag F_CONNECTION_CLOSE q \<and> \<not> http_message_needs_eof q
      else flag F_CONNECTION_KEEP_ALIVE q \<and> \<not> http_message_needs_eof q)"

definition start_state :: "'d hp \<Rightarrow> state" where
  "start_state q = (if ptype q = HTTP_REQUEST then s_start_req else s_start_res)"

definition NEW_MESSAGE :: "'d env \<Rightarrow> 'd hp \<Rightarrow> state" where
  "NEW_MESSAGE e q = (if strict e \<longrightarrow> http_should_keep_alive q then start_state q else s_dead)"

section \<open>Start line\<close>

definition is_eol :: "byte \<Rightarrow> bool" where
  "is_eol ch \<longleftrightarrow> ch = ch_CR \<or> ch = ch_LF"

definition on_dead :: "byte \<Rightarrow> 'd loc \<Rightarrow> 'd outcome" where
  "on_dead ch s = (if is_eol ch then Break s else goto_error HPE_CLOSED_CONNECTION s)"

definition clear_message :: "'d hp \<Rightarrow> 'd hp" where
  "clear_message q = q\<lparr>flags := 0, content_length := ULLONG_MAX\<rparr>"

definition on_start_req_or_res :: "'d env \<Rightarrow> byte \<Rightarrow> 'd loc \<Rightarrow> 'd outcome" where
  "on_start_req_or_res e ch s =
     (if is_eol ch then Break s
      else let s = set_parser clear_message s
           in if ch = ch_of CHR ''H''
              then CALLBACK_NOTIFY e message_begin (UPDATE_STATE s_res_or_resp_H s) Break
              else Reexecute ch (UPDATE_STATE s_start_req (set_parser (\<lambda>q. q\<lparr>ptype := HTTP_REQUEST\<rparr>) s)))"

definition on_res_or_resp_H :: "byte \<Rightarrow> 'd loc \<Rightarrow> 'd outcome" where
  "on_res_or_resp_H ch s =
     (if ch = ch_of CHR ''T''
      then Break (UPDATE_STATE s_res_HT (set_parser (\<lambda>q. q\<lparr>ptype := HTTP_RESPONSE\<rparr>) s))
      else if ch \<noteq> ch_of CHR ''E'' then goto_error HPE_INVALID_CONSTANT s
      else Break (UPDATE_STATE s_req_method
             (set_parser (\<lambda>q. q\<lparr>ptype := HTTP_REQUEST, pmethod := HTTP_HEAD, index := 2\<rparr>) s)))"

definition on_start_res :: "'d env \<Rightarrow> byte \<Rightarrow> 'd loc \<Rightarrow> 'd outcome" where
  "on_start_res e ch s =
     (if is_eol ch then Break s
      else let s = set_parser clear_message s
           in if ch = ch_of CHR ''H''
              then CALLBACK_NOTIFY e message_begin (UPDATE_STATE s_res_H s) Break
              else goto_error HPE_INVALID_CONSTANT s)"

text \<open>The labels that expect one fixed character: \<open>s_res_H\<close>, \<open>s_res_HT\<close>, \<open>s_req_http_H\<close> and so on.\<close>

definition on_fixed :: "'d env \<Rightarrow> byte \<Rightarrow> state \<Rightarrow> byte \<Rightarrow> 'd loc \<Rightarrow> 'd outcome" where
  "on_fixed e want st ch s = STRICT_CHECK e (ch \<noteq> want) s (Break (UPDATE_STATE st s))"

definition on_http_major :: "state \<Rightarrow> byte \<Rightarrow> 'd loc \<Rightarrow> 'd outcome" where
  "on_http_major st ch s =
     (if \<not> IS_NUM ch then goto_error HPE_INVALID_VERSION s
      else Break (UPDATE_STATE st (set_parser (\<lambda>q. q\<lparr>http_major := digit_val ch\<rparr>) s)))"

definition on_http_dot :: "state \<Rightarrow> byte \<Rightarrow> 'd loc \<Rightarrow> 'd outcome" where
  "on_http_dot st ch s =
     (if ch \<noteq> ch_of CHR ''.'' then goto_error HPE_INVALID_VERSION s else Break (UPDATE_STATE st s))"

definition on_http_minor :: "state \<Rightarrow> byte \<Rightarrow> 'd loc \<Rightarrow> 'd outcome" where
  "on_http_minor st ch s =
     (if \<not> IS_NUM ch then goto_error HPE_INVALID_VERSION s
      else Break (UPDATE_STATE st (set_parser (\<lambda>q. q\<lparr>http_minor := digit_val ch\<rparr>) s)))"

definition on_res_http_end :: "byte \<Rightarrow> 'd loc \<Rightarrow> 'd outcome" where
  "on_res_http_end ch s =
     (if ch \<noteq> ch_SP then goto_error HPE_INVALID_VERSION s else Break (UPDATE_STATE s_res_first_status_code s))"

definition on_res_first_status_code :: "byte \<Rightarrow> 'd loc \<Rightarrow> 'd outcome" where
  "on_res_first_status_code ch s =
     (if \<not> IS_NUM ch then (if ch = ch_SP then Break s else goto_error HPE_INVALID_STATUS s)
      else Break (UPDATE_STATE s_res_status_code (set_parser (\<lambda>q. q\<lparr>pstatus_code := digit_val ch\<rparr>) s)))"

definition on_res_status_code :: "byte \<Rightarrow> 'd loc \<Rightarrow> 'd outcome" where
  "on_res_status_code ch s =
     (if \<not> IS_NUM ch
      then if ch = ch_SP then Break (UPDATE_STATE s_res_status_start s)
           else if is_eol ch then Reexecute ch (UPDATE_STATE s_res_status_start s)
           else goto_error HPE_INVALID_STATUS s
      else let s = set_parser (\<lambda>q. q\<lparr>pstatus_code := pstatus_code q * 10 + digit_val ch\<rparr>) s
           in if pstatus_code (parser s) > 999 then goto_error HPE_INVALID_STATUS s else Break s)"

definition on_res_status_start :: "byte \<Rightarrow> 'd loc \<Rightarrow> 'd outcome" where
  "on_res_status_start ch s =
     (let s = set_parser (\<lambda>q. q\<lparr>index := 0\<rparr>) (UPDATE_STATE s_res_status (MARK status s))
      in if is_eol ch then Reexecute ch s else Break s)"

definition on_res_status :: "'d env \<Rightarrow> byte list \<Rightarrow> byte \<Rightarrow> 'd loc \<Rightarrow> 'd outcome" where
  "on_res_status e d ch s =
     (if ch = ch_CR then CALLBACK_DATA e d status (UPDATE_STATE s_res_line_almost_done s) Break
      else if ch = ch_LF then CALLBACK_DATA e d status (UPDATE_STATE s_header_field_start s) Break
      else Break s)"

definition first_method :: "byte \<Rightarrow> http_method option" where
  "first_method ch = map_of (zip (map of_char ''ABCDGHLMNOPRSTU'')
     [HTTP_ACL, HTTP_BIND, HTTP_CONNECT, HTTP_DELETE, HTTP_GET, HTTP_HEAD, HTTP_LOCK, HTTP_MKCOL, HTTP_NOTIFY, HTTP_OPTIONS,
      HTTP_POST, HTTP_REPORT, HTTP_SUBSCRIBE, HTTP_TRACE, HTTP_UNLOCK]) ch"

definition on_start_req :: "'d env \<Rightarrow> byte \<Rightarrow> 'd loc \<Rightarrow> 'd outcome" where
  "on_start_req e ch s =
     (if is_eol ch then Break s
      else let s = set_parser clear_message s
           in if \<not> IS_ALPHA ch then goto_error HPE_INVALID_METHOD s
              else case first_method ch of
                None \<Rightarrow> goto_error HPE_INVALID_METHOD (set_parser (\<lambda>q. q\<lparr>pmethod := HTTP_DELETE, index := 1\<rparr>) s)
              | Some m \<Rightarrow>
                  CALLBACK_NOTIFY e message_begin
                    (UPDATE_STATE s_req_method (set_parser (\<lambda>q. q\<lparr>pmethod := m, index := 1\<rparr>) s)) Break)"

definition other_methods :: "((http_method \<times> nat \<times> char) \<times> http_method) list" where
  "other_methods =
     [((HTTP_POST, 1, CHR ''U''), HTTP_PUT), ((HTTP_POST, 1, CHR ''A''), HTTP_PATCH),
      ((HTTP_POST, 1, CHR ''R''), HTTP_PROPFIND), ((HTTP_PUT, 2, CHR ''R''), HTTP_PURGE),
      ((HTTP_CONNECT, 1, CHR ''H''), HTTP_CHECKOUT), ((HTTP_CONNECT, 2, CHR ''P''), HTTP_COPY),
      ((HTTP_MKCOL, 1, CHR ''O''), HTTP_MOVE), ((HTTP_MKCOL, 1, CHR ''E''), HTTP_MERGE),
      ((HTTP_MKCOL, 1, CHR ''-''), HTTP_MSEARCH), ((HTTP_MKCOL, 2, CHR ''A''), HTTP_MKACTIVITY),
      ((HTTP_MKCOL, 3, CHR ''A''), HTTP_MKCALENDAR), ((HTTP_SUBSCRIBE, 1, CHR ''E''), HTTP_SEARCH),
      ((HTTP_SUBSCRIBE, 1, CHR ''O''), HTTP_SOURCE), ((HTTP_REPORT, 2, CHR ''B''), HTTP_REBIND),
      ((HTTP_PROPFIND, 4, CHR ''P''), HTTP_PROPPATCH), ((HTTP_LOCK, 1, CHR ''I''), HTTP_LINK),
      ((HTTP_UNLOCK, 2, CHR ''S''), HTTP_UNSUBSCRIBE), ((HTTP_UNLOCK, 2, CHR ''B''), HTTP_UNBIND),
      ((HTTP_UNLOCK, 3, CHR ''I''), HTTP_UNLINK)]"

definition other_method :: "http_method \<Rightarrow> nat \<Rightarrow> byte \<Rightarrow> http_method option" where
  "other_method m i ch = map_of (map (\<lambda>((m, i, c), m'). ((m, i, ch_of c), m')) other_methods) (m, i, ch)"

definition on_req_method :: "byte \<Rightarrow> 'd loc \<Rightarrow> 'd outcome" where
  "on_req_method ch s =
     (if ch = 0 then goto_error HPE_INVALID_METHOD s
      else let q = parser s; matcher = method_strings (pmethod q) @ [0]
           in if index q \<ge> length matcher then Abort
              else if ch = ch_SP \<and> matcher ! index q = 0
              then Break (set_parser index_inc (UPDATE_STATE s_req_spaces_before_url s))
              else if ch = matcher ! index q then Break (set_parser index_inc s)
              else if ch \<ge> ch_of CHR ''A'' \<and> ch \<le> ch_of CHR ''Z'' \<or> ch = ch_of CHR ''-''
              then case other_method (pmethod q) (index q) ch of
                     None \<Rightarrow> goto_error HPE_INVALID_METHOD s
                   | Some m \<Rightarrow> Break (set_parser (\<lambda>q. index_inc (q\<lparr>pmethod := m\<rparr>)) s)
              else goto_error HPE_INVALID_METHOD s)"

definition url_char :: "'d env \<Rightarrow> byte \<Rightarrow> 'd loc \<Rightarrow> 'd outcome" where
  "url_char e ch s =
     (let s = UPDATE_STATE (parse_url_char (strict e) (p_state s) ch) s
      in if p_state s = s_dead then goto_error HPE_INVALID_URL s else Break s)"

definition on_req_spaces_before_url :: "'d env \<Rightarrow> byte \<Rightarrow> 'd loc \<Rightarrow> 'd outcome" where
  "on_req_spaces_before_url e ch s =
     (if ch = ch_SP then Break s
      else let s = MARK url s
           in url_char e ch (if pmethod (parser s) = HTTP_CONNECT then UPDATE_STATE s_req_server_start s else s))"

definition on_req_schema :: "'d env \<Rightarrow> byte \<Rightarrow> 'd loc \<Rightarrow> 'd outcome" where
  "on_req_schema e ch s = (if ch = ch_SP \<or> is_eol ch then goto_error HPE_INVALID_URL s else url_char e ch s)"

definition on_req_server :: "'d env \<Rightarrow> byte list \<Rightarrow> byte \<Rightarrow> 'd loc \<Rightarrow> 'd outcome" where
  "on_req_server e d ch s =
     (if ch = ch_SP then CALLBACK_DATA e d url (UPDATE_STATE s_req_http_start s) Break
      else if is_eol ch
      then CALLBACK_DATA e d url
             (UPDATE_STATE (if ch = ch_CR then s_req_line_almost_done else s_header_field_start)
               (set_parser (\<lambda>q. q\<lparr>http_major := 0, http_minor := 9\<rparr>) s)) Break
      else url_char e ch s)"

definition on_req_http_start :: "byte \<Rightarrow> 'd loc \<Rightarrow> 'd outcome" where
  "on_req_http_start ch s =
     (if ch = ch_SP then Break s
      else if ch = ch_of CHR ''H'' then Break (UPDATE_STATE s_req_http_H s)
      else if ch = ch_of CHR ''I'' \<and> pmethod (parser s) = HTTP_SOURCE then Break (UPDATE_STATE s_req_http_I s)
      else goto_error HPE_INVALID_CONSTANT s)"

definition on_req_http_end :: "byte \<Rightarrow> 'd loc \<Rightarrow> 'd outcome" where
  "on_req_http_end ch s =
     (if ch = ch_CR then Break (UPDATE_STATE s_req_line_almost_done s)
      else if ch = ch_LF then Break (UPDATE_STATE s_header_field_start s)
      else goto_error HPE_INVALID_VERSION s)"

definition on_req_line_almost_done :: "byte \<Rightarrow> 'd loc \<Rightarrow> 'd outcome" where
  "on_req_line_almost_done ch s =
     (if ch \<noteq> ch_LF then goto_error HPE_LF_EXPECTED s else Break (UPDATE_STATE s_header_field_start s))"

section \<open>Header fields\<close>

definition CONNECTION :: "byte list" where "CONNECTION = map of_char ''connection''"
definition PROXY_CONNECTION :: "byte list" where "PROXY_CONNECTION = map of_char ''proxy-connection''"
definition CONTENT_LENGTH :: "byte list" where "CONTENT_LENGTH = map of_char ''content-length''"
definition TRANSFER_ENCODING :: "byte list" where "TRANSFER_ENCODING = map of_char ''transfer-encoding''"
definition UPGRADE :: "byte list" where "UPGRADE = map of_char ''upgrade''"
definition CHUNKED :: "byte list" where "CHUNKED = map of_char ''chunked''"
definition KEEP_ALIVE :: "byte list" where "KEEP_ALIVE = map of_char ''keep-alive''"
definition CLOSE :: "byte list" where "CLOSE = map of_char ''close''"

definition on_header_field_start :: "'d env \<Rightarrow> byte \<Rightarrow> 'd loc \<Rightarrow> 'd outcome" where
  "on_header_field_start e ch s =
     (if ch = ch_CR then Break (UPDATE_STATE s_headers_almost_done s)
      else if ch = ch_LF then Reexecute ch (UPDATE_STATE s_headers_almost_done s)
      else let c = TOKEN e ch
           in if c = 0 then goto_error HPE_INVALID_HEADER_TOKEN s
              else Break (set_parser (\<lambda>q. q\<lparr>index := 0, header_state :=
                       (if c = ch_of CHR ''c'' then h_C
                        else if c = ch_of CHR ''p'' then h_matching_proxy_connection
                        else if c = ch_of CHR ''t'' then h_matching_transfer_encoding
                        else if c = ch_of CHR ''u'' then h_matching_upgrade
                        else h_general)\<rparr>)
                     (UPDATE_STATE s_header_field (MARK header_field s))))"

text \<open>One more character of a name or token that is being compared with \<open>lit\<close>: the next state is \<open>no\<close> on a mismatch
  and \<open>yes\<close> at the last character.\<close>

definition match_next :: "byte list \<Rightarrow> byte \<Rightarrow> nat \<Rightarrow> header_states \<Rightarrow> header_states \<Rightarrow> header_states \<Rightarrow> header_states" where
  "match_next lit c i cur yes no =
     (if i > length lit \<or> c \<noteq> (lit @ [0]) ! i then no else if i = length lit - 1 then yes else cur)"

definition match_field :: "byte list \<Rightarrow> byte \<Rightarrow> header_states \<Rightarrow> 'd hp \<Rightarrow> 'd hp" where
  "match_field lit c yes q =
     (let q = index_inc q in q\<lparr>header_state := match_next lit c (index q) (header_state q) yes h_general\<rparr>)"

text \<open>The inner \<open>switch\<close> of \<open>s_header_field\<close> for one character \<open>ch\<close> with the token \<open>c\<close>, but for \<open>h_general\<close>.\<close>

definition hf_char :: "byte \<Rightarrow> byte \<Rightarrow> 'd hp \<Rightarrow> 'd hp option" where
  "hf_char ch c q =
     (case header_state q of
        h_C \<Rightarrow> Some ((index_inc q)\<lparr>header_state := (if c = ch_of CHR ''o'' then h_CO else h_general)\<rparr>)
      | h_CO \<Rightarrow> Some ((index_inc q)\<lparr>header_state := (if c = ch_of CHR ''n'' then h_CON else h_general)\<rparr>)
      | h_CON \<Rightarrow> Some ((index_inc q)\<lparr>header_state :=
          (if c = ch_of CHR ''n'' then h_matching_connection
           else if c = ch_of CHR ''t'' then h_matching_content_length else h_general)\<rparr>)
      | h_matching_connection \<Rightarrow> Some (match_field CONNECTION c h_connection q)
      | h_matching_proxy_connection \<Rightarrow> Some (match_field PROXY_CONNECTION c h_connection q)
      | h_matching_content_length \<Rightarrow> Some (match_field CONTENT_LENGTH c h_content_length q)
      | h_matching_transfer_encoding \<Rightarrow> Some (match_field TRANSFER_ENCODING c h_transfer_encoding q)
      | h_matching_upgrade \<Rightarrow> Some (match_field UPGRADE c h_upgrade q)
      | h_connection \<Rightarrow> Some (if ch \<noteq> ch_SP then q\<lparr>header_state := h_general\<rparr> else q)
      | h_content_length \<Rightarrow> Some (if ch \<noteq> ch_SP then q\<lparr>header_state := h_general\<rparr> else q)
      | h_transfer_encoding \<Rightarrow> Some (if ch \<noteq> ch_SP then q\<lparr>header_state := h_general\<rparr> else q)
      | h_upgrade \<Rightarrow> Some (if ch \<noteq> ch_SP then q\<lparr>header_state := h_general\<rparr> else q)
      | _ \<Rightarrow> None)"

text \<open>The loop of \<open>s_header_field\<close> over the rest of the piece: the number of characters it passes.  In \<open>h_general\<close>
  an inner loop passes all the token characters that follow, at most \<open>max_header_size\<close> of them.\<close>

fun hf_scan :: "'d env \<Rightarrow> byte list \<Rightarrow> 'd hp \<Rightarrow> nat \<Rightarrow> ('d hp \<times> nat) option" where
  "hf_scan e [] q n = Some (q, n)"
| "hf_scan e (ch # r) q n =
     (if TOKEN e ch = 0 then Some (q, n)
      else if header_state q = h_general
      then let k = length (takeWhile (\<lambda>c. TOKEN e c \<noteq> 0) (take (min (Suc (length r)) (unat (max_header_size e)) - 1) r))
           in hf_scan e (drop k r) q (n + k + 1)
      else case hf_char ch (TOKEN e ch) q of None \<Rightarrow> None | Some q \<Rightarrow> hf_scan e r q (n + 1))"

definition on_header_field :: "'d env \<Rightarrow> byte list \<Rightarrow> 'd loc \<Rightarrow> 'd outcome" where
  "on_header_field e d s =
     (let start = pos s
      in case hf_scan e (drop start d) (parser s) 0 of
           None \<Rightarrow> Abort
         | Some (q, n) \<Rightarrow>
             let s = s\<lparr>parser := q, pos := start + n\<rparr>
             in if pos s = length d
                then let s = s\<lparr>pos := pos s - 1\<rparr> in COUNT_HEADER_SIZE e (pos s - start) s Break
                else COUNT_HEADER_SIZE e n s
                       (\<lambda>s. if d ! pos s = ch_of CHR '':''
                            then CALLBACK_DATA e d header_field (UPDATE_STATE s_header_value_discard_ws s) Break
                            else goto_error HPE_INVALID_HEADER_TOKEN s))"

section \<open>Header values\<close>

definition on_header_value_start :: "byte \<Rightarrow> 'd loc \<Rightarrow> 'd outcome" where
  "on_header_value_start ch s =
     (let s = set_parser (\<lambda>q. q\<lparr>index := 0\<rparr>) (UPDATE_STATE s_header_value (MARK header_value s));
          c = LOWER ch;
          goto = (\<lambda>h. Break (set_parser (\<lambda>q. q\<lparr>header_state := h\<rparr>) s))
      in case header_state (parser s) of
           h_upgrade \<Rightarrow> Break (set_parser (\<lambda>q. (set_flag F_UPGRADE q)\<lparr>header_state := h_general\<rparr>) s)
         | h_transfer_encoding \<Rightarrow>
             goto (if c = ch_of CHR ''c'' then h_matching_transfer_encoding_chunked else h_general)
         | h_content_length \<Rightarrow>
             if \<not> IS_NUM ch then goto_error HPE_INVALID_CONTENT_LENGTH s
             else if flag F_CONTENTLENGTH (parser s) then goto_error HPE_UNEXPECTED_CONTENT_LENGTH s
             else Break (set_parser (\<lambda>q. (set_flag F_CONTENTLENGTH q)
                    \<lparr>content_length := of_nat (digit_val ch), header_state := h_content_length_num\<rparr>) s)
         | h_content_length_ws \<Rightarrow> Break s
         | h_connection \<Rightarrow>
             goto (if c = ch_of CHR ''k'' then h_matching_connection_keep_alive
                   else if c = ch_of CHR ''c'' then h_matching_connection_close
                   else if c = ch_of CHR ''u'' then h_matching_connection_upgrade
                   else h_matching_connection_token)
         | h_matching_connection_token_start \<Rightarrow> Break s
         | _ \<Rightarrow> goto h_general)"

definition on_header_value_discard_ws :: "byte \<Rightarrow> 'd loc \<Rightarrow> 'd outcome" where
  "on_header_value_discard_ws ch s =
     (if ch = ch_SP \<or> ch = ch_HT then Break s
      else if ch = ch_CR then Break (UPDATE_STATE s_header_value_discard_ws_almost_done s)
      else if ch = ch_LF then Break (UPDATE_STATE s_header_value_discard_lws s)
      else on_header_value_start ch s)"

definition connection_flag :: "header_states \<Rightarrow> 'd hp \<Rightarrow> 'd hp" where
  "connection_flag h q =
     (case h of
        h_connection_keep_alive \<Rightarrow> set_flag F_CONNECTION_KEEP_ALIVE q
      | h_connection_close \<Rightarrow> set_flag F_CONNECTION_CLOSE q
      | h_connection_upgrade \<Rightarrow> set_flag F_CONNECTION_UPGRADE q
      | _ \<Rightarrow> q)"

text \<open>One character of the number in a \<open>Content-Length\<close>; the test for overflow comes after the multiplication.\<close>

definition length_digit :: "byte \<Rightarrow> 'd hp \<Rightarrow> (http_errno \<times> 'd hp) + (header_states \<times> 'd hp)" where
  "length_digit ch q =
     (if ch = ch_SP then Inr (h_content_length_ws, q)
      else if \<not> IS_NUM ch then Inl (HPE_INVALID_CONTENT_LENGTH, q\<lparr>header_state := h_content_length_num\<rparr>)
      else let t = content_length q * 10 + of_nat (digit_val ch)
           in if (ULLONG_MAX - 10) div 10 < content_length q
              then Inl (HPE_INVALID_CONTENT_LENGTH, q\<lparr>header_state := h_content_length_num\<rparr>)
              else Inr (h_content_length_num, q\<lparr>content_length := t\<rparr>))"

definition match_value ::
  "byte list \<Rightarrow> byte \<Rightarrow> header_states \<Rightarrow> header_states \<Rightarrow> header_states \<Rightarrow> 'd hp \<Rightarrow> header_states \<times> 'd hp" where
  "match_value lit c h yes no q = (let q = index_inc q in (match_next lit c (index q) h yes no, q))"

definition after_token :: "byte \<Rightarrow> header_states \<Rightarrow> 'd hp \<Rightarrow> header_states \<times> 'd hp" where
  "after_token ch h q =
     (if ch = ch_of CHR '','' then (h_matching_connection_token_start, (connection_flag h q)\<lparr>index := 0\<rparr>)
      else if ch \<noteq> ch_SP then (h_matching_connection_token, q)
      else (h, q))"

text \<open>The inner \<open>switch\<close> of \<open>s_header_value\<close> on \<open>h_state\<close> for one character, but for \<open>h_general\<close>; \<open>None\<close> is the failing assertion.\<close>

definition hv_char :: "byte \<Rightarrow> header_states \<Rightarrow> 'd hp \<Rightarrow> ((http_errno \<times> 'd hp) + (header_states \<times> 'd hp)) option" where
  "hv_char ch h q =
     (let c = LOWER ch
      in case h of
        h_connection \<Rightarrow> None
      | h_transfer_encoding \<Rightarrow> None
      | h_content_length \<Rightarrow> Some (if ch = ch_SP then Inr (h, q) else length_digit ch q)
      | h_content_length_num \<Rightarrow> Some (length_digit ch q)
      | h_content_length_ws \<Rightarrow>
          Some (if ch = ch_SP then Inr (h, q) else Inl (HPE_INVALID_CONTENT_LENGTH, q\<lparr>header_state := h\<rparr>))
      | h_matching_transfer_encoding_chunked \<Rightarrow>
          Some (Inr (match_value CHUNKED c h h_transfer_encoding_chunked h_general q))
      | h_matching_connection_token_start \<Rightarrow>
          Some (Inr (if c = ch_of CHR ''k'' then h_matching_connection_keep_alive
                     else if c = ch_of CHR ''c'' then h_matching_connection_close
                     else if c = ch_of CHR ''u'' then h_matching_connection_upgrade
                     else if STRICT_TOKEN c \<noteq> 0 then h_matching_connection_token
                     else if c = ch_SP \<or> c = ch_HT then h
                     else h_general, q))
      | h_matching_connection_keep_alive \<Rightarrow>
          Some (Inr (match_value KEEP_ALIVE c h h_connection_keep_alive h_matching_connection_token q))
      | h_matching_connection_close \<Rightarrow>
          Some (Inr (match_value CLOSE c h h_connection_close h_matching_connection_token q))
      | h_matching_connection_upgrade \<Rightarrow>
          Some (Inr (match_value UPGRADE c h h_connection_upgrade h_matching_connection_token q))
      | h_matching_connection_token \<Rightarrow>
          Some (Inr (if ch = ch_of CHR '','' then (h_matching_connection_token_start, q\<lparr>index := 0\<rparr>) else (h, q)))
      | h_transfer_encoding_chunked \<Rightarrow> Some (Inr (if ch \<noteq> ch_SP then h_general else h, q))
      | h_connection_keep_alive \<Rightarrow> Some (Inr (after_token ch h q))
      | h_connection_close \<Rightarrow> Some (Inr (after_token ch h q))
      | h_connection_upgrade \<Rightarrow> Some (Inr (after_token ch h q))
      | _ \<Rightarrow> Some (Inr (h_general, q)))"

text \<open>How the loop of \<open>s_header_value\<close> ends: at the end of the piece, at a carriage return or a line feed, with an error or at
  the assertion; with \<open>h_state\<close>, the parser and the offset of \<open>p\<close> from the start of the loop.\<close>

datatype 'd hv =
    HvEnd header_states "'d hp" nat
  | HvCR header_states "'d hp" nat
  | HvLF header_states "'d hp" nat
  | HvErr http_errno "'d hp" nat
  | HvAssert

definition value_ok :: "bool \<Rightarrow> byte \<Rightarrow> bool" where
  "value_ok l ch \<longleftrightarrow> l \<or> IS_HEADER_CHAR ch"

text \<open>The inner loop of \<open>h_general\<close> looks at no more than \<open>max_header_size\<close> characters; when it stops for that reason the outer
  loop goes on behind the next character.\<close>

fun hv_scan :: "bool \<Rightarrow> nat \<Rightarrow> byte list \<Rightarrow> header_states \<Rightarrow> 'd hp \<Rightarrow> nat \<Rightarrow> 'd hv" where
  "hv_scan l mx [] h q n = HvEnd h q n"
| "hv_scan l mx (ch # r) h q n =
     (if ch = ch_CR then HvCR h q n
      else if ch = ch_LF then HvLF h q n
      else if \<not> value_ok l ch then HvErr HPE_INVALID_HEADER_TOKEN q n
      else if h = h_general
      then let w = take mx (ch # r);
               k = length (takeWhile (\<lambda>c. \<not> is_eol c \<and> value_ok l c) w)
           in if k < length w
              then if is_eol (w ! k) then hv_scan l mx (drop (k - 1) r) h q (n + k)
                   else HvErr HPE_INVALID_HEADER_TOKEN q (n + k)
              else if k = Suc (length r) then HvEnd h q (n + k)
              else hv_scan l mx (drop k r) h q (n + k + 1)
      else case hv_char ch h q of
             None \<Rightarrow> HvAssert
           | Some (Inl (c, q)) \<Rightarrow> HvErr c q n
           | Some (Inr (h, q)) \<Rightarrow> hv_scan l mx r h q (n + 1))"

definition on_header_value :: "'d env \<Rightarrow> byte list \<Rightarrow> 'd loc \<Rightarrow> 'd outcome" where
  "on_header_value e d s =
     (let start = pos s;
          leave = (\<lambda>h s. set_parser (\<lambda>q. q\<lparr>header_state := h\<rparr>) s)
      in case hv_scan (lenient s) (unat (max_header_size e)) (drop start d) (header_state (parser s)) (parser s) 0 of
           HvAssert \<Rightarrow> Abort
         | HvErr c q n \<Rightarrow> goto_error c (s\<lparr>parser := q, pos := start + n\<rparr>)
         | HvEnd h q n \<Rightarrow>
             let s = leave h (s\<lparr>parser := q, pos := start + n - 1\<rparr>) in COUNT_HEADER_SIZE e (pos s - start) s Break
         | HvCR h q n \<Rightarrow>
             CALLBACK_DATA e d header_value (leave h (UPDATE_STATE s_header_almost_done (s\<lparr>parser := q, pos := start + n\<rparr>)))
               (\<lambda>s. COUNT_HEADER_SIZE e n (leave h s) Break)
         | HvLF h q n \<Rightarrow>
             COUNT_HEADER_SIZE e n (UPDATE_STATE s_header_almost_done (s\<lparr>parser := q, pos := start + n\<rparr>))
               (\<lambda>s. CALLBACK_DATA_NOADVANCE e d header_value (leave h s) (Reexecute ch_LF)))"

definition on_header_almost_done :: "byte \<Rightarrow> 'd loc \<Rightarrow> 'd outcome" where
  "on_header_almost_done ch s =
     (if ch \<noteq> ch_LF then goto_error HPE_LF_EXPECTED s else Break (UPDATE_STATE s_header_value_lws s))"

definition chunked_flag :: "header_states \<Rightarrow> 'd hp \<Rightarrow> 'd hp" where
  "chunked_flag h q = (if h = h_transfer_encoding_chunked then set_flag F_CHUNKED q else q)"

definition on_header_value_lws :: "byte \<Rightarrow> 'd loc \<Rightarrow> 'd outcome" where
  "on_header_value_lws ch s =
     (if ch = ch_SP \<or> ch = ch_HT
      then Reexecute ch (UPDATE_STATE s_header_value_start
             (set_parser (\<lambda>q. if header_state q = h_content_length_num then q\<lparr>header_state := h_content_length_ws\<rparr> else q) s))
      else Reexecute ch (UPDATE_STATE s_header_field_start
             (set_parser (\<lambda>q. chunked_flag (header_state q) (connection_flag (header_state q) q)) s)))"

definition on_header_value_discard_lws :: "'d env \<Rightarrow> byte list \<Rightarrow> byte \<Rightarrow> 'd loc \<Rightarrow> 'd outcome" where
  "on_header_value_discard_lws e d ch s =
     (if ch = ch_SP \<or> ch = ch_HT then Break (UPDATE_STATE s_header_value_discard_ws s)
      else if header_state (parser s) = h_content_length then goto_error HPE_INVALID_CONTENT_LENGTH s
      else CALLBACK_DATA_NOADVANCE e d header_value
             (UPDATE_STATE s_header_field_start (MARK header_value
               (set_parser (\<lambda>q. chunked_flag (header_state q) (connection_flag (header_state q) q)) s)))
             (Reexecute ch))"

section \<open>End of the header\<close>

definition upgrade_value :: "'d hp \<Rightarrow> bool" where
  "upgrade_value q \<longleftrightarrow>
     (if flag F_UPGRADE q \<and> flag F_CONNECTION_UPGRADE q then ptype q = HTTP_REQUEST \<or> pstatus_code q = 101
      else pmethod q = HTTP_CONNECT)"

text \<open>Unlike the other callbacks \<open>on_headers_complete\<close> does not see \<open>p_state\<close>, and its result tells whether a body follows.\<close>

definition call_headers_complete :: "'d env \<Rightarrow> 'd loc \<Rightarrow> ('d loc \<Rightarrow> 'd outcome) \<Rightarrow> 'd outcome" where
  "call_headers_complete e s k =
     (let check = (\<lambda>s. if http_errno (parser s) \<noteq> HPE_OK then RETURN (pos s) s else k s)
      in case on_notify e headers_complete of
           None \<Rightarrow> check s
         | Some f \<Rightarrow>
             let (r, q) = f (parser s)
             in if r = 0 then check (s\<lparr>parser := q\<rparr>)
                else if r = 2 then check (s\<lparr>parser := set_flag F_SKIPBODY (q\<lparr>upgrade := True\<rparr>)\<rparr>)
                else if r = 1 then check (s\<lparr>parser := set_flag F_SKIPBODY q\<rparr>)
                else RETURN (pos s) (SET_ERRNO HPE_CB_headers_complete (s\<lparr>parser := q\<rparr>)))"

definition on_headers_almost_done :: "'d env \<Rightarrow> byte \<Rightarrow> 'd loc \<Rightarrow> 'd outcome" where
  "on_headers_almost_done e ch s =
     STRICT_CHECK e (ch \<noteq> ch_LF) s
       (if flag F_TRAILING (parser s)
        then CALLBACK_NOTIFY_NOADVANCE e chunk_complete (UPDATE_STATE s_message_done s) (Reexecute ch)
        else if flag F_CHUNKED (parser s) \<and> flag F_CONTENTLENGTH (parser s)
        then goto_error HPE_UNEXPECTED_CONTENT_LENGTH s
        else call_headers_complete e
               (set_parser (\<lambda>q. q\<lparr>upgrade := upgrade_value q\<rparr>) (UPDATE_STATE s_headers_done s)) (Reexecute ch))"

definition new_message :: "'d env \<Rightarrow> 'd loc \<Rightarrow> ('d loc \<Rightarrow> 'd outcome) \<Rightarrow> 'd outcome" where
  "new_message e s k = CALLBACK_NOTIFY e message_complete (UPDATE_STATE (NEW_MESSAGE e (parser s)) s) k"

definition reset_nread :: "'d loc \<Rightarrow> 'd loc" where
  "reset_nread s = set_parser (\<lambda>q. q\<lparr>nread := 0\<rparr>) (s\<lparr>lnread := 0\<rparr>)"

definition on_headers_done :: "'d env \<Rightarrow> byte \<Rightarrow> 'd loc \<Rightarrow> 'd outcome" where
  "on_headers_done e ch s =
     STRICT_CHECK e (ch \<noteq> ch_LF) s
       (let s = reset_nread s;
            q = parser s;
            hasBody = flag F_CHUNKED q \<or> content_length q > 0 \<and> content_length q \<noteq> ULLONG_MAX
        in if upgrade q \<and> (pmethod q = HTTP_CONNECT \<or> flag F_SKIPBODY q \<or> \<not> hasBody)
           then new_message e s (\<lambda>s. RETURN (pos s + 1) s)
           else if flag F_SKIPBODY q then new_message e s Break
           else if flag F_CHUNKED q then Break (UPDATE_STATE s_chunk_size_start s)
           else if content_length q = 0 then new_message e s Break
           else if content_length q \<noteq> ULLONG_MAX then Break (UPDATE_STATE s_body_identity s)
           else if \<not> http_message_needs_eof q then new_message e s Break
           else Break (UPDATE_STATE s_body_identity_eof s))"

section \<open>Body\<close>

text \<open>\<open>s_body_identity\<close> and \<open>s_chunk_data\<close> take as much of the piece as belongs to the body; \<open>p\<close> is left on its last byte.\<close>

definition take_body :: "byte list \<Rightarrow> 'd loc \<Rightarrow> 'd loc" where
  "take_body d s =
     (let n = min (unat (content_length (parser s))) (length d - pos s)
      in (set_parser (\<lambda>q. q\<lparr>content_length := content_length q - of_nat n\<rparr>) (MARK body s))\<lparr>pos := pos s + n - 1\<rparr>)"

definition on_body_identity :: "'d env \<Rightarrow> byte list \<Rightarrow> byte \<Rightarrow> 'd loc \<Rightarrow> 'd outcome" where
  "on_body_identity e d ch s =
     (if content_length (parser s) = 0 \<or> content_length (parser s) = ULLONG_MAX then Abort
      else let s = take_body d s
           in if content_length (parser s) = 0
              then CALLBACK_DATA_at e d body (pos s + 1) (pos s) (UPDATE_STATE s_message_done s) (Reexecute ch)
              else Break s)"

definition on_body_identity_eof :: "byte list \<Rightarrow> 'd loc \<Rightarrow> 'd outcome" where
  "on_body_identity_eof d s = Break ((MARK body s)\<lparr>pos := length d - 1\<rparr>)"

definition on_message_done :: "'d env \<Rightarrow> 'd loc \<Rightarrow> 'd outcome" where
  "on_message_done e s = new_message e s (\<lambda>s. if upgrade (parser s) then RETURN (pos s + 1) s else Break s)"

definition on_chunk_size_start :: "byte \<Rightarrow> 'd loc \<Rightarrow> 'd outcome" where
  "on_chunk_size_start ch s =
     (if lnread s \<noteq> 1 \<or> \<not> flag F_CHUNKED (parser s) then Abort
      else let v = unhex ! unat ch
           in if v = -1 then goto_error HPE_INVALID_CHUNK_SIZE s
              else Break (UPDATE_STATE s_chunk_size (set_parser (\<lambda>q. q\<lparr>content_length := of_int v\<rparr>) s)))"

definition on_chunk_size :: "byte \<Rightarrow> 'd loc \<Rightarrow> 'd outcome" where
  "on_chunk_size ch s =
     (if \<not> flag F_CHUNKED (parser s) then Abort
      else if ch = ch_CR then Break (UPDATE_STATE s_chunk_size_almost_done s)
      else let v = unhex ! unat ch
           in if v = -1
              then if ch = ch_of CHR '';'' \<or> ch = ch_SP then Break (UPDATE_STATE s_chunk_parameters s)
                   else goto_error HPE_INVALID_CHUNK_SIZE s
              else let t = content_length (parser s) * 16 + of_int v
                   in if (ULLONG_MAX - 16) div 16 < content_length (parser s) then goto_error HPE_INVALID_CONTENT_LENGTH s
                      else Break (set_parser (\<lambda>q. q\<lparr>content_length := t\<rparr>) s))"

definition on_chunk_parameters :: "byte \<Rightarrow> 'd loc \<Rightarrow> 'd outcome" where
  "on_chunk_parameters ch s =
     (if \<not> flag F_CHUNKED (parser s) then Abort
      else if ch = ch_CR then Break (UPDATE_STATE s_chunk_size_almost_done s)
      else Break s)"

definition on_chunk_size_almost_done :: "'d env \<Rightarrow> byte \<Rightarrow> 'd loc \<Rightarrow> 'd outcome" where
  "on_chunk_size_almost_done e ch s =
     (if \<not> flag F_CHUNKED (parser s) then Abort
      else STRICT_CHECK e (ch \<noteq> ch_LF) s
        (let s = reset_nread s;
             s = (if content_length (parser s) = 0
                  then UPDATE_STATE s_header_field_start (set_parser (set_flag F_TRAILING) s)
                  else UPDATE_STATE s_chunk_data s)
         in CALLBACK_NOTIFY e chunk_header s Break))"

definition on_chunk_data :: "byte list \<Rightarrow> 'd loc \<Rightarrow> 'd outcome" where
  "on_chunk_data d s =
     (if \<not> flag F_CHUNKED (parser s) \<or> content_length (parser s) = 0 \<or> content_length (parser s) = ULLONG_MAX then Abort
      else let s = take_body d s
           in Break (if content_length (parser s) = 0 then UPDATE_STATE s_chunk_data_almost_done s else s))"

definition on_chunk_data_almost_done :: "'d env \<Rightarrow> byte list \<Rightarrow> byte \<Rightarrow> 'd loc \<Rightarrow> 'd outcome" where
  "on_chunk_data_almost_done e d ch s =
     (if \<not> flag F_CHUNKED (parser s) \<or> content_length (parser s) \<noteq> 0 then Abort
      else STRICT_CHECK e (ch \<noteq> ch_CR) s (CALLBACK_DATA e d body (UPDATE_STATE s_chunk_data_done s) Break))"

definition on_chunk_data_done :: "'d env \<Rightarrow> byte \<Rightarrow> 'd loc \<Rightarrow> 'd outcome" where
  "on_chunk_data_done e ch s =
     (if \<not> flag F_CHUNKED (parser s) then Abort
      else STRICT_CHECK e (ch \<noteq> ch_LF) s
        (CALLBACK_NOTIFY e chunk_complete (UPDATE_STATE s_chunk_size_start (reset_nread s)) Break))"

section \<open>The parser\<close>

definition exec_switch :: "'d env \<Rightarrow> byte list \<Rightarrow> byte \<Rightarrow> 'd loc \<Rightarrow> 'd outcome" where
  "exec_switch e d ch s =
     (case p_state s of
        s_dead \<Rightarrow> on_dead ch s
      | s_start_req_or_res \<Rightarrow> on_start_req_or_res e ch s
      | s_res_or_resp_H \<Rightarrow> on_res_or_resp_H ch s
      | s_start_res \<Rightarrow> on_start_res e ch s
      | s_res_H \<Rightarrow> on_fixed e (ch_of CHR ''T'') s_res_HT ch s
      | s_res_HT \<Rightarrow> on_fixed e (ch_of CHR ''T'') s_res_HTT ch s
      | s_res_HTT \<Rightarrow> on_fixed e (ch_of CHR ''P'') s_res_HTTP ch s
      | s_res_HTTP \<Rightarrow> on_fixed e (ch_of CHR ''/'') s_res_http_major ch s
      | s_res_http_major \<Rightarrow> on_http_major s_res_http_dot ch s
      | s_res_http_dot \<Rightarrow> on_http_dot s_res_http_minor ch s
      | s_res_http_minor \<Rightarrow> on_http_minor s_res_http_end ch s
      | s_res_http_end \<Rightarrow> on_res_http_end ch s
      | s_res_first_status_code \<Rightarrow> on_res_first_status_code ch s
      | s_res_status_code \<Rightarrow> on_res_status_code ch s
      | s_res_status_start \<Rightarrow> on_res_status_start ch s
      | s_res_status \<Rightarrow> on_res_status e d ch s
      | s_res_line_almost_done \<Rightarrow> on_fixed e ch_LF s_header_field_start ch s
      | s_start_req \<Rightarrow> on_start_req e ch s
      | s_req_method \<Rightarrow> on_req_method ch s
      | s_req_spaces_before_url \<Rightarrow> on_req_spaces_before_url e ch s
      | s_req_schema \<Rightarrow> on_req_schema e ch s
      | s_req_schema_slash \<Rightarrow> on_req_schema e ch s
      | s_req_schema_slash_slash \<Rightarrow> on_req_schema e ch s
      | s_req_server_start \<Rightarrow> on_req_schema e ch s
      | s_req_server \<Rightarrow> on_req_server e d ch s
      | s_req_server_with_at \<Rightarrow> on_req_server e d ch s
      | s_req_path \<Rightarrow> on_req_server e d ch s
      | s_req_query_string_start \<Rightarrow> on_req_server e d ch s
      | s_req_query_string \<Rightarrow> on_req_server e d ch s
      | s_req_fragment_start \<Rightarrow> on_req_server e d ch s
      | s_req_fragment \<Rightarrow> on_req_server e d ch s
      | s_req_http_start \<Rightarrow> on_req_http_start ch s
      | s_req_http_H \<Rightarrow> on_fixed e (ch_of CHR ''T'') s_req_http_HT ch s
      | s_req_http_HT \<Rightarrow> on_fixed e (ch_of CHR ''T'') s_req_http_HTT ch s
      | s_req_http_HTT \<Rightarrow> on_fixed e (ch_of CHR ''P'') s_req_http_HTTP ch s
      | s_req_http_I \<Rightarrow> on_fixed e (ch_of CHR ''C'') s_req_http_IC ch s
      | s_req_http_IC \<Rightarrow> on_fixed e (ch_of CHR ''E'') s_req_http_HTTP ch s
      | s_req_http_HTTP \<Rightarrow> on_fixed e (ch_of CHR ''/'') s_req_http_major ch s
      | s_req_http_major \<Rightarrow> on_http_major s_req_http_dot ch s
      | s_req_http_dot \<Rightarrow> on_http_dot s_req_http_minor ch s
      | s_req_http_minor \<Rightarrow> on_http_minor s_req_http_end ch s
      | s_req_http_end \<Rightarrow> on_req_http_end ch s
      | s_req_line_almost_done \<Rightarrow> on_req_line_almost_done ch s
      | s_header_field_start \<Rightarrow> on_header_field_start e ch s
      | s_header_field \<Rightarrow> on_header_field e d s
      | s_header_value_discard_ws \<Rightarrow> on_header_value_discard_ws ch s
      | s_header_value_start \<Rightarrow> on_header_value_start ch s
      | s_header_value \<Rightarrow> on_header_value e d s
      | s_header_almost_done \<Rightarrow> on_header_almost_done ch s
      | s_header_value_lws \<Rightarrow> on_header_value_lws ch s
      | s_header_value_discard_ws_almost_done \<Rightarrow> on_fixed e ch_LF s_header_value_discard_lws ch s
      | s_header_value_discard_lws \<Rightarrow> on_header_value_discard_lws e d ch s
      | s_headers_almost_done \<Rightarrow> on_headers_almost_done e ch s
      | s_headers_done \<Rightarrow> on_headers_done e ch s
      | s_body_identity \<Rightarrow> on_body_identity e d ch s
      | s_body_identity_eof \<Rightarrow> on_body_identity_eof d s
      | s_message_done \<Rightarrow> on_message_done e s
      | s_chunk_size_start \<Rightarrow> on_chunk_size_start ch s
      | s_chunk_size \<Rightarrow> on_chunk_size ch s
      | s_chunk_parameters \<Rightarrow> on_chunk_parameters ch s
      | s_chunk_size_almost_done \<Rightarrow> on_chunk_size_almost_done e ch s
      | s_chunk_data \<Rightarrow> on_chunk_data d s
      | s_chunk_data_almost_done \<Rightarrow> on_chunk_data_almost_done e d ch s
      | s_chunk_data_done \<Rightarrow> on_chunk_data_done e ch s)"

fun reexecute :: "nat \<Rightarrow> 'd env \<Rightarrow> byte list \<Rightarrow> byte \<Rightarrow> 'd loc \<Rightarrow> 'd outcome" where
  "reexecute 0 e d ch s = OutOfFuel"
| "reexecute (Suc n) e d ch s = (case exec_switch e d ch s of Reexecute ch s \<Rightarrow> reexecute n e d ch s | out \<Rightarrow> out)"

definition PARSING_HEADER :: "state \<Rightarrow> bool" where
  "PARSING_HEADER st \<longleftrightarrow>
     (case st of s_chunk_data \<Rightarrow> False | s_chunk_data_almost_done \<Rightarrow> False | s_chunk_data_done \<Rightarrow> False
      | s_body_identity \<Rightarrow> False | s_body_identity_eof \<Rightarrow> False | s_message_done \<Rightarrow> False | _ \<Rightarrow> True)"

text \<open>One round of the loop, without the increment of \<open>p\<close>.\<close>

definition exec_byte :: "'d env \<Rightarrow> byte list \<Rightarrow> 'd loc \<Rightarrow> 'd outcome" where
  "exec_byte e d s =
     (let ch = d ! pos s
      in if PARSING_HEADER (p_state s) then COUNT_HEADER_SIZE e 1 s (reexecute 8 e d ch) else reexecute 8 e d ch s)"

text \<open>Behind the loop the data of the one mark that may be left are handed over.\<close>

definition leftover :: "'d env \<Rightarrow> byte list \<Rightarrow> 'd loc \<Rightarrow> 'd outcome" where
  "leftover e d s =
     (if length (filter (\<lambda>c. marks s c \<noteq> None) [header_field, header_value, url, body, status]) > 1 then Abort
      else CALLBACK_DATA_NOADVANCE e d header_field s (\<lambda>s.
           CALLBACK_DATA_NOADVANCE e d header_value s (\<lambda>s.
           CALLBACK_DATA_NOADVANCE e d url s (\<lambda>s.
           CALLBACK_DATA_NOADVANCE e d body s (\<lambda>s.
           CALLBACK_DATA_NOADVANCE e d status s (RETURN (length d)))))))"

definition error_exit :: "'d loc \<Rightarrow> 'd outcome" where
  "error_exit s =
     RETURN (pos s) (if http_errno (parser s) = HPE_OK then SET_ERRNO HPE_UNKNOWN s else s)"

text \<open>Every round moves \<open>p\<close> by at least one, so a fuel of the length of the piece is enough.\<close>

fun exec_loop :: "nat \<Rightarrow> 'd env \<Rightarrow> byte list \<Rightarrow> 'd loc \<Rightarrow> 'd outcome" where
  "exec_loop n e d s =
     (if pos s = length d then leftover e d s
      else if pos s > length d then Abort
      else case n of
        0 \<Rightarrow> OutOfFuel
      | Suc n \<Rightarrow>
          (case exec_byte e d s of
             Break s \<Rightarrow> exec_loop n e d (s\<lparr>pos := pos s + 1\<rparr>)
           | Error s \<Rightarrow> error_exit s
           | out \<Rightarrow> out))"

declare exec_loop.simps [simp del]

text \<open>The marks at the start of a piece: the text that the state is in the middle of.\<close>

definition initial_marks :: "state \<Rightarrow> cb_data \<Rightarrow> nat option" where
  "initial_marks st c =
     (if (case c of
            header_field \<Rightarrow> st = s_header_field
          | header_value \<Rightarrow> st = s_header_value
          | url \<Rightarrow> st \<in> {s_req_path, s_req_schema, s_req_schema_slash, s_req_schema_slash_slash, s_req_server_start,
                        s_req_server, s_req_server_with_at, s_req_query_string_start, s_req_query_string,
                        s_req_fragment_start, s_req_fragment}
          | status \<Rightarrow> st = s_res_status
          | body \<Rightarrow> False)
      then Some 0 else None)"

definition enter :: "'d hp \<Rightarrow> 'd loc" where
  "enter q = \<lparr>parser = q, p_state = pstate q, lnread = nread q, pos = 0, marks = initial_marks (pstate q),
              lenient = lenient_http_headers q\<rparr>"

definition http_parser_execute :: "'d env \<Rightarrow> 'd hp \<Rightarrow> byte list \<Rightarrow> 'd outcome" where
  "http_parser_execute e q d =
     (if http_errno q \<noteq> HPE_OK then Return 0 q
      else if d = [] then
        case pstate q of
          s_body_identity_eof \<Rightarrow> CALLBACK_NOTIFY_NOADVANCE e message_complete ((enter q)\<lparr>marks := (\<lambda>c. None)\<rparr>) (\<lambda>s. Return 0 (parser s))
        | s_dead \<Rightarrow> Return 0 q
        | s_start_req_or_res \<Rightarrow> Return 0 q
        | s_start_res \<Rightarrow> Return 0 q
        | s_start_req \<Rightarrow> Return 0 q
        | _ \<Rightarrow> Return 1 (q\<lparr>http_errno := HPE_INVALID_EOF_STATE\<rparr>)
      else exec_loop (length d) e d (enter q))"

definition http_parser_init :: "http_parser_type \<Rightarrow> 'd hp \<Rightarrow> 'd hp" where
  "http_parser_init t q =
     \<lparr>ptype = t, flags = 0,
      pstate = (if t = HTTP_REQUEST then s_start_req else if t = HTTP_RESPONSE then s_start_res else s_start_req_or_res),
      header_state = h_general, index = 0, lenient_http_headers = False, nread = 0, content_length = 0,
      http_major = 0, http_minor = 0, pstatus_code = 0, pmethod = HTTP_DELETE, http_errno = HPE_OK, upgrade = False,
      pdata = pdata q\<rparr>"

definition http_parser_pause :: "bool \<Rightarrow> 'd hp \<Rightarrow> 'd hp option" where
  "http_parser_pause paused q =
     (if http_errno q = HPE_OK \<or> http_errno q = HPE_PAUSED
      then Some (q\<lparr>http_errno := (if paused then HPE_PAUSED else HPE_OK)\<rparr>) else None)"

definition http_body_is_final :: "'d hp \<Rightarrow> bool" where
  "http_body_is_final q \<longleftrightarrow> pstate q = s_message_done"

definition http_method_str :: "nat \<Rightarrow> byte list" where
  "http_method_str m =
     (if m < 34
      then method_strings ([HTTP_DELETE, HTTP_GET, HTTP_HEAD, HTTP_POST, HTTP_PUT, HTTP_CONNECT, HTTP_OPTIONS, HTTP_TRACE, HTTP_COPY,
         HTTP_LOCK, HTTP_MKCOL, HTTP_MOVE, HTTP_PROPFIND, HTTP_PROPPATCH, HTTP_SEARCH, HTTP_UNLOCK, HTTP_BIND, HTTP_REBIND,
         HTTP_UNBIND, HTTP_ACL, HTTP_REPORT, HTTP_MKACTIVITY, HTTP_CHECKOUT, HTTP_MERGE, HTTP_MSEARCH, HTTP_NOTIFY,
         HTTP_SUBSCRIBE, HTTP_UNSUBSCRIBE, HTTP_PATCH, HTTP_PURGE, HTTP_MKCALENDAR, HTTP_LINK, HTTP_UNLINK, HTTP_SOURCE] ! m)
      else map of_char ''<unknown>'')"

end
