(* ===== verification/HttpParserSafe.thy ===== *)
theory HttpParserSafe
  imports HttpParser
begin

text \<open>
  What holds of every run of \<open>http_parser_execute\<close>, whatever the bytes are: no assertion fails, no array is left, the jumps
  back to the \<open>switch\<close> come to an end.  The callbacks may return what they like, and may change the application data and set the
  error number (as \<open>http_parser_pause\<close> does), but not the rest of the parser.
\<close>

section \<open>Invariant\<close>

definition field_states :: "header_states set" where
  "field_states = {h_general, h_C, h_CO, h_CON, h_matching_connection, h_matching_proxy_connection, h_matching_content_length,
     h_matching_transfer_encoding, h_matching_upgrade, h_connection, h_content_length, h_transfer_encoding, h_upgrade}"

text \<open>What a state requires of the parser; \<open>k\<close> is the number of bytes already counted where a chunk starts.\<close>

definition st_ok :: "nat \<Rightarrow> state \<Rightarrow> 32 word \<Rightarrow> 'd hp \<Rightarrow> bool" where
  "st_ok k st nr q \<longleftrightarrow>
     (case st of
        s_req_method \<Rightarrow> index q \<le> length (method_strings (pmethod q))
      | s_header_field \<Rightarrow> header_state q \<in> field_states
      | s_header_value \<Rightarrow> header_state q \<notin> {h_connection, h_transfer_encoding}
      | s_chunk_size_start \<Rightarrow> nr = of_nat k \<and> flag F_CHUNKED q
      | s_chunk_size \<Rightarrow> content_length q \<noteq> ULLONG_MAX \<and> flag F_CHUNKED q
      | s_chunk_parameters \<Rightarrow> content_length q \<noteq> ULLONG_MAX \<and> flag F_CHUNKED q
      | s_chunk_size_almost_done \<Rightarrow> content_length q \<noteq> ULLONG_MAX \<and> flag F_CHUNKED q
      | s_chunk_data \<Rightarrow> content_length q \<noteq> 0 \<and> content_length q \<noteq> ULLONG_MAX \<and> flag F_CHUNKED q
      | s_chunk_data_almost_done \<Rightarrow> content_length q = 0 \<and> flag F_CHUNKED q
      | s_chunk_data_done \<Rightarrow> flag F_CHUNKED q
      | s_body_identity \<Rightarrow> content_length q \<noteq> 0 \<and> content_length q \<noteq> ULLONG_MAX
      | _ \<Rightarrow> True)"

text \<open>The data that a state may be in the middle of.\<close>

definition marker :: "state \<Rightarrow> cb_data option" where
  "marker st =
     (case st of
        s_req_path \<Rightarrow> Some url | s_req_schema \<Rightarrow> Some url | s_req_schema_slash \<Rightarrow> Some url
      | s_req_schema_slash_slash \<Rightarrow> Some url | s_req_server_start \<Rightarrow> Some url | s_req_server \<Rightarrow> Some url
      | s_req_server_with_at \<Rightarrow> Some url | s_req_query_string_start \<Rightarrow> Some url | s_req_query_string \<Rightarrow> Some url
      | s_req_fragment_start \<Rightarrow> Some url | s_req_fragment \<Rightarrow> Some url
      | s_res_status \<Rightarrow> Some status
      | s_header_field \<Rightarrow> Some header_field
      | s_header_value \<Rightarrow> Some header_value
      | s_body_identity \<Rightarrow> Some body | s_body_identity_eof \<Rightarrow> Some body
      | s_chunk_data \<Rightarrow> Some body | s_chunk_data_almost_done \<Rightarrow> Some body
      | _ \<Rightarrow> None)"

definition marks_ok :: "'d loc \<Rightarrow> bool" where
  "marks_ok s \<longleftrightarrow>
     (case marker (p_state s) of
        None \<Rightarrow> marks s = Map.empty
      | Some c \<Rightarrow> marks s = Map.empty \<or> (\<exists>m \<le> pos s. marks s = [c \<mapsto> m]))"

definition good :: "nat \<Rightarrow> byte list \<Rightarrow> 'd loc \<Rightarrow> bool" where
  "good k d s \<longleftrightarrow>
     http_errno (parser s) = HPE_OK \<and> st_ok k (p_state s) (lnread s) (parser s) \<and> marks_ok s \<and> pos s < length d"

definition hp_inv :: "'d hp \<Rightarrow> bool" where
  "hp_inv q \<longleftrightarrow> st_ok 0 (pstate q) (nread q) q"

text \<open>The labels that may jump back to the \<open>switch\<close>, by the length of the chain.\<close>

definition jumps :: "state \<Rightarrow> nat" where
  "jumps st =
     (case st of
        s_start_req_or_res \<Rightarrow> 1 | s_res_status_code \<Rightarrow> 2 | s_res_status_start \<Rightarrow> 1
      | s_header_value_discard_lws \<Rightarrow> 3 | s_header_value_lws \<Rightarrow> 3 | s_header_field_start \<Rightarrow> 2
      | s_headers_almost_done \<Rightarrow> 1 | s_header_value \<Rightarrow> 1 | s_body_identity \<Rightarrow> 1 | _ \<Rightarrow> 0)"

text \<open>The labels that look ahead in the piece; none of them is the target of a jump.\<close>

definition scans :: "state \<Rightarrow> bool" where
  "scans st \<longleftrightarrow>
     (case st of s_header_field \<Rightarrow> True | s_header_value \<Rightarrow> True | s_body_identity \<Rightarrow> True | s_body_identity_eof \<Rightarrow> True
      | s_chunk_data \<Rightarrow> True | _ \<Rightarrow> False)"

definition out_ok :: "byte list \<Rightarrow> nat \<Rightarrow> nat \<Rightarrow> 'd outcome \<Rightarrow> bool" where
  "out_ok d p j out \<longleftrightarrow>
     (case out of
        Break s \<Rightarrow> p \<le> pos s \<and> good 0 d s
      | Reexecute ch s \<Rightarrow> p \<le> pos s \<and> good 1 d s \<and> jumps (p_state s) < j \<and> \<not> scans (p_state s)
      | Error s \<Rightarrow> http_errno (parser s) \<notin> {HPE_OK, HPE_PAUSED} \<and> p \<le> pos s \<and> pos s \<le> length d
      | Return n q \<Rightarrow> n \<le> length d \<and> hp_inv q
      | Abort \<Rightarrow> False
      | OutOfFuel \<Rightarrow> False)"

definition quiet :: "'d env \<Rightarrow> bool" where
  "quiet e \<longleftrightarrow>
     (\<forall>c f q. on_notify e c = Some f \<longrightarrow> (\<exists>x y. snd (f q) = q\<lparr>pdata := x, http_errno := y\<rparr>)) \<and>
     (\<forall>c f q z. on_data e c = Some f \<longrightarrow> (\<exists>x y. snd (f q z) = q\<lparr>pdata := x, http_errno := y\<rparr>))"

section \<open>Rules for the building blocks\<close>

named_theorems hp_defs
named_theorems hp_rules

declare UPDATE_STATE_def [hp_defs] set_parser_def [hp_defs] MARK_def [hp_defs] reset_nread_def [hp_defs]
  is_eol_def [hp_defs] clear_message_def [hp_defs] index_inc_def [hp_defs]

lemma out_ok_simps [simp]:
  "out_ok d p j (Break s) \<longleftrightarrow> p \<le> pos s \<and> good 0 d s"
  "out_ok d p j (Reexecute ch s) \<longleftrightarrow> p \<le> pos s \<and> good 1 d s \<and> jumps (p_state s) < j \<and> \<not> scans (p_state s)"
  "out_ok d p j (Error s) \<longleftrightarrow> http_errno (parser s) \<notin> {HPE_OK, HPE_PAUSED} \<and> p \<le> pos s \<and> pos s \<le> length d"
  "out_ok d p j (Return n q) \<longleftrightarrow> n \<le> length d \<and> hp_inv q"
  "\<not> out_ok d p j Abort" "\<not> out_ok d p j OutOfFuel"
  by (simp_all add: out_ok_def)

lemma out_ok_error [simp]:
  "out_ok d p j (goto_error c s) \<longleftrightarrow> c \<notin> {HPE_OK, HPE_PAUSED} \<and> p \<le> pos s \<and> pos s \<le> length d"
  by (simp add: goto_error_def SET_ERRNO_def)

lemma out_ok_RETURN [simp]:
  "out_ok d p j (RETURN n s) \<longleftrightarrow> n \<le> length d \<and> st_ok 0 (p_state s) (lnread s) (parser s)"
  by (simp add: RETURN_def hp_inv_def st_ok_def flag_def cong: state.case_cong)

lemma UPDATE_STATE_simps [simp]:
  "pos (UPDATE_STATE st s) = pos s" "parser (UPDATE_STATE st s) = parser s" "p_state (UPDATE_STATE st s) = st"
  "marks (UPDATE_STATE st s) = marks s" "lnread (UPDATE_STATE st s) = lnread s" "lenient (UPDATE_STATE st s) = lenient s"
  by (simp_all add: UPDATE_STATE_def)

lemma set_parser_simps [simp]:
  "pos (set_parser f s) = pos s" "parser (set_parser f s) = f (parser s)" "p_state (set_parser f s) = p_state s"
  "marks (set_parser f s) = marks s" "lnread (set_parser f s) = lnread s" "lenient (set_parser f s) = lenient s"
  by (simp_all add: set_parser_def)

lemma st_ok_upd [simp]:
  "st_ok k st nr (q\<lparr>pdata := x\<rparr>) = st_ok k st nr q" "st_ok k st nr (q\<lparr>pstate := st'\<rparr>) = st_ok k st nr q"
  "st_ok k st nr (q\<lparr>http_errno := c\<rparr>) = st_ok k st nr q" "st_ok k st nr (q\<lparr>nread := nr'\<rparr>) = st_ok k st nr q"
  by (simp_all add: st_ok_def flag_def cong: state.case_cong)

lemma after_callback_ok:
  assumes q: "snd rq = (parser s)\<lparr>pstate := p_state s, pdata := x, http_errno := y\<rparr>"
    and er: "er \<le> length d" and c: "c \<noteq> HPE_OK"
    and r: "st_ok 0 (p_state s) (nread (parser s)) (parser s)" "st_ok 0 (p_state s) (lnread s) (parser s)"
    and k: "out_ok d p j (k (s\<lparr>parser := (parser s)\<lparr>pstate := p_state s, pdata := x, http_errno := HPE_OK\<rparr>\<rparr>))"
  shows "out_ok d p j (after_callback c er rq s k)"
  using assms by (auto simp: after_callback_def Let_def hp_inv_def)

lemma notify_ok [hp_rules]:
  assumes e: "quiet e" and ok: "http_errno (parser s) = HPE_OK" and er: "er \<le> length d"
    and r: "st_ok 0 (p_state s) (nread (parser s)) (parser s)" "st_ok 0 (p_state s) (lnread s) (parser s)"
    and k: "\<And>x. out_ok d p j (k (s\<lparr>parser := (parser s)\<lparr>pstate := p_state s, pdata := x, http_errno := HPE_OK\<rparr>\<rparr>))"
    and k0: "out_ok d p j (k s)"
  shows "out_ok d p j (CALLBACK_NOTIFY_at e c er s k)"
proof (cases "on_notify e c")
  case (Some f)
  then obtain x y where "snd (f ((parser s)\<lparr>pstate := p_state s\<rparr>)) = (parser s)\<lparr>pstate := p_state s, pdata := x, http_errno := y\<rparr>"
    using e unfolding quiet_def by blast
  then have "out_ok d p j (after_callback (HPE_CB_notify c) er (f ((parser s)\<lparr>pstate := p_state s\<rparr>)) s k)"
    by (rule after_callback_ok) (use assms in \<open>cases c; simp\<close>)+
  then show ?thesis using Some ok by (simp add: CALLBACK_NOTIFY_at_def)
qed (use assms in \<open>simp add: CALLBACK_NOTIFY_at_def\<close>)

lemma data_ok [hp_rules]:
  assumes e: "quiet e" and ok: "http_errno (parser s) = HPE_OK" and er: "er \<le> length d"
    and m: "\<And>m. marks s c = Some m \<Longrightarrow> m \<le> to" and to: "to \<le> length d"
    and r: "st_ok 0 (p_state s) (nread (parser s)) (parser s)" "st_ok 0 (p_state s) (lnread s) (parser s)"
    and k: "\<And>x. out_ok d p j (k (s\<lparr>parser := (parser s)\<lparr>pstate := p_state s, pdata := x, http_errno := HPE_OK\<rparr>,
                  marks := (marks s)(c := None)\<rparr>))"
    and k0: "out_ok d p j (k (s\<lparr>marks := (marks s)(c := None)\<rparr>))"
  shows "out_ok d p j (CALLBACK_DATA_at e d c to er s k)"
proof (cases "marks s c")
  case None
  then have "s\<lparr>marks := (marks s)(c := None)\<rparr> = s" by (simp add: fun_upd_idem)
  then show ?thesis using None ok k0 by (simp add: CALLBACK_DATA_at_def)
next
  case m': (Some m)
  show ?thesis
  proof (cases "on_data e c")
    case (Some f)
    let ?z = "take (to - m) (drop m d)"
    obtain x y where "snd (f ((parser s)\<lparr>pstate := p_state s\<rparr>) ?z) = (parser s)\<lparr>pstate := p_state s, pdata := x, http_errno := y\<rparr>"
      using e Some unfolding quiet_def by blast
    then have "out_ok d p j (after_callback (HPE_CB_data c) er (f ((parser s)\<lparr>pstate := p_state s\<rparr>) ?z) s
                 (\<lambda>s. k (s\<lparr>marks := (marks s)(c := None)\<rparr>)))"
      by (rule after_callback_ok) (use er r k in \<open>cases c; simp\<close>)+
    then show ?thesis using Some m' ok m to by (simp add: CALLBACK_DATA_at_def not_less)
  qed (use m' ok m to k0 in \<open>simp add: CALLBACK_DATA_at_def not_less\<close>)
qed

lemma count_ok [hp_rules]:
  assumes "p \<le> pos s" "pos s \<le> length d" "out_ok d p j (k (s\<lparr>lnread := lnread s + of_nat n\<rparr>))"
  shows "out_ok d p j (COUNT_HEADER_SIZE e n s k)"
  using assms by (simp add: COUNT_HEADER_SIZE_def Let_def)

lemma strict_ok [hp_rules]:
  assumes "p \<le> pos s" "pos s \<le> length d" "out_ok d p j k"
  shows "out_ok d p j (STRICT_CHECK e b s k)"
  using assms by (simp add: STRICT_CHECK_def)

section \<open>Every label\<close>

lemmas good_simps = good_def st_ok_def marks_ok_def jumps_def scans_def flag_def field_states_def marker_def

lemma start_ok:
  assumes "quiet e" "good 1 d s" "p_state s \<in> {s_dead, s_start_req_or_res, s_res_or_resp_H, s_start_res}"
  shows "out_ok d (pos s) (jumps (p_state s)) (exec_switch e d ch s)"
  using assms
  by (auto simp: exec_switch_def on_dead_def on_start_req_or_res_def on_res_or_resp_H_def on_start_res_def Let_def hp_defs
      good_simps CALLBACK_NOTIFY_def intro!: notify_ok)

lemma fixed_ok:
  assumes "good 1 d s" "marker (p_state s) = None" "marker st = None" "\<And>k nr. st_ok k st nr (parser s)"
  shows "out_ok d (pos s) j (on_fixed e want st ch s)"
  using assms by (auto simp: on_fixed_def hp_defs good_def marks_ok_def intro!: strict_ok)

lemma version_ok:
  assumes "good 1 d s"
    "p_state s \<in> {s_res_http_major, s_res_http_dot, s_res_http_minor, s_res_http_end, s_res_first_status_code, s_res_status_code,
       s_req_http_major, s_req_http_dot, s_req_http_minor, s_req_http_end, s_req_line_almost_done, s_req_http_start}"
  shows "out_ok d (pos s) (jumps (p_state s)) (exec_switch e d ch s)"
  using assms
  by (auto simp: exec_switch_def on_http_major_def on_http_dot_def on_http_minor_def on_res_http_end_def Let_def
      on_res_first_status_code_def on_res_status_code_def on_req_http_end_def on_req_line_almost_done_def
      on_req_http_start_def hp_defs good_simps)

lemma status_ok:
  assumes "quiet e" "good 1 d s" "p_state s \<in> {s_res_status_start, s_res_status}"
  shows "out_ok d (pos s) (jumps (p_state s)) (exec_switch e d ch s)"
  using assms
  by (auto simp: exec_switch_def on_res_status_start_def on_res_status_def CALLBACK_DATA_def Let_def hp_defs good_simps
      split: if_splits intro!: data_ok)

lemma first_method_len: "first_method ch = Some m \<Longrightarrow> 1 \<le> length (method_strings m)"
  by (cases m) auto

lemma start_req_ok:
  assumes "quiet e" "good 1 d s" "p_state s = s_start_req"
  shows "out_ok d (pos s) (jumps (p_state s)) (exec_switch e d ch s)"
  using assms
  by (auto simp: exec_switch_def on_start_req_def CALLBACK_NOTIFY_def Let_def hp_defs good_simps
      split: option.splits intro!: notify_ok first_method_len dest: first_method_len)

lemma other_method_len: "other_method m i ch = Some m' \<Longrightarrow> i < length (method_strings m')"
  unfolding other_method_def
  by (drule map_of_SomeD) (auto simp: other_methods_def)

lemma method_nonzero: "i < length (method_strings m) \<Longrightarrow> method_strings m ! i \<noteq> 0"
proof -
  have "0 \<notin> set (method_strings m)" by (cases m) auto
  then show "i < length (method_strings m) \<Longrightarrow> method_strings m ! i \<noteq> 0"
    by (metis nth_mem)
qed

lemma method_ok:
  assumes "good 1 d s" "p_state s = s_req_method"
  shows "out_ok d (pos s) (jumps (p_state s)) (exec_switch e d ch s)"
proof -
  let ?q = "parser s" and ?m = "method_strings (pmethod (parser s))"
  have i: "index ?q \<le> length ?m" using assms by (simp add: good_def st_ok_def)
  have mod: "n mod 128 \<le> n" for n :: nat by simp
  show ?thesis
  proof (cases "ch = 0 \<or> index ?q = length ?m")
    case True
    then show ?thesis using assms i
      by (auto simp: exec_switch_def on_req_method_def Let_def hp_defs good_simps nth_append split: option.splits
          intro: order.trans [OF mod] dest!: other_method_len)
  next
    case False
    then have "index ?q < length ?m" using i by simp
    then show ?thesis using assms i False
      by (auto simp: exec_switch_def on_req_method_def Let_def hp_defs good_simps nth_append method_nonzero split: option.splits
          intro!: order.trans [OF mod] dest!: other_method_len)
  qed
qed

lemma marker_url [simp]:
  "marker s_req_path = Some url" "marker s_req_schema = Some url" "marker s_req_schema_slash = Some url"
  "marker s_req_schema_slash_slash = Some url" "marker s_req_server_start = Some url" "marker s_req_server = Some url"
  "marker s_req_server_with_at = Some url" "marker s_req_query_string_start = Some url" "marker s_req_query_string = Some url"
  "marker s_req_fragment_start = Some url" "marker s_req_fragment = Some url"
  by (simp_all add: marker_def)

lemma server_char_states: "parse_server_char ch = s_dead \<or> marker (parse_server_char ch) = Some url"
  by (simp add: parse_server_char_def)

lemma query_char_states: "parse_query_char st ch = s_dead \<or> marker (parse_query_char st ch) = Some url"
  by (simp add: parse_query_char_def)

lemma parse_url_states: "parse_url_char st s0 ch = s_dead \<or> marker (parse_url_char st s0 ch) = Some url"
  unfolding parse_url_char_def using server_char_states query_char_states by (cases s0) simp_all

lemma url_st_ok: "marker st = Some url \<Longrightarrow> st_ok k st nr q"
  by (auto simp: marker_def st_ok_def split: state.splits)

lemma url_char_ok:
  assumes "http_errno (parser s) = HPE_OK" "pos s < length d"
    "marks s = Map.empty \<or> (\<exists>m \<le> pos s. marks s = [url \<mapsto> m])"
  shows "out_ok d (pos s) j (url_char e ch s)"
proof -
  let ?st = "parse_url_char (strict e) (p_state s) ch"
  have "?st = s_dead \<or> marker ?st = Some url" by (rule parse_url_states)
  then show ?thesis
    using assms url_st_ok by (auto simp: url_char_def Let_def hp_defs good_def marks_ok_def)
qed

lemma url_start_ok:
  assumes "good 1 d s" "p_state s = s_req_spaces_before_url"
  shows "out_ok d (pos s) (jumps (p_state s)) (exec_switch e d ch s)"
proof -
  let ?s = "if pmethod (parser s) = HTTP_CONNECT then UPDATE_STATE s_req_server_start (MARK url s) else MARK url s"
  have m: "marks s = Map.empty" using assms by (simp add: good_def marks_ok_def marker_def)
  have "out_ok d (pos ?s) (jumps (p_state s)) (url_char e ch ?s)"
    by (rule url_char_ok) (use assms in \<open>auto simp: hp_defs good_def marks_ok_def marker_def\<close>)
  then have "out_ok d (pos s) (jumps (p_state s)) (url_char e ch ?s)"
    by (simp add: hp_defs m split: if_splits)
  then show ?thesis
    using assms m by (auto simp: exec_switch_def on_req_spaces_before_url_def hp_defs good_def st_ok_def marks_ok_def marker_def Let_def)
qed

lemma url_ok:
  assumes "quiet e" "good 1 d s" "marker (p_state s) = Some url"
  shows "out_ok d (pos s) (jumps (p_state s)) (exec_switch e d ch s)"
proof -
  have u: "out_ok d (pos s) (jumps (p_state s)) (url_char e ch s)"
    by (rule url_char_ok) (use assms in \<open>auto simp: good_def marks_ok_def\<close>)
  have "out_ok d (pos s) (jumps (p_state s)) (on_req_schema e ch s)"
    using assms u by (simp add: on_req_schema_def good_def)
  moreover have "out_ok d (pos s) (jumps (p_state s)) (on_req_server e d ch s)"
  proof -
    let ?j = "jumps (p_state s)"
    have st: "out_ok d (pos s) ?j (CALLBACK_DATA e d url (UPDATE_STATE st (set_parser f s)) Break)"
      if "marker st = None" "\<And>k nr. st_ok k st nr (f (parser s))" "http_errno (f (parser s)) = HPE_OK" for st f
      unfolding CALLBACK_DATA_def
      by (rule data_ok) (use assms that in \<open>auto simp: hp_defs good_def marks_ok_def\<close>)
    have id: "set_parser (\<lambda>q. q) s = s" by (simp add: set_parser_def)
    have "out_ok d (pos s) ?j (CALLBACK_DATA e d url (UPDATE_STATE s_req_http_start s) Break)"
      using st [of s_req_http_start "\<lambda>q. q"] assms(2) by (simp add: id marker_def st_ok_def good_def)
    moreover have "out_ok d (pos s) ?j (CALLBACK_DATA e d url
        (UPDATE_STATE (if ch = ch_CR then s_req_line_almost_done else s_header_field_start)
          (set_parser (\<lambda>q. q\<lparr>http_major := 0, http_minor := 9\<rparr>) s)) Break)"
      by (rule st) (use assms(2) in \<open>auto simp: marker_def st_ok_def good_def\<close>)
    ultimately show ?thesis using u by (simp add: on_req_server_def)
  qed
  ultimately show ?thesis
    using assms(3) unfolding exec_switch_def by (cases "p_state s") (simp_all add: marker_def)
qed

lemma match_field_state: "header_state (match_field lit c yes q) \<in> {header_state q, yes, h_general}"
  by (auto simp: match_field_def match_next_def Let_def hp_defs)

lemma hf_char_state:
  "header_state q \<in> field_states \<Longrightarrow> header_state q \<noteq> h_general \<Longrightarrow> \<exists>q'. hf_char ch c q = Some q' \<and> header_state q' \<in> field_states"
  by (auto simp: hf_char_def field_states_def Let_def hp_defs match_field_def match_next_def)

text \<open>What the loops over a header field and value leave alone.\<close>

definition only_header :: "'d hp \<Rightarrow> 'd hp \<Rightarrow> bool" where
  "only_header q q' \<longleftrightarrow>
     ptype q' = ptype q \<and> pstate q' = pstate q \<and> lenient_http_headers q' = lenient_http_headers q \<and> nread q' = nread q \<and>
     http_major q' = http_major q \<and> http_minor q' = http_minor q \<and> pstatus_code q' = pstatus_code q \<and>
     pmethod q' = pmethod q \<and> http_errno q' = http_errno q \<and> upgrade q' = upgrade q \<and> pdata q' = pdata q"

lemma only_header_refl [simp]: "only_header q q"
  by (simp add: only_header_def)

lemma only_header_trans [trans]: "only_header q q' \<Longrightarrow> only_header q' q'' \<Longrightarrow> only_header q q''"
  by (simp add: only_header_def)

lemma hf_char_only: "hf_char ch c q = Some q' \<Longrightarrow> only_header q q'"
  by (auto simp: hf_char_def only_header_def match_field_def Let_def hp_defs split: header_states.splits if_splits)

lemma hf_scan_spec:
  "header_state q \<in> field_states \<Longrightarrow>
     \<exists>q' n'. hf_scan e r q n = Some (q', n') \<and> only_header q q' \<and> header_state q' \<in> field_states \<and> n \<le> n' \<and> n' \<le> n + length r \<and>
       (r \<noteq> [] \<longrightarrow> TOKEN e (r ! 0) \<noteq> 0 \<longrightarrow> n < n')"
proof (induction e r q n rule: hf_scan.induct)
  case (2 e ch r q n)
  show ?case
  proof (cases "TOKEN e ch = 0")
    case False
    show ?thesis
    proof (cases "header_state q = h_general")
      case True
      define k where "k = length (takeWhile (\<lambda>c. TOKEN e c \<noteq> 0) (take (min (Suc (length r)) (unat (max_header_size e)) - 1) r))"
      have k: "k \<le> length r"
        unfolding k_def by (rule order.trans [OF length_takeWhile_le]) simp
      obtain q' n' where "hf_scan e (drop k r) q (n + k + 1) = Some (q', n')" "only_header q q'" "header_state q' \<in> field_states"
          "n + k + 1 \<le> n'" "n' \<le> n + k + 1 + length (drop k r)"
        using "2.IH"(1) [OF False True k_def] "2.prems" by blast
      moreover have "hf_scan e (ch # r) q n = hf_scan e (drop k r) q (n + k + 1)"
        using True False by (simp add: k_def Let_def)
      ultimately show ?thesis using k by simp
    next
      case general: False
      obtain q1 where q1: "hf_char ch (TOKEN e ch) q = Some q1" "header_state q1 \<in> field_states"
        using hf_char_state general "2.prems" by blast
      then obtain q' n' where "hf_scan e r q1 (n + 1) = Some (q', n')" "only_header q1 q'" "header_state q' \<in> field_states"
          "n + 1 \<le> n'" "n' \<le> n + 1 + length r"
        using "2.IH"(2) [OF False general q1(1)] by blast
      then show ?thesis
        using general False q1 only_header_trans [OF hf_char_only [OF q1(1)]] by simp
    qed
  qed (use 2 in auto)
qed simp

lemma marks_mono:
  "(mk = Map.empty \<or> (\<exists>m \<le> (p :: nat). mk = [c \<mapsto> m])) \<Longrightarrow> p \<le> p' \<Longrightarrow> mk = Map.empty \<or> (\<exists>m \<le> p'. mk = [c \<mapsto> m])"
proof (elim disjE exE conjE)
  fix m assume "p \<le> p'" "m \<le> p" "mk = [c \<mapsto> m]"
  then show ?thesis by (intro disjI2 exI [of _ m]) auto
qed simp

lemma field_ok:
  assumes "quiet e" "good 1 d s" "p_state s = s_header_field"
  shows "out_ok d (pos s) (jumps (p_state s)) (exec_switch e d ch s)"
proof -
  have st: "header_state (parser s) \<in> field_states" using assms by (simp add: good_def st_ok_def)
  obtain q n where q: "hf_scan e (drop (pos s) d) (parser s) 0 = Some (q, n)" "only_header (parser s) q"
      "header_state q \<in> field_states" "n \<le> length d - pos s"
    using hf_scan_spec [OF st, of e "drop (pos s) d" 0] by auto
  have ok: "http_errno q = HPE_OK" using q(2) assms(2) by (simp add: only_header_def good_def)
  have p: "pos s < length d" using assms by (simp add: good_def)
  have m: "marks s = Map.empty \<or> (\<exists>m \<le> pos s. marks s = [header_field \<mapsto> m])"
    using assms by (simp add: good_def marks_ok_def marker_def)
  show ?thesis
  proof (cases "pos s + n = length d")
    case True
    have m': "marks s = Map.empty \<or> (\<exists>m \<le> length d - Suc 0. marks s = [header_field \<mapsto> m])"
      using marks_mono [OF m] p by simp
    have "exec_switch e d ch s = COUNT_HEADER_SIZE e (length d - 1 - pos s) (s\<lparr>parser := q, pos := length d - 1\<rparr>) Break"
      using assms(3) q(1) True by (simp add: exec_switch_def on_header_field_def Let_def)
    moreover have "out_ok d (pos s) (jumps (p_state s)) \<dots>"
      using assms(3) p q m' ok by (intro count_ok) (auto simp: good_def st_ok_def marks_ok_def marker_def)
    ultimately show ?thesis by simp
  next
    case False
    then have lt: "pos s + n < length d" using q(4) p by simp
    let ?s = "s\<lparr>parser := q, pos := pos s + n, lnread := lnread s + of_nat n\<rparr>"
    have m': "marks s = Map.empty \<or> (\<exists>m \<le> pos s + n. marks s = [header_field \<mapsto> m])"
      using marks_mono [OF m] by simp
    have "out_ok d (pos s) (jumps (p_state s)) (CALLBACK_DATA_at e d header_field (pos ?s) (pos ?s + 1) (UPDATE_STATE s_header_value_discard_ws ?s) Break)"
      using assms(1) lt m' ok
      by (intro data_ok) (auto simp: hp_defs st_ok_def good_def marks_ok_def marker_def)
    then show ?thesis
      using assms(3) q(1) lt False
      by (auto simp: exec_switch_def on_header_field_def Let_def CALLBACK_DATA_def intro!: count_ok)
  qed
qed

lemma length_digit_only:
  "length_digit ch q = Inr (h, q') \<Longrightarrow> only_header q q' \<and> h \<notin> {h_connection, h_transfer_encoding}"
  "length_digit ch q = Inl (c, q') \<Longrightarrow> only_header q q' \<and> c \<notin> {HPE_OK, HPE_PAUSED}"
  by (auto simp: length_digit_def Let_def only_header_def split: if_splits)

lemma connection_flag_only: "only_header q (connection_flag h q)"
  by (simp add: connection_flag_def set_flag_def only_header_def split: header_states.splits)

lemma match_next_cases: "match_next lit c i cur yes no \<in> {cur, yes, no}"
  by (simp add: match_next_def)

lemma hv_char_spec:
  assumes "h \<notin> {h_connection, h_transfer_encoding}"
  shows "\<exists>r. hv_char ch h q = Some r \<and>
           (case r of Inl (c, q') \<Rightarrow> c \<notin> {HPE_OK, HPE_PAUSED} \<and> only_header q q'
                    | Inr (h', q') \<Rightarrow> h' \<notin> {h_connection, h_transfer_encoding} \<and> only_header q q')"
proof -
  have m: "match_next lit c i h yes no \<noteq> x" if "h \<noteq> x" "yes \<noteq> x" "no \<noteq> x" for lit c i yes no x
    using match_next_cases [of lit c i h yes no] that by auto
  have l: "case length_digit ch q of Inl (c, q') \<Rightarrow> c \<notin> {HPE_OK, HPE_PAUSED} \<and> only_header q q'
             | Inr (h', q') \<Rightarrow> h' \<notin> {h_connection, h_transfer_encoding} \<and> only_header q q'"
    by (cases "length_digit ch q") (auto dest: length_digit_only)
  have a: "case after_token ch h q of (h', q') \<Rightarrow> h' \<notin> {h_connection, h_transfer_encoding} \<and> only_header q q'"
    using assms connection_flag_only [of q h] by (simp add: after_token_def only_header_def)
  have i: "only_header q (index_inc q)" "only_header q (q\<lparr>index := i\<rparr>)" "only_header q (q\<lparr>header_state := x\<rparr>)" for i x
    by (simp_all add: index_inc_def only_header_def)
  show ?thesis
    using assms l a m i
    by (cases h) (auto simp: hv_char_def match_value_def Let_def)
qed

lemma hv_scan_spec:
  "h \<notin> {h_connection, h_transfer_encoding} \<Longrightarrow>
     (case hv_scan l mx r h q n of
        HvEnd h' q' n' \<Rightarrow> h' \<notin> {h_connection, h_transfer_encoding} \<and> only_header q q' \<and> n' = n + length r
      | HvCR h' q' n' \<Rightarrow> only_header q q' \<and> n \<le> n' \<and> n' < n + length r
      | HvLF h' q' n' \<Rightarrow> only_header q q' \<and> n \<le> n' \<and> n' < n + length r
      | HvErr c q' n' \<Rightarrow> c \<notin> {HPE_OK, HPE_PAUSED} \<and> only_header q q' \<and> n \<le> n' \<and> n' < n + length r
      | HvAssert \<Rightarrow> False)" (is "_ \<Longrightarrow> ?P (hv_scan l mx r h q n) r q n")
proof (induction l mx r h q n rule: hv_scan.induct)
  case (2 l mx ch r h q n)
  show ?case
  proof (cases "ch = ch_CR \<or> ch = ch_LF \<or> \<not> value_ok l ch")
    case False
    then have ch: "ch \<noteq> ch_CR" "ch \<noteq> ch_LF" "value_ok l ch" by auto
    show ?thesis
    proof (cases "h = h_general")
      case True
      define w where "w = take mx (ch # r)"
      define k where "k = length (takeWhile (\<lambda>c. \<not> is_eol c \<and> value_ok l c) w)"
      have w: "length w \<le> Suc (length r)" by (simp add: w_def)
      have k: "k \<le> length w" unfolding k_def by (rule length_takeWhile_le)
      have eq: "hv_scan l mx (ch # r) h q n =
          (if k < length w
           then if is_eol (w ! k) then hv_scan l mx (drop (k - 1) r) h q (n + k) else HvErr HPE_INVALID_HEADER_TOKEN q (n + k)
           else if k = Suc (length r) then HvEnd h q (n + k)
           else hv_scan l mx (drop k r) h q (n + k + 1))"
        using True ch by (simp add: w_def k_def Let_def)
      have pos: "0 < k" if "k < length w"
        using that ch by (cases w; cases mx) (auto simp: k_def w_def is_eol_def)
      show ?thesis
      proof (cases "k < length w \<and> is_eol (w ! k)")
        case eol: True
        then have "?P (hv_scan l mx (drop (k - 1) r) h q (n + k)) (drop (k - 1) r) q (n + k)"
          using "2.IH"(1) [OF _ _ _ True w_def k_def] "2.prems" ch by simp
        moreover have "n + k + length (drop (k - 1) r) = n + length (ch # r)"
          using pos eol w by simp
        moreover have "hv_scan l mx (ch # r) h q n = hv_scan l mx (drop (k - 1) r) h q (n + k)"
          using eol eq by simp
        ultimately show ?thesis by (cases "hv_scan l mx (drop (k - 1) r) h q (n + k)") auto
      next
        case noeol: False
        show ?thesis
        proof (cases "k < length w \<or> k = Suc (length r)")
          case True
          then show ?thesis
            using noeol \<open>h = h_general\<close> w eq "2.prems" by auto
        next
          case more: False
          then have "?P (hv_scan l mx (drop k r) h q (n + k + 1)) (drop k r) q (n + k + 1)"
            using "2.IH"(2) [OF _ _ _ True w_def k_def] "2.prems" ch by simp
          moreover have "n + k + 1 + length (drop k r) = n + length (ch # r)"
            using k w more by simp
          moreover have "hv_scan l mx (ch # r) h q n = hv_scan l mx (drop k r) h q (n + k + 1)"
            using more eq by simp
          ultimately show ?thesis by (cases "hv_scan l mx (drop k r) h q (n + k + 1)") auto
        qed
      qed
    next
      case general: False
      obtain x where x: "hv_char ch h q = Some x"
        "case x of Inl (c, q') \<Rightarrow> c \<notin> {HPE_OK, HPE_PAUSED} \<and> only_header q q'
                 | Inr (h', q') \<Rightarrow> h' \<notin> {h_connection, h_transfer_encoding} \<and> only_header q q'"
        using hv_char_spec [OF "2.prems", of ch q] by blast
      show ?thesis
      proof (cases x)
        case (Inl y)
        then show ?thesis using x ch general by (cases y) simp
      next
        case (Inr y)
        then obtain h' q' where y: "x = Inr (h', q')" by (cases y) simp
        then have "?P (hv_scan l mx r h' q' (n + 1)) r q' (n + 1)"
          using "2.IH"(3) [OF _ _ _ general x(1)] x(2) ch by simp
        then show ?thesis
          using x y ch general only_header_trans [of q q'] by (cases "hv_scan l mx r h' q' (n + 1)") auto
      qed
    qed
  qed auto
qed simp

lemma value_loop_ok:
  assumes "quiet e" "good 1 d s" "p_state s = s_header_value"
  shows "out_ok d (pos s) (jumps (p_state s)) (exec_switch e d ch s)"
proof -
  let ?r = "hv_scan (lenient s) (unat (max_header_size e)) (drop (pos s) d) (header_state (parser s)) (parser s) 0"
  have st: "header_state (parser s) \<notin> {h_connection, h_transfer_encoding}" and ok: "http_errno (parser s) = HPE_OK"
    and p: "pos s < length d" and m: "marks s = Map.empty \<or> (\<exists>m \<le> pos s. marks s = [header_value \<mapsto> m])"
    using assms by (auto simp: good_def st_ok_def marks_ok_def marker_def)
  have m': "marks s = Map.empty \<or> (\<exists>m \<le> p'. marks s = [header_value \<mapsto> m])" if "pos s \<le> p'" for p'
    using marks_mono [OF m that] .
  have sw: "exec_switch e d ch s = on_header_value e d s" using assms(3) by (simp add: exec_switch_def)
  show ?thesis
  proof (cases ?r)
    case (HvEnd h q n)
    then have q: "h \<notin> {h_connection, h_transfer_encoding}" "only_header (parser s) q" "n = length d - pos s"
      using hv_scan_spec [OF st, where l = "lenient s" and mx = "unat (max_header_size e)" and r = "drop (pos s) d" and q = "parser s" and n = 0] by auto
    have np: "pos s + n - 1 = length d - 1" using q(3) p by simp
    have "out_ok d (pos s) 1 (COUNT_HEADER_SIZE e (length d - 1 - pos s)
            (set_parser (\<lambda>q. q\<lparr>header_state := h\<rparr>) (s\<lparr>parser := q, pos := length d - 1\<rparr>)) Break)"
      using p q ok assms(3) m' [of "length d - 1"]
      by (intro count_ok) (auto simp: good_def st_ok_def marks_ok_def marker_def set_parser_def only_header_def)
    then show ?thesis
      using sw HvEnd np assms(3) by (simp add: on_header_value_def Let_def jumps_def scans_def q(3))
  next
    case (HvCR h q n)
    then have q: "only_header (parser s) q" "n < length d - pos s"
      using hv_scan_spec [OF st, where l = "lenient s" and mx = "unat (max_header_size e)" and r = "drop (pos s) d" and q = "parser s" and n = 0] by auto
    let ?s = "set_parser (\<lambda>q. q\<lparr>header_state := h\<rparr>) (UPDATE_STATE s_header_almost_done (s\<lparr>parser := q, pos := pos s + n\<rparr>))"
    have "out_ok d (pos s) 1 (CALLBACK_DATA_at e d header_value (pos s + n) (pos s + n + 1) ?s
            (\<lambda>s. COUNT_HEADER_SIZE e n (set_parser (\<lambda>q. q\<lparr>header_state := h\<rparr>) s) Break))"
      using p q ok assms(1) m' [of "pos s + n"]
      by (intro data_ok count_ok)
         (auto simp: good_def st_ok_def marks_ok_def marker_def set_parser_def UPDATE_STATE_def only_header_def)
    then show ?thesis
      using sw HvCR assms(3) by (simp add: on_header_value_def Let_def jumps_def scans_def CALLBACK_DATA_def)
  next
    case (HvLF h q n)
    then have q: "only_header (parser s) q" "n < length d - pos s"
      using hv_scan_spec [OF st, where l = "lenient s" and mx = "unat (max_header_size e)" and r = "drop (pos s) d" and q = "parser s" and n = 0] by auto
    have "out_ok d (pos s) 1 (COUNT_HEADER_SIZE e n (UPDATE_STATE s_header_almost_done (s\<lparr>parser := q, pos := pos s + n\<rparr>))
            (\<lambda>s. CALLBACK_DATA_at e d header_value (pos s) (pos s) (set_parser (\<lambda>q. q\<lparr>header_state := h\<rparr>) s) (Reexecute ch_LF)))"
      using p q ok assms(1) m' [of "pos s + n"]
      by (intro count_ok data_ok)
         (auto simp: good_def st_ok_def marks_ok_def marker_def set_parser_def UPDATE_STATE_def only_header_def jumps_def scans_def)
    then show ?thesis
      using sw HvLF assms(3) by (simp add: on_header_value_def Let_def jumps_def scans_def CALLBACK_DATA_NOADVANCE_def)
  next
    case (HvErr c q n)
    then show ?thesis
      using sw p hv_scan_spec [OF st, where l = "lenient s" and mx = "unat (max_header_size e)" and r = "drop (pos s) d" and q = "parser s" and n = 0]
      by (auto simp: on_header_value_def Let_def)
  next
    case HvAssert
    then show ?thesis
      using hv_scan_spec [OF st, where l = "lenient s" and mx = "unat (max_header_size e)" and r = "drop (pos s) d" and q = "parser s" and n = 0] by simp
  qed
qed

lemma value_start_ok:
  assumes "good 1 d s" "p_state s \<in> {s_header_value_discard_ws, s_header_value_start}"
  shows "out_ok d (pos s) (jumps (p_state s)) (exec_switch e d ch s)"
proof -
  have m: "marks s = Map.empty" "http_errno (parser s) = HPE_OK" "pos s < length d"
    using assms by (auto simp: good_def marks_ok_def marker_def)
  have b: "good 0 d s' \<longleftrightarrow> http_errno (parser s') = HPE_OK \<and> header_state (parser s') \<notin> {h_connection, h_transfer_encoding}"
    if "p_state s' = s_header_value" "marks s' = [header_value \<mapsto> pos s]" "pos s' = pos s" for s'
    using m that by (auto simp: good_def st_ok_def marks_ok_def marker_def)
  have "out_ok d (pos s) 0 (on_header_value_start ch s)"
    unfolding on_header_value_start_def Let_def using m
    by (cases "header_state (parser s)") (simp_all add: MARK_def set_flag_def b)
  then show ?thesis
    using assms m by (auto simp: exec_switch_def on_header_value_discard_ws_def hp_defs good_simps)
qed

lemma connection_flag_sel [simp]:
  "http_errno (connection_flag h q) = http_errno q" "header_state (connection_flag h q) = header_state q"
  "content_length (connection_flag h q) = content_length q" "nread (connection_flag h q) = nread q"
  by (simp_all add: connection_flag_def set_flag_def split: header_states.split)

lemma chunked_flag_sel [simp]:
  "http_errno (chunked_flag h q) = http_errno q" "header_state (chunked_flag h q) = header_state q"
  "content_length (chunked_flag h q) = content_length q" "nread (chunked_flag h q) = nread q"
  by (simp_all add: chunked_flag_def set_flag_def)

lemma between_ok:
  assumes "good 1 d s" "p_state s \<in> {s_header_field_start, s_header_almost_done, s_header_value_lws}"
  shows "out_ok d (pos s) (jumps (p_state s)) (exec_switch e d ch s)"
proof -
  have m: "marks s = Map.empty" "http_errno (parser s) = HPE_OK" "pos s < length d"
    using assms by (auto simp: good_def marks_ok_def marker_def)
  show ?thesis
    using assms(2) m
    by (auto simp: exec_switch_def on_header_field_start_def on_header_almost_done_def on_header_value_lws_def MARK_def Let_def
        good_def st_ok_def marks_ok_def marker_def jumps_def scans_def field_states_def)
qed

lemma discard_lws_ok:
  assumes "quiet e" "good 1 d s" "p_state s = s_header_value_discard_lws"
  shows "out_ok d (pos s) (jumps (p_state s)) (exec_switch e d ch s)"
proof -
  have m: "marks s = Map.empty" "http_errno (parser s) = HPE_OK" "pos s < length d"
    using assms by (auto simp: good_def marks_ok_def marker_def)
  show ?thesis
    using assms(1,3) m
    by (auto simp: exec_switch_def on_header_value_discard_lws_def MARK_def CALLBACK_DATA_NOADVANCE_def
        good_def st_ok_def marks_ok_def marker_def jumps_def scans_def intro!: data_ok)
qed

lemma headers_complete_ok:
  assumes e: "quiet e" and ok: "http_errno (parser s) = HPE_OK" and p: "pos s \<le> length d"
    and st: "p_state s = s_headers_done"
    and k: "\<And>s'. p_state s' = s_headers_done \<Longrightarrow> pos s' = pos s \<Longrightarrow> marks s' = marks s \<Longrightarrow> http_errno (parser s') = HPE_OK \<Longrightarrow>
              out_ok d q j (k s')"
  shows "out_ok d q j (call_headers_complete e s k)"
proof (cases "on_notify e headers_complete")
  case None
  then show ?thesis using ok st by (simp add: call_headers_complete_def Let_def k)
next
  case (Some f)
  have "http_errno (q'\<lparr>pdata := x, http_errno := y\<rparr>) = y" for q' :: "'d hp" and x y by simp
  then show ?thesis
    using Some p st by (auto simp: call_headers_complete_def Let_def st_ok_def SET_ERRNO_def set_flag_def intro!: k split: prod.splits)
qed

lemma almost_done_ok:
  assumes "quiet e" "good 1 d s" "p_state s = s_headers_almost_done"
  shows "out_ok d (pos s) (jumps (p_state s)) (exec_switch e d ch s)"
proof -
  have m: "marks s = Map.empty" "http_errno (parser s) = HPE_OK" "pos s < length d"
    using assms by (auto simp: good_def marks_ok_def marker_def)
  have t: "out_ok d (pos s) 1 (CALLBACK_NOTIFY_NOADVANCE e chunk_complete (UPDATE_STATE s_message_done s) (Reexecute ch))"
    unfolding CALLBACK_NOTIFY_NOADVANCE_def
    by (rule notify_ok) (use assms(1) m in \<open>auto simp: good_def st_ok_def marks_ok_def marker_def jumps_def scans_def\<close>)
  have h: "out_ok d (pos s) 1 (call_headers_complete e
      (set_parser (\<lambda>q. q\<lparr>upgrade := upgrade_value q\<rparr>) (UPDATE_STATE s_headers_done s)) (Reexecute ch))"
    by (rule headers_complete_ok) (use assms(1) m in \<open>auto simp: good_def st_ok_def marks_ok_def marker_def jumps_def scans_def\<close>)
  show ?thesis
    using assms(3) m t h by (auto simp: exec_switch_def on_headers_almost_done_def jumps_def scans_def intro!: strict_ok)
qed

lemma NEW_MESSAGE_states: "NEW_MESSAGE e q \<in> {s_dead, s_start_req, s_start_res}"
  by (simp add: NEW_MESSAGE_def start_state_def)

lemma new_message_ok:
  assumes "quiet e" "http_errno (parser s) = HPE_OK" "pos s < length d" "marks s = Map.empty"
    and k: "\<And>s'. p_state s' \<in> {s_dead, s_start_req, s_start_res} \<Longrightarrow> pos s' = pos s \<Longrightarrow> marks s' = Map.empty \<Longrightarrow>
              http_errno (parser s') = HPE_OK \<Longrightarrow> out_ok d q j (k s')"
  shows "out_ok d q j (new_message e s k)"
  unfolding new_message_def CALLBACK_NOTIFY_def
  by (rule notify_ok) (use assms NEW_MESSAGE_states [of e "parser s"] in \<open>auto simp: st_ok_def intro!: k\<close>)

lemma message_end_states:
  "p_state s \<in> {s_dead, s_start_req, s_start_res} \<Longrightarrow> pos s < length d \<Longrightarrow> marks s = Map.empty \<Longrightarrow>
   http_errno (parser s) = HPE_OK \<Longrightarrow> good k d s"
  by (auto simp: good_def st_ok_def marks_ok_def marker_def)

lemma headers_done_ok:
  assumes "quiet e" "good 1 d s" "p_state s = s_headers_done"
  shows "out_ok d (pos s) (jumps (p_state s)) (exec_switch e d ch s)"
proof -
  have m: "marks s = Map.empty" "http_errno (parser s) = HPE_OK" "pos s < length d"
    using assms by (auto simp: good_def marks_ok_def marker_def)
  let ?s = "reset_nread s"
  have r: "pos ?s = pos s" "marks ?s = marks s" "http_errno (parser ?s) = http_errno (parser s)" "lnread ?s = 0"
    by (simp_all add: reset_nread_def)
  have b: "out_ok d (pos s) 0 (new_message e ?s Break)"
    using assms(1) m r by (intro new_message_ok) (auto intro!: message_end_states)
  have u: "out_ok d (pos s) 0 (new_message e ?s (\<lambda>s. RETURN (pos s + 1) s))"
    using assms(1) m r by (intro new_message_ok) (auto simp: st_ok_def)
  have c: "flag F_CHUNKED (parser ?s) \<Longrightarrow> good 0 d (UPDATE_STATE s_chunk_size_start ?s)"
    "good 0 d (UPDATE_STATE s_body_identity_eof ?s)"
    "content_length (parser ?s) \<noteq> 0 \<Longrightarrow> content_length (parser ?s) \<noteq> ULLONG_MAX \<Longrightarrow> good 0 d (UPDATE_STATE s_body_identity ?s)"
    using m r by (simp_all add: good_def st_ok_def marks_ok_def marker_def)
  have "out_ok d (pos s) 0 (on_headers_done e ch s)"
    unfolding on_headers_done_def Let_def
    by (rule strict_ok) (simp_all add: m less_imp_le b u [simplified] c r)
  then show ?thesis
    using assms(3) by (simp add: exec_switch_def jumps_def scans_def)
qed

lemma take_body_simps [simp]:
  "p_state (take_body d s) = p_state s" "lnread (take_body d s) = lnread s"
  "http_errno (parser (take_body d s)) = http_errno (parser s)" "flags (parser (take_body d s)) = flags (parser s)"
  by (simp_all add: take_body_def MARK_def Let_def)

lemma take_body_pos:
  assumes "pos s < length d" "content_length (parser s) \<noteq> 0"
  shows "pos s \<le> pos (take_body d s)" "pos (take_body d s) < length d"
proof -
  have "unat (content_length (parser s)) \<noteq> 0" using assms(2) by (simp add: unat_eq_0)
  then show "pos s \<le> pos (take_body d s)" "pos (take_body d s) < length d"
    using assms(1) by (auto simp: take_body_def Let_def)
qed

lemma take_body_marks:
  assumes "marks s = Map.empty \<or> (\<exists>m \<le> pos s. marks s = [body \<mapsto> m])"
  shows "\<exists>m \<le> pos s. marks (take_body d s) = [body \<mapsto> m]"
  using assms by (auto simp: take_body_def MARK_def Let_def)

lemma take_body_length:
  assumes "content_length (parser s) \<noteq> ULLONG_MAX" "n \<le> unat (content_length (parser s))"
  shows "content_length (parser s) - of_nat n \<noteq> ULLONG_MAX"
proof
  let ?c = "content_length (parser s)"
  assume a: "?c - of_nat n = ULLONG_MAX"
  have n: "n < 2 ^ 64" using assms(2) unsigned_less [of ?c, where ?'a = nat] by simp
  then have "of_nat n \<le> ?c"
    using assms(2) by (simp add: word_le_nat_alt unat_of_nat take_bit_nat_eq_self)
  then have "?c - of_nat n \<le> ?c" by (rule word_sub_le)
  then have "?c = -1"
    using a word_n1_ge [of ?c] by (simp add: ULLONG_MAX_def order.antisym)
  then show False using assms(1) by (simp add: ULLONG_MAX_def)
qed

lemma body_ok:
  assumes "quiet e" "good 1 d s" "p_state s \<in> {s_body_identity, s_body_identity_eof, s_chunk_data}"
  shows "out_ok d (pos s) (jumps (p_state s)) (exec_switch e d ch s)"
proof -
  let ?s = "take_body d s"
  have m: "marks s = Map.empty \<or> (\<exists>m \<le> pos s. marks s = [body \<mapsto> m])"
    and ok: "http_errno (parser s) = HPE_OK" and p: "pos s < length d"
    using assms by (auto simp: good_def marks_ok_def marker_def)
  show ?thesis
  proof (cases "p_state s = s_body_identity_eof")
    case True
    have "\<exists>m' \<le> pos s. marks (MARK body s) = [body \<mapsto> m']" using m by (auto simp: MARK_def)
    then obtain m' where m': "m' \<le> pos s" "marks (MARK body s) = [body \<mapsto> m']" by blast
    then have "marks (MARK body s) = Map.empty \<or> (\<exists>k \<le> length d - Suc 0. marks (MARK body s) = [body \<mapsto> k])"
      using p by (intro disjI2 exI [of _ m']) auto
    moreover have "parser (MARK body s) = parser s" "p_state (MARK body s) = p_state s" by (simp_all add: MARK_def)
    ultimately show ?thesis
      using True p ok by (auto simp: exec_switch_def on_body_identity_eof_def good_def st_ok_def marks_ok_def marker_def)
  next
    case False
    then have c: "content_length (parser s) \<noteq> 0" "content_length (parser s) \<noteq> ULLONG_MAX"
      using assms by (auto simp: good_def st_ok_def)
    have np: "pos s \<le> pos ?s" "pos ?s < length d" using take_body_pos [OF p c(1)] .
    obtain m' where m': "m' \<le> pos s" "marks ?s = [body \<mapsto> m']" using take_body_marks [OF m] by blast
    have mm: "\<exists>k \<le> pos ?s. marks ?s = [body \<mapsto> k]" using m' np by (intro exI [of _ m']) auto
    have cm: "content_length (parser ?s) \<noteq> ULLONG_MAX"
      using take_body_length [OF c(2)] by (simp add: take_body_def MARK_def Let_def)
    have f: "flag F_CHUNKED (parser ?s) = flag F_CHUNKED (parser s)" by (simp add: flag_def)
    have d: "out_ok d (pos s) 1 (CALLBACK_DATA_at e d body (pos ?s + 1) (pos ?s) (UPDATE_STATE s_message_done ?s) (Reexecute ch))"
      using assms(1) np m' ok
      by (intro data_ok) (auto simp: good_def st_ok_def marks_ok_def marker_def jumps_def scans_def)
    show ?thesis
    proof (cases "p_state s = s_body_identity")
      case True
      then show ?thesis
        using c cm np mm d ok p by (auto simp: exec_switch_def on_body_identity_def Let_def jumps_def scans_def good_def st_ok_def marks_ok_def marker_def)
    next
      case chunk: False
      then show ?thesis
        using False assms c cm np mm ok p f
        by (auto simp: exec_switch_def on_chunk_data_def Let_def good_def st_ok_def marks_ok_def marker_def)
    qed
  qed
qed

lemma unhex_small: "i < 256 \<Longrightarrow> unhex ! i \<noteq> -1 \<Longrightarrow> 0 \<le> unhex ! i \<and> unhex ! i < 16"
proof -
  assume i: "i < 256"
  have "\<forall>v \<in> set unhex. v = -1 \<or> 0 \<le> v \<and> v < 16" by (auto simp: unhex_def)
  moreover have "unhex ! i \<in> set unhex" using i by (intro nth_mem) (simp add: unhex_def)
  ultimately show "unhex ! i \<noteq> -1 \<Longrightarrow> 0 \<le> unhex ! i \<and> unhex ! i < 16" by auto
qed

lemma ULLONG_MAX_value: "ULLONG_MAX = 18446744073709551615"
  unfolding ULLONG_MAX_def by simp

lemma chunk_digit_max:
  assumes "\<not> (ULLONG_MAX - 16) div 16 < c" "0 \<le> v" "v < 16"
  shows "c * 16 + of_int v \<noteq> ULLONG_MAX"
proof
  assume a: "c * 16 + of_int v = ULLONG_MAX"
  have x: "(ULLONG_MAX - 16) div 16 = 1152921504606846974" unfolding ULLONG_MAX_value by simp
  have c: "unat c \<le> 1152921504606846974"
    using assms(1) unfolding x by (simp add: word_less_nat_alt not_less)
  obtain n where n: "v = int n" "n < 16" using assms(2,3) by (cases v) auto
  have s: "unat (c * 16 + of_nat n) = unat c * 16 + n"
    using c n(2) by (simp add: unat_word_ariths unat_of_nat take_bit_nat_eq_self)
  have "unat c * 16 + n = unat (ULLONG_MAX)" using a n(1) s by simp
  then have "unat c * 16 + n = 18446744073709551615" unfolding ULLONG_MAX_value by simp
  then show False using c n(2) by presburger
qed

lemma chunk_ok:
  assumes "quiet e" "good 1 d s"
    "p_state s \<in> {s_chunk_size_start, s_chunk_size, s_chunk_parameters, s_chunk_size_almost_done, s_chunk_data_done}"
  shows "out_ok d (pos s) (jumps (p_state s)) (exec_switch e d ch s)"
proof -
  have m: "marks s = Map.empty" "http_errno (parser s) = HPE_OK" "pos s < length d" "flag F_CHUNKED (parser s)"
    using assms by (auto simp: good_def marks_ok_def marker_def st_ok_def)
  have x: "unat ch < 256" using unsigned_less [of ch, where ?'a = nat] by simp
  consider "p_state s = s_chunk_size_start" | "p_state s = s_chunk_size" | "p_state s = s_chunk_parameters"
    | "p_state s = s_chunk_size_almost_done" | "p_state s = s_chunk_data_done"
    using assms(3) by auto
  then show ?thesis
  proof cases
    case 1
    have "of_int v \<noteq> (ULLONG_MAX :: 64 word)" if "0 \<le> v" "v < 16" for v
      using chunk_digit_max [of 0 v] that by (simp add: ULLONG_MAX_def)
    then show ?thesis using 1 m assms(2) unhex_small [OF x]
      by (auto simp: exec_switch_def on_chunk_size_start_def Let_def good_def st_ok_def marks_ok_def marker_def flag_def)
  next
    case 2
    then show ?thesis using m assms(2) unhex_small [OF x] chunk_digit_max [of "content_length (parser s)" "unhex ! unat ch"]
      by (auto simp: exec_switch_def on_chunk_size_def Let_def good_def st_ok_def marks_ok_def marker_def flag_def)
  next
    case 3
    then show ?thesis using m assms(2)
      by (auto simp: exec_switch_def on_chunk_parameters_def good_def st_ok_def marks_ok_def marker_def flag_def)
  next
    case 4
    then have c: "content_length (parser s) \<noteq> ULLONG_MAX" using assms(2) by (simp add: good_def st_ok_def)
    show ?thesis using 4 m assms(1) c
      by (auto simp: exec_switch_def on_chunk_size_almost_done_def Let_def CALLBACK_NOTIFY_def reset_nread_def set_flag_def good_def
          st_ok_def marks_ok_def marker_def flag_def intro!: strict_ok notify_ok)
  next
    case 5
    then show ?thesis using m assms(1)
      by (auto simp: exec_switch_def on_chunk_data_done_def CALLBACK_NOTIFY_def reset_nread_def good_def
          st_ok_def marks_ok_def marker_def flag_def intro!: strict_ok notify_ok)
  qed
qed

lemma chunk_end_ok:
  assumes "quiet e" "good 1 d s" "p_state s = s_chunk_data_almost_done"
  shows "out_ok d (pos s) (jumps (p_state s)) (exec_switch e d ch s)"
proof -
  have m: "marks s = Map.empty \<or> (\<exists>m \<le> pos s. marks s = [body \<mapsto> m])"
    "http_errno (parser s) = HPE_OK" "pos s < length d" "flag F_CHUNKED (parser s)" "content_length (parser s) = 0"
    using assms by (auto simp: good_def marks_ok_def marker_def st_ok_def)
  have "out_ok d (pos s) 0 (CALLBACK_DATA_at e d body (pos s) (pos s + 1) (UPDATE_STATE s_chunk_data_done s) Break)"
    using m assms(1) by (intro data_ok) (auto simp: good_def st_ok_def marks_ok_def marker_def flag_def)
  then show ?thesis
    using assms(3) m by (auto simp: exec_switch_def on_chunk_data_almost_done_def CALLBACK_DATA_def jumps_def scans_def intro!: strict_ok)
qed

theorem exec_switch_ok:
  assumes "quiet e" "good 1 d s"
  shows "out_ok d (pos s) (jumps (p_state s)) (exec_switch e d ch s)"
proof -
  have f: "out_ok d (pos s) j (on_fixed e want st ch s)"
    if "marker (p_state s) = None" "marker st = None" "\<And>k nr. st_ok k st nr (parser s)" for st j want
    using fixed_ok [OF assms(2) that] .
  note rules = start_ok [OF assms] version_ok [OF assms(2)] status_ok [OF assms] start_req_ok [OF assms] method_ok [OF assms(2)]
    url_start_ok [OF assms(2)] url_ok [OF assms] field_ok [OF assms] value_loop_ok [OF assms] value_start_ok [OF assms(2)]
    between_ok [OF assms(2)] discard_lws_ok [OF assms] almost_done_ok [OF assms] headers_done_ok [OF assms] body_ok [OF assms]
    chunk_ok [OF assms] chunk_end_ok [OF assms]
  have new: "p_state s = s_message_done \<Longrightarrow> ?thesis"
  proof -
    assume st: "p_state s = s_message_done"
    then have m: "marks s = Map.empty" "http_errno (parser s) = HPE_OK" "pos s < length d"
      using assms by (auto simp: good_def marks_ok_def marker_def)
    have "out_ok d (pos s) 0 (new_message e s (\<lambda>s. if upgrade (parser s) then RETURN (pos s + 1) s else Break s))"
      by (rule new_message_ok) (use assms(1) m in \<open>auto simp: st_ok_def intro!: message_end_states\<close>)
    then show ?thesis using st by (simp add: exec_switch_def on_message_done_def jumps_def scans_def)
  qed
  show ?thesis
  proof (cases "p_state s")
  qed (use rules new in \<open>simp_all add: marker_def\<close>,
       (simp add: exec_switch_def, rule f; simp add: marker_def st_ok_def)+)
qed

section \<open>The whole function\<close>

lemma reexecute_ok:
  assumes "quiet e"
  shows "good 1 d s \<Longrightarrow> jumps (p_state s) < n \<Longrightarrow> out_ok d (pos s) 0 (reexecute n e d ch s)"
proof (induction n arbitrary: ch s)
  case (Suc n)
  have ok: "out_ok d (pos s) (jumps (p_state s)) (exec_switch e d ch s)"
    using exec_switch_ok [OF assms Suc.prems(1)] .
  have mono: "out_ok d p j out \<Longrightarrow> p' \<le> p \<Longrightarrow> out_ok d p' j out" for p p' j and out :: "'a outcome"
    by (cases out) auto
  show ?case
  proof (cases "exec_switch e d ch s")
    case (Reexecute ch' s')
    then show ?thesis using ok Suc.IH [of s' ch'] Suc.prems(2) mono by auto
  qed (use ok in auto)
qed simp

definition loop_inv :: "byte list \<Rightarrow> 'd loc \<Rightarrow> bool" where
  "loop_inv d s \<longleftrightarrow>
     http_errno (parser s) = HPE_OK \<and> st_ok 0 (p_state s) (lnread s) (parser s) \<and> marks_ok s \<and> pos s \<le> length d"

lemma marks_ok_lnread [simp]: "marks_ok (s\<lparr>lnread := n\<rparr>) = marks_ok s"
  by (simp add: marks_ok_def split: option.split)

lemma exec_byte_ok:
  assumes "quiet e" "loop_inv d s" "pos s < length d"
  shows "out_ok d (pos s) 0 (exec_byte e d s)"
proof -
  have j: "jumps (p_state s') < 8" for s' :: "'a loc" by (simp add: jumps_def scans_def split: state.split)
  let ?s = "s\<lparr>lnread := lnread s + 1\<rparr>"
  have "good 1 d s" if "\<not> PARSING_HEADER (p_state s)"
    using assms that by (cases "p_state s") (auto simp: loop_inv_def good_def st_ok_def PARSING_HEADER_def flag_def)
  moreover have "good 1 d ?s"
    using assms by (cases "p_state s") (auto simp: loop_inv_def good_def st_ok_def flag_def)
  ultimately show ?thesis
    using assms(3) reexecute_ok [OF assms(1) _ j, of d s "d ! pos s"] reexecute_ok [OF assms(1) _ j, of d ?s "d ! pos s"]
    by (auto simp: exec_byte_def Let_def intro!: count_ok simp del: reexecute.simps)
qed

definition at_end :: "byte list \<Rightarrow> 'd loc \<Rightarrow> bool" where
  "at_end d s \<longleftrightarrow>
     http_errno (parser s) = HPE_OK \<and> st_ok 0 (p_state s) (lnread s) (parser s) \<and>
     st_ok 0 (p_state s) (nread (parser s)) (parser s) \<and> (\<forall>c m. marks s c = Some m \<longrightarrow> m \<le> length d) \<and> pos s = length d"

lemma at_end_callback:
  assumes "quiet e" "at_end d s" "\<And>s'. at_end d s' \<Longrightarrow> out_ok d p j (k s')"
  shows "out_ok d p j (CALLBACK_DATA_NOADVANCE e d c s k)"
  unfolding CALLBACK_DATA_NOADVANCE_def
  by (rule data_ok) (use assms(1,2) in \<open>auto simp: at_end_def intro!: assms(3)\<close>)

lemma loop_inv_marks: "loop_inv d s \<Longrightarrow> marks s = Map.empty \<or> (\<exists>c. \<exists>m \<le> pos s. marks s = [c \<mapsto> m])"
  by (auto simp: loop_inv_def marks_ok_def split: option.splits)

lemma marker_st_ok: "marker st = Some c \<Longrightarrow> st_ok k st nr q \<Longrightarrow> st_ok k st nr' q"
  by (auto simp: marker_def st_ok_def split: state.splits)

lemma leftover_skip:
  "marks s = Map.empty \<Longrightarrow> http_errno (parser s) = HPE_OK \<Longrightarrow> leftover e d s = RETURN (length d) s"
  by (simp add: leftover_def CALLBACK_DATA_NOADVANCE_def CALLBACK_DATA_at_def)

lemma marks_ok_pos: "marks_ok s \<Longrightarrow> pos s \<le> p \<Longrightarrow> marks_ok (s\<lparr>pos := p\<rparr>)"
  using marks_mono [of "marks s" "pos s" _ p] by (auto simp: marks_ok_def split: option.splits)

definition does_return :: "'d outcome \<Rightarrow> bool" where
  "does_return out \<longleftrightarrow> out = Abort \<or> (\<exists>n q. out = Return n q)"

lemma callback_returns: "(\<And>s. does_return (k s)) \<Longrightarrow> does_return (CALLBACK_DATA_NOADVANCE e d c s k)"
  by (auto simp: CALLBACK_DATA_NOADVANCE_def CALLBACK_DATA_at_def after_callback_def Let_def does_return_def split: option.split)

lemma notify_returns: "(\<And>s. does_return (k s)) \<Longrightarrow> does_return (CALLBACK_NOTIFY_at e c er s k)"
  by (auto simp: CALLBACK_NOTIFY_at_def after_callback_def Let_def does_return_def split: option.split)

lemma leftover_returns: "does_return (leftover e d s)"
proof -
  have "does_return (RETURN n s)" for n and s :: "'a loc" by (simp add: does_return_def RETURN_def)
  moreover have "does_return Abort" by (simp add: does_return_def)
  ultimately show ?thesis unfolding leftover_def by (auto intro!: callback_returns)
qed

lemma leftover_ok:
  assumes "quiet e" "loop_inv d s" "pos s = length d"
  shows "out_ok d p 0 (leftover e d s)"
proof (cases "marks s = Map.empty")
  case True
  then show ?thesis using assms by (simp add: leftover_skip loop_inv_def)
next
  case False
  then obtain c where "marker (p_state s) = Some c"
    using assms(2) by (auto simp: loop_inv_def marks_ok_def split: option.splits)
  then have "st_ok 0 (p_state s) (nread (parser s)) (parser s)"
    using assms(2) marker_st_ok unfolding loop_inv_def by blast
  then have w: "at_end d s"
    using assms loop_inv_marks [OF assms(2)] by (auto simp: at_end_def loop_inv_def split: if_splits)
  have one: "length (filter (\<lambda>c. marks s c \<noteq> None) [header_field, header_value, url, body, status]) \<le> 1"
    using loop_inv_marks [OF assms(2)]
  proof (elim disjE exE conjE)
    fix c m assume "marks s = [c \<mapsto> m]"
    then show ?thesis by (cases c) simp_all
  qed simp
  have r: "out_ok d p 0 (RETURN (length d) s')" if "at_end d s'" for s'
    using that by (simp add: at_end_def)
  have "out_ok d p 0 (CALLBACK_DATA_NOADVANCE e d header_field s (\<lambda>s.
           CALLBACK_DATA_NOADVANCE e d header_value s (\<lambda>s.
           CALLBACK_DATA_NOADVANCE e d url s (\<lambda>s.
           CALLBACK_DATA_NOADVANCE e d body s (\<lambda>s.
           CALLBACK_DATA_NOADVANCE e d status s (RETURN (length d)))))))"
    by (intro at_end_callback assms(1) w r) simp_all
  then show ?thesis using one by (simp add: leftover_def)
qed

lemma error_exit_ok: "http_errno (parser s) \<notin> {HPE_OK, HPE_PAUSED} \<Longrightarrow> \<exists>q. error_exit s = Return (pos s) q \<and> http_errno q \<notin> {HPE_OK, HPE_PAUSED}"
  by (auto simp: error_exit_def RETURN_def)

lemma exec_loop_ok:
  assumes "quiet e"
  shows "loop_inv d s \<Longrightarrow> length d \<le> pos s + n \<Longrightarrow>
    \<exists>m q. exec_loop n e d s = Return m q \<and> m \<le> length d \<and> (hp_inv q \<or> http_errno q \<notin> {HPE_OK, HPE_PAUSED})"
proof (induction n arbitrary: s)
  case 0
  then have "pos s = length d" by (simp add: loop_inv_def)
  then have "out_ok d 0 0 (leftover e d s)" "exec_loop 0 e d s = leftover e d s"
    using leftover_ok [OF assms 0(1)] by (simp_all add: exec_loop.simps)
  then show ?case using leftover_returns [of e d s] by (auto simp: does_return_def)
next
  case (Suc n)
  show ?case
  proof (cases "pos s = length d")
    case True
    then have "out_ok d 0 0 (leftover e d s)" "exec_loop (Suc n) e d s = leftover e d s"
      using leftover_ok [OF assms Suc.prems(1)] by (simp_all add: exec_loop.simps)
    then show ?thesis using leftover_returns [of e d s] by (auto simp: does_return_def)
  next
    case False
    then have lt: "pos s < length d" using Suc.prems(1) by (simp add: loop_inv_def)
    then have ok: "out_ok d (pos s) 0 (exec_byte e d s)" by (rule exec_byte_ok [OF assms Suc.prems(1)])
    show ?thesis
    proof (cases "exec_byte e d s")
      case (Break s')
      then have "loop_inv d (s'\<lparr>pos := pos s' + 1\<rparr>)" "length d \<le> pos s' + 1 + n"
        using ok Suc.prems(2) by (auto simp: loop_inv_def good_def marks_ok_pos)
      then show ?thesis
        using Suc.IH [of "s'\<lparr>pos := pos s' + 1\<rparr>"] Break lt by (simp add: exec_loop.simps [of "Suc n"])
    next
      case (Error s')
      then show ?thesis
        using ok lt error_exit_ok [of s'] by (auto simp: exec_loop.simps)
    qed (use ok lt in \<open>auto simp: exec_loop.simps\<close>)
  qed
qed

text \<open>C7: whatever bytes arrive, in whatever pieces, the parser neither fails an assertion nor leaves an array.  The bytes are arbitrary, the
  callbacks may return anything, change the application data and set the error number, and \<open>q\<close> is the freshly initialised parser or
  one that earlier calls left.  Every call does_return; it never reports more bytes than it was given, except for one at the end of the input in the
  middle of a message; and the parser stays fit for the next call, also when a callback
  paused it, unless it ends in an error.\<close>

theorem http_parser_execute_safe:
  assumes "quiet e" "hp_inv q"
  shows "\<exists>n q'. http_parser_execute e q d = Return n q' \<and> n \<le> max 1 (length d) \<and>
           (hp_inv q' \<or> http_errno q' \<notin> {HPE_OK, HPE_PAUSED})"
proof (cases "http_errno q = HPE_OK \<and> d \<noteq> []")
  case True
  have "loop_inv d (enter q)"
    using True assms(2)
    by (auto simp: loop_inv_def enter_def hp_inv_def marks_ok_def marker_def initial_marks_def fun_eq_iff
        split: state.split cb_data.split)
  then show ?thesis
    using exec_loop_ok [OF assms(1), of d "enter q" "length d"] True by (auto simp: http_parser_execute_def)
next
  case False
  show ?thesis
  proof (cases "pstate q = s_body_identity_eof \<and> http_errno q = HPE_OK")
    case True
    have "out_ok d 0 0 (CALLBACK_NOTIFY_at e message_complete 0 ((enter q)\<lparr>marks := (\<lambda>c. None)\<rparr>) (\<lambda>s. Return 0 (parser s)))"
      by (rule notify_ok) (use True assms in \<open>auto simp: enter_def hp_inv_def st_ok_def\<close>)
    moreover have "does_return (CALLBACK_NOTIFY_at e message_complete 0 ((enter q)\<lparr>marks := (\<lambda>c. None)\<rparr>) (\<lambda>s. Return 0 (parser s)))"
      by (rule notify_returns) (simp add: does_return_def)
    ultimately show ?thesis
      using True False by (auto simp: http_parser_execute_def CALLBACK_NOTIFY_NOADVANCE_def enter_def does_return_def)
  qed (use False assms in \<open>auto simp: http_parser_execute_def hp_inv_def split: state.split\<close>)
qed

lemma http_parser_init_inv: "hp_inv (http_parser_init t q)"
  by (simp add: hp_inv_def st_ok_def http_parser_init_def)

text \<open>A strict parser whose callbacks collect the data they are given.\<close>

definition collecting :: "(cb_data \<times> byte list) list env" where
  "collecting =
     \<lparr>strict = True, max_header_size = 81920, on_notify = (\<lambda>c. None),
      on_data = (\<lambda>c. Some (\<lambda>q d. (0, q\<lparr>pdata := pdata q @ [(c, d)]\<rparr>)))\<rparr>"

definition fresh_parser :: "(cb_data \<times> byte list) list hp" where
  "fresh_parser =
     \<lparr>ptype = HTTP_REQUEST, flags = 0, pstate = s_start_req, header_state = h_general, index = 0, lenient_http_headers = False,
      nread = 0, content_length = 0, http_major = 0, http_minor = 0, pstatus_code = 0, pmethod = HTTP_DELETE, http_errno = HPE_OK,
      upgrade = False, pdata = []\<rparr>"

lemma collecting_quiet: "quiet collecting"
proof -
  have "\<exists>x y. q\<lparr>pdata := pdata q @ [(c, d)]\<rparr> = q\<lparr>pdata := x, http_errno := y\<rparr>" for q :: "(cb_data \<times> byte list) list hp" and c d
    by (rule exI [of _ "pdata q @ [(c, d)]"], rule exI [of _ "http_errno q"]) simp
  then show ?thesis by (auto simp: quiet_def collecting_def)
qed

theorem http_parser_execute_safe_witness:
  "quiet collecting \<and> hp_inv (http_parser_init HTTP_REQUEST fresh_parser) \<and>
   (\<exists>n q'. http_parser_execute collecting (http_parser_init HTTP_REQUEST fresh_parser) (map of_char ''GET /a?b HTTP/1.1'') = Return n q' \<and>
      n \<le> max 1 (length (map of_char ''GET /a?b HTTP/1.1'' :: byte list)) \<and>
      (hp_inv q' \<or> http_errno q' \<notin> {HPE_OK, HPE_PAUSED}))"
  using http_parser_execute_safe [OF collecting_quiet http_parser_init_inv] collecting_quiet http_parser_init_inv by blast

end
