(* ===== verification/HttpParserScan.thy ===== *)
theory HttpParserScan
  imports HttpParserSafe
begin

text \<open>
  Three views of one round of \<open>http_parser_execute\<close> that its users need: the loops over a header field and a header value character by
  character, what a round does to two parsers that differ only in fields it does not read, and how far it counts the bytes of the header.
\<close>

section \<open>The inner loops, character by character\<close>

text \<open>Without the shortcuts for \<open>h_general\<close>: what the loops do to one character at a time.\<close>

fun hf_ref :: "'d env \<Rightarrow> byte list \<Rightarrow> 'd hp \<Rightarrow> ('d hp \<times> nat) option" where
  "hf_ref e [] q = Some (q, 0)"
| "hf_ref e (ch # r) q =
     (if TOKEN e ch = 0 then Some (q, 0)
      else case (if header_state q = h_general then Some q else hf_char ch (TOKEN e ch) q) of
        None \<Rightarrow> None
      | Some q \<Rightarrow> map_option (apsnd Suc) (hf_ref e r q))"

fun hv_add :: "nat \<Rightarrow> 'd hv \<Rightarrow> 'd hv" where
  "hv_add k (HvEnd h q n) = HvEnd h q (k + n)"
| "hv_add k (HvCR h q n) = HvCR h q (k + n)"
| "hv_add k (HvLF h q n) = HvLF h q (k + n)"
| "hv_add k (HvErr c q n) = HvErr c q (k + n)"
| "hv_add k HvAssert = HvAssert"

fun hv_ref :: "bool \<Rightarrow> byte list \<Rightarrow> header_states \<Rightarrow> 'd hp \<Rightarrow> 'd hv" where
  "hv_ref l [] h q = HvEnd h q 0"
| "hv_ref l (ch # r) h q =
     (if ch = ch_CR then HvCR h q 0
      else if ch = ch_LF then HvLF h q 0
      else if \<not> value_ok l ch then HvErr HPE_INVALID_HEADER_TOKEN q 0
      else case (if h = h_general then Some (Inr (h, q)) else hv_char ch h q) of
        None \<Rightarrow> HvAssert
      | Some (Inl (c, q)) \<Rightarrow> HvErr c q 0
      | Some (Inr (h, q)) \<Rightarrow> hv_add 1 (hv_ref l r h q))"

lemma hv_add_simps [simp]: "hv_add 0 x = x" "hv_add j (hv_add k x) = hv_add (j + k) x"
  by (cases x; simp)+

lemma hf_ref_general:
  "header_state q = h_general \<Longrightarrow> hf_ref e r q = Some (q, length (takeWhile (\<lambda>c. TOKEN e c \<noteq> 0) r))"
  by (induction r) auto

lemma hf_scan_ref:
  "length r \<le> unat (max_header_size e) \<Longrightarrow> hf_scan e r q n = map_option (apsnd ((+) n)) (hf_ref e r q)"
proof (induction e r q n rule: hf_scan.induct)
  case (2 e ch r q n)
  show ?case
  proof (cases "TOKEN e ch = 0")
    case tok: False
    show ?thesis
    proof (cases "header_state q = h_general")
      case True
      define k where "k = length (takeWhile (\<lambda>c. TOKEN e c \<noteq> 0) (take (min (Suc (length r)) (unat (max_header_size e)) - 1) r))"
      have k: "k = length (takeWhile (\<lambda>c. TOKEN e c \<noteq> 0) r)"
        using "2.prems" by (simp add: k_def)
      have d: "takeWhile (\<lambda>c. TOKEN e c \<noteq> 0) (drop k r) = []"
        unfolding k by (simp flip: dropWhile_eq_drop) (metis hd_dropWhile takeWhile_eq_Nil_iff)
      have "hf_scan e (ch # r) q n = hf_scan e (drop k r) q (n + k + 1)"
        using True tok by (simp add: k_def Let_def)
      also have "\<dots> = map_option (apsnd ((+) (n + k + 1))) (hf_ref e (drop k r) q)"
        by (rule "2.IH"(1) [OF tok True k_def]) (use "2.prems" in simp)
      also have "\<dots> = Some (q, n + k + 1)"
        using d by (simp add: hf_ref_general [OF True])
      finally show ?thesis using True tok by (simp add: hf_ref_general k)
    next
      case False
      then show ?thesis
        using 2 tok by (auto simp: option.map_comp comp_def apsnd_def map_prod_def split: option.split prod.split
          intro!: arg_cong2 [where f = map_option])
    qed
  qed simp
qed simp

lemma hv_ref_general:
  "hv_ref l r h_general q =
     (let k = length (takeWhile (\<lambda>c. \<not> is_eol c \<and> value_ok l c) r)
      in if k = length r then HvEnd h_general q k
         else if r ! k = ch_CR then HvCR h_general q k
         else if r ! k = ch_LF then HvLF h_general q k
         else HvErr HPE_INVALID_HEADER_TOKEN q k)"
  by (induction r) (auto simp: Let_def is_eol_def)

lemma takeWhile_shorter: "length (takeWhile P r) \<noteq> length r \<Longrightarrow> length (takeWhile P r) < length r"
  using length_takeWhile_le [of P r] by simp

lemma hv_scan_ref:
  "length r \<le> mx \<Longrightarrow> hv_scan l mx r h q n = hv_add n (hv_ref l r h q)"
proof (induction l mx r h q n rule: hv_scan.induct)
  case (2 l mx ch r h q n)
  show ?case
  proof (cases "ch = ch_CR \<or> ch = ch_LF \<or> \<not> value_ok l ch")
    case False
    then have ch: "ch \<noteq> ch_CR" "ch \<noteq> ch_LF" "value_ok l ch" by auto
    show ?thesis
    proof (cases "h = h_general")
      case True
      define w where "w = take mx (ch # r)"
      define k where "k = length (takeWhile (\<lambda>c. \<not> is_eol c \<and> value_ok l c) w)"
      have w: "w = ch # r" using "2.prems" by (simp add: w_def)
      have k0: "0 < k" using ch by (simp add: k_def w is_eol_def)
      have eq: "hv_scan l mx (ch # r) h q n =
          (if k < length w
           then if is_eol (w ! k) then hv_scan l mx (drop (k - 1) r) h q (n + k) else HvErr HPE_INVALID_HEADER_TOKEN q (n + k)
           else if k = Suc (length r) then HvEnd h q (n + k)
           else hv_scan l mx (drop k r) h q (n + k + 1))"
        using True ch by (simp add: w_def k_def Let_def)
      have ref: "hv_ref l (ch # r) h q =
          (if k = length w then HvEnd h q k
           else if w ! k = ch_CR then HvCR h q k
           else if w ! k = ch_LF then HvLF h q k
           else HvErr HPE_INVALID_HEADER_TOKEN q k)"
        unfolding True w [symmetric] by (subst hv_ref_general) (simp add: k_def [symmetric] Let_def)
      have le: "k \<le> length w" unfolding k_def by (rule length_takeWhile_le)
      show ?thesis
      proof (cases "k = length w")
        case True
        then show ?thesis using eq ref w by simp
      next
        case False
        then have lt: "k < length w" using le by simp
        show ?thesis
        proof (cases "is_eol (w ! k)")
          case eol: True
          have "drop (k - 1) r = drop k w" using k0 by (cases k) (simp_all add: w)
          also have "\<dots> = w ! k # drop (Suc k) w" using lt by (simp add: Cons_nth_drop_Suc)
          finally have "hv_scan l mx (drop (k - 1) r) h q (n + k) = (if w ! k = ch_CR then HvCR h q (n + k) else HvLF h q (n + k))"
            using eol by (auto simp: is_eol_def)
          then show ?thesis using eq ref lt eol by (auto simp: is_eol_def ch_CR_def ch_LF_def)
        next
          case no: False
          then show ?thesis using eq ref lt by (auto simp: is_eol_def)
        qed
      qed
    next
      case general: False
      show ?thesis
      proof (cases "hv_char ch h q")
        case (Some x)
        then show ?thesis
          using "2.IH"(3) [OF _ _ _ general Some] "2.prems" ch general by (cases x) (auto split: prod.split)
      qed (use ch general in simp)
    qed
  qed auto
qed simp

text \<open>Stopping at the end of a piece and going on with the next one.\<close>

text \<open>C19: the fast loops over a header field and a header value do what a loop over the single characters does.  In an unmatched header
  both look ahead for the end of the text, up to \<open>max_header_size\<close> characters at a time, and step back at its end; on a piece that is no longer
  than that the result, the new matcher state and parser, the place where the loop stops and the error are the same as when every character goes
  through the matcher alone.\<close>

theorem header_loops_by_characters:
  assumes "length r \<le> unat (max_header_size e)"
  shows "hf_scan e r q n = map_option (apsnd ((+) n)) (hf_ref e r q) \<and>
         hv_scan l (unat (max_header_size e)) r h q n = hv_add n (hv_ref l r h q)"
  using hf_scan_ref [OF assms] hv_scan_ref [OF assms] by blast

theorem header_loops_by_characters_witness:
  "length (map of_char ''Accept: x'' :: byte list) \<le> unat (max_header_size collecting) \<and>
   hf_scan collecting (map of_char ''Accept: x'') fresh_parser 0 = Some (fresh_parser, 6) \<and>
   hv_scan False (unat (max_header_size collecting)) (map of_char ''Accept: x'') h_general fresh_parser 0 = HvEnd h_general fresh_parser 9"
proof -
  have len: "length (map of_char ''Accept: x'' :: byte list) \<le> unat (max_header_size collecting)"
    by (simp add: collecting_def)
  have "hf_ref collecting (map of_char ''Accept: x'') fresh_parser = Some (fresh_parser, 6)"
    by code_simp
  moreover have "hv_ref False (map of_char ''Accept: x'') h_general fresh_parser = HvEnd h_general fresh_parser 9"
    by code_simp
  ultimately show ?thesis
    using header_loops_by_characters [OF len, of fresh_parser 0 False h_general] len by simp
qed

lemma apsnd_Suc_add: "apsnd Suc \<circ> apsnd ((+) k) = apsnd ((+) (Suc k))"
  by (auto simp: fun_eq_iff)

lemma hf_ref_append:
  "hf_ref e (r @ b) q =
     (case hf_ref e r q of
        None \<Rightarrow> None
      | Some (q1, k) \<Rightarrow> if k = length r then map_option (apsnd ((+) k)) (hf_ref e b q1) else Some (q1, k))"
proof (induction r arbitrary: q)
  case Nil
  show ?case by (cases "hf_ref e b q") auto
next
  case (Cons ch r)
  then show ?case
    by (auto simp: option.map_comp apsnd_Suc_add split: option.split prod.split)
qed

lemma hf_ref_le: "hf_ref e r q = Some (q', k) \<Longrightarrow> k \<le> length r"
  by (induction r arbitrary: q k) (auto split: if_splits option.splits)

lemma hv_ref_append:
  "hv_ref l (r @ b) h q =
     (case hv_ref l r h q of HvEnd h1 q1 k \<Rightarrow> hv_add k (hv_ref l b h1 q1) | x \<Rightarrow> x)"
  by (induction r arbitrary: h q) (auto split: option.split sum.split hv.split)

lemma hv_add_iff:
  "hv_add j x = HvEnd h q k \<longleftrightarrow> (\<exists>n. x = HvEnd h q n \<and> k = j + n)"
  "hv_add j x = HvCR h q k \<longleftrightarrow> (\<exists>n. x = HvCR h q n \<and> k = j + n)"
  "hv_add j x = HvLF h q k \<longleftrightarrow> (\<exists>n. x = HvLF h q n \<and> k = j + n)"
  "hv_add j x = HvErr c q k \<longleftrightarrow> (\<exists>n. x = HvErr c q n \<and> k = j + n)"
  "hv_add j x = HvAssert \<longleftrightarrow> x = HvAssert"
  by (cases x; auto)+

lemma hv_ref_end: "hv_ref l r h q = HvEnd h' q' k \<Longrightarrow> k = length r"
proof (induction r arbitrary: h q k)
  case (Cons ch r)
  then show ?case
    by (auto simp: hv_add_iff split: if_splits option.splits sum.splits prod.splits)
qed simp

section \<open>Parsers that differ in what the loops do not read\<close>

definition put :: "'d \<Rightarrow> state \<Rightarrow> 32 word \<Rightarrow> 'd hp \<Rightarrow> 'd hp" where
  "put x y z q = q\<lparr>pdata := x, pstate := y, nread := z\<rparr>"

lemma put_sel [simp]:
  "ptype (put x y z q) = ptype q" "flags (put x y z q) = flags q" "pstate (put x y z q) = y"
  "header_state (put x y z q) = header_state q" "index (put x y z q) = index q"
  "lenient_http_headers (put x y z q) = lenient_http_headers q" "nread (put x y z q) = z"
  "content_length (put x y z q) = content_length q" "http_major (put x y z q) = http_major q"
  "http_minor (put x y z q) = http_minor q" "pstatus_code (put x y z q) = pstatus_code q" "pmethod (put x y z q) = pmethod q"
  "http_errno (put x y z q) = http_errno q" "upgrade (put x y z q) = upgrade q" "pdata (put x y z q) = x"
  by (simp_all add: put_def)

lemma put_upd [simp]:
  "(put x y z q)\<lparr>ptype := a\<rparr> = put x y z (q\<lparr>ptype := a\<rparr>)" "(put x y z q)\<lparr>flags := b\<rparr> = put x y z (q\<lparr>flags := b\<rparr>)"
  "(put x y z q)\<lparr>header_state := c\<rparr> = put x y z (q\<lparr>header_state := c\<rparr>)" "(put x y z q)\<lparr>index := i\<rparr> = put x y z (q\<lparr>index := i\<rparr>)"
  "(put x y z q)\<lparr>content_length := l\<rparr> = put x y z (q\<lparr>content_length := l\<rparr>)"
  "(put x y z q)\<lparr>http_major := i\<rparr> = put x y z (q\<lparr>http_major := i\<rparr>)" "(put x y z q)\<lparr>http_minor := i\<rparr> = put x y z (q\<lparr>http_minor := i\<rparr>)"
  "(put x y z q)\<lparr>pstatus_code := i\<rparr> = put x y z (q\<lparr>pstatus_code := i\<rparr>)" "(put x y z q)\<lparr>pmethod := m\<rparr> = put x y z (q\<lparr>pmethod := m\<rparr>)"
  "(put x y z q)\<lparr>http_errno := e\<rparr> = put x y z (q\<lparr>http_errno := e\<rparr>)" "(put x y z q)\<lparr>upgrade := u\<rparr> = put x y z (q\<lparr>upgrade := u\<rparr>)"
  "(put x y z q)\<lparr>pdata := x'\<rparr> = put x' y z q" "(put x y z q)\<lparr>pstate := y'\<rparr> = put x y' z q" "(put x y z q)\<lparr>nread := z'\<rparr> = put x y z' q"
  by (simp_all add: put_def)

lemma put_fun [simp]:
  "set_flag f (put x y z q) = put x y z (set_flag f q)" "index_inc (put x y z q) = put x y z (index_inc q)"
  "flag f (put x y z q) = flag f q" "clear_message (put x y z q) = put x y z (clear_message q)"
  "connection_flag h (put x y z q) = put x y z (connection_flag h q)"
  "chunked_flag h (put x y z q) = put x y z (chunked_flag h q)"
  "http_message_needs_eof (put x y z q) = http_message_needs_eof q" "upgrade_value (put x y z q) = upgrade_value q"
  "http_should_keep_alive (put x y z q) = http_should_keep_alive q" "NEW_MESSAGE e (put x y z q) = NEW_MESSAGE e q"
  by (simp_all add: set_flag_def index_inc_def flag_def clear_message_def connection_flag_def chunked_flag_def upgrade_value_def
      http_message_needs_eof_def http_should_keep_alive_def NEW_MESSAGE_def start_state_def split: header_states.split)

lemma match_field_put [simp]: "match_field lit c yes (put x y z q) = put x y z (match_field lit c yes q)"
  by (simp add: match_field_def Let_def)

lemma hf_char_put [simp]: "hf_char ch c (put x y z q) = map_option (put x y z) (hf_char ch c q)"
  by (simp add: hf_char_def split: header_states.split)

lemma hf_ref_put [simp]: "hf_ref e r (put x y z q) = map_option (apfst (put x y z)) (hf_ref e r q)"
proof (induction r arbitrary: q)
  case (Cons ch r)
  show ?case
    by (cases "hf_char ch (TOKEN e ch) q"; cases "hf_ref e r q")
      (auto simp: Cons option.map_comp comp_def map_prod_def apsnd_def apfst_def split_def split: option.split)
qed simp

fun hv_map :: "('d hp \<Rightarrow> 'd hp) \<Rightarrow> 'd hv \<Rightarrow> 'd hv" where
  "hv_map f (HvEnd h q n) = HvEnd h (f q) n"
| "hv_map f (HvCR h q n) = HvCR h (f q) n"
| "hv_map f (HvLF h q n) = HvLF h (f q) n"
| "hv_map f (HvErr c q n) = HvErr c (f q) n"
| "hv_map f HvAssert = HvAssert"

lemma hv_map_add [simp]: "hv_map f (hv_add k x) = hv_add k (hv_map f x)"
  by (cases x) auto

lemma after_token_put [simp]: "after_token ch h (put x y z q) = apsnd (put x y z) (after_token ch h q)"
  by (simp add: after_token_def)

lemma length_digit_put [simp]:
  "length_digit ch (put x y z q) = map_sum (apsnd (put x y z)) (apsnd (put x y z)) (length_digit ch q)"
  by (simp add: length_digit_def Let_def)

lemma match_value_put [simp]: "match_value lit c h yes no (put x y z q) = apsnd (put x y z) (match_value lit c h yes no q)"
  by (simp add: match_value_def Let_def)

lemma hv_char_put [simp]:
  "hv_char ch h (put x y z q) = map_option (map_sum (apsnd (put x y z)) (apsnd (put x y z))) (hv_char ch h q)"
  by (simp add: hv_char_def Let_def split: header_states.split)

lemma hv_ref_put [simp]: "hv_ref l r h (put x y z q) = hv_map (put x y z) (hv_ref l r h q)"
proof (induction r arbitrary: h q)
  case (Cons ch r)
  show ?case by (auto simp: Cons split: option.split sum.split)
qed simp

definition set_hs :: "header_states \<Rightarrow> 'd hp \<Rightarrow> 'd hp" where
  "set_hs h q = q\<lparr>header_state := h\<rparr>"

lemma set_hs_simps [simp]:
  "set_hs z (set_hs w q) = set_hs z q" "(set_hs w q)\<lparr>header_state := z\<rparr> = set_hs z q" "set_hs z (q\<lparr>header_state := w\<rparr>) = set_hs z q"
  "set_hs z (put x y n q) = put x y n (set_hs z q)"
  by (simp_all add: set_hs_def)

lemma hv_char_hs:
  "map_option (map_sum (apsnd (set_hs z)) (apsnd (set_hs z))) (hv_char ch h (set_hs w q)) =
   map_option (map_sum (apsnd (set_hs z)) (apsnd (set_hs z))) (hv_char ch h q)"
  by (simp add: hv_char_def Let_def set_hs_def length_digit_def match_value_def after_token_def connection_flag_def set_flag_def
      index_inc_def split: header_states.split)

lemma related_results:
  assumes "map_option (map_sum (apsnd f) (apsnd f)) y = map_option (map_sum (apsnd f) (apsnd f)) x"
  obtains "x = None" "y = None"
    | c q1 q2 where "x = Some (Inl (c, q1))" "y = Some (Inl (c, q2))" "f q1 = f q2"
    | h q1 q2 where "x = Some (Inr (h, q1))" "y = Some (Inr (h, q2))" "f q1 = f q2"
  using assms by (cases x; cases y) (auto simp: map_sum_def split: sum.splits)

lemma hv_map_comp: "hv_map f (hv_map g x) = hv_map (f \<circ> g) x"
  by (cases x) auto

lemma hv_ref_hs:
  fixes q :: "'d hp"
  shows "hv_map (set_hs z) (hv_ref l r h (set_hs w q)) = hv_map (set_hs z) (hv_ref l r h q)"
proof (induction r arbitrary: h q w)
  case (Cons ch r)
  have c: "map_option (map_sum (apsnd (set_hs z)) (apsnd (set_hs z))) (hv_char ch h (set_hs w q)) =
    map_option (map_sum (apsnd (set_hs z)) (apsnd (set_hs z))) (hv_char ch h q)" by (rule hv_char_hs)
  have i: "set_hs z q1 = set_hs z q2 \<Longrightarrow> hv_map (set_hs z) (hv_ref l r h' q1) = hv_map (set_hs z) (hv_ref l r h' q2)" for h' and q1 q2 :: "'d hp"
    using Cons.IH [of h' z q1] Cons.IH [of h' z q2] by simp
  show ?case
  proof (cases "h = h_general")
    case True
    then show ?thesis using Cons by simp
  next
    case False
    consider "hv_char ch h q = None" "hv_char ch h (set_hs w q) = None"
      | e q1 q2 where "hv_char ch h q = Some (Inl (e, q1))" "hv_char ch h (set_hs w q) = Some (Inl (e, q2))" "set_hs z q1 = set_hs z q2"
      | h' q1 q2 where "hv_char ch h q = Some (Inr (h', q1))" "hv_char ch h (set_hs w q) = Some (Inr (h', q2))" "set_hs z q1 = set_hs z q2"
      by (rule related_results [OF c]) blast+
    then show ?thesis
    proof cases
      case (3 h' q1 q2)
      then show ?thesis using False i [OF 3(3)] by simp
    qed (use False in simp_all)
  qed
qed simp

section \<open>How far the count of header bytes goes\<close>

definition counts :: "nat \<Rightarrow> 'd outcome \<Rightarrow> bool" where
  "counts b out \<longleftrightarrow>
     (case out of
        Break s \<Rightarrow> unat (lnread s) \<le> b + pos s
      | Reexecute ch s \<Rightarrow> unat (lnread s) \<le> b + pos s
      | _ \<Rightarrow> True)"

lemma counts_simps [simp]:
  "counts b (Break s) \<longleftrightarrow> unat (lnread s) \<le> b + pos s" "counts b (Reexecute ch s) \<longleftrightarrow> unat (lnread s) \<le> b + pos s"
  "counts b (goto_error c s)" "counts b (Error s)" "counts b (Return n q)" "counts b Abort" "counts b (RETURN n s)"
  by (simp_all add: counts_def goto_error_def RETURN_def)

lemma unat_add_of_nat: "unat (x + of_nat n :: 32 word) \<le> unat x + n"
proof -
  have "unat (x + of_nat n :: 32 word) = (unat x + n) mod 2 ^ 32"
    by (simp add: unat_word_ariths unat_of_nat take_bit_eq_mod mod_add_right_eq)
  then show ?thesis by simp
qed

lemma counts_callback:
  "(\<And>s'. lnread s' = lnread s \<Longrightarrow> pos s' = pos s \<Longrightarrow> counts b (k s')) \<Longrightarrow> counts b (after_callback c er rq s k)"
  "(\<And>s'. lnread s' = lnread s \<Longrightarrow> pos s' = pos s \<Longrightarrow> counts b (k s')) \<Longrightarrow> counts b (CALLBACK_NOTIFY_at e c' er s k)"
  "(\<And>s'. lnread s' = lnread s \<Longrightarrow> pos s' = pos s \<Longrightarrow> counts b (k s')) \<Longrightarrow> counts b (CALLBACK_DATA_at e d c'' to er s k)"
  by (auto simp: after_callback_def CALLBACK_NOTIFY_at_def CALLBACK_DATA_at_def Let_def split: option.split)

lemma counts_header [intro!]:
  "counts b (k (s\<lparr>lnread := lnread s + of_nat n\<rparr>)) \<Longrightarrow> counts b (COUNT_HEADER_SIZE e n s k)"
  "counts b k' \<Longrightarrow> counts b (STRICT_CHECK e c s k')"
  by (simp_all add: COUNT_HEADER_SIZE_def STRICT_CHECK_def Let_def)

lemma counts_headers_complete:
  "(\<And>s'. lnread s' = lnread s \<Longrightarrow> pos s' = pos s \<Longrightarrow> counts b (k s')) \<Longrightarrow> counts b (call_headers_complete e s k)"
  by (auto simp: call_headers_complete_def Let_def split: option.split prod.split)

lemma counts_new_message:
  "(\<And>s'. lnread s' = lnread s \<Longrightarrow> pos s' = pos s \<Longrightarrow> counts b (k s')) \<Longrightarrow> counts b (new_message e s k)"
  by (auto simp: new_message_def CALLBACK_NOTIFY_def intro!: counts_callback)

lemma MARK_simps [simp]:
  "pos (MARK c s) = pos s" "lnread (MARK c s) = lnread s" "parser (MARK c s) = parser s" "p_state (MARK c s) = p_state s"
  "lenient (MARK c s) = lenient s"
  by (simp_all add: MARK_def)

lemma reset_nread_simps [simp]: "pos (reset_nread s) = pos s" "lnread (reset_nread s) = 0"
  by (simp_all add: reset_nread_def)

lemmas callback_defs = CALLBACK_NOTIFY_def CALLBACK_NOTIFY_NOADVANCE_def CALLBACK_DATA_def CALLBACK_DATA_NOADVANCE_def

lemma counts_start_line:
  assumes "unat (lnread s) \<le> b + pos s"
  shows "counts b (on_dead ch s)" "counts b (on_start_req_or_res e ch s)" "counts b (on_res_or_resp_H ch s)"
    "counts b (on_start_res e ch s)" "counts b (on_fixed e want st ch s)" "counts b (on_http_major st ch s)"
    "counts b (on_http_dot st ch s)" "counts b (on_http_minor st ch s)" "counts b (on_res_http_end ch s)"
    "counts b (on_res_first_status_code ch s)" "counts b (on_res_status_code ch s)" "counts b (on_res_status_start ch s)"
    "counts b (on_res_status e d ch s)" "counts b (on_start_req e ch s)" "counts b (on_req_method ch s)"
  using assms
  by (auto simp: on_dead_def on_start_req_or_res_def on_res_or_resp_H_def on_start_res_def on_fixed_def on_http_major_def
      on_http_dot_def on_http_minor_def on_res_http_end_def on_res_first_status_code_def on_res_status_code_def
      on_res_status_start_def on_res_status_def on_start_req_def on_req_method_def Let_def callback_defs
      split: option.split intro!: counts_callback)

lemma counts_url:
  assumes "unat (lnread s) \<le> b + pos s"
  shows "counts b (url_char e ch s)" "counts b (on_req_spaces_before_url e ch s)" "counts b (on_req_schema e ch s)"
    "counts b (on_req_server e d ch s)" "counts b (on_req_http_start ch s)" "counts b (on_req_http_end ch s)"
    "counts b (on_req_line_almost_done ch s)" "counts b (on_header_field_start e ch s)"
  using assms
  by (auto simp: url_char_def on_req_spaces_before_url_def on_req_schema_def on_req_server_def on_req_http_start_def
      on_req_http_end_def on_req_line_almost_done_def on_header_field_start_def Let_def callback_defs intro!: counts_callback)

lemma counts_header_fields:
  assumes "unat (lnread s) \<le> b + pos s"
  shows "counts b (on_header_value_start ch s)" "counts b (on_header_value_discard_ws ch s)" "counts b (on_header_almost_done ch s)"
    "counts b (on_header_value_lws ch s)" "counts b (on_header_value_discard_lws e d ch s)"
    "counts b (on_headers_almost_done e ch s)" "counts b (on_headers_done e ch s)"
proof -
  show v: "counts b (on_header_value_start ch s)"
    using assms by (simp add: on_header_value_start_def Let_def split: header_states.split)
  show "counts b (on_header_value_discard_ws ch s)"
    using assms v by (simp add: on_header_value_discard_ws_def)
  show "counts b (on_headers_done e ch s)"
    by (auto simp: on_headers_done_def Let_def intro!: counts_new_message)
qed (use assms in \<open>auto simp: on_header_almost_done_def on_header_value_lws_def on_header_value_discard_lws_def
      on_headers_almost_done_def callback_defs intro!: counts_callback counts_headers_complete\<close>)

lemma counts_body:
  assumes "unat (lnread s) \<le> b + pos s" "pos s < length d"
  shows "counts b (on_body_identity e d ch s)" "counts b (on_body_identity_eof d s)" "counts b (on_message_done e s)"
    "counts b (on_chunk_size_start ch s)" "counts b (on_chunk_size ch s)" "counts b (on_chunk_parameters ch s)"
    "counts b (on_chunk_size_almost_done e ch s)" "counts b (on_chunk_data d s)" "counts b (on_chunk_data_almost_done e d ch s)"
    "counts b (on_chunk_data_done e ch s)"
proof -
  have t: "unat (lnread s) \<le> b + pos (take_body d s)" if "content_length (parser s) \<noteq> 0"
    using assms take_body_pos(1) [OF assms(2) that] by simp
  show "counts b (on_body_identity e d ch s)" "counts b (on_chunk_data d s)"
    using t by (auto simp: on_body_identity_def on_chunk_data_def Let_def intro!: counts_callback)
qed (use assms in \<open>auto simp: on_body_identity_eof_def on_message_done_def on_chunk_size_start_def on_chunk_size_def
      on_chunk_parameters_def on_chunk_size_almost_done_def on_chunk_data_almost_done_def on_chunk_data_done_def Let_def callback_defs
      intro!: counts_callback counts_new_message\<close>)

lemma counts_field:
  assumes "unat (lnread s) \<le> b + pos s" "pos s < length d"
  shows "counts b (on_header_field e d s)"
proof (cases "hf_scan e (drop (pos s) d) (parser s) 0")
  case (Some r)
  obtain q n where r: "r = (q, n)" by (cases r)
  have le: "unat (lnread s + of_nat m) \<le> b + (pos s + m)" for m
    using unat_add_of_nat [of "lnread s" m] assms by simp
  have lt: "unat (lnread s + of_nat (length d - Suc (pos s))) \<le> b + (length d - Suc 0)"
    using le [of "length d - Suc (pos s)"] assms(2) by simp
  show ?thesis
    using Some r le [of n] lt
    by (auto simp: on_header_field_def Let_def callback_defs intro!: counts_callback)
qed (simp add: on_header_field_def)

lemma counts_value:
  assumes "unat (lnread s) \<le> b + pos s" "good 1 d s" "p_state s = s_header_value"
  shows "counts b (on_header_value e d s)"
proof -
  let ?r = "hv_scan (lenient s) (unat (max_header_size e)) (drop (pos s) d) (header_state (parser s)) (parser s) 0"
  have st: "header_state (parser s) \<notin> {h_connection, h_transfer_encoding}" and p: "pos s < length d"
    using assms by (auto simp: good_def st_ok_def)
  have le: "unat (lnread s + of_nat m) \<le> b + (pos s + m)" for m
    using unat_add_of_nat [of "lnread s" m] assms(1) by simp
  have lt: "unat (lnread s + of_nat (m - Suc 0)) \<le> b + (pos s + m - Suc 0)" if "0 < m" for m
    using le [of "m - Suc 0"] that by simp
  have e: "0 < n" if "?r = HvEnd h q n" for h q n
    using hv_scan_spec [OF st, where l = "lenient s" and mx = "unat (max_header_size e)" and r = "drop (pos s) d" and q = "parser s" and n = 0]
      that p by simp
  show ?thesis
    unfolding on_header_value_def Let_def callback_defs
    using le lt e by (auto split: hv.split intro!: counts_callback)
qed

lemma counts_exec_switch:
  assumes "unat (lnread s) \<le> b + pos s" "good 1 d s"
  shows "counts b (exec_switch e d ch s)"
proof -
  have p: "pos s < length d" using assms(2) by (simp add: good_def)
  show ?thesis
    unfolding exec_switch_def
    by (cases "p_state s")
       (simp_all add: counts_start_line [OF assms(1)] counts_url [OF assms(1)] counts_header_fields [OF assms(1)]
         counts_body [OF assms(1) p] counts_field [OF assms(1) p] counts_value [OF assms])
qed

lemma counts_reexecute:
  assumes "quiet e"
  shows "good 1 d s \<Longrightarrow> unat (lnread s) \<le> b + pos s \<Longrightarrow> counts b (reexecute n e d ch s)"
proof (induction n arbitrary: ch s)
  case (Suc n)
  show ?case
  proof (cases "exec_switch e d ch s")
    case (Reexecute ch' s')
    then show ?thesis
      using Suc counts_exec_switch [OF Suc.prems(2,1), of e ch] exec_switch_ok [OF assms Suc.prems(1), of ch] by simp
  qed (use counts_exec_switch [OF Suc.prems(2,1), of e ch] in \<open>auto simp: counts_def\<close>)
qed (simp add: counts_def)

lemma loop_inv_good:
  assumes "loop_inv d s" "pos s < length d"
  shows "PARSING_HEADER (p_state s) \<Longrightarrow> good 1 d (s\<lparr>lnread := lnread s + 1\<rparr>)"
    "\<not> PARSING_HEADER (p_state s) \<Longrightarrow> good 1 d s"
  using assms by (cases "p_state s"; auto simp: loop_inv_def good_def st_ok_def PARSING_HEADER_def flag_def)+

lemma counts_exec_byte:
  assumes "quiet e" "loop_inv d s" "pos s < length d" "unat (lnread s) \<le> b + pos s"
  shows "counts (b + 1) (exec_byte e d s)"
proof -
  have "unat (lnread s + 1) \<le> b + 1 + pos s"
    using unat_add_of_nat [of "lnread s" 1] assms(4) by simp
  then show ?thesis
    using counts_reexecute [OF assms(1) loop_inv_good(1) [OF assms(2,3)], of "b + 1" 8 "d ! pos s"]
      counts_reexecute [OF assms(1) loop_inv_good(2) [OF assms(2,3)], of "b + 1" 8 "d ! pos s"] assms(4)
    by (auto simp: exec_byte_def Let_def simp del: reexecute.simps intro!: counts_header(1))
qed

end
