(* ===== verification/Spec2Isabelle.thy ===== *)
theory Spec2Isabelle
  imports CaskDeque CaskArray CaskHeap CaskCid CaskSched CaskAtomic CaskMutex CaskChan
    NattanBase64 NattanBlockingQueue NattanBuffer NattanCiphers NattanClientHello CaskHashMap CaskHook NattanHttp
    CaskSem CaskBitMap NattanChan NattanUUID NattanConfig CaskBar NattanThreadPool CaskRunQueue NattanFuture NattanAwait
    NattanTaskThread CaskEventTyped NattanThreadMutex NattanSocket NattanMemory CaskCondTill HttpParserScan
begin

text \<open>
  Verification of nattan, a C++ network library of synchronous-looking calls on coroutines (\<open>nattan/src\<close> with the directories \<open>core\<close>,
  \<open>net\<close>, \<open>proto\<close>, \<open>sync\<close>, \<open>task\<close>, \<open>thread\<close>, \<open>util\<close>), and of libcask, the C coroutine library underneath it
  (\<open>nattan/src/deps/libcask\<close>).

  \<^bold>\<open>The program.\<close> libcask runs many tasks on one thread: a scheduler with a round-robin run queue switches between them, I/O calls are
  replaced by versions that register the descriptor with epoll, put it on a time wheel and suspend the task, and an event loop
  and a timeout task put suspended tasks back on the run queue. On top of it there are mutexes, condition variables, semaphores, barriers and
  channels for tasks. nattan adds byte buffers, files, queues, pools and futures for threads, threads that run tasks, sockets, base64, the
  parsing of TLS ClientHello messages, cipher lists, HTTP messages, configuration files and identifiers.

  \<^bold>\<open>Conventions.\<close> Each theory models one component with the names of the source; \<open>CaskPrelude\<close> holds what they share. A fault of the
  C program (a panic, a null dereference, an access out of bounds or after free) is a value \<open>Inl\<close> of the type \<open>res\<close>; a loop that may
  run forever is a partial function into \<open>option\<close>, where \<open>None\<close> is the run that does not end, and
  what is claimed to return is proved to be \<open>Some\<close>. Unsigned sizes wrap where the code depends on it; machine integers are words. Concurrency is
  a step relation or a run function over the steps between two switches (coroutines) or between two accesses to shared
  state (threads; an access to the run queue is one step in \<open>NattanAwait\<close>, and \<open>CaskRunQueue\<close> takes it apart); \<open>CaskInterleave\<close> has the systems of numbered calls that the newer components share, and the locale \<open>drain\<close>: a system whose steps
  lower a rank and which is never stuck before all calls have ended runs every schedule to its end. It is interpreted on barriers,
  thread pools and both forms of await. The kernel and OpenSSL are parameters with their documented behaviour as hypotheses, which the witnesses
  instantiate by concrete functions. \<open>CaskInt\<close> has the conversions to \<open>int\<close>, \<open>int64_t\<close> and \<open>size_t\<close>, for counters that can overflow. Fuel is used in the
  tunnel of \<open>NattanSocket\<close>, where what is claimed holds for every positive fuel, and in \<open>HttpParser\<close>: the loop over the bytes gets the length of the
  piece and the jumps within one byte get eight, which is proved to be enough.

  \<^bold>\<open>libcask: containers.\<close> \<open>CaskList\<close> (\<open>list.c\<close>: a store of links, rings as lists) supports \<open>CaskDeque\<close> (\<open>deque.c\<close>, \<open>queue.h\<close>, \<open>stack.h\<close>: refinement of
  sequences through the locale of sequences). \<open>CaskArray\<close> (\<open>array.c\<close>: growth, and what insertion in the middle does). \<open>CaskHeap\<close> (\<open>heap.c\<close>: push and pop
  on multisets for any comparison). \<open>CaskHashMap\<close> (\<open>hash_map.c\<close>, \<open>co_specs.c\<close>: refinement of a finite map through the locale \<open>kv_store\<close> for keys
  where no stored name extends another with the same hash, and what happens otherwise). \<open>CaskBitMap\<close> (\<open>bit_map.c\<close>: a set of numbers, in a map that is too small).

  \<^bold>\<open>libcask: tasks.\<close> \<open>CaskCid\<close> (\<open>cid.c\<close>: ids in use are distinct). \<open>CaskSched\<close> (\<open>task.c\<close>, \<open>sched_RR.c\<close>, \<open>task_sched.c\<close>: round-robin order, no
  oversleeping, ids of live tasks). \<open>CaskAtomic\<close> (\<open>atomic.h\<close>, \<open>co_spin_lock.c\<close>: mutual exclusion of the ticket lock). \<open>CaskMutex\<close> (\<open>co_mutex.c\<close>,
  \<open>co_cond.c\<close>: mutual exclusion and no lost wake-up over all interleavings), \<open>CaskCondTill\<close> (its timed wait, on the mutex and the event layer
  together: it reports what ended the wait). \<open>CaskChan\<close> (\<open>chan.c\<close>: order, bound, no lost wake-up, and the
  unbuffered sender that is left waiting). \<open>CaskSem\<close> (\<open>co_sem.c\<close>: never too many tasks pass, and the lone waiter no post wakes).
  \<open>CaskRunQueue\<close> (\<open>sched_RR.c\<close> between threads, down to the single loads and stores: concurrent wake-ups lose no task, a dequeue next to a wake-up
  breaks the queue). \<open>CaskBar\<close> (\<open>co_bar.h\<close>: nobody passes early, everybody passes). \<open>NattanAwait\<close> (\<open>co_await.c\<close>, and \<open>Task::await\<close> of \<open>task/Task.cpp\<close>: the caller
  gets the result, unless no thread takes the work).

  \<^bold>\<open>libcask: input and output.\<close> \<open>CaskTimeWheel\<close> (\<open>time_wheel.c\<close>: when an element fires). \<open>CaskEvent\<close> (\<open>inner_fd.c\<close>, \<open>event.c\<close>, \<open>timer.c\<close>: descriptor records in a heap,
  the epoll set, waiting split at the suspension; a wait on a silent descriptor ends with a timeout), \<open>CaskEventTyped\<close> (every operation of it keeps
  the state well-formed and uses no freed record, except after a close during a wait). \<open>CaskHook\<close> (\<open>sys_hook.c\<close>,
  \<open>sys_helper.c\<close>: the replaced system calls for an arbitrary kernel; a hooked write delivers the whole buffer or fails, a
  hooked sendmsg repeats itself; counters are kept at the width of \<open>int\<close>).

  \<^bold>\<open>nattan.\<close> \<open>NattanRing\<close> and \<open>NattanBlockingQueue\<close> (\<open>thread/ArrayBlockingQueue.h\<close>: order, no lost wake-up, the lock that is never released), and \<open>NattanChan\<close> (\<open>sync/Chan.h\<close>: the same ring on coroutine conditions with time limits).
  \<open>NattanBase64\<close> (\<open>util/base64\<close>, \<open>util/Base64.h\<close>: round trip and bounds). \<open>NattanBuffer\<close> and \<open>NattanTyped\<close> (\<open>core/Buffer.h\<close>: reads, writes, growth,
  typed access, and the locale \<open>data_stream\<close> for the contract of \<open>core/Data.h\<close>). \<open>NattanFile\<close> (\<open>core/File.h\<close>, \<open>core/TempFile.h\<close> over any kernel that keeps the contract of the file calls: temporary
  data is a byte stream until it is cleared). \<open>NattanHttp\<close> (\<open>proto/http\<close>: header, body, callbacks, connection; a parsed
  request is written with its first line, its fields sorted by name with the last value of each, and its body; the calls of \<open>http_parser_execute\<close> are a parameter there). \<open>HttpParser\<close> (\<open>deps/http-parser/http_parser.c\<close>: one definition for each label of
  the switch of \<open>http_parser_execute\<close>), \<open>HttpParserSafe\<close> (no failed assertion, no access out of range and no endless loop on any bytes) and \<open>HttpParserScan\<close>
  (its fast loops equal loops over single characters). \<open>NattanCiphers\<close> (\<open>net/ssl/Ciphers.h\<close> and the cipher lists of \<open>SSLHandler.h\<close>). \<open>NattanClientHello\<close>
  (\<open>net/ssl/ClientHelloParser.h\<close> on bytes: it finds the ciphers and the server name of a well-formed message with extensions, reads past one
  without them, and the messages on which it does not end or, parsed again, goes wrong).

  \<^bold>\<open>nattan: threads and tasks.\<close> \<open>NattanThreadMutex\<close> (\<open>thread/ThreadMutex.h\<close>, \<open>thread/Condition.h\<close>: the recorded holder is right or missing; how late a
  timed wait is). \<open>NattanThreadPool\<close> (\<open>thread/ThreadPool.h\<close>: calls of start and stop one at a time, every accepted item is run once, stopping ends when all wake-ups are queued, and hangs otherwise).
  \<open>NattanFuture\<close> (\<open>thread/Future.h\<close>: a single waiter gets the result also across spurious wake-ups, further ones hang). \<open>NattanTaskThread\<close> (\<open>thread/Thread.h\<close>, \<open>task/TaskThread.h\<close>: the boss and the workers run what
  they find, and do not notice what a plain thread submits).

  \<^bold>\<open>nattan: the rest.\<close> \<open>NattanSocket\<close> (\<open>net/Address.h\<close>, \<open>net/Socket.h\<close>, \<open>net/SocketHelper.h\<close>: every exit of connecting, with what it leaves open, a failed listener is returned closed, a tunnel
  forwards nothing). \<open>NattanMemory\<close> (\<open>core/MemoryData.h\<close>, \<open>core/SharedMemoryData.h\<close>: peeks in the locale \<open>data_stream\<close> rotate the data; page rounding).
  \<open>NattanConfig\<close> (\<open>core/ConfigParser.cpp\<close>: loading any text against a reference on its lines, and looking up). \<open>NattanUUID\<close> (\<open>util/UUID.h\<close>: identifiers from calls that do not overlap are distinct for small even thread ids; those of an odd one, or of
  overlapping calls, can repeat).

  \<^bold>\<open>Bounds.\<close> Buffer sizes are below \<open>2^60\<close> and the data below a quarter of that, so that doubling does not wrap; a C \<open>int\<close> that counts bytes is
  kept at 32 bits in base64, files and the hooked calls, with the range a property needs in its hypotheses; elsewhere (heap, deque) an \<open>int\<close> index or size is a natural number, which is exact below \<open>2^31\<close> elements. The hash table is bounded by its 32-bit hash. Allocation of memory does not fail.

  \<^bold>\<open>Not modelled.\<close> The switch of machine contexts and the stacks; logging; classes that only forward to a modelled function (\<open>task/Task.h\<close>, \<open>sync/TaskMutex.h\<close>,
  \<open>sync/SpinLock.h\<close>, \<open>sync/Timer.h\<close>); the tunnel between TLS sockets, whose loop compares a function with zero; the OpenSSL calls; the DNS client, which only
  drives c-ares; the third-party libraries c-ares, hiredis and jsoncpp; the URL splitter of http-parser; the singleton of
  \<open>base/Singleton.h\<close>. The read-write lock of \<open>co_rwlock.h\<close> is unfinished in the source.
\<close>

end
